(* ===== verification/Holt_Prelude.thy ===== *)
theory Holt_Prelude
  imports Main "HOL-Library.Word" "HOL-Library.Sublist"
begin

text \<open>
  Shared material of the development: machine integer types, the little-endian byte codec
  that the on-disk structs and the write-ahead log use, byte slices of a memory function, and
  the generic list lemmas the components need.
\<close>

named_theorems byte_simps \<open>little-endian codecs and byte slices\<close>
named_theorems frame_simps \<open>how frame operations act on header, slots and data\<close>

type_synonym u8 = "8 word"
type_synonym u16 = "16 word"
type_synonym u32 = "32 word"
type_synonym u64 = "64 word"
type_synonym bytes = "u8 list"

section \<open>Little-endian integers\<close>

text \<open>\<open>le_bytes n v\<close> is \<^verbatim>\<open>v.to_le_bytes()\<close> of an \<open>8*n\<close>-bit value, \<open>le_nat\<close> its inverse
  \<^verbatim>\<open>from_le_bytes\<close>.\<close>

fun le_bytes :: "nat \<Rightarrow> nat \<Rightarrow> bytes" where
  "le_bytes 0 v = []"
| "le_bytes (Suc n) v = word_of_nat v # le_bytes n (v div 256)"

fun le_nat :: "bytes \<Rightarrow> nat" where
  "le_nat [] = 0"
| "le_nat (b # bs) = unat b + 256 * le_nat bs"

lemma length_le_bytes [simp]: "length (le_bytes n v) = n"
  by (induction n arbitrary: v) auto

lemma le_nat_bound: "le_nat bs < 256 ^ length bs"
proof (induction bs)
  case (Cons b bs)
  have "unat b < 256" using unsigned_less [of b] by simp
  then have "unat b + 256 * le_nat bs < 256 * Suc (le_nat bs)" by simp
  also have "\<dots> \<le> 256 * 256 ^ length bs" using Cons by simp
  finally show ?case by simp
qed simp

lemma le_nat_le_bytes [simp]: "le_nat (le_bytes n v) = v mod 256 ^ n"
proof (induction n arbitrary: v)
  case (Suc n)
  have "unat (word_of_nat v :: u8) = v mod 256"
    by (simp add: unat_of_nat)
  then show ?case
    using Suc [of "v div 256"] mod_mult2_eq [of v 256 "256 ^ n"] by simp
qed simp

lemma le_bytes_le_nat [simp]: "le_bytes (length bs) (le_nat bs) = bs"
proof (induction bs)
  case (Cons b bs)
  have b: "unat b < 256" using unsigned_less [of b] by simp
  have "(word_of_nat (256 * le_nat bs) :: u8) = 0"
    by (simp only: word_of_nat_eq_0_iff) simp
  then have "(word_of_nat (unat b + 256 * le_nat bs) :: u8) = b"
    by simp
  then show ?case using Cons b by simp
qed simp

lemma le_nat_Cons_or: "le_nat (b # bs) = Bit_Operations.or (unat b) (push_bit 8 (le_nat bs))"
proof -
  have "\<not> bit (unat b) n \<or> \<not> bit (push_bit 8 (le_nat bs)) n" for n
    using bit_imp_le_length [of b n] by (auto simp: bit_push_bit_iff bit_unsigned_iff)
  then have "unat b + push_bit 8 (le_nat bs) = Bit_Operations.or (unat b) (push_bit 8 (le_nat bs))"
    by (intro disjunctive_add_eq_or bit_eqI) (auto simp: bit_and_iff)
  then show ?thesis by (simp add: push_bit_eq_mult mult.commute)
qed
lemma bit_le_nat: "bit (le_nat bs) n \<longleftrightarrow> n div 8 < length bs \<and> bit (bs ! (n div 8)) (n mod 8)"
proof (induction bs arbitrary: n)
  case (Cons b bs)
  show ?case
  proof (cases "n < 8")
    case True
    then show ?thesis unfolding le_nat_Cons_or by (simp add: bit_or_iff bit_push_bit_iff bit_unsigned_iff)
  next
    case False
    then have "\<not> bit b n" by (auto dest: bit_imp_le_length)
    moreover have "n div 8 = Suc ((n - 8) div 8)" "n mod 8 = (n - 8) mod 8" using False by (simp_all add: le_div_geq le_mod_geq)
    ultimately show ?thesis using False unfolding le_nat_Cons_or
      by (simp add: bit_or_iff bit_push_bit_iff bit_unsigned_iff Cons)
  qed
qed simp

text \<open>Field codecs at the widths the structs use.\<close>

definition u16_bytes :: "u16 \<Rightarrow> bytes" where
  "u16_bytes w = le_bytes 2 (unat w)"

definition u32_bytes :: "u32 \<Rightarrow> bytes" where
  "u32_bytes w = le_bytes 4 (unat w)"

definition u64_bytes :: "u64 \<Rightarrow> bytes" where
  "u64_bytes w = le_bytes 8 (unat w)"

definition u16_of_bytes :: "bytes \<Rightarrow> u16" where
  "u16_of_bytes bs = word_of_nat (le_nat bs)"

definition u32_of_bytes :: "bytes \<Rightarrow> u32" where
  "u32_of_bytes bs = word_of_nat (le_nat bs)"

definition u64_of_bytes :: "bytes \<Rightarrow> u64" where
  "u64_of_bytes bs = word_of_nat (le_nat bs)"

lemma length_uN_bytes [simp]:
  "length (u16_bytes a) = 2" "length (u32_bytes b) = 4" "length (u64_bytes c) = 8"
  by (simp_all add: u16_bytes_def u32_bytes_def u64_bytes_def)

lemma uN_of_bytes_bytes [simp]:
  "u16_of_bytes (u16_bytes a) = a" "u32_of_bytes (u32_bytes b) = b"
  "u64_of_bytes (u64_bytes c) = c"
  using unsigned_less [of a, where ?'a = nat] unsigned_less [of b, where ?'a = nat] unsigned_less [of c, where ?'a = nat]
  by (simp_all add: u16_bytes_def u32_bytes_def u64_bytes_def u16_of_bytes_def u32_of_bytes_def
      u64_of_bytes_def)

lemma uN_bytes_of_bytes:
  "length bs = 2 \<Longrightarrow> u16_bytes (u16_of_bytes bs) = bs"
  "length bs = 4 \<Longrightarrow> u32_bytes (u32_of_bytes bs) = bs"
  "length bs = 8 \<Longrightarrow> u64_bytes (u64_of_bytes bs) = bs"
  using le_nat_bound [of bs] le_bytes_le_nat [of bs]
  by (simp_all add: u16_bytes_def u32_bytes_def u64_bytes_def u16_of_bytes_def u32_of_bytes_def
      u64_of_bytes_def unat_of_nat)

text \<open>Arrays of \<open>u16\<close>, the child arrays of the inner nodes.\<close>

fun u16s_bytes :: "u16 list \<Rightarrow> bytes" where
  "u16s_bytes [] = []"
| "u16s_bytes (w # ws) = u16_bytes w @ u16s_bytes ws"

fun u16s_of_bytes :: "bytes \<Rightarrow> u16 list" where
  "u16s_of_bytes (a # b # bs) = u16_of_bytes [a, b] # u16s_of_bytes bs"
| "u16s_of_bytes _ = []"

lemma length_u16s_bytes [simp]: "length (u16s_bytes ws) = 2 * length ws"
  by (induction ws) auto

lemma u16s_of_bytes_bytes [simp]: "u16s_of_bytes (u16s_bytes ws) = ws"
proof (induction ws)
  case (Cons w ws)
  obtain a b where ab: "u16_bytes w = [a, b]"
    using length_uN_bytes(1) [of w] by (auto simp: numeral_2_eq_2 length_Suc_conv simp del: length_uN_bytes)
  then have "u16_of_bytes [a, b] = w" by (metis uN_of_bytes_bytes(1))
  with ab Cons show ?case by simp
qed simp

lemma length_u16s_of_bytes [simp]: "length (u16s_of_bytes bs) = length bs div 2"
  by (induction bs rule: u16s_of_bytes.induct) auto

section \<open>Byte memories\<close>

text \<open>The data area of a frame is a function from byte offsets to bytes; \<open>slice\<close> reads a run of
  bytes (\<^verbatim>\<open>&buf[off..off+n]\<close>), \<open>poke\<close> overwrites one (\<^verbatim>\<open>copy_from_slice\<close>).\<close>

type_synonym memory = "nat \<Rightarrow> u8"

definition slice :: "memory \<Rightarrow> nat \<Rightarrow> nat \<Rightarrow> bytes" where
  "slice m off n = map m [off ..< off + n]"

definition poke :: "memory \<Rightarrow> nat \<Rightarrow> bytes \<Rightarrow> memory" where
  "poke m off bs = (\<lambda>i. if off \<le> i \<and> i < off + length bs then bs ! (i - off) else m i)"

lemma length_slice [simp]: "length (slice m off n) = n"
  by (simp add: slice_def)

lemma nth_slice [simp]: "i < n \<Longrightarrow> slice m off n ! i = m (off + i)"
  by (simp add: slice_def)

lemma slice_eqI: "(\<And>i. i < n \<Longrightarrow> m (off + i) = m' (off + i)) \<Longrightarrow> slice m off n = slice m' off n"
  by (rule nth_equalityI) auto

lemma slice_append: "slice m off (a + b) = slice m off a @ slice m (off + a) b"
  by (rule nth_equalityI) (auto simp: nth_append)

lemma take_slice [simp]: "take k (slice m off n) = slice m off (min k n)"
  by (rule nth_equalityI) auto

lemma drop_slice [simp]: "drop k (slice m off n) = slice m (off + k) (n - k)"
  by (rule nth_equalityI) (auto simp: add.assoc)

lemma slice_poke_same [simp]: "length bs = n \<Longrightarrow> slice (poke m off bs) off n = bs"
  by (rule nth_equalityI) (auto simp: poke_def)

lemma slice_poke_other:
  "off' + n \<le> off \<or> off + length bs \<le> off' \<Longrightarrow> slice (poke m off bs) off' n = slice m off' n"
  by (rule slice_eqI) (auto simp: poke_def)

lemma slice_poke_sub:
  "off \<le> off' \<Longrightarrow> off' + n \<le> off + length bs \<Longrightarrow>
   slice (poke m off bs) off' n = take n (drop (off' - off) bs)"
  by (rule nth_equalityI) (auto simp: poke_def)

lemma poke_outside [simp]: "i < off \<or> off + length bs \<le> i \<Longrightarrow> poke m off bs i = m i"
  by (auto simp: poke_def)

lemma poke_inside: "off \<le> i \<Longrightarrow> i < off + length bs \<Longrightarrow> poke m off bs i = bs ! (i - off)"
  by (simp add: poke_def)

end
