(* ===== verification/Holt_Errors.thy ===== *)
theory Holt_Errors
  imports Holt_Prelude
begin

text \<open>The error values of the crate (\<^verbatim>\<open>src/src/api/errors.rs\<close>, and the allocator errors of
  \<^verbatim>\<open>src/src/store/blob_frame.rs\<close>) and the two result disciplines of the model.  A Rust panic
  (an out-of-range index, a failed \<^verbatim>\<open>assert!\<close>, an \<^verbatim>\<open>expect\<close>) is a value too, so every branch of the
  source is a branch of the model.\<close>

type_synonym BlobGuid = bytes

datatype AllocError =
  OutOfSlots
| OutOfSpace nat nat
| InvalidRequest

datatype FreeError =
  InvalidSlot u16
| TypeMismatch u16 u16

datatype AtomicErrorKind = DefinitelyNotApplied | OutcomeUnknown

datatype io_error_kind = IoNotFound | IoOther string

datatype error =
  BlobStoreIo io_error_kind
| Alloc AllocError
| Free FreeError
| KeyTooLong nat
| ValueTooLong nat
| NotYetImplemented string
| Internal string
| Atomic AtomicErrorKind error
| NodeCorrupt string "BlobGuid option" "u16 option"
| ReplaySanityFailed string nat
| JournalStreamUnavailable string
| JournalPositionExpired nat nat
| JournalAnchorMismatch nat nat
| WalRecordTooLarge nat nat
| InvalidJournalScanLimit string
| NotFound
| DstExists
| TreeNotFound string
| TreeExists string
| InvalidTreeName string
| TreeDropped
| ReadOnly
| OutsideViewScope nat nat
| GcRequiresStandaloneTree
| SnapshotEpochExhausted
| FailedClosed

definition is_blob_store_not_found :: "error \<Rightarrow> bool" where
  "is_blob_store_not_found e = (e = BlobStoreIo IoNotFound)"

definition node_corrupt :: "string \<Rightarrow> error" where
  "node_corrupt context = NodeCorrupt context None None"

fun with_blob_guid :: "error \<Rightarrow> BlobGuid \<Rightarrow> error" where
  "with_blob_guid (NodeCorrupt c None s) guid = NodeCorrupt c (Some guid) s"
| "with_blob_guid e guid = e"

fun with_slot :: "error \<Rightarrow> u16 \<Rightarrow> error" where
  "with_slot (NodeCorrupt c g None) slot_index = NodeCorrupt c g (Some slot_index)"
| "with_slot e slot_index = e"

text \<open>A computation either fails with an error value or panics.\<close>

datatype fault = Fail error | Panic string

type_synonym 'a result = "fault + 'a"

definition ok_or :: "'a option \<Rightarrow> error \<Rightarrow> 'a result" where
  "ok_or x e = (case x of None \<Rightarrow> Inl (Fail e) | Some a \<Rightarrow> Inr a)"

fun rbind :: "'a result \<Rightarrow> ('a \<Rightarrow> 'b result) \<Rightarrow> 'b result" where
  "rbind (Inl e) f = Inl e"
| "rbind (Inr a) f = f a"

lemma rbind_assoc [simp]: "rbind (rbind x f) g = rbind x (\<lambda>a. rbind (f a) g)"
  by (cases x) auto

lemma rbind_Inr [simp]: "rbind x Inr = x"
  by (cases x) auto

lemma rbind_eq_Inr: "rbind x f = Inr b \<longleftrightarrow> (\<exists>a. x = Inr a \<and> f a = Inr b)"
  by (cases x) auto

lemma ok_or_simps [simp]: "ok_or (Some a) e = Inr a" "ok_or None e = Inl (Fail e)"
  by (simp_all add: ok_or_def)

text \<open>Enriching an error never overwrites what a deeper layer recorded, and the two enrichments
  commute.\<close>

lemma with_blob_guid_idem [simp]: "with_blob_guid (with_blob_guid e g) g' = with_blob_guid e g"
  by (cases "(e, g)" rule: with_blob_guid.cases) auto

lemma with_slot_idem [simp]: "with_slot (with_slot e s) s' = with_slot e s"
  by (cases "(e, s)" rule: with_slot.cases) auto

lemma with_slot_with_blob_guid:
  "with_slot (with_blob_guid e g) s = with_blob_guid (with_slot e s) g"
proof (cases e)
  case (NodeCorrupt c og os)
  then show ?thesis by (cases og; cases os) auto
qed auto

end
