(* ===== verification/Layout.thy ===== *)
theory Layout
  imports Holt_Errors
begin

text \<open>The on-disk structures of a blob frame (\<^verbatim>\<open>src/src/layout/\<close>): node types and their sizes, the
  packed slot entries, the \<^verbatim>\<open>repr(C)\<close> node bodies with their byte encodings, and the 4096-byte
  frame header.  Every struct is a record; \<open>X_enc\<close> and \<open>X_dec\<close> are the little-endian
  \<^verbatim>\<open>repr(C)\<close> image the source obtains by pointer casts, at the field offsets pinned by its
  compile-time assertions.  Padding bytes are written as zero, as every constructor of the source
  does, and never read.\<close>

section \<open>Frame geometry\<close>

definition PAGE_SIZE :: nat where "PAGE_SIZE = 0x80000"
definition HEADER_SIZE :: nat where "HEADER_SIZE = 0x1000"
definition MAX_SLOTS :: nat where "MAX_SLOTS = 0x2800"
definition SLOT_TABLE_SIZE :: nat where "SLOT_TABLE_SIZE = MAX_SLOTS * 4"
definition DATA_AREA_START :: nat where "DATA_AREA_START = HEADER_SIZE + SLOT_TABLE_SIZE"
definition ROOT_BLOB_GUID :: BlobGuid where "ROOT_BLOB_GUID = replicate 16 0"

lemmas geometry = PAGE_SIZE_def HEADER_SIZE_def MAX_SLOTS_def SLOT_TABLE_SIZE_def DATA_AREA_START_def

lemma data_area_start_pinned: "DATA_AREA_START = 0xB000"
  by (simp add: geometry)

section \<open>Node types\<close>

datatype NodeType =
  Invalid | Leaf | Prefix | Blob | Node4 | Node16 | Node48 | Node256 | EmptyRoot

fun as_u8 :: "NodeType \<Rightarrow> u8" where
  "as_u8 Invalid = 0"
| "as_u8 Leaf = 1"
| "as_u8 Prefix = 2"
| "as_u8 Blob = 3"
| "as_u8 Node4 = 4"
| "as_u8 Node16 = 5"
| "as_u8 Node48 = 6"
| "as_u8 Node256 = 7"
| "as_u8 EmptyRoot = 8"

definition from_raw :: "u8 \<Rightarrow> NodeType option" where
  "from_raw v =
    (if v = 0 then Some Invalid
     else if v = 1 then Some Leaf
     else if v = 2 then Some Prefix
     else if v = 3 then Some Blob
     else if v = 4 then Some Node4
     else if v = 5 then Some Node16
     else if v = 6 then Some Node48
     else if v = 7 then Some Node256
     else if v = 8 then Some EmptyRoot
     else None)"

definition SIZE_BY_TYPE :: "nat list" where
  "SIZE_BY_TYPE = [16, 128, 128, 16, 56, 360, 520, 8]"

text \<open>\<open>size_of_node\<close> panics on \<open>Invalid\<close>; every caller of the source rejects it first.\<close>

definition size_of_node_checked :: "NodeType \<Rightarrow> nat result" where
  "size_of_node_checked ntype =
    (if ntype = Invalid then Inl (Panic ''size_of_node(Invalid)'')
     else Inr (SIZE_BY_TYPE ! (unat (as_u8 ntype) - 1)))"

definition size_of_node :: "NodeType \<Rightarrow> nat" where
  "size_of_node ntype = SIZE_BY_TYPE ! (unat (as_u8 ntype) - 1)"

lemma from_raw_as_u8 [simp]: "from_raw (as_u8 t) = Some t"
  by (cases t) (simp_all add: from_raw_def)

lemma from_raw_simps [simp]:
  "from_raw 0 = Some Invalid" "from_raw 1 = Some Leaf" "from_raw 2 = Some Prefix"
  "from_raw 3 = Some Blob" "from_raw 4 = Some Node4" "from_raw 5 = Some Node16"
  "from_raw 6 = Some Node48" "from_raw 7 = Some Node256" "from_raw 8 = Some EmptyRoot"
  by (simp_all add: from_raw_def)

lemma from_raw_eq_Some: "from_raw v = Some t \<longleftrightarrow> v = as_u8 t"
  by (cases t) (auto simp: from_raw_def)

lemma size_of_node_simps [simp]:
  "size_of_node Leaf = 16" "size_of_node Prefix = 128" "size_of_node Blob = 128"
  "size_of_node Node4 = 16" "size_of_node Node16 = 56" "size_of_node Node48 = 360"
  "size_of_node Node256 = 520" "size_of_node EmptyRoot = 8"
  by (simp_all add: size_of_node_def SIZE_BY_TYPE_def)

lemma size_of_node_bounds:
  "t \<noteq> Invalid \<Longrightarrow> 8 \<le> size_of_node t \<and> size_of_node t \<le> 520 \<and> 8 dvd size_of_node t"
  by (cases t) auto

section \<open>Slot entries\<close>

definition OFFSET_DIV8_MASK :: u32 where "OFFSET_DIV8_MASK = push_bit 17 1 - 1"
definition TAG_SHIFT :: nat where "TAG_SHIFT = 17"

record SlotEntry =
  offset_div8 :: u32
  ntype_or_next_free :: u16

definition slot_live :: "NodeType \<Rightarrow> nat \<Rightarrow> SlotEntry" where
  "slot_live ntype byte_off =
    \<lparr> offset_div8 = word_of_nat (byte_off div 8), ntype_or_next_free = ucast (as_u8 ntype) \<rparr>"

definition slot_freed :: "u16 \<Rightarrow> nat \<Rightarrow> SlotEntry" where
  "slot_freed next_free_slot byte_off =
    \<lparr> offset_div8 = word_of_nat (byte_off div 8), ntype_or_next_free = next_free_slot \<rparr>"

definition byte_offset :: "SlotEntry \<Rightarrow> nat" where
  "byte_offset e = unat (offset_div8 e * 8)"

definition slot_node_type :: "SlotEntry \<Rightarrow> NodeType option" where
  "slot_node_type e = from_raw (ucast (ntype_or_next_free e))"

definition next_free :: "SlotEntry \<Rightarrow> u16" where
  "next_free e = ntype_or_next_free e"

definition slot_raw :: "SlotEntry \<Rightarrow> u32" where
  "slot_raw e = Bit_Operations.or (push_bit TAG_SHIFT (ucast (ntype_or_next_free e))) (offset_div8 e)"

definition slot_decode :: "u32 \<Rightarrow> SlotEntry" where
  "slot_decode raw =
    \<lparr> offset_div8 = Bit_Operations.and raw OFFSET_DIV8_MASK,
      ntype_or_next_free = ucast (drop_bit TAG_SHIFT raw) \<rparr>"

lemma slot_decode_raw:
  assumes "unat (offset_div8 e) < 2 ^ 17" "unat (ntype_or_next_free e) < 2 ^ 15"
  shows "slot_decode (slot_raw e) = e"
proof -
  have o: "take_bit 17 (offset_div8 e) = offset_div8 e"
    using assms(1) by (simp add: take_bit_nat_eq_self_iff unsigned_take_bit_eq word_unat_eq_iff)
  have t: "take_bit 15 (ntype_or_next_free e) = ntype_or_next_free e"
    using assms(2) by (simp add: take_bit_nat_eq_self_iff unsigned_take_bit_eq word_unat_eq_iff)
  have mask17: "OFFSET_DIV8_MASK = mask 17"
    by (simp add: OFFSET_DIV8_MASK_def mask_eq_exp_minus_1)
  have bo: "\<not> bit (offset_div8 e) i" if "17 \<le> i" for i
    using that by (subst o [symmetric]) (simp add: bit_take_bit_iff)
  have bt: "\<not> bit (ntype_or_next_free e) i" if "15 \<le> i" for i
    using that by (subst t [symmetric]) (simp add: bit_take_bit_iff)
  have "Bit_Operations.and (slot_raw e) OFFSET_DIV8_MASK = offset_div8 e"
    by (rule bit_word_eqI)
      (auto simp: slot_raw_def mask17 TAG_SHIFT_def bit_simps, meson bo not_le)
  moreover have "ucast (drop_bit TAG_SHIFT (slot_raw e)) = ntype_or_next_free e"
    by (rule bit_word_eqI) (auto simp: slot_raw_def TAG_SHIFT_def bit_simps bo, meson bt not_le)
  ultimately show ?thesis by (simp add: slot_decode_def)
qed

lemma byte_offset_live:
  assumes "8 dvd off" "off < PAGE_SIZE"
  shows "byte_offset (slot_live t off) = off"
  using assms by (auto simp: byte_offset_def slot_live_def geometry unat_word_ariths unat_of_nat)

lemma slot_node_type_live [simp]: "slot_node_type (slot_live t off) = Some t"
  by (cases t) (simp_all add: slot_node_type_def slot_live_def from_raw_def)

lemma slot_live_round_trip:
  assumes "off < PAGE_SIZE"
  shows "slot_decode (slot_raw (slot_live t off)) = slot_live t off"
  using assms
  by (intro slot_decode_raw) (cases t; simp add: slot_live_def geometry unat_of_nat)+

lemma slot_freed_round_trip:
  assumes "off < PAGE_SIZE" "unat nxt < 2 ^ 15"
  shows "slot_decode (slot_raw (slot_freed nxt off)) = slot_freed nxt off"
  using assms
  by (intro slot_decode_raw) (simp_all add: slot_freed_def geometry unat_of_nat)

lemma byte_offset_freed:
  assumes "8 dvd off" "off < PAGE_SIZE"
  shows "byte_offset (slot_freed nxt off) = off"
  using assms by (auto simp: byte_offset_def slot_freed_def geometry unat_word_ariths unat_of_nat)

section \<open>Struct images\<close>

text \<open>What a client of a byte-encoded struct relies on: the image has a fixed length and decodes to
  the value it was made from.  \<open>node_codec\<close> adds that the image is self-describing: the byte at
  \<open>+1\<close> is the node type tag.\<close>

locale struct_codec =
  fixes enc :: "'a \<Rightarrow> bytes" and dec :: "bytes \<Rightarrow> 'a" and sz :: nat and wf :: "'a \<Rightarrow> bool"
  assumes length_enc: "wf x \<Longrightarrow> length (enc x) = sz"
    and dec_enc: "wf x \<Longrightarrow> dec (enc x) = x"
begin

lemma read_back: "wf x \<Longrightarrow> dec (slice (poke m off (enc x)) off sz) = x"
  by (simp add: length_enc dec_enc)

lemma read_other:
  "off' + sz \<le> off \<or> off + length bs \<le> off' \<Longrightarrow>
   dec (slice (poke m off bs) off' sz) = dec (slice m off' sz)"
  by (simp add: slice_poke_other)

lemma enc_inject: "wf x \<Longrightarrow> wf y \<Longrightarrow> enc x = enc y \<Longrightarrow> x = y"
  using dec_enc by metis

end

locale node_codec = struct_codec +
  fixes tag :: "'a \<Rightarrow> u8"
  assumes enc_tag: "wf x \<Longrightarrow> enc x ! Suc 0 = tag x"
    and two_le_sz: "2 \<le> sz"
begin

lemma tag_read_back: "wf x \<Longrightarrow> poke m off (enc x) (Suc off) = tag x"
  using two_le_sz by (simp add: poke_def length_enc enc_tag)

end

subsection \<open>Leaf\<close>

record Leaf =
  key_fp :: u8
  leaf_node_type :: u8
  value_len :: u16
  key_len :: u16
  tombstone :: u8
  seq :: u64

definition leaf_live :: "u16 \<Rightarrow> u16 \<Rightarrow> u64 \<Rightarrow> u8 \<Rightarrow> Leaf" where
  "leaf_live klen vlen sq fp =
    \<lparr> key_fp = fp, leaf_node_type = as_u8 Leaf, value_len = vlen, key_len = klen, tombstone = 0,
      seq = sq \<rparr>"

definition leaf_enc :: "Leaf \<Rightarrow> bytes" where
  "leaf_enc l = [key_fp l, leaf_node_type l] @ u16_bytes (value_len l) @ u16_bytes (key_len l)
     @ [tombstone l, 0] @ u64_bytes (seq l)"

definition leaf_dec :: "bytes \<Rightarrow> Leaf" where
  "leaf_dec bs =
    \<lparr> key_fp = bs ! 0, leaf_node_type = bs ! 1, value_len = u16_of_bytes (take 2 (drop 2 bs)),
      key_len = u16_of_bytes (take 2 (drop 4 bs)), tombstone = bs ! 6,
      seq = u64_of_bytes (take 8 (drop 8 bs)) \<rparr>"

text \<open>\<open>(raw + 7) & !7\<close> on \<open>u32\<close>: the sum wraps, the mask clears the three low bits.\<close>

definition leaf_body_size :: "nat \<Rightarrow> nat \<Rightarrow> nat" where
  "leaf_body_size klen vlen = (let raw = 16 + klen + vlen in ((raw + 7) mod 2 ^ 32) div 8 * 8)"

subsection \<open>Prefix and BlobNode\<close>

definition PREFIX_MAX_INLINE :: nat where "PREFIX_MAX_INLINE = 112"
definition BLOB_MAX_INLINE :: nat where "BLOB_MAX_INLINE = 104"

record Prefix =
  prefix_count :: u8
  prefix_node_type :: u8
  prefix_len :: u16
  prefix_child :: u32
  prefix_bytes :: bytes

definition prefix_new :: "bytes \<Rightarrow> u32 \<Rightarrow> Prefix result" where
  "prefix_new bs child_slot =
    (if length bs \<le> PREFIX_MAX_INLINE then
       Inr \<lparr> prefix_count = 1, prefix_node_type = as_u8 Prefix, prefix_len = word_of_nat (length bs),
             prefix_child = child_slot, prefix_bytes = bs @ replicate (PREFIX_MAX_INLINE - length bs) 0 \<rparr>
     else Inl (Panic ''Prefix::new''))"

definition prefix_enc :: "Prefix \<Rightarrow> bytes" where
  "prefix_enc p = [prefix_count p, prefix_node_type p, 0, 0] @ u16_bytes (prefix_len p) @ [0, 0]
     @ u32_bytes (prefix_child p) @ [0, 0, 0, 0] @ prefix_bytes p"

definition prefix_dec :: "bytes \<Rightarrow> Prefix" where
  "prefix_dec bs =
    \<lparr> prefix_count = bs ! 0, prefix_node_type = bs ! 1, prefix_len = u16_of_bytes (take 2 (drop 4 bs)),
      prefix_child = u32_of_bytes (take 4 (drop 8 bs)),
      prefix_bytes = take PREFIX_MAX_INLINE (drop 16 bs) \<rparr>"

definition prefix_wf :: "Prefix \<Rightarrow> bool" where
  "prefix_wf p = (length (prefix_bytes p) = PREFIX_MAX_INLINE)"

record BlobNode =
  blob_count :: u8
  blob_node_type :: u8
  blob_prefix_len :: u16
  child_blob_guid :: BlobGuid
  blob_bytes :: bytes

definition blob_node_new :: "bytes \<Rightarrow> BlobGuid \<Rightarrow> BlobNode result" where
  "blob_node_new bs child_guid =
    (if length bs \<le> BLOB_MAX_INLINE then
       Inr \<lparr> blob_count = 1, blob_node_type = as_u8 Blob, blob_prefix_len = word_of_nat (length bs),
             child_blob_guid = child_guid, blob_bytes = bs @ replicate (BLOB_MAX_INLINE - length bs) 0 \<rparr>
     else Inl (Panic ''BlobNode::new''))"

definition blob_node_enc :: "BlobNode \<Rightarrow> bytes" where
  "blob_node_enc b = [blob_count b, blob_node_type b, 0, 0] @ u16_bytes (blob_prefix_len b) @ [0, 0]
     @ child_blob_guid b @ blob_bytes b"

definition blob_node_dec :: "bytes \<Rightarrow> BlobNode" where
  "blob_node_dec bs =
    \<lparr> blob_count = bs ! 0, blob_node_type = bs ! 1, blob_prefix_len = u16_of_bytes (take 2 (drop 4 bs)),
      child_blob_guid = take 16 (drop 8 bs), blob_bytes = take BLOB_MAX_INLINE (drop 24 bs) \<rparr>"

definition blob_node_wf :: "BlobNode \<Rightarrow> bool" where
  "blob_node_wf b = (length (child_blob_guid b) = 16 \<and> length (blob_bytes b) = BLOB_MAX_INLINE)"

subsection \<open>Inner nodes\<close>

record Node4 =
  n4_count :: u8
  n4_node_type :: u8
  n4_keys :: bytes
  n4_children :: "u16 list"

definition node4_empty :: Node4 where
  "node4_empty = \<lparr> n4_count = 0, n4_node_type = as_u8 Node4, n4_keys = replicate 4 0,
     n4_children = replicate 4 0 \<rparr>"

definition node4_enc :: "Node4 \<Rightarrow> bytes" where
  "node4_enc n = [n4_count n, n4_node_type n, 0, 0] @ n4_keys n @ u16s_bytes (n4_children n)"

definition node4_dec :: "bytes \<Rightarrow> Node4" where
  "node4_dec bs = \<lparr> n4_count = bs ! 0, n4_node_type = bs ! 1, n4_keys = take 4 (drop 4 bs),
     n4_children = u16s_of_bytes (take 8 (drop 8 bs)) \<rparr>"

definition node4_wf :: "Node4 \<Rightarrow> bool" where
  "node4_wf n = (length (n4_keys n) = 4 \<and> length (n4_children n) = 4)"

record Node16 =
  n16_count :: u8
  n16_node_type :: u8
  n16_keys :: bytes
  n16_children :: "u16 list"

definition node16_empty :: Node16 where
  "node16_empty = \<lparr> n16_count = 0, n16_node_type = as_u8 Node16, n16_keys = replicate 16 0,
     n16_children = replicate 16 0 \<rparr>"

definition node16_enc :: "Node16 \<Rightarrow> bytes" where
  "node16_enc n = [n16_count n, n16_node_type n] @ replicate 6 0 @ n16_keys n
     @ u16s_bytes (n16_children n)"

definition node16_dec :: "bytes \<Rightarrow> Node16" where
  "node16_dec bs = \<lparr> n16_count = bs ! 0, n16_node_type = bs ! 1, n16_keys = take 16 (drop 8 bs),
     n16_children = u16s_of_bytes (take 32 (drop 24 bs)) \<rparr>"

definition node16_wf :: "Node16 \<Rightarrow> bool" where
  "node16_wf n = (length (n16_keys n) = 16 \<and> length (n16_children n) = 16)"

record Node48 =
  n48_count :: u8
  n48_node_type :: u8
  n48_index :: bytes
  n48_children :: "u16 list"

definition node48_empty :: Node48 where
  "node48_empty = \<lparr> n48_count = 0, n48_node_type = as_u8 Node48, n48_index = replicate 256 0,
     n48_children = replicate 48 0 \<rparr>"

definition node48_enc :: "Node48 \<Rightarrow> bytes" where
  "node48_enc n = [n48_count n, n48_node_type n] @ replicate 6 0 @ n48_index n
     @ u16s_bytes (n48_children n)"

definition node48_dec :: "bytes \<Rightarrow> Node48" where
  "node48_dec bs = \<lparr> n48_count = bs ! 0, n48_node_type = bs ! 1, n48_index = take 256 (drop 8 bs),
     n48_children = u16s_of_bytes (take 96 (drop 264 bs)) \<rparr>"

definition node48_wf :: "Node48 \<Rightarrow> bool" where
  "node48_wf n = (length (n48_index n) = 256 \<and> length (n48_children n) = 48)"

record Node256 =
  n256_count :: u8
  n256_node_type :: u8
  n256_children :: "u16 list"

definition node256_empty :: Node256 where
  "node256_empty = \<lparr> n256_count = 0, n256_node_type = as_u8 Node256,
     n256_children = replicate 256 0 \<rparr>"

definition node256_enc :: "Node256 \<Rightarrow> bytes" where
  "node256_enc n = [n256_count n, n256_node_type n] @ replicate 6 0 @ u16s_bytes (n256_children n)"

definition node256_dec :: "bytes \<Rightarrow> Node256" where
  "node256_dec bs = \<lparr> n256_count = bs ! 0, n256_node_type = bs ! 1,
     n256_children = u16s_of_bytes (take 512 (drop 8 bs)) \<rparr>"

definition node256_wf :: "Node256 \<Rightarrow> bool" where
  "node256_wf n = (length (n256_children n) = 256)"

lemma drop_uN_bytes [simp]:
  "drop 2 (u16_bytes w) = []" "drop 4 (u32_bytes d) = []" "drop 8 (u64_bytes q) = []"
  by simp_all

interpretation leaf: node_codec leaf_enc leaf_dec 16 "\<lambda>_. True" leaf_node_type
  by unfold_locales (simp_all add: leaf_enc_def leaf_dec_def nth_append)

interpretation prefix: node_codec prefix_enc prefix_dec 128 prefix_wf prefix_node_type
  by unfold_locales (simp_all add: prefix_enc_def prefix_dec_def prefix_wf_def PREFIX_MAX_INLINE_def)

interpretation blob_node: node_codec blob_node_enc blob_node_dec 128 blob_node_wf blob_node_type
  by unfold_locales
    (simp_all add: blob_node_enc_def blob_node_dec_def blob_node_wf_def BLOB_MAX_INLINE_def)

interpretation node4: node_codec node4_enc node4_dec 16 node4_wf n4_node_type
  by unfold_locales (simp_all add: node4_enc_def node4_dec_def node4_wf_def)

interpretation node16: node_codec node16_enc node16_dec 56 node16_wf n16_node_type
  by unfold_locales (simp_all add: node16_enc_def node16_dec_def node16_wf_def)

interpretation node48: node_codec node48_enc node48_dec 360 node48_wf n48_node_type
  by unfold_locales (simp_all add: node48_enc_def node48_dec_def node48_wf_def)

interpretation node256: node_codec node256_enc node256_dec 520 node256_wf n256_node_type
  by unfold_locales (simp_all add: node256_enc_def node256_dec_def node256_wf_def)

section \<open>Frame header\<close>

record BlobHeader =
  field_50 :: u16
  field_52 :: u16
  num_slots :: u16
  root_slot :: u16
  space_used :: u32
  num_ext_blobs :: u16
  field_5e :: u16
  compact_times :: u32
  dead_bytes :: u32
  gap_space :: u32
  tombstone_leaf_cnt :: u32
  free_list_head :: "u16 list"
  created_epoch :: u64
  epoch_high_water :: u64
  blob_guid :: BlobGuid
  routing_off :: u32
  routing_len :: u32
  leaf_region_start :: u32
  routing_unfit :: u32

text \<open>The header is read and written in place.  The named fields fill the two byte runs
  \<open>0x50..0x90\<close> and \<open>0xa0..0xc0\<close>; the padding around them is kept.\<close>

definition header_of :: "memory \<Rightarrow> BlobHeader" where
  "header_of m =
    \<lparr> field_50 = u16_of_bytes (slice m 0x50 2),
      field_52 = u16_of_bytes (slice m 0x52 2),
      num_slots = u16_of_bytes (slice m 0x54 2),
      root_slot = u16_of_bytes (slice m 0x56 2),
      space_used = u32_of_bytes (slice m 0x58 4),
      num_ext_blobs = u16_of_bytes (slice m 0x5c 2),
      field_5e = u16_of_bytes (slice m 0x5e 2),
      compact_times = u32_of_bytes (slice m 0x60 4),
      dead_bytes = u32_of_bytes (slice m 0x64 4),
      gap_space = u32_of_bytes (slice m 0x68 4),
      tombstone_leaf_cnt = u32_of_bytes (slice m 0x6c 4),
      free_list_head = u16s_of_bytes (slice m 0x70 16),
      created_epoch = u64_of_bytes (slice m 0x80 8),
      epoch_high_water = u64_of_bytes (slice m 0x88 8),
      blob_guid = slice m 0xa0 16,
      routing_off = u32_of_bytes (slice m 0xb0 4),
      routing_len = u32_of_bytes (slice m 0xb4 4),
      leaf_region_start = u32_of_bytes (slice m 0xb8 4),
      routing_unfit = u32_of_bytes (slice m 0xbc 4) \<rparr>"

definition header_run_50 :: "BlobHeader \<Rightarrow> bytes" where
  "header_run_50 h =
     u16_bytes (field_50 h) @ u16_bytes (field_52 h) @ u16_bytes (num_slots h) @ u16_bytes (root_slot h)
     @ u32_bytes (space_used h) @ u16_bytes (num_ext_blobs h) @ u16_bytes (field_5e h)
     @ u32_bytes (compact_times h) @ u32_bytes (dead_bytes h) @ u32_bytes (gap_space h)
     @ u32_bytes (tombstone_leaf_cnt h) @ u16s_bytes (free_list_head h)
     @ u64_bytes (created_epoch h) @ u64_bytes (epoch_high_water h)"

definition header_run_a0 :: "BlobHeader \<Rightarrow> bytes" where
  "header_run_a0 h =
     blob_guid h @ u32_bytes (routing_off h) @ u32_bytes (routing_len h)
     @ u32_bytes (leaf_region_start h) @ u32_bytes (routing_unfit h)"

definition write_header :: "BlobHeader \<Rightarrow> memory \<Rightarrow> memory" where
  "write_header h m = poke (poke m 0x50 (header_run_50 h)) 0xa0 (header_run_a0 h)"

definition header_wf :: "BlobHeader \<Rightarrow> bool" where
  "header_wf h = (length (free_list_head h) = 8 \<and> length (blob_guid h) = 16)"

record RoutingRegion =
  region_off :: u32
  region_leaf_start :: u32

definition u32_checked_add :: "u32 \<Rightarrow> u32 \<Rightarrow> u32 option" where
  "u32_checked_add a b = (if unat a + unat b < 2 ^ 32 then Some (a + b) else None)"

definition routing_region :: "BlobHeader \<Rightarrow> RoutingRegion option" where
  "routing_region h =
    (if routing_len h = 0 then None
     else
       let off = routing_off h; lrs = leaf_region_start h in
       case u32_checked_add off (routing_len h) of
         None \<Rightarrow> None
       | Some routing_end \<Rightarrow>
           if unat off < DATA_AREA_START \<or> off \<ge> lrs \<or> unat lrs > PAGE_SIZE \<or> routing_end > lrs
           then None
           else Some \<lparr> region_off = off, region_leaf_start = lrs \<rparr>)"

text \<open>Accessors on a formatted frame buffer; the caller guarantees \<open>HEADER_SIZE\<close> bytes.\<close>

definition CREATED_EPOCH_OFFSET :: nat where "CREATED_EPOCH_OFFSET = 0x80"
definition EPOCH_HIGH_WATER_OFFSET :: nat where "EPOCH_HIGH_WATER_OFFSET = 0x88"
definition BLOB_GUID_OFFSET :: nat where "BLOB_GUID_OFFSET = 0xa0"

definition set_frame_created_epoch :: "u64 \<Rightarrow> memory \<Rightarrow> memory" where
  "set_frame_created_epoch epoch buf = poke buf CREATED_EPOCH_OFFSET (u64_bytes epoch)"

definition frame_created_epoch :: "memory \<Rightarrow> u64" where
  "frame_created_epoch buf = u64_of_bytes (slice buf CREATED_EPOCH_OFFSET 8)"

definition set_frame_epoch_high_water :: "u64 \<Rightarrow> memory \<Rightarrow> memory" where
  "set_frame_epoch_high_water epoch buf = poke buf EPOCH_HIGH_WATER_OFFSET (u64_bytes epoch)"

definition frame_epoch_high_water :: "memory \<Rightarrow> u64" where
  "frame_epoch_high_water buf = u64_of_bytes (slice buf EPOCH_HIGH_WATER_OFFSET 8)"

definition set_frame_blob_guid :: "BlobGuid \<Rightarrow> memory \<Rightarrow> memory" where
  "set_frame_blob_guid guid buf = poke buf BLOB_GUID_OFFSET guid"

lemma length_header_runs [simp]:
  "header_wf h \<Longrightarrow> length (header_run_50 h) = 64" "header_wf h \<Longrightarrow> length (header_run_a0 h) = 32"
  by (simp_all add: header_run_50_def header_run_a0_def header_wf_def)

lemma header_of_wf [simp]: "header_wf (header_of m)"
  by (simp add: header_wf_def header_of_def)

lemma header_of_write [simp]: "header_wf h \<Longrightarrow> header_of (write_header h m) = h"
  by (simp add: header_of_def write_header_def slice_poke_sub slice_poke_other)
    (simp add: header_run_50_def header_run_a0_def header_wf_def)

lemma write_header_outside:
  "header_wf h \<Longrightarrow> HEADER_SIZE \<le> i \<Longrightarrow> write_header h m i = m i"
  by (simp add: write_header_def geometry)

lemma slice_write_header [frame_simps]:
  "header_wf h \<Longrightarrow> HEADER_SIZE \<le> off \<Longrightarrow> slice (write_header h m) off n = slice m off n"
  by (rule slice_eqI) (simp add: write_header_outside)

lemma header_of_poke [frame_simps]: "HEADER_SIZE \<le> off \<Longrightarrow> header_of (poke m off bs) = header_of m"
  by (simp add: header_of_def slice_poke_other geometry)

lemma routing_region_Some:
  assumes "routing_region h = Some r"
  shows "DATA_AREA_START \<le> unat (region_off r)" "region_off r < region_leaf_start r"
    "unat (region_leaf_start r) \<le> PAGE_SIZE"
    "unat (region_off r) + unat (routing_len h) \<le> unat (region_leaf_start r)" "routing_len h \<noteq> 0"
  using assms
  by (auto simp: routing_region_def Let_def u32_checked_add_def word_gt_0 word_le_nat_alt word_less_nat_alt
      unat_word_ariths split: if_splits option.splits)

lemma header_of_set_created_epoch:
  "header_of (set_frame_created_epoch e m) = (header_of m)\<lparr> created_epoch := e \<rparr>"
  by (simp add: header_of_def set_frame_created_epoch_def CREATED_EPOCH_OFFSET_def slice_poke_other)

lemma header_of_set_epoch_high_water:
  "header_of (set_frame_epoch_high_water e m) = (header_of m)\<lparr> epoch_high_water := e \<rparr>"
  by (simp add: header_of_def set_frame_epoch_high_water_def EPOCH_HIGH_WATER_OFFSET_def slice_poke_other)

lemma header_of_set_blob_guid:
  "length g = 16 \<Longrightarrow> header_of (set_frame_blob_guid g m) = (header_of m)\<lparr> blob_guid := g \<rparr>"
  by (simp add: header_of_def set_frame_blob_guid_def BLOB_GUID_OFFSET_def slice_poke_other)

end
