(* ===== verification/Blob_Frame.thy ===== *)
theory Blob_Frame
  imports Layout
begin

text \<open>The blob frame and its allocator (\<^verbatim>\<open>src/src/store/blob_frame.rs\<close>).  A frame is the byte memory
  of its \<open>PAGE_SIZE\<close> buffer: header, slot table and data area are runs of it, as in the source.
  Reads are guarded by the source's bounds checks.  Debug assertions are not executed (release
  build); the lemmas show that the walker never violates them.\<close>

type_synonym frame = memory

section \<open>Child offsets\<close>

definition SPILLOVER_RESERVATION :: nat where "SPILLOVER_RESERVATION = 128"
definition DATA_BASE_DIV8 :: nat where "DATA_BASE_DIV8 = DATA_AREA_START div 8"
definition MAX_CHILD_BIAS :: nat where "MAX_CHILD_BIAS = (PAGE_SIZE - DATA_AREA_START) div 8 + 1"
definition PAGE_4K :: nat where "PAGE_4K = 0x1000"

definition page_align_up :: "nat \<Rightarrow> nat" where
  "page_align_up off = ((off + (PAGE_4K - 1)) mod 2 ^ 32) div PAGE_4K * PAGE_4K"

definition encode_child_off :: "nat \<Rightarrow> u16" where
  "encode_child_off byte_off = word_of_int (int (byte_off div 8) - int DATA_BASE_DIV8 + 1)"

definition decode_child_off :: "u16 \<Rightarrow> nat" where
  "decode_child_off encoded = (unat encoded + DATA_BASE_DIV8 - 1) * 8"

section \<open>Node bodies\<close>

definition ntype_at_offset :: "memory \<Rightarrow> nat \<Rightarrow> nat \<Rightarrow> NodeType option" where
  "ntype_at_offset buf len off =
    (let tag_off = off + 1 in
     if tag_off \<ge> len then None else from_raw (buf tag_off))"

definition free_list_class :: "NodeType \<Rightarrow> nat" where
  "free_list_class ntype = unat (as_u8 ntype) - 1"

definition leaf_body_len_at :: "memory \<Rightarrow> nat \<Rightarrow> nat \<Rightarrow> nat option" where
  "leaf_body_len_at buf len off =
    (if off + 16 > len then None
     else
       let vlen = unat (u16_of_bytes [buf (off + 2), buf (off + 3)]);
           klen = unat (u16_of_bytes [buf (off + 4), buf (off + 5)]);
           total = leaf_body_size klen vlen
       in if off + total > len then None else Some total)"

definition ntype_at :: "frame \<Rightarrow> nat \<Rightarrow> NodeType option" where
  "ntype_at f byte_off = ntype_at_offset f PAGE_SIZE byte_off"

text \<open>The extent of the body at an offset; \<^verbatim>\<open>body_at_offset\<close> and \<^verbatim>\<open>body_at_offset_mut\<close> resolve to
  it, the first to read and the second to overwrite.\<close>

definition body_at_offset_mut :: "frame \<Rightarrow> nat \<Rightarrow> nat option" where
  "body_at_offset_mut f byte_off =
    (case ntype_at_offset f PAGE_SIZE byte_off of
       None \<Rightarrow> None
     | Some ntype \<Rightarrow>
         if ntype = Invalid then None
         else
           case (if ntype = Leaf then leaf_body_len_at f PAGE_SIZE byte_off
                 else Some (size_of_node ntype)) of
             None \<Rightarrow> None
           | Some sz \<Rightarrow> if byte_off + sz > PAGE_SIZE then None else Some sz)"

definition body_at_offset :: "frame \<Rightarrow> nat \<Rightarrow> bytes option" where
  "body_at_offset f byte_off =
    (case ntype_at_offset f PAGE_SIZE byte_off of
       None \<Rightarrow> None
     | Some ntype \<Rightarrow>
         if ntype = Invalid then None
         else
           case (if ntype = Leaf then leaf_body_len_at f PAGE_SIZE byte_off
                 else Some (size_of_node ntype)) of
             None \<Rightarrow> None
           | Some sz \<Rightarrow> if byte_off + sz > PAGE_SIZE then None else Some (slice f byte_off sz))"

section \<open>Slot table\<close>

definition header_mut :: "(BlobHeader \<Rightarrow> BlobHeader) \<Rightarrow> frame \<Rightarrow> frame" where
  "header_mut g f = write_header (g (header_of f)) f"

definition slot_entry :: "frame \<Rightarrow> u16 \<Rightarrow> SlotEntry option" where
  "slot_entry f slot =
    (if slot = 0 \<or> slot > num_slots (header_of f) then None
     else let off = HEADER_SIZE + (unat slot - 1) * 4
          in Some (slot_decode (u32_of_bytes (slice f off 4))))"

definition write_slot_entry :: "u16 \<Rightarrow> SlotEntry \<Rightarrow> frame \<Rightarrow> frame" where
  "write_slot_entry slot entry f =
    (let off = HEADER_SIZE + (unat slot - 1) * 4 in poke f off (u32_bytes (slot_raw entry)))"

definition body_of_slot :: "frame \<Rightarrow> u16 \<Rightarrow> bytes option" where
  "body_of_slot f slot =
    (case slot_entry f slot of
       None \<Rightarrow> None
     | Some e \<Rightarrow>
         (case slot_node_type e of
            None \<Rightarrow> None
          | Some ntype \<Rightarrow>
              if ntype = Invalid then None
              else
                let off = byte_offset e in
                case (if ntype = Leaf then leaf_body_len_at f PAGE_SIZE off
                      else Some (size_of_node ntype)) of
                  None \<Rightarrow> None
                | Some sz \<Rightarrow> if off + sz > PAGE_SIZE then None else Some (slice f off sz)))"

definition offset_of_slot :: "frame \<Rightarrow> u16 \<Rightarrow> nat option" where
  "offset_of_slot f slot = map_option byte_offset (slot_entry f slot)"

definition bytes_at_mut :: "frame \<Rightarrow> nat \<Rightarrow> nat \<Rightarrow> bool" where
  "bytes_at_mut f off len = (off + len \<le> PAGE_SIZE)"

definition u32_saturating_add :: "u32 \<Rightarrow> nat \<Rightarrow> u32" where
  "u32_saturating_add a n = word_of_nat (min (unat a + n) (2 ^ 32 - 1))"

definition note_abandoned :: "nat \<Rightarrow> frame \<Rightarrow> frame" where
  "note_abandoned byte_off f =
    (let sz = (case ntype_at_offset f PAGE_SIZE byte_off of
                   None \<Rightarrow> 0
                 | Some nt \<Rightarrow>
                     if nt = Leaf then (case leaf_body_len_at f PAGE_SIZE byte_off of None \<Rightarrow> 0 | Some n \<Rightarrow> n)
                     else if nt \<noteq> Invalid then size_of_node nt
                     else 0)
     in header_mut (\<lambda>h. h\<lparr> dead_bytes := u32_saturating_add (dead_bytes h) sz \<rparr>) f)"

section \<open>Allocation\<close>

text \<open>Allocation steps return the outcome and the frame; the frame is the updated buffer whether the
  step succeeds or not.\<close>

definition u16_saturating_add1 :: "u16 \<Rightarrow> u16" where
  "u16_saturating_add1 a = (if a = - 1 then a else a + 1)"

definition u16_saturating_sub1 :: "u16 \<Rightarrow> u16" where
  "u16_saturating_sub1 a = (if a = 0 then 0 else a - 1)"

definition alloc_from_free_list :: "nat \<Rightarrow> NodeType \<Rightarrow> frame \<Rightarrow> (AllocError + u16) \<times> frame" where
  "alloc_from_free_list idx ntype f =
    (let free_head = free_list_head (header_of f) ! idx in
     case slot_entry f free_head of
       None \<Rightarrow> (Inl InvalidRequest, f)
     | Some e \<Rightarrow>
         let f1 = header_mut (\<lambda>h. h\<lparr> free_list_head := (free_list_head h)[idx := next_free e] \<rparr>) f;
             f2 = write_slot_entry free_head (slot_live ntype (byte_offset e)) f1;
             f3 = header_mut (\<lambda>h. h\<lparr> gap_space := gap_space h + word_of_nat (size_of_node ntype) \<rparr>) f2
         in (Inr free_head, f3))"

definition sibling_class :: "NodeType \<Rightarrow> nat option" where
  "sibling_class ntype =
    (case ntype of
       Blob \<Rightarrow> Some (unat (as_u8 Prefix - 1))
     | Prefix \<Rightarrow> Some (unat (as_u8 Blob - 1))
     | _ \<Rightarrow> None)"

definition bump_alloc_node :: "NodeType \<Rightarrow> frame \<Rightarrow> (AllocError + u16) \<times> frame" where
  "bump_alloc_node ntype f =
    (let sz = size_of_node ntype; h = header_of f in
     if num_slots h \<ge> word_of_nat MAX_SLOTS then (Inl OutOfSlots, f)
     else
       let raw_avail = PAGE_SIZE - unat (space_used h);
           avail = (if ntype = Blob then raw_avail else raw_avail - SPILLOVER_RESERVATION) in
       if avail < sz then (Inl (OutOfSpace sz avail), f)
       else
         let body_off = unat (space_used h);
             new_slot = num_slots h + 1;
             f1 = write_slot_entry new_slot (slot_live ntype body_off) f;
             f2 = header_mut (\<lambda>h. h\<lparr> num_slots := num_slots h + 1,
                                    space_used := space_used h + word_of_nat sz,
                                    gap_space := gap_space h + word_of_nat sz \<rparr>) f1
         in (Inr new_slot, f2))"

definition alloc_node_inner :: "NodeType \<Rightarrow> frame \<Rightarrow> (AllocError + u16) \<times> frame" where
  "alloc_node_inner ntype f =
    (if ntype = Invalid then (Inl InvalidRequest, f)
     else
       let ntype_idx = free_list_class ntype in
       if free_list_head (header_of f) ! ntype_idx \<noteq> 0 then alloc_from_free_list ntype_idx ntype f
       else
         case sibling_class ntype of
           Some sibling_idx \<Rightarrow>
             if free_list_head (header_of f) ! sibling_idx \<noteq> 0
             then alloc_from_free_list sibling_idx ntype f
             else bump_alloc_node ntype f
         | None \<Rightarrow> bump_alloc_node ntype f)"

definition alloc_node :: "NodeType \<Rightarrow> frame \<Rightarrow> (AllocError + u16) \<times> frame" where
  "alloc_node ntype f =
    (case alloc_node_inner ntype f of
       (Inl e, f1) \<Rightarrow> (Inl e, f1)
     | (Inr slot, f1) \<Rightarrow>
         let f2 = (if routing_len (header_of f1) \<noteq> 0 then header_mut (\<lambda>h. h\<lparr> routing_len := 0 \<rparr>) f1 else f1);
             f3 = (if ntype = Blob
                   then header_mut (\<lambda>h. h\<lparr> num_ext_blobs := u16_saturating_add1 (num_ext_blobs h) \<rparr>) f2
                   else f2)
         in (Inr slot, f3))"

definition free_node_inner :: "u16 \<Rightarrow> frame \<Rightarrow> (FreeError + unit) \<times> frame" where
  "free_node_inner slot f =
    (case slot_entry f slot of
       None \<Rightarrow> (Inl (InvalidSlot slot), f)
     | Some e \<Rightarrow>
         (case slot_node_type e of
            None \<Rightarrow> (Inl (TypeMismatch slot (ntype_or_next_free e)), f)
          | Some ntype \<Rightarrow>
              if ntype = Invalid then (Inl (TypeMismatch slot (ntype_or_next_free e)), f)
              else
                let ntype_idx = free_list_class ntype;
                    old_head = free_list_head (header_of f) ! ntype_idx;
                    f1 = write_slot_entry slot (slot_freed old_head (byte_offset e)) f;
                    f2 = header_mut (\<lambda>h. h\<lparr> free_list_head := (free_list_head h)[ntype_idx := slot] \<rparr>) f1
                in (Inr (), f2)))"

definition free_node :: "u16 \<Rightarrow> frame \<Rightarrow> (FreeError + unit) \<times> frame" where
  "free_node slot f =
    (case slot_entry f slot of
       None \<Rightarrow> (Inl (InvalidSlot slot), f)
     | Some e \<Rightarrow>
         (case slot_node_type e of
            None \<Rightarrow> (Inl (TypeMismatch slot (ntype_or_next_free e)), f)
          | Some ntype \<Rightarrow>
              (case free_node_inner slot f of
                 (Inl err, f1) \<Rightarrow> (Inl err, f1)
               | (Inr _, f1) \<Rightarrow>
                   (Inr (), if ntype = Blob
                            then header_mut (\<lambda>h. h\<lparr> num_ext_blobs := u16_saturating_sub1 (num_ext_blobs h) \<rparr>) f1
                            else f1))))"

definition alloc_leaf :: "nat \<Rightarrow> frame \<Rightarrow> (AllocError + u16) \<times> frame" where
  "alloc_leaf total_aligned f =
    (if total_aligned = 0 then (Inl InvalidRequest, f)
     else
       let h = header_of f in
       if num_slots h \<ge> word_of_nat MAX_SLOTS then (Inl OutOfSlots, f)
       else
         let avail = PAGE_SIZE - unat (space_used h) - SPILLOVER_RESERVATION in
         if avail < total_aligned then (Inl (OutOfSpace total_aligned avail), f)
         else
           let body_off = unat (space_used h);
               new_slot = num_slots h + 1;
               f1 = write_slot_entry new_slot (slot_live Leaf body_off) f;
               f2 = header_mut (\<lambda>h. h\<lparr> num_slots := num_slots h + 1,
                                      space_used := space_used h + word_of_nat total_aligned,
                                      gap_space := gap_space h + word_of_nat total_aligned,
                                      routing_len := (if routing_len h \<noteq> 0 then 0 else routing_len h) \<rparr>) f1
           in (Inr new_slot, f2))"

definition alloc_leaf_at :: "nat \<Rightarrow> nat \<Rightarrow> frame \<Rightarrow> (AllocError + u16) \<times> frame" where
  "alloc_leaf_at body_off total_aligned f =
    (if total_aligned = 0 then (Inl InvalidRequest, f)
     else
       let h = header_of f in
       if num_slots h \<ge> word_of_nat MAX_SLOTS then (Inl OutOfSlots, f)
       else
         let ceiling = PAGE_SIZE - SPILLOVER_RESERVATION in
         if body_off > ceiling \<or> total_aligned > ceiling - body_off
         then (Inl (OutOfSpace total_aligned (ceiling - body_off)), f)
         else
           let new_slot = num_slots h + 1;
               f1 = write_slot_entry new_slot (slot_live Leaf body_off) f;
               f2 = header_mut (\<lambda>h. h\<lparr> num_slots := num_slots h + 1,
                                      gap_space := gap_space h + word_of_nat total_aligned \<rparr>) f1
           in (Inr new_slot, f2))"

text \<open>\<open>init\<close> zeroes the buffer, seeds the header, allocates the \<open>EmptyRoot\<close> sentinel, stamps its type
  tag and records it as the root.\<close>

definition frame_init :: "BlobGuid \<Rightarrow> (fault + AllocError + unit) \<times> frame" where
  "frame_init guid =
    (let f0 = (\<lambda>_. 0);
         f1 = header_mut (\<lambda>h. h\<lparr> blob_guid := guid, space_used := word_of_nat DATA_AREA_START \<rparr>) f0
     in case alloc_node EmptyRoot f1 of
          (Inl e, f2) \<Rightarrow> (Inr (Inl e), f2)
        | (Inr slot, f2) \<Rightarrow>
            (case offset_of_slot f2 slot of
               None \<Rightarrow> (Inl (Panic ''freshly allocated sentinel has a slot offset''), f2)
             | Some root_off \<Rightarrow>
                 let f3 = (if bytes_at_mut f2 root_off 8 then poke f2 (root_off + 1) [as_u8 EmptyRoot] else f2);
                     f4 = header_mut (\<lambda>h. h\<lparr> root_slot := encode_child_off root_off \<rparr>) f3
                 in (Inr (Inr ()), f4)))"

section \<open>Child offset encoding\<close>

text \<open>\<open>node_off off\<close>: a legal body offset, the domain of the child encoding.\<close>

definition node_off :: "nat \<Rightarrow> bool" where
  "node_off off = (DATA_AREA_START \<le> off \<and> off < PAGE_SIZE \<and> 8 dvd off)"

lemma unat_encode_child_off:
  assumes "node_off off"
  shows "unat (encode_child_off off) = off div 8 - DATA_BASE_DIV8 + 1"
proof -
  define n where "n = off div 8 - DATA_BASE_DIV8 + 1"
  have "int (off div 8) - int DATA_BASE_DIV8 + 1 = int n" and n: "n < 65536"
    using assms by (auto simp: n_def node_off_def geometry DATA_BASE_DIV8_def)
  then have "encode_child_off off = word_of_nat n"
    by (simp only: encode_child_off_def of_int_of_nat_eq)
  with n have "unat (encode_child_off off) = n" by (simp add: unat_of_nat)
  then show ?thesis by (simp add: n_def)
qed

lemma encode_child_off_pos:
  assumes "node_off off" shows "encode_child_off off \<noteq> 0"
proof
  assume "encode_child_off off = 0"
  then show False using unat_encode_child_off [OF assms] by simp
qed

lemma encode_child_off_bound:
  "node_off off \<Longrightarrow> 1 \<le> unat (encode_child_off off) \<and> unat (encode_child_off off) \<le> MAX_CHILD_BIAS"
  by (auto simp: unat_encode_child_off MAX_CHILD_BIAS_def DATA_BASE_DIV8_def node_off_def geometry)

lemma decode_encode_child_off [simp]: "node_off off \<Longrightarrow> decode_child_off (encode_child_off off) = off"
  by (auto simp: decode_child_off_def unat_encode_child_off node_off_def DATA_BASE_DIV8_def geometry)

lemma encode_decode_child_off: "e \<noteq> 0 \<Longrightarrow> encode_child_off (decode_child_off e) = e"
  by (simp add: decode_child_off_def encode_child_off_def DATA_BASE_DIV8_def geometry unat_eq_0
      nat_less_iff of_nat_diff)

section \<open>Header and slot table laws\<close>

lemma header_of_header_mut [simp]:
  "header_wf (g (header_of f)) \<Longrightarrow> header_of (header_mut g f) = g (header_of f)"
  by (simp add: header_mut_def)

lemma header_mut_above [simp]:
  "header_wf (g (header_of f)) \<Longrightarrow> HEADER_SIZE \<le> i \<Longrightarrow> header_mut g f i = f i"
  by (simp add: header_mut_def write_header_outside)

lemma slice_header_mut [simp]:
  "header_wf (g (header_of f)) \<Longrightarrow> HEADER_SIZE \<le> off \<Longrightarrow> slice (header_mut g f) off n = slice f off n"
  by (simp add: header_mut_def slice_write_header)

lemma header_wf_list [simp]: "length (free_list_head (header_of f)) = 8" "length (blob_guid (header_of f)) = 16"
  using header_of_wf [of f] by (simp_all add: header_wf_def del: header_of_wf)

lemma header_wf_updates [simp]:
  "header_wf (h\<lparr> num_slots := a \<rparr>) = header_wf h" "header_wf (h\<lparr> space_used := b \<rparr>) = header_wf h"
  "header_wf (h\<lparr> gap_space := b \<rparr>) = header_wf h" "header_wf (h\<lparr> routing_len := b \<rparr>) = header_wf h"
  "header_wf (h\<lparr> num_ext_blobs := a \<rparr>) = header_wf h" "header_wf (h\<lparr> root_slot := a \<rparr>) = header_wf h"
  "header_wf (h\<lparr> dead_bytes := b \<rparr>) = header_wf h" "header_wf (h\<lparr> tombstone_leaf_cnt := b \<rparr>) = header_wf h"
  "header_wf (h\<lparr> free_list_head := (free_list_head h')[i := a] \<rparr>) = header_wf (h\<lparr> free_list_head := free_list_head h' \<rparr>)"
  "length g = 16 \<Longrightarrow> header_wf (h\<lparr> blob_guid := g \<rparr>) = (length (free_list_head h) = 8)"
  by (simp_all add: header_wf_def)

lemma header_of_write_slot_entry [simp]: "header_of (write_slot_entry s e f) = header_of f"
  by (simp add: write_slot_entry_def header_of_poke Let_def)

lemma write_slot_entry_above [simp]:
  assumes "unat s \<le> MAX_SLOTS" "0 < s" "DATA_AREA_START \<le> i"
  shows "write_slot_entry s e f i = f i"
proof -
  have "0 < unat s" using assms(2) by (simp add: word_gt_0 unat_gt_0)
  with assms(1,3) show ?thesis
    by (auto simp: write_slot_entry_def Let_def geometry intro!: poke_outside)
qed

lemma slot_entry_written:
  "0 < s \<Longrightarrow> s \<le> num_slots (header_of f) \<Longrightarrow> slot_entry (write_slot_entry s e f) s = Some (slot_decode (slot_raw e))"
  by (auto simp: slot_entry_def write_slot_entry_def Let_def header_of_poke)

lemma slot_entry_header_mut:
  "header_wf (g (header_of f)) \<Longrightarrow>
   slot_entry (header_mut g f) s =
     (if s = 0 \<or> s > num_slots (g (header_of f)) then None
      else Some (slot_decode (u32_of_bytes (slice f (HEADER_SIZE + (unat s - 1) * 4) 4))))"
  by (simp add: slot_entry_def Let_def)

lemma slice_slot_written [simp]:
  "slice (write_slot_entry s e f) (HEADER_SIZE + (unat s - Suc 0) * 4) 4 = u32_bytes (slot_raw e)"
  by (simp add: write_slot_entry_def Let_def)

lemma slot_entry_other:
  assumes "s \<noteq> s'" "0 < s" "0 < s'"
  shows "slot_entry (write_slot_entry s e f) s' = slot_entry f s'"
proof -
  have "unat s \<noteq> unat s'" using assms(1) by (simp only: word_unat_eq_iff) simp
  moreover have "0 < unat s" "0 < unat s'" using assms(2,3) by (simp_all add: word_gt_0 unat_gt_0)
  ultimately have "(unat s' - Suc 0) * 4 + 4 \<le> (unat s - Suc 0) * 4 \<or> (unat s - Suc 0) * 4 + 4 \<le> (unat s' - Suc 0) * 4"
    by arith
  then show ?thesis
    by (auto simp: slot_entry_def write_slot_entry_def Let_def header_of_poke slice_poke_other)
qed

section \<open>The allocator invariant\<close>

text \<open>What every frame the walker mutates satisfies: the bump cursor is aligned and inside the data
  area, the slot table is within its cap, and the free lists are empty (the walker abandons nodes
  instead of freeing them).\<close>

definition cursor :: "frame \<Rightarrow> nat" where
  "cursor f = unat (space_used (header_of f))"

definition frame_ok :: "frame \<Rightarrow> bool" where
  "frame_ok f =
    (DATA_AREA_START \<le> cursor f \<and> cursor f \<le> PAGE_SIZE \<and> 8 dvd cursor f
     \<and> unat (num_slots (header_of f)) \<le> MAX_SLOTS
     \<and> free_list_head (header_of f) = replicate 8 0)"

text \<open>\<open>bumped n f f'\<close>: the frame after a successful bump allocation of \<open>n\<close> bytes.  The data area is
  untouched and the header changes only in the bookkeeping fields.\<close>

definition bumped :: "nat \<Rightarrow> frame \<Rightarrow> frame \<Rightarrow> bool" where
  "bumped n f f' =
    (frame_ok f' \<and> cursor f' = cursor f + n \<and> (\<forall>i \<ge> DATA_AREA_START. f' i = f i)
     \<and> root_slot (header_of f') = root_slot (header_of f)
     \<and> tombstone_leaf_cnt (header_of f') = tombstone_leaf_cnt (header_of f)
     \<and> dead_bytes (header_of f') = dead_bytes (header_of f)
     \<and> blob_guid (header_of f') = blob_guid (header_of f)
     \<and> created_epoch (header_of f') = created_epoch (header_of f)
     \<and> num_slots (header_of f') = num_slots (header_of f) + 1
     \<and> routing_region (header_of f') = None)"

lemma cursor_header_mut:
  "header_wf (g (header_of f)) \<Longrightarrow> cursor (header_mut g f) = unat (space_used (g (header_of f)))"
  by (simp add: cursor_def)

lemma num_slots_fresh:
  assumes "frame_ok f" "\<not> word_of_nat MAX_SLOTS \<le> num_slots (header_of f)"
  shows "unat (num_slots (header_of f) + 1) = unat (num_slots (header_of f)) + 1"
    "unat (num_slots (header_of f) + 1) \<le> MAX_SLOTS" "0 < num_slots (header_of f) + 1"
proof -
  let ?n = "num_slots (header_of f)"
  have lt: "unat ?n < 10240"
    using assms(2) by (simp add: geometry word_le_nat_alt)
  then show 1: "unat (?n + 1) = unat ?n + 1"
    by (simp add: unat_word_ariths)
  then show "unat (?n + 1) \<le> MAX_SLOTS" using lt by (simp add: geometry)
  show "0 < ?n + 1"
    using 1 by (metis Suc_eq_plus1 nat.simps(3) unat_0 word_gt_0)
qed

lemma cursor_advance:
  assumes "frame_ok f" "cursor f + n \<le> PAGE_SIZE"
  shows "unat (space_used (header_of f) + word_of_nat n) = cursor f + n"
  using assms by (simp add: cursor_def geometry unat_word_ariths unat_of_nat)

text \<open>The common core of \<open>bump_alloc_node\<close> and \<open>alloc_leaf\<close>.\<close>

definition bump_slot :: "NodeType \<Rightarrow> nat \<Rightarrow> frame \<Rightarrow> frame" where
  "bump_slot t n f =
     header_mut (\<lambda>h. h\<lparr> num_slots := num_slots h + 1, space_used := space_used h + word_of_nat n,
                        gap_space := gap_space h + word_of_nat n \<rparr>)
       (write_slot_entry (num_slots (header_of f) + 1) (slot_live t (cursor f)) f)"

lemma bump_slot_spec:
  assumes ok: "frame_ok f" and free: "\<not> word_of_nat MAX_SLOTS \<le> num_slots (header_of f)"
    and fits: "cursor f + n \<le> PAGE_SIZE" "0 < n" "8 dvd n"
  shows "header_of (bump_slot t n f) =
      (header_of f)\<lparr> num_slots := num_slots (header_of f) + 1,
        space_used := space_used (header_of f) + word_of_nat n,
        gap_space := gap_space (header_of f) + word_of_nat n \<rparr>"
    and "frame_ok (bump_slot t n f)" "cursor (bump_slot t n f) = cursor f + n"
    and "\<forall>i \<ge> DATA_AREA_START. bump_slot t n f i = f i"
    and "slot_entry (bump_slot t n f) (num_slots (header_of f) + 1) = Some (slot_live t (cursor f))"
proof -
  note fresh = num_slots_fresh [OF ok free]
  show h: "header_of (bump_slot t n f) =
      (header_of f)\<lparr> num_slots := num_slots (header_of f) + 1,
        space_used := space_used (header_of f) + word_of_nat n,
        gap_space := gap_space (header_of f) + word_of_nat n \<rparr>"
    by (simp add: bump_slot_def)
  then show c: "cursor (bump_slot t n f) = cursor f + n"
    using cursor_advance [OF ok fits(1)] by (simp add: cursor_def)
  then show "frame_ok (bump_slot t n f)"
    using ok fits fresh(2) by (simp add: frame_ok_def h)
  show "\<forall>i \<ge> DATA_AREA_START. bump_slot t n f i = f i"
    using fresh by (auto simp: bump_slot_def geometry)
  have "cursor f < PAGE_SIZE" using fits by simp
  then show "slot_entry (bump_slot t n f) (num_slots (header_of f) + 1) = Some (slot_live t (cursor f))"
    using fresh(3) by (auto simp: bump_slot_def slot_entry_header_mut slot_live_round_trip)
qed

lemma routing_region_derouted [simp]: "routing_len h = 0 \<Longrightarrow> routing_region h = None"
  by (simp add: routing_region_def)

lemma free_lists_empty:
  "frame_ok f \<Longrightarrow> t \<noteq> Invalid \<Longrightarrow> alloc_node_inner t f = bump_alloc_node t f"
  by (cases t) (auto simp: alloc_node_inner_def frame_ok_def free_list_class_def sibling_class_def)

text \<open>The tail of the data area that each node type leaves alone.\<close>

definition reserve :: "NodeType \<Rightarrow> nat" where
  "reserve t = (if t = Blob then 0 else SPILLOVER_RESERVATION)"

lemma alloc_node_cases:
  assumes ok: "frame_ok f" and t: "t \<noteq> Invalid"
  obtains (fail) e where "alloc_node t f = (Inl e, f)" "e = OutOfSlots \<or> (\<exists>a. e = OutOfSpace (size_of_node t) a)"
      "unat (num_slots (header_of f)) = MAX_SLOTS \<or> PAGE_SIZE < cursor f + size_of_node t + reserve t"
  | (bump) slot f' where "alloc_node t f = (Inr slot, f')" "bumped (size_of_node t) f f'"
      "offset_of_slot f' slot = Some (cursor f)" "cursor f + size_of_node t + reserve t \<le> PAGE_SIZE"
proof (cases "word_of_nat MAX_SLOTS \<le> num_slots (header_of f)")
  case True
  then have "unat (num_slots (header_of f)) = MAX_SLOTS"
    using ok by (simp add: frame_ok_def geometry word_le_nat_alt)
  with True show ?thesis
    by (intro fail [of OutOfSlots])
      (auto simp: alloc_node_def free_lists_empty [OF ok t] bump_alloc_node_def Let_def)
next
  case free: False
  show ?thesis
  proof (cases "cursor f + size_of_node t + reserve t \<le> PAGE_SIZE")
    case False
    with free ok size_of_node_bounds [OF t] show ?thesis
      by (intro fail [of "OutOfSpace (size_of_node t) (PAGE_SIZE - cursor f - reserve t)"])
        (auto simp: alloc_node_def free_lists_empty [OF ok t] bump_alloc_node_def Let_def reserve_def cursor_def)
  next
    case True
    have sz: "0 < size_of_node t" "8 dvd size_of_node t" using size_of_node_bounds [OF t] by auto
    let ?b = "bump_slot t (size_of_node t) f" and ?s = "num_slots (header_of f) + 1"
    have inner: "alloc_node_inner t f = (Inr ?s, ?b)"
      using True free by (auto simp: free_lists_empty [OF ok t] bump_alloc_node_def Let_def reserve_def
          cursor_def bump_slot_def)
    note spec = bump_slot_spec [OF ok free _ sz, of t]
    have fits: "cursor f + size_of_node t \<le> PAGE_SIZE" using True by simp
    obtain f' where f': "alloc_node t f = (Inr ?s, f')" by (simp add: alloc_node_def inner Let_def)
    then have f'_def: "f' = (let f2 = (if routing_len (header_of ?b) \<noteq> 0 then header_mut (\<lambda>h. h\<lparr> routing_len := 0 \<rparr>) ?b else ?b)
       in if t = Blob then header_mut (\<lambda>h. h\<lparr> num_ext_blobs := u16_saturating_add1 (num_ext_blobs h) \<rparr>) f2 else f2)"
      by (simp add: alloc_node_def inner Let_def)
    have "bumped (size_of_node t) f f'"
      using spec [OF fits] ok
      by (auto simp: f'_def bumped_def frame_ok_def cursor_header_mut cursor_def geometry Let_def)
    moreover have "slot_entry f' ?s = Some (slot_live t (cursor f))"
      using spec(5) [OF fits]
      by (auto simp: f'_def Let_def slot_entry_header_mut slot_entry_def geometry split: if_splits)
    moreover have "byte_offset (slot_live t (cursor f)) = cursor f"
      using True ok sz by (intro byte_offset_live) (auto simp: frame_ok_def)
    ultimately show ?thesis using True by (intro bump [OF f']) (auto simp: offset_of_slot_def)
  qed
qed

lemma write_header_write:
  "header_wf h \<Longrightarrow> header_wf h' \<Longrightarrow> write_header h (write_header h' m) = write_header h m"
  by (rule ext) (simp add: write_header_def poke_def)

lemma header_mut_comp:
  "header_wf (g (header_of f)) \<Longrightarrow> header_wf (g' (g (header_of f))) \<Longrightarrow>
   header_mut g' (header_mut g f) = header_mut (g' \<circ> g) f"
  by (simp add: header_mut_def write_header_write)

lemma alloc_leaf_cases:
  assumes ok: "frame_ok f" and n: "0 < n" "8 dvd n"
  obtains (fail) e where "alloc_leaf n f = (Inl e, f)" "e = OutOfSlots \<or> (\<exists>a. e = OutOfSpace n a)"
      "unat (num_slots (header_of f)) = MAX_SLOTS \<or> PAGE_SIZE < cursor f + n + SPILLOVER_RESERVATION"
  | (bump) slot f' where "alloc_leaf n f = (Inr slot, f')" "bumped n f f'"
      "offset_of_slot f' slot = Some (cursor f)" "cursor f + n + SPILLOVER_RESERVATION \<le> PAGE_SIZE"
proof (cases "word_of_nat MAX_SLOTS \<le> num_slots (header_of f)")
  case True
  then have "unat (num_slots (header_of f)) = MAX_SLOTS"
    using ok by (simp add: frame_ok_def geometry word_le_nat_alt)
  with True n show ?thesis
    by (intro fail [of OutOfSlots]) (auto simp: alloc_leaf_def Let_def)
next
  case free: False
  show ?thesis
  proof (cases "cursor f + n + SPILLOVER_RESERVATION \<le> PAGE_SIZE")
    case False
    with free n show ?thesis
      by (intro fail [of "OutOfSpace n (PAGE_SIZE - cursor f - SPILLOVER_RESERVATION)"])
        (auto simp: alloc_leaf_def Let_def cursor_def)
  next
    case True
    let ?b = "bump_slot Leaf n f" and ?s = "num_slots (header_of f) + 1"
    define f' where "f' = header_mut (\<lambda>h. h\<lparr> routing_len := 0 \<rparr>) ?b"
    have deroute: "(if x \<noteq> 0 then 0 else x) = (0::u32)" for x
      by simp
    have "alloc_leaf n f = (Inr ?s, f')"
      using True free n
      by (auto simp: alloc_leaf_def Let_def cursor_def bump_slot_def f'_def deroute header_mut_comp o_def)
    moreover have fits: "cursor f + n \<le> PAGE_SIZE" using True by simp
    note spec = bump_slot_spec [OF ok free fits n, of Leaf]
    have "bumped n f f'"
      using spec ok by (auto simp: f'_def bumped_def frame_ok_def cursor_header_mut cursor_def geometry)
    moreover have "slot_entry f' ?s = Some (slot_live Leaf (cursor f))"
      using spec(5) by (auto simp: f'_def slot_entry_header_mut slot_entry_def geometry split: if_splits)
    moreover have "byte_offset (slot_live Leaf (cursor f)) = cursor f"
      using True ok n by (intro byte_offset_live) (auto simp: frame_ok_def SPILLOVER_RESERVATION_def)
    ultimately show ?thesis using True by (intro bump) (auto simp: offset_of_slot_def)
  qed
qed

text \<open>A frame too full for the largest body an insertion may ask for.\<close>

definition crowded :: "frame \<Rightarrow> bool" where
  "crowded f = (unat (num_slots (header_of f)) = MAX_SLOTS \<or> PAGE_SIZE < cursor f + 131096 + SPILLOVER_RESERVATION)"

lemma crowdedI:
  "unat (num_slots (header_of f)) = MAX_SLOTS \<or> PAGE_SIZE < cursor f + n + r \<Longrightarrow> n \<le> 131096 \<Longrightarrow>
   r \<le> SPILLOVER_RESERVATION \<Longrightarrow> crowded f"
  by (auto simp: crowded_def)

lemma leaf_body_size_bounds:
  assumes "k < 2 ^ 16" "v < 2 ^ 16"
  shows "16 + k + v \<le> leaf_body_size k v" "leaf_body_size k v < 16 + k + v + 8"
    "8 dvd leaf_body_size k v"
  using assms by (auto simp: leaf_body_size_def)

lemma note_abandoned_header [simp]:
  "root_slot (header_of (note_abandoned off f)) = root_slot (header_of f)"
  "blob_guid (header_of (note_abandoned off f)) = blob_guid (header_of f)"
  "created_epoch (header_of (note_abandoned off f)) = created_epoch (header_of f)"
  "tombstone_leaf_cnt (header_of (note_abandoned off f)) = tombstone_leaf_cnt (header_of f)"
  "num_slots (header_of (note_abandoned off f)) = num_slots (header_of f)"
  "HEADER_SIZE \<le> i \<Longrightarrow> note_abandoned off f i = f i"
  by (simp_all add: note_abandoned_def Let_def)

lemma frame_ok_note_abandoned [simp]:
  "frame_ok (note_abandoned off f) = frame_ok f" "cursor (note_abandoned off f) = cursor f"
  by (simp_all add: frame_ok_def cursor_def note_abandoned_def Let_def)

lemma ntype_at_poke_tag:
  "off + 1 < PAGE_SIZE \<Longrightarrow> f (off + 1) = as_u8 t \<Longrightarrow> ntype_at f off = Some t"
  by (simp add: ntype_at_def ntype_at_offset_def)

lemma body_at_offset_fixed:
  assumes "f (off + 1) = as_u8 t" "t \<noteq> Invalid" "t \<noteq> Leaf" "off + size_of_node t \<le> PAGE_SIZE"
  shows "body_at_offset f off = Some (slice f off (size_of_node t))"
    "body_at_offset_mut f off = Some (size_of_node t)" "ntype_at f off = Some t"
  using assms size_of_node_bounds [OF assms(2)]
  by (auto simp: body_at_offset_def body_at_offset_mut_def ntype_at_def ntype_at_offset_def)

lemma body_at_offset_leaf:
  assumes "f (off + 1) = as_u8 Leaf" "off + leaf_body_size (unat (key_len l)) (unat (value_len l)) \<le> PAGE_SIZE"
    "leaf_dec (slice f off 16) = l"
  defines "n \<equiv> leaf_body_size (unat (key_len l)) (unat (value_len l))"
  shows "body_at_offset f off = Some (slice f off n)" "body_at_offset_mut f off = Some n"
    "ntype_at f off = Some Leaf"
proof -
  have n: "16 \<le> n" using leaf_body_size_bounds(1) [of "unat (key_len l)" "unat (value_len l)"]
    unsigned_less [of "key_len l", where ?'a = nat] unsigned_less [of "value_len l", where ?'a = nat]
    by (simp add: n_def)
  have two: "slice f (off + 2) 2 = [f (off + 2), f (off + 3)]" "slice f (off + 4) 2 = [f (off + 4), f (off + 5)]"
    by (simp_all add: slice_def numeral_eq_Suc)
  have "leaf_body_len_at f PAGE_SIZE off = Some n"
    using assms(2) n unfolding n_def assms(3) [symmetric]
    by (simp add: leaf_body_len_at_def leaf_dec_def two Let_def del: add_2_eq_Suc')
  with assms n show "body_at_offset f off = Some (slice f off n)" "body_at_offset_mut f off = Some n"
    "ntype_at f off = Some Leaf"
    by (auto simp: body_at_offset_def body_at_offset_mut_def ntype_at_def ntype_at_offset_def)
qed

section \<open>Initialisation\<close>

lemma frame_init_spec:
  assumes "length guid = 16"
  obtains f where "frame_init guid = (Inr (Inr ()), f)" "frame_ok f" "cursor f = DATA_AREA_START + 8"
    "root_slot (header_of f) = encode_child_off DATA_AREA_START" "blob_guid (header_of f) = guid"
    "f (DATA_AREA_START + 1) = as_u8 EmptyRoot" "tombstone_leaf_cnt (header_of f) = 0"
    "num_slots (header_of f) = 1"
proof -
  define f1 :: frame where
    "f1 = header_mut (\<lambda>h. h\<lparr> blob_guid := guid, space_used := word_of_nat DATA_AREA_START \<rparr>) (\<lambda>_. 0)"
  have z: "slice (\<lambda>_. 0) a n = replicate n 0" for a n :: nat
    by (simp add: slice_def map_replicate_const)
  have zero: "u16_of_bytes [0, 0] = 0" "u32_of_bytes (replicate 4 0) = 0"
    by (simp_all add: u16_of_bytes_def u32_of_bytes_def numeral_eq_Suc)
  have h0: "num_slots (header_of (\<lambda>_. 0)) = 0" "free_list_head (header_of (\<lambda>_. 0)) = replicate 8 0"
    "tombstone_leaf_cnt (header_of (\<lambda>_. 0)) = 0"
    by (simp_all add: header_of_def z zero) (simp_all add: numeral_eq_Suc zero [unfolded numeral_eq_Suc])
  have ok1: "frame_ok f1" and c1: "cursor f1 = DATA_AREA_START"
    using assms h0 by (simp_all add: f1_def frame_ok_def cursor_header_mut geometry)
  have er: "EmptyRoot \<noteq> Invalid" by simp
  show ?thesis
    using ok1 er
  proof (cases rule: alloc_node_cases)
    case (bump slot f2)
    define f3 where "f3 = poke f2 (DATA_AREA_START + 1) [as_u8 EmptyRoot]"
    define f4 where "f4 = header_mut (\<lambda>h. h\<lparr> root_slot := encode_child_off DATA_AREA_START \<rparr>) f3"
    have h3: "header_of f3 = header_of f2" by (simp add: f3_def header_of_poke geometry)
    have b: "bytes_at_mut f2 DATA_AREA_START 8" by (simp add: bytes_at_mut_def geometry)
    have "frame_init guid = (Inr (Inr ()), f4)"
      using bump b by (simp add: frame_init_def Let_def f1_def [symmetric] c1 f3_def f4_def)
    moreover have "frame_ok f4" "cursor f4 = DATA_AREA_START + 8" "blob_guid (header_of f4) = guid"
      "tombstone_leaf_cnt (header_of f4) = 0" "num_slots (header_of f4) = 1"
      using bump(2) assms h0 c1
      by (auto simp: f4_def bumped_def frame_ok_def cursor_header_mut h3) (auto simp: cursor_def f1_def)
    ultimately show ?thesis
      using that by (simp add: f4_def f3_def geometry poke_inside)
  qed (use c1 h0 assms in \<open>auto simp: f1_def reserve_def SPILLOVER_RESERVATION_def geometry\<close>)
qed

section \<open>Free lists\<close>

text \<open>Freeing pushes a slot on the list of its type and the next allocation of that type pops it:
  the slot, its offset and its type are restored.\<close>

lemma alloc_after_free:
  assumes e: "slot_entry f s = Some (slot_live t off)" and t: "t \<noteq> Invalid" "t \<noteq> Blob"
    and off: "8 dvd off" "off < PAGE_SIZE"
    and head: "unat (free_list_head (header_of f) ! free_list_class t) < 2 ^ 15"
    and free: "free_node s f = (r, f1)"
  shows "r = Inr ()"
    and "\<exists>f2. alloc_node t f1 = (Inr s, f2) \<and> slot_entry f2 s = Some (slot_live t off)
           \<and> free_list_head (header_of f2) = free_list_head (header_of f)
           \<and> space_used (header_of f2) = space_used (header_of f)"
proof -
  let ?c = "free_list_class t"
  have c: "?c < 8" by (cases t) (auto simp: free_list_class_def)
  have s: "s \<noteq> 0" "s \<le> num_slots (header_of f)"
    using e by (auto simp: slot_entry_def Let_def split: if_splits)
  define fe where "fe = slot_freed (free_list_head (header_of f) ! ?c) off"
  have "free_node s f = (Inr (), header_mut (\<lambda>h. h\<lparr> free_list_head := (free_list_head h)[?c := s] \<rparr>) (write_slot_entry s fe f))"
    by (simp add: free_node_def free_node_inner_def Let_def fe_def byte_offset_live [OF off] e t)
  then have f1: "f1 = header_mut (\<lambda>h. h\<lparr> free_list_head := (free_list_head h)[?c := s] \<rparr>) (write_slot_entry s fe f)"
    and r: "r = Inr ()"
    using free by simp_all
  show "r = Inr ()" by (fact r)
  have h1: "header_of f1 = (header_of f)\<lparr> free_list_head := (free_list_head (header_of f))[?c := s] \<rparr>"
    by (simp add: f1 header_wf_def)
  have e1: "slot_entry f1 s = Some fe"
    using s head off
    by (simp add: f1 slot_entry_header_mut header_wf_def fe_def slot_freed_round_trip not_less)
  have nf: "next_free fe = free_list_head (header_of f) ! ?c" "byte_offset fe = off"
    using off by (simp_all add: fe_def byte_offset_freed next_free_def) (simp add: slot_freed_def)
  define f2 where "f2 = snd (alloc_from_free_list ?c t f1)"
  have inner: "alloc_node_inner t f1 = (Inr s, f2)"
    using t s c e1 nf by (simp add: alloc_node_inner_def h1 f2_def alloc_from_free_list_def Let_def)
  have h2: "header_of f2 = (header_of f)\<lparr> gap_space := gap_space (header_of f) + word_of_nat (size_of_node t) \<rparr>"
    using c e1 nf by (simp add: f2_def alloc_from_free_list_def Let_def h1 header_wf_def)
  have e2: "slot_entry f2 s = Some (slot_live t off)"
    using s c e1 nf off
    by (simp add: f2_def alloc_from_free_list_def Let_def h1 header_wf_def slot_entry_header_mut not_less
        slot_live_round_trip)
  show "\<exists>f2. alloc_node t f1 = (Inr s, f2) \<and> slot_entry f2 s = Some (slot_live t off)
           \<and> free_list_head (header_of f2) = free_list_head (header_of f)
           \<and> space_used (header_of f2) = space_used (header_of f)"
    using t s e2 by (auto simp: alloc_node_def inner Let_def h2 slot_entry_header_mut) (auto simp: slot_entry_def h2 Let_def)
qed

end
