(* ===== verification/Frame_Monad.thy ===== *)
theory Frame_Monad
  imports Blob_Frame
begin

text \<open>Frame operations thread the frame and may stop with a fault.  The frame survives a fault: a
  Rust operation that returns \<^verbatim>\<open>Err\<close> after mutating its \<^verbatim>\<open>&mut BlobFrame\<close> leaves those mutations in
  place, and the model keeps them.\<close>

type_synonym 'a fop = "frame \<Rightarrow> 'a result \<times> frame"

definition ret :: "'a \<Rightarrow> 'a fop" where
  "ret a f = (Inr a, f)"

definition throw :: "error \<Rightarrow> 'a fop" where
  "throw e f = (Inl (Fail e), f)"

definition panic :: "string \<Rightarrow> 'a fop" where
  "panic msg f = (Inl (Panic msg), f)"

definition sbind :: "'a fop \<Rightarrow> ('a \<Rightarrow> 'b fop) \<Rightarrow> 'b fop" where
  "sbind m k f = (case m f of (Inl e, f') \<Rightarrow> (Inl e, f') | (Inr a, f') \<Rightarrow> k a f')"

definition then_do :: "'a fop \<Rightarrow> 'b fop \<Rightarrow> 'b fop" where
  "then_do m k = sbind m (\<lambda>_. k)"

text \<open>A read borrows the frame; an infallible mutation updates it; an allocation converts its error
  as \<^verbatim>\<open>From<AllocError>\<close> does.\<close>

definition reads :: "(frame \<Rightarrow> 'a result) \<Rightarrow> 'a fop" where
  "reads g f = (g f, f)"

definition modify :: "(frame \<Rightarrow> frame) \<Rightarrow> unit fop" where
  "modify g f = (Inr (), g f)"

definition allocs :: "(frame \<Rightarrow> (AllocError + 'a) \<times> frame) \<Rightarrow> 'a fop" where
  "allocs g f = (case g f of (Inl e, f') \<Rightarrow> (Inl (Fail (Alloc e)), f') | (Inr a, f') \<Rightarrow> (Inr a, f'))"

lemmas fop_defs = ret_def throw_def panic_def sbind_def then_do_def reads_def modify_def allocs_def

lemma sbind_ret [simp]: "sbind (ret a) k = k a"
  by (rule ext) (simp add: fop_defs)

lemma sbind_Inr: "m f = (Inr a, f') \<Longrightarrow> sbind m k f = k a f'"
  by (simp add: sbind_def)

lemma sbind_Inl: "m f = (Inl e, f') \<Longrightarrow> sbind m k f = (Inl e, f')"
  by (simp add: sbind_def)

lemma sbind_assoc: "sbind (sbind m k) l = sbind m (\<lambda>x. sbind (k x) l)"
  by (rule ext) (auto simp: sbind_def split: prod.splits sum.splits)

lemma sbind_eq:
  "sbind m k f = (r, f'') \<longleftrightarrow>
    (\<exists>e. m f = (Inl e, f'') \<and> r = Inl e) \<or> (\<exists>a f'. m f = (Inr a, f') \<and> k a f' = (r, f''))"
  by (auto simp: sbind_def split: prod.splits sum.splits)

section \<open>Frame steps\<close>

text \<open>\<open>frame_step R f f'\<close>: the walker went from \<open>f\<close> to \<open>f'\<close>.  The bump cursor only moves up, the bytes
  between the two cursors are new, and among the old data bytes only those in \<open>R\<close> changed.  The
  header keeps its root and its identity.\<close>

definition frame_step :: "nat set \<Rightarrow> frame \<Rightarrow> frame \<Rightarrow> bool" where
  "frame_step R f f' =
    (frame_ok f' \<and> cursor f \<le> cursor f'
     \<and> (\<forall>i. DATA_AREA_START \<le> i \<longrightarrow> i \<notin> R \<longrightarrow> \<not> (cursor f \<le> i \<and> i < cursor f') \<longrightarrow> f' i = f i)
     \<and> root_slot (header_of f') = root_slot (header_of f)
     \<and> blob_guid (header_of f') = blob_guid (header_of f)
     \<and> created_epoch (header_of f') = created_epoch (header_of f))"

lemma frame_step_refl [simp]: "frame_ok f \<Longrightarrow> frame_step R f f"
  by (simp add: frame_step_def)

lemma frame_step_mono: "frame_step R f f' \<Longrightarrow> R \<subseteq> R' \<Longrightarrow> frame_step R' f f'"
  by (auto simp: frame_step_def)

lemma frame_step_trans:
  assumes "frame_step R f f'" "frame_step R' f' f''"
    and "\<And>i. i \<in> R' \<Longrightarrow> i \<in> R \<or> cursor f \<le> i \<and> i < cursor f''"
  shows "frame_step R f f''"
proof -
  have c: "cursor f \<le> cursor f'" "cursor f' \<le> cursor f''" using assms by (auto simp: frame_step_def)
  have "f'' i = f i" if i: "DATA_AREA_START \<le> i" "i \<notin> R" "\<not> (cursor f \<le> i \<and> i < cursor f'')" for i
  proof -
    have "i \<notin> R'" using assms(3) i by blast
    moreover have "\<not> (cursor f' \<le> i \<and> i < cursor f'')" "\<not> (cursor f \<le> i \<and> i < cursor f')"
      using i(3) c by auto
    ultimately show ?thesis using assms(1,2) i(1,2) by (simp add: frame_step_def)
  qed
  then show ?thesis using assms(1,2) c by (auto simp: frame_step_def)
qed

lemma frame_step_ok: "frame_step R f f' \<Longrightarrow> frame_ok f'" "frame_step R f f' \<Longrightarrow> cursor f \<le> cursor f'"
  by (simp_all add: frame_step_def)

lemma bumped_step: "bumped n f f' \<Longrightarrow> frame_step {} f f'"
  by (auto simp: bumped_def frame_step_def)

lemma note_abandoned_step: "frame_ok f \<Longrightarrow> frame_step {} f (note_abandoned off f)"
  by (simp add: frame_step_def geometry)

lemma frame_ok_poke [simp]:
  "DATA_AREA_START \<le> off \<Longrightarrow> frame_ok (poke f off bs) = frame_ok f"
  "DATA_AREA_START \<le> off \<Longrightarrow> cursor (poke f off bs) = cursor f"
  "DATA_AREA_START \<le> off \<Longrightarrow> header_of (poke f off bs) = header_of f"
  by (simp_all add: frame_ok_def cursor_def header_of_poke geometry)

lemma poke_step:
  "frame_ok f \<Longrightarrow> DATA_AREA_START \<le> off \<Longrightarrow> frame_step {off ..< off + length bs} f (poke f off bs)"
  by (auto simp: frame_step_def intro!: poke_outside)

text \<open>Allocating a fixed-size node and resolving its slot: either the frame is unchanged and the
  error is an allocation error, or the node lies at the old cursor.\<close>

lemma slice_step:
  "frame_step R f f' \<Longrightarrow> DATA_AREA_START \<le> off \<Longrightarrow> off + n \<le> cursor f \<Longrightarrow>
   {off ..< off + n} \<inter> R = {} \<Longrightarrow> slice f' off n = slice f off n"
proof (rule slice_eqI)
  fix i assume a: "frame_step R f f'" "DATA_AREA_START \<le> off" "off + n \<le> cursor f"
    "{off ..< off + n} \<inter> R = {}" "i < n"
  then have "off + i \<in> {off ..< off + n}" by simp
  then have "off + i \<notin> R" using a(4) by blast
  with a show "f' (off + i) = f (off + i)" unfolding frame_step_def by auto
qed

end
