(* ===== verification/Simd.thy ===== *)
theory Simd
  imports Holt_Prelude
begin

text \<open>The byte-scan kernels of \<^verbatim>\<open>src/src/engine/simd.rs\<close> for every target the source compiles to.  A
  vector register is the list of its lanes, a compare yields a lane list of booleans, and
  \<^verbatim>\<open>movemask\<close> packs lane \<open>i\<close> into bit \<open>i\<close>.  The NEON path is modelled down to the \<^verbatim>\<open>shrn\<close> narrowing and
  the SWAR compaction of the nibble mask.  Every kernel is shown to compute the scalar
  specification.\<close>

section \<open>Targets and bit scans\<close>

text \<open>The target architecture; on x86-64 the flag is \<^verbatim>\<open>avx2_available()\<close>.\<close>

datatype target = X86_64 bool | Aarch64 | OtherArch

definition trailing_zeros :: "'a::len word \<Rightarrow> nat" where
  "trailing_zeros w = length (takeWhile (\<lambda>i. \<not> bit w i) [0 ..< LENGTH('a)])"

definition trailing_ones :: "'a::len word \<Rightarrow> nat" where
  "trailing_ones w = length (takeWhile (bit w) [0 ..< LENGTH('a)])"

definition movemask :: "bool list \<Rightarrow> 'a::len word" where
  "movemask lanes = horner_sum of_bool 2 lanes"

text \<open>Little-endian loads and lane compares.\<close>

definition load :: "'b list \<Rightarrow> nat \<Rightarrow> nat \<Rightarrow> 'b list" where
  "load xs i n = take n (drop i xs)"

definition cmpeq :: "'b list \<Rightarrow> 'b list \<Rightarrow> bool list" where
  "cmpeq a b = map2 (=) a b"

section \<open>x86-64 kernels\<close>

definition x86_cmp_16_bytes_bitmask :: "bytes \<Rightarrow> bytes \<Rightarrow> u32" where
  "x86_cmp_16_bytes_bitmask va vb = movemask (cmpeq va vb)"

definition x86_cmp_32_bytes_bitmask :: "bytes \<Rightarrow> bytes \<Rightarrow> u32" where
  "x86_cmp_32_bytes_bitmask va vb = movemask (cmpeq va vb)"

definition x86_cmp_byte_eq_mask_16 :: "bytes \<Rightarrow> u8 \<Rightarrow> u32" where
  "x86_cmp_byte_eq_mask_16 vec needle = movemask (cmpeq vec (replicate 16 needle))"

definition x86_cmp_byte_eq_mask_32 :: "bytes \<Rightarrow> u8 \<Rightarrow> u32" where
  "x86_cmp_byte_eq_mask_32 vec needle = movemask (cmpeq vec (replicate 32 needle))"

definition x86_find_byte_in_16 :: "bytes \<Rightarrow> u8 \<Rightarrow> u8 \<Rightarrow> u8 option" where
  "x86_find_byte_in_16 keys cnt byte =
    (let msk = movemask (cmpeq keys (replicate 16 byte)) :: u32;
         count_mask = (if cnt \<ge> 16 then 0xFFFF else push_bit (unat cnt) 1 - 1);
         masked = Bit_Operations.and msk count_mask
     in if masked = 0 then None else Some (word_of_nat (trailing_zeros masked)))"

definition x86_cmp_byte_neq_zero_mask_16 :: "bytes \<Rightarrow> u32" where
  "x86_cmp_byte_neq_zero_mask_16 vec =
    (let zero_mask = movemask (cmpeq vec (replicate 16 0)) :: u32
     in Bit_Operations.and (Bit_Operations.not zero_mask) 0xFFFF)"

definition x86_cmp_byte_neq_zero_mask_32 :: "bytes \<Rightarrow> u32" where
  "x86_cmp_byte_neq_zero_mask_32 vec =
    (let zero_mask = movemask (cmpeq vec (replicate 32 0)) :: u32
     in Bit_Operations.not zero_mask)"

text \<open>A \<^verbatim>\<open>u16\<close> compare fills both bytes of a lane, so the byte movemask sees every lane twice.\<close>

definition both_bytes :: "bool list \<Rightarrow> bool list" where
  "both_bytes lanes = concat (map (\<lambda>b. [b, b]) lanes)"

definition x86_cmp_u16_neq_zero_mask_8 :: "u16 list \<Rightarrow> u32" where
  "x86_cmp_u16_neq_zero_mask_8 vec =
    (let zero_mask = movemask (both_bytes (cmpeq vec (replicate 8 0))) :: u32
     in Bit_Operations.and (Bit_Operations.not zero_mask) 0x5555)"

definition x86_cmp_u16_neq_zero_mask_16 :: "u16 list \<Rightarrow> u32" where
  "x86_cmp_u16_neq_zero_mask_16 vec =
    (let zero_mask = movemask (both_bytes (cmpeq vec (replicate 16 0))) :: u32
     in Bit_Operations.and (Bit_Operations.not zero_mask) 0x55555555)"

section \<open>aarch64 kernels\<close>

definition lane_byte :: "bool \<Rightarrow> u8" where
  "lane_byte b = (if b then 0xFF else 0)"

text \<open>\<^verbatim>\<open>vshrn_n_u16::<4>\<close>: every pair of bytes is a \<^verbatim>\<open>u16\<close>, shifted right by four and narrowed.\<close>

fun vshrn_4 :: "bytes \<Rightarrow> bytes" where
  "vshrn_4 (lo # hi # bs) = ucast (drop_bit 4 (u16_of_bytes [lo, hi])) # vshrn_4 bs"
| "vshrn_4 _ = []"

definition byte_mask_to_nibble_u64 :: "bytes \<Rightarrow> u64" where
  "byte_mask_to_nibble_u64 cmp = u64_of_bytes (vshrn_4 cmp)"

definition nibble_mask_to_bitmask_16 :: "u64 \<Rightarrow> u32" where
  "nibble_mask_to_bitmask_16 nib =
    (let x = Bit_Operations.and nib 0x1111111111111111;
         x = Bit_Operations.and (Bit_Operations.or x (drop_bit 3 x)) 0x0303030303030303;
         x = Bit_Operations.and (Bit_Operations.or x (drop_bit 6 x)) 0x000f000f000f000f;
         x = Bit_Operations.and (Bit_Operations.or x (drop_bit 12 x)) 0x000000ff000000ff;
         x = Bit_Operations.and (Bit_Operations.or x (drop_bit 24 x)) 0x000000000000ffff
     in ucast x)"

definition arm_cmp_16_bytes_nibble :: "bytes \<Rightarrow> bytes \<Rightarrow> u64" where
  "arm_cmp_16_bytes_nibble va vb = byte_mask_to_nibble_u64 (map lane_byte (cmpeq va vb))"

definition arm_find_byte_in_16 :: "bytes \<Rightarrow> u8 \<Rightarrow> u8 \<Rightarrow> u8 option" where
  "arm_find_byte_in_16 keys cnt byte =
    (let mask64 = byte_mask_to_nibble_u64 (map lane_byte (cmpeq keys (replicate 16 byte)));
         count_bits = min (unat cnt) 16 * 4;
         count_mask = (if count_bits = 64 then - 1 else push_bit count_bits 1 - 1);
         masked = Bit_Operations.and mask64 count_mask
     in if masked = 0 then None else Some (word_of_nat (trailing_zeros masked div 4)))"

definition arm_cmp_byte_eq_mask_16 :: "bytes \<Rightarrow> u8 \<Rightarrow> u32" where
  "arm_cmp_byte_eq_mask_16 vec needle =
    nibble_mask_to_bitmask_16
      (byte_mask_to_nibble_u64 (map lane_byte (cmpeq vec (replicate 16 needle))))"

definition arm_cmp_byte_neq_zero_mask_16 :: "bytes \<Rightarrow> u32" where
  "arm_cmp_byte_neq_zero_mask_16 vec =
    (let cmp_neq_zero = map Bit_Operations.not (map lane_byte (cmpeq vec (replicate 16 0)))
     in nibble_mask_to_bitmask_16 (byte_mask_to_nibble_u64 cmp_neq_zero))"

definition arm_cmp_u16_neq_zero_mask_8 :: "u16 list \<Rightarrow> u32" where
  "arm_cmp_u16_neq_zero_mask_8 vec =
    (let as_bytes = map Bit_Operations.not (map lane_byte (both_bytes (cmpeq vec (replicate 8 0))))
     in Bit_Operations.and (nibble_mask_to_bitmask_16 (byte_mask_to_nibble_u64 as_bytes)) 0x5555)"

definition arm_cmp_u16_neq_zero_mask_16 :: "u16 list \<Rightarrow> u32" where
  "arm_cmp_u16_neq_zero_mask_16 vec =
    (let lo = arm_cmp_u16_neq_zero_mask_8 (take 8 vec);
         hi = arm_cmp_u16_neq_zero_mask_8 (drop 8 vec)
     in Bit_Operations.or lo (push_bit 16 hi))"

section \<open>Loops\<close>

text \<open>\<open>chunk_loop\<close> is the loop \<^verbatim>\<open>while i + w <= len { probe; i += w }\<close>: it leaves with the index the
  probe found (\<open>Inl\<close>) or falls through with the final \<open>i\<close> (\<open>Inr\<close>).\<close>

function chunk_loop :: "nat \<Rightarrow> nat \<Rightarrow> (nat \<Rightarrow> nat option) \<Rightarrow> nat \<Rightarrow> nat + nat" where
  "chunk_loop w len probe i =
    (if 0 < w \<and> i + w \<le> len then
       case probe i of
         Some j \<Rightarrow> Inl (i + j)
       | None \<Rightarrow> chunk_loop w len probe (i + w)
     else Inr i)"
  by auto
termination by (relation "measure (\<lambda>(w, len, probe, i). len - i)") auto

function scan_loop :: "(nat \<Rightarrow> bool) \<Rightarrow> nat \<Rightarrow> nat \<Rightarrow> nat option" where
  "scan_loop P len i = (if i < len then if P i then Some i else scan_loop P len (i + 1) else None)"
  by auto
termination by (relation "measure (\<lambda>(P, len, i). len - i)") auto

function skip_loop :: "(nat \<Rightarrow> bool) \<Rightarrow> nat \<Rightarrow> nat \<Rightarrow> nat" where
  "skip_loop P limit i = (if i < limit \<and> P i then skip_loop P limit (i + 1) else i)"
  by auto
termination by (relation "measure (\<lambda>(P, limit, i). limit - i)") auto

declare chunk_loop.simps [simp del] scan_loop.simps [simp del] skip_loop.simps [simp del]

section \<open>Public kernels\<close>

text \<open>A probe of a chunk: \<open>None\<close> when the mask is empty, else the lane of its lowest set bit.\<close>

definition probe_mask :: "nat \<Rightarrow> u32 \<Rightarrow> nat option" where
  "probe_mask d msk = (if msk \<noteq> 0 then Some (trailing_zeros msk div d) else None)"

definition node16_find_byte_scalar :: "bytes \<Rightarrow> u8 \<Rightarrow> u8 \<Rightarrow> u8 option" where
  "node16_find_byte_scalar keys cnt byte =
    (let n = min (unat cnt) 16
     in map_option word_of_nat (scan_loop (\<lambda>i. keys ! i = byte) n 0))"

definition node16_find_byte :: "target \<Rightarrow> bytes \<Rightarrow> u8 \<Rightarrow> u8 \<Rightarrow> u8 option" where
  "node16_find_byte t keys cnt byte =
    (case t of
       X86_64 _ \<Rightarrow> x86_find_byte_in_16 keys cnt byte
     | Aarch64 \<Rightarrow> arm_find_byte_in_16 keys cnt byte
     | OtherArch \<Rightarrow> node16_find_byte_scalar keys cnt byte)"

definition longest_common_prefix_tail :: "bytes \<Rightarrow> bytes \<Rightarrow> nat \<Rightarrow> nat \<Rightarrow> nat" where
  "longest_common_prefix_tail a b i limit =
    (case chunk_loop 8 limit
            (\<lambda>i. let x = Bit_Operations.xor (u64_of_bytes (load a i 8)) (u64_of_bytes (load b i 8))
                 in if x \<noteq> 0 then Some (trailing_zeros x div 8) else None) i of
       Inl r \<Rightarrow> r
     | Inr i \<Rightarrow> skip_loop (\<lambda>i. a ! i = b ! i) limit i)"

definition longest_common_prefix :: "target \<Rightarrow> bytes \<Rightarrow> bytes \<Rightarrow> nat" where
  "longest_common_prefix t a b =
    (let limit = min (length a) (length b) in
     case (if t = X86_64 True \<and> limit \<ge> 32 then
             chunk_loop 32 limit
               (\<lambda>i. let msk = x86_cmp_32_bytes_bitmask (load a i 32) (load b i 32)
                    in if msk \<noteq> - 1 then Some (trailing_ones msk) else None) 0
           else Inr 0) of
       Inl r \<Rightarrow> r
     | Inr i \<Rightarrow>
        (case (case t of
                 X86_64 _ \<Rightarrow>
                   chunk_loop 16 limit
                     (\<lambda>i. let msk = x86_cmp_16_bytes_bitmask (load a i 16) (load b i 16)
                          in if msk \<noteq> 0xFFFF then Some (trailing_ones msk) else None) i
               | Aarch64 \<Rightarrow>
                   chunk_loop 16 limit
                     (\<lambda>i. let msk = arm_cmp_16_bytes_nibble (load a i 16) (load b i 16)
                          in if msk \<noteq> - 1 then Some (trailing_ones msk div 4) else None) i
               | OtherArch \<Rightarrow> Inr i) of
           Inl r \<Rightarrow> r
         | Inr i \<Rightarrow> longest_common_prefix_tail a b i limit))"

definition byte_eq_mask_16 :: "target \<Rightarrow> bytes \<Rightarrow> u8 \<Rightarrow> u32" where
  "byte_eq_mask_16 t vec needle =
    (if t = Aarch64 then arm_cmp_byte_eq_mask_16 vec needle else x86_cmp_byte_eq_mask_16 vec needle)"

definition nonzero_byte_mask_16 :: "target \<Rightarrow> bytes \<Rightarrow> u32" where
  "nonzero_byte_mask_16 t vec =
    (if t = Aarch64 then arm_cmp_byte_neq_zero_mask_16 vec else x86_cmp_byte_neq_zero_mask_16 vec)"

definition nonzero_u16_mask_8 :: "target \<Rightarrow> u16 list \<Rightarrow> u32" where
  "nonzero_u16_mask_8 t vec =
    (if t = Aarch64 then arm_cmp_u16_neq_zero_mask_8 vec else x86_cmp_u16_neq_zero_mask_8 vec)"

definition find_byte :: "target \<Rightarrow> bytes \<Rightarrow> u8 \<Rightarrow> nat \<Rightarrow> nat option" where
  "find_byte t bs needle start =
    (let len = length bs in
     if start \<ge> len then None
     else
       case (if t = X86_64 True \<and> len - start \<ge> 32 then
               chunk_loop 32 len (\<lambda>i. probe_mask 1 (x86_cmp_byte_eq_mask_32 (load bs i 32) needle)) start
             else Inr start) of
         Inl r \<Rightarrow> Some r
       | Inr i \<Rightarrow>
          (case (if t \<noteq> OtherArch then
                   chunk_loop 16 len (\<lambda>i. probe_mask 1 (byte_eq_mask_16 t (load bs i 16) needle)) i
                 else Inr i) of
             Inl r \<Rightarrow> Some r
           | Inr i \<Rightarrow> scan_loop (\<lambda>i. bs ! i = needle) len i))"

definition find_next_nonzero_byte :: "target \<Rightarrow> bytes \<Rightarrow> nat \<Rightarrow> nat option" where
  "find_next_nonzero_byte t bs start =
    (let len = length bs in
     if start \<ge> len then None
     else
       case (if t = X86_64 True \<and> len - start \<ge> 32 then
               chunk_loop 32 len (\<lambda>i. probe_mask 1 (x86_cmp_byte_neq_zero_mask_32 (load bs i 32))) start
             else Inr start) of
         Inl r \<Rightarrow> Some r
       | Inr i \<Rightarrow>
          (case (if t \<noteq> OtherArch then
                   chunk_loop 16 len (\<lambda>i. probe_mask 1 (nonzero_byte_mask_16 t (load bs i 16))) i
                 else Inr i) of
             Inl r \<Rightarrow> Some r
           | Inr i \<Rightarrow> scan_loop (\<lambda>i. bs ! i \<noteq> 0) len i))"

definition find_next_nonzero_u16 :: "target \<Rightarrow> u16 list \<Rightarrow> nat \<Rightarrow> nat option" where
  "find_next_nonzero_u16 t ws start =
    (let len = length ws in
     if start \<ge> len then None
     else
       case (if t = X86_64 True \<and> len - start \<ge> 16 then
               chunk_loop 16 len (\<lambda>i. probe_mask 2 (x86_cmp_u16_neq_zero_mask_16 (load ws i 16))) start
             else if t = Aarch64 then
               chunk_loop 16 len (\<lambda>i. probe_mask 2 (arm_cmp_u16_neq_zero_mask_16 (load ws i 16))) start
             else Inr start) of
         Inl r \<Rightarrow> Some r
       | Inr i \<Rightarrow>
          (case (if t \<noteq> OtherArch then
                   chunk_loop 8 len (\<lambda>i. probe_mask 2 (nonzero_u16_mask_8 t (load ws i 8))) i
                 else Inr i) of
             Inl r \<Rightarrow> Some r
           | Inr i \<Rightarrow> scan_loop (\<lambda>i. ws ! i \<noteq> 0) len i))"

section \<open>Loop specifications\<close>

lemma all_from_step: "(\<forall>j. i \<le> j \<longrightarrow> Q j) \<longleftrightarrow> Q i \<and> (\<forall>j. Suc i \<le> j \<longrightarrow> Q j)"
  by (metis Suc_leD antisym_conv2 le_refl less_eq_Suc_le)

lemma scan_loop_None: "scan_loop P len i = None \<longleftrightarrow> (\<forall>j. i \<le> j \<longrightarrow> j < len \<longrightarrow> \<not> P j)"
proof (induction P len i rule: scan_loop.induct)
  case (1 P len i)
  show ?case
  proof (cases "i < len \<and> \<not> P i")
    case True
    with 1 show ?thesis by (subst scan_loop.simps, subst all_from_step) simp
  qed (subst scan_loop.simps, auto)
qed

lemma scan_loop_Some:
  "scan_loop P len i = Some k \<longleftrightarrow> i \<le> k \<and> k < len \<and> P k \<and> (\<forall>j. i \<le> j \<longrightarrow> j < k \<longrightarrow> \<not> P j)"
proof (induction P len i rule: scan_loop.induct)
  case (1 P len i)
  show ?case
  proof (cases "i < len \<and> \<not> P i")
    case True
    with 1 show ?thesis
      by (subst scan_loop.simps, subst all_from_step) (auto simp: Suc_le_eq le_eq_less_or_eq)
  qed (subst scan_loop.simps, auto simp: le_eq_less_or_eq)
qed

lemma scan_loop_find: "scan_loop P len i = find P [i ..< len]"
proof (induction P len i rule: scan_loop.induct)
  case (1 P len i)
  then show ?case by (subst scan_loop.simps) (auto simp: upt_conv_Cons)
qed

lemma scan_loop_skip:
  "(\<And>j. i \<le> j \<Longrightarrow> j < i' \<Longrightarrow> \<not> P j) \<Longrightarrow> i \<le> i' \<Longrightarrow> scan_loop P len i = scan_loop P len i'"
proof (induction "i' - i" arbitrary: i)
  case (Suc n)
  then have "\<not> P i" "i < i'" by auto
  then have "scan_loop P len i = scan_loop P len (i + 1)"
    by (subst scan_loop.simps) (auto simp: scan_loop.simps)
  also have "\<dots> = scan_loop P len i'" using Suc by (intro Suc(1)) auto
  finally show ?case .
qed simp

text \<open>A probe is right for \<open>P\<close> when it finds the first lane satisfying \<open>P\<close> and misses only empty
  windows.\<close>

definition probe_ok :: "(nat \<Rightarrow> bool) \<Rightarrow> nat \<Rightarrow> nat \<Rightarrow> (nat \<Rightarrow> nat option) \<Rightarrow> bool" where
  "probe_ok P w len probe =
    (\<forall>i. i + w \<le> len \<longrightarrow>
       (case probe i of
          None \<Rightarrow> \<forall>k < w. \<not> P (i + k)
        | Some j \<Rightarrow> j < w \<and> P (i + j) \<and> (\<forall>k < j. \<not> P (i + k))))"

lemma chunk_loop_scan:
  assumes "probe_ok P w len probe"
  shows "(case chunk_loop w len probe i of Inl r \<Rightarrow> Some r | Inr i' \<Rightarrow> scan_loop P len i') = scan_loop P len i"
  using assms
proof (induction w len probe i rule: chunk_loop.induct)
  case (1 w len probe i)
  show ?case
  proof (cases "0 < w \<and> i + w \<le> len")
    case True
    show ?thesis
    proof (cases "probe i")
      case None
      then have "\<not> P j" if "i \<le> j" "j < i + w" for j
      proof -
        have "\<forall>k < w. \<not> P (i + k)" using 1(2) True None unfolding probe_ok_def by (auto dest!: spec [of _ i])
        then show ?thesis using that by (auto dest!: spec [of _ "j - i"])
      qed
      then have "scan_loop P len i = scan_loop P len (i + w)" by (intro scan_loop_skip) auto
      then show ?thesis using True None 1 by (subst chunk_loop.simps) simp
    next
      case (Some j)
      then have j: "j < w" "P (i + j)" "\<forall>k < j. \<not> P (i + k)"
        using 1(2) True unfolding probe_ok_def by (auto dest!: spec [of _ i])
      have "\<not> P m" if "i \<le> m" "m < i + j" for m
        using j(3) that by (metis le_add_diff_inverse nat_add_left_cancel_less)
      then have "scan_loop P len i = Some (i + j)"
        using True j unfolding scan_loop_Some by auto
      then show ?thesis using True Some by (subst chunk_loop.simps) simp
    qed
  qed (subst chunk_loop.simps, auto)
qed

section \<open>Mask specifications\<close>

lemma tz_spec:
  assumes "w \<noteq> (0 :: 'a::len word)"
  shows "trailing_zeros w < LENGTH('a)" "bit w (trailing_zeros w)" "\<And>k. k < trailing_zeros w \<Longrightarrow> \<not> bit w k"
proof -
  let ?l = "[0 ..< LENGTH('a)]"
  obtain n where n: "bit w n" using assms by (metis bit_eqI bit_0_eq bot_apply bot_bool_def)
  then have "n < LENGTH('a)" by (rule bit_imp_le_length)
  then have ne: "\<not> (\<forall>i \<in> set ?l. \<not> bit w i)" using n by auto
  then show l: "trailing_zeros w < LENGTH('a)"
    unfolding trailing_zeros_def
    by (metis length_takeWhile_le length_upt minus_nat.diff_0 nat_less_le takeWhile_eq_all_conv takeWhile_eq_take take_all_iff)
  then show "bit w (trailing_zeros w)"
    using nth_length_takeWhile [of "\<lambda>i. \<not> bit w i" ?l] by (simp add: trailing_zeros_def)
  show "\<not> bit w k" if "k < trailing_zeros w" for k
  proof -
    have "takeWhile (\<lambda>i. \<not> bit w i) ?l ! k \<in> set (takeWhile (\<lambda>i. \<not> bit w i) ?l)"
      using that by (simp add: trailing_zeros_def)
    moreover have "takeWhile (\<lambda>i. \<not> bit w i) ?l ! k = k"
      using that l by (simp add: trailing_zeros_def takeWhile_nth)
    ultimately show ?thesis by (auto dest: set_takeWhileD)
  qed
qed

lemma trailing_ones_not: "trailing_ones w = trailing_zeros (Bit_Operations.not w)"
  unfolding trailing_ones_def trailing_zeros_def
  by (rule arg_cong [where f = length], rule takeWhile_cong) (auto simp: bit_not_iff possible_bit_word)

lemma first_lane:
  fixes m :: "'a::len word"
  assumes A1: "\<And>n. n < w * d \<Longrightarrow> bit m n \<Longrightarrow> Q (n div d)"
    and A2: "\<And>k. k < w \<Longrightarrow> Q k \<Longrightarrow> \<exists>n. n div d = k \<and> bit m n"
    and ex: "\<exists>k < w. Q k" and d: "0 < d"
  shows "m \<noteq> 0" "trailing_zeros m div d < w" "Q (trailing_zeros m div d)"
    "\<forall>k < trailing_zeros m div d. \<not> Q k"
proof -
  show m0: "m \<noteq> 0" using A2 ex by fastforce
  note tz = tz_spec [OF m0]
  have le: "trailing_zeros m div d \<le> k" if k: "k < w" "Q k" for k
  proof -
    obtain n where n: "n div d = k" "bit m n" using A2 k by blast
    then have "trailing_zeros m \<le> n" using tz(3) not_le by blast
    then show ?thesis using n(1) div_le_mono by blast
  qed
  then show lt: "trailing_zeros m div d < w" using ex by fastforce
  then show "Q (trailing_zeros m div d)" using tz(2) A1 d by (metis div_less_iff_less_mult)
  show "\<forall>k < trailing_zeros m div d. \<not> Q k" 
  proof (intro allI impI notI)
    fix k assume "k < trailing_zeros m div d" "Q k"
    with le [of k] lt show False by simp
  qed
qed


lemma swar16:
  assumes nib: "\<And>n. bit nib n \<longleftrightarrow> n < 64 \<and> L (n div 4)"
  shows "bit (nibble_mask_to_bitmask_16 nib) n \<longleftrightarrow> n < 16 \<and> L n"
proof (cases "n < 16")
  case True
  then consider "n = 0" | "n = 1" | "n = 2" | "n = 3" | "n = 4" | "n = 5" | "n = 6" | "n = 7" | "n = 8"
    | "n = 9" | "n = 10" | "n = 11" | "n = 12" | "n = 13" | "n = 14" | "n = 15"
    by (auto simp: numeral_eq_Suc less_Suc_eq)
  then show ?thesis
    by cases (simp_all add: nibble_mask_to_bitmask_16_def Let_def bit_simps nib)
next
  case False
  have "(0xffff :: u64) = mask 16" by (simp add: mask_eq_exp_minus_1)
  then have "\<not> bit (0xffff :: u64) n" using False by (simp only: bit_mask_iff) simp
  with False show ?thesis
    by (simp add: nibble_mask_to_bitmask_16_def Let_def bit_and_iff bit_ucast_iff)
qed

lemma bit_movemask [simp]: "bit (movemask L :: 'a::len word) n \<longleftrightarrow> n < LENGTH('a) \<and> n < length L \<and> L ! n"
  by (auto simp: movemask_def bit_horner_sum_bit_word_iff)

lemma bit_uN_of_bytes:
  "length bs = 2 \<Longrightarrow> bit (u16_of_bytes bs) n \<longleftrightarrow> n < 16 \<and> bit (bs ! (n div 8)) (n mod 8)"
  "length bs = 8 \<Longrightarrow> bit (u64_of_bytes bs) n \<longleftrightarrow> n < 64 \<and> bit (bs ! (n div 8)) (n mod 8)"
  by (auto simp: u16_of_bytes_def u64_of_bytes_def bit_simps bit_le_nat)

lemma bit_lane_byte: "bit (lane_byte x) m \<longleftrightarrow> x \<and> m < 8"
proof -
  have "(0xFF :: u8) = mask 8" by (simp add: mask_eq_exp_minus_1)
  then have "bit (0xFF :: u8) m \<longleftrightarrow> m < 8" by (simp only: bit_mask_iff) simp
  then show ?thesis by (simp add: lane_byte_def)
qed

lemma bit_lane_pair:
  assumes "m < 8"
  shows "bit (ucast (drop_bit 4 (u16_of_bytes [lane_byte x, lane_byte y])) :: u8) m \<longleftrightarrow> (if m < 4 then x else y)"
proof -
  have "(4 + m) div 8 = (if m < 4 then 0 else 1)" using assms by presburger
  then show ?thesis
    using assms by (simp add: bit_ucast_iff bit_drop_bit_eq bit_uN_of_bytes bit_lane_byte)
qed

lemma length_vshrn_4 [simp]: "length (vshrn_4 bs) = length bs div 2"
  by (induction bs rule: vshrn_4.induct) auto

lemma bit_vshrn_4:
  "even (length L) \<Longrightarrow> k < length L div 2 \<Longrightarrow> m < 8 \<Longrightarrow>
   bit (vshrn_4 (map lane_byte L) ! k) m \<longleftrightarrow> L ! (2 * k + m div 4)"
proof (induction L arbitrary: k rule: induct_list012)
  case (3 x y L)
  show ?case
  proof (cases k)
    case 0
    then show ?thesis using 3(5) by (simp add: bit_lane_pair)
  next
    case (Suc k')
    with 3 show ?thesis by simp
  qed
qed auto

lemma bit_nibble_mask:
  assumes "length L = 16"
  shows "bit (byte_mask_to_nibble_u64 (map lane_byte L)) n \<longleftrightarrow> n < 64 \<and> L ! (n div 4)"
proof (cases "n < 64")
  case True
  have "2 * (n div 8) + n mod 8 div 4 = n div 4" by presburger
  with True assms show ?thesis by (simp add: byte_mask_to_nibble_u64_def bit_uN_of_bytes bit_vshrn_4)
next
  case False
  then show ?thesis using assms by (simp add: byte_mask_to_nibble_u64_def bit_uN_of_bytes)
qed

lemma map_not_lane_byte: "map Bit_Operations.not (map lane_byte L) = map lane_byte (map Not L)"
  by (simp add: lane_byte_def)

lemma cmpeq_simps [simp]:
  "length (cmpeq a b) = min (length a) (length b)"
  "i < length a \<Longrightarrow> i < length b \<Longrightarrow> cmpeq a b ! i = (a ! i = b ! i)"
  by (simp_all add: cmpeq_def)

lemma both_bytes_simps [simp]:
  "length (both_bytes L) = 2 * length L" "i < 2 * length L \<Longrightarrow> both_bytes L ! i = L ! (i div 2)"
proof -
  show "length (both_bytes L) = 2 * length L" by (induction L) (auto simp: both_bytes_def)
  show "i < 2 * length L \<Longrightarrow> both_bytes L ! i = L ! (i div 2)"
  proof (induction L arbitrary: i rule: rev_induct)
    case (snoc x L)
    have len: "length (both_bytes L) = 2 * length L" by (induction L) (auto simp: both_bytes_def)
    have "both_bytes (L @ [x]) = both_bytes L @ [x, x]" by (simp add: both_bytes_def)
    with snoc len show ?case
      by (auto simp: nth_append less_Suc_eq not_less)
  qed simp
qed

lemma nat_lt_numerals:
  "n < (8::nat) \<Longrightarrow> n \<in> {0,1,2,3,4,5,6,7}"
  "n < (16::nat) \<Longrightarrow> n \<in> {0,1,2,3,4,5,6,7,8,9,10,11,12,13,14,15}"
  by (auto simp: numeral_eq_Suc less_Suc_eq)

lemma bit_5555: "bit (0x5555 :: u32) n \<longleftrightarrow> n < 16 \<and> even n"
proof (cases "n < 16")
  case True
  from nat_lt_numerals(2) [OF True] show ?thesis by (auto simp: bit_simps)
next
  case False
  have "(0x5555 :: u32) = take_bit 16 0x5555" by (simp add: take_bit_eq_mod)
  then have "\<not> bit (0x5555 :: u32) n" using False by (metis bit_take_bit_iff)
  with False show ?thesis by simp
qed
lemma bit_ffff: "bit (0xFFFF :: u32) n \<longleftrightarrow> n < 16"
proof -
  have "(0xFFFF :: u32) = mask 16" by (simp add: mask_eq_exp_minus_1)
  then show ?thesis by (auto simp only: bit_mask_iff) auto
qed

lemma bit_55555555: "bit (0x55555555 :: u32) n \<longleftrightarrow> n < 32 \<and> even n"
proof -
  have "(0x55555555 :: u32) = Bit_Operations.or 0x5555 (push_bit 16 0x5555)" by simp
  then have "bit (0x55555555 :: u32) n \<longleftrightarrow> bit (0x5555 :: u32) n \<or> (16 \<le> n \<and> n < 32 \<and> bit (0x5555 :: u32) (n - 16))"
    by (simp only: bit_or_iff bit_push_bit_iff possible_bit_word) auto
  then show ?thesis unfolding bit_5555 by auto
qed

lemma probe_mask_first:
  assumes bits: "\<And>n. bit m n \<longleftrightarrow> n < w * d \<and> d dvd n \<and> Q (n div d)" and d: "0 < d"
  shows "case probe_mask d m of None \<Rightarrow> \<forall>k < w. \<not> Q k | Some j \<Rightarrow> j < w \<and> Q j \<and> (\<forall>k < j. \<not> Q k)"
proof (cases "\<exists>k < w. Q k")
  case True
  have A2: "\<exists>n. n div d = k \<and> bit m n" if "k < w" "Q k" for k
    using that d by (intro exI [of _ "k * d"]) (simp add: bits)
  have A1: "Q (n div d)" if "n < w * d" "bit m n" for n
    using that by (simp add: bits)
  note fl = first_lane [where Q = Q and m = m and w = w and d = d, OF A1 A2 True d]
  show ?thesis using fl by (simp add: probe_mask_def)
next
  case False
  have "m = 0"
  proof (rule bit_word_eqI)
    fix n show "bit m n = bit (0 :: u32) n"
      using False d by (auto simp: bits div_less_iff_less_mult)
  qed
  with False show ?thesis by (simp add: probe_mask_def)
qed

lemma bits_byte_masks:
  "length v = 16 \<Longrightarrow> bit (x86_cmp_byte_eq_mask_16 v x) n \<longleftrightarrow> n < 16 \<and> v ! n = x"
  "length v = 32 \<Longrightarrow> bit (x86_cmp_byte_eq_mask_32 v x) n \<longleftrightarrow> n < 32 \<and> v ! n = x"
  "length v = 16 \<Longrightarrow> bit (x86_cmp_byte_neq_zero_mask_16 v) n \<longleftrightarrow> n < 16 \<and> v ! n \<noteq> 0"
  "length v = 32 \<Longrightarrow> bit (x86_cmp_byte_neq_zero_mask_32 v) n \<longleftrightarrow> n < 32 \<and> v ! n \<noteq> 0"
  unfolding x86_cmp_byte_eq_mask_16_def x86_cmp_byte_eq_mask_32_def x86_cmp_byte_neq_zero_mask_16_def
    x86_cmp_byte_neq_zero_mask_32_def Let_def bit_and_iff bit_not_iff bit_ffff
  by auto

lemma bits_arm_byte_masks:
  "length v = 16 \<Longrightarrow> bit (arm_cmp_byte_eq_mask_16 v x) n \<longleftrightarrow> n < 16 \<and> v ! n = x"
  "length v = 16 \<Longrightarrow> bit (arm_cmp_byte_neq_zero_mask_16 v) n \<longleftrightarrow> n < 16 \<and> v ! n \<noteq> 0"
  unfolding arm_cmp_byte_eq_mask_16_def arm_cmp_byte_neq_zero_mask_16_def map_not_lane_byte Let_def
  by (subst swar16 [OF bit_nibble_mask]; auto)+

lemma bits_u16_masks:
  "length v = 8 \<Longrightarrow> bit (x86_cmp_u16_neq_zero_mask_8 v) n \<longleftrightarrow> n < 16 \<and> 2 dvd n \<and> v ! (n div 2) \<noteq> 0"
  "length v = 16 \<Longrightarrow> bit (x86_cmp_u16_neq_zero_mask_16 v) n \<longleftrightarrow> n < 32 \<and> 2 dvd n \<and> v ! (n div 2) \<noteq> 0"
  unfolding x86_cmp_u16_neq_zero_mask_8_def x86_cmp_u16_neq_zero_mask_16_def Let_def bit_and_iff
    bit_not_iff bit_5555 bit_55555555
  by auto

lemma bits_arm_u16_mask_8:
  "length v = 8 \<Longrightarrow> bit (arm_cmp_u16_neq_zero_mask_8 v) n \<longleftrightarrow> n < 16 \<and> 2 dvd n \<and> v ! (n div 2) \<noteq> 0"
  unfolding arm_cmp_u16_neq_zero_mask_8_def map_not_lane_byte Let_def bit_and_iff bit_5555
  by (subst swar16 [OF bit_nibble_mask]; auto)

lemma bits_arm_u16_mask_16:
  assumes "length v = 16"
  shows "bit (arm_cmp_u16_neq_zero_mask_16 v) n \<longleftrightarrow> n < 32 \<and> 2 dvd n \<and> v ! (n div 2) \<noteq> 0"
proof (cases "n < 16")
  case True
  with assms show ?thesis
    by (simp add: arm_cmp_u16_neq_zero_mask_16_def Let_def bit_or_iff bit_push_bit_iff bits_arm_u16_mask_8)
next
  case False
  then have "8 + (n - 16) div 2 = n div 2" by presburger
  with assms False show ?thesis
    by (auto simp: arm_cmp_u16_neq_zero_mask_16_def Let_def bit_or_iff bit_push_bit_iff bits_arm_u16_mask_8)
qed

section \<open>The kernels compute the scalar specification\<close>

lemma load_simps [simp]:
  "i + n \<le> length xs \<Longrightarrow> length (load xs i n) = n"
  "i + n \<le> length xs \<Longrightarrow> k < n \<Longrightarrow> load xs i n ! k = xs ! (i + k)"
  by (simp_all add: load_def)

lemma probe_mask_load_ok:
  assumes "\<And>v n. length v = w \<Longrightarrow> bit (f v) n \<longleftrightarrow> n < w * d \<and> d dvd n \<and> Q (v ! (n div d))" "0 < d"
  shows "probe_ok (\<lambda>i. Q (xs ! i)) w (length xs) (\<lambda>i. probe_mask d (f (load xs i w)))"
  unfolding probe_ok_def
proof (intro allI impI)
  fix i assume i: "i + w \<le> length xs"
  let ?m = "f (load xs i w)"
  have "bit ?m n \<longleftrightarrow> n < w * d \<and> d dvd n \<and> Q (xs ! (i + n div d))" for n
    using assms i by (cases "n < w * d") (auto simp: div_less_iff_less_mult)
  from probe_mask_first [OF this assms(2)]
  show "case probe_mask d ?m of None \<Rightarrow> \<forall>k<w. \<not> Q (xs ! (i + k))
      | Some j \<Rightarrow> j < w \<and> Q (xs ! (i + j)) \<and> (\<forall>k<j. \<not> Q (xs ! (i + k)))" .
qed

lemma chunk_stage:
  assumes "probe_ok P w len probe"
  shows "(case (if c then chunk_loop w len probe i else Inr i) of Inl r \<Rightarrow> Some r | Inr i' \<Rightarrow> scan_loop P len i')
     = scan_loop P len i"
  using chunk_loop_scan [OF assms] by simp

lemma find_byte_scan: "find_byte t bs x start = scan_loop (\<lambda>i. bs ! i = x) (length bs) start"
proof -
  let ?P = "\<lambda>i. bs ! i = x"
  have p32: "probe_ok ?P 32 (length bs) (\<lambda>i. probe_mask 1 (x86_cmp_byte_eq_mask_32 (load bs i 32) x))"
    by (rule probe_mask_load_ok [where Q = "\<lambda>y. y = x"]) (auto simp: bits_byte_masks)
  have p16: "probe_ok ?P 16 (length bs) (\<lambda>i. probe_mask 1 (byte_eq_mask_16 t (load bs i 16) x))"
    by (rule probe_mask_load_ok [where Q = "\<lambda>y. y = x"])
      (auto simp: byte_eq_mask_16_def bits_byte_masks bits_arm_byte_masks)
  have "scan_loop ?P (length bs) start = None" if "length bs \<le> start"
    using that by (subst scan_loop.simps) simp
  then show ?thesis
    by (simp only: find_byte_def Let_def chunk_stage [OF p32] chunk_stage [OF p16]) simp
qed

lemma find_next_nonzero_byte_scan:
  "find_next_nonzero_byte t bs start = scan_loop (\<lambda>i. bs ! i \<noteq> 0) (length bs) start"
proof -
  let ?P = "\<lambda>i. bs ! i \<noteq> 0"
  have p32: "probe_ok ?P 32 (length bs) (\<lambda>i. probe_mask 1 (x86_cmp_byte_neq_zero_mask_32 (load bs i 32)))"
    by (rule probe_mask_load_ok [where Q = "\<lambda>y. y \<noteq> 0"]) (auto simp: bits_byte_masks)
  have p16: "probe_ok ?P 16 (length bs) (\<lambda>i. probe_mask 1 (nonzero_byte_mask_16 t (load bs i 16)))"
    by (rule probe_mask_load_ok [where Q = "\<lambda>y. y \<noteq> 0"])
      (auto simp: nonzero_byte_mask_16_def bits_byte_masks bits_arm_byte_masks)
  have "scan_loop ?P (length bs) start = None" if "length bs \<le> start"
    using that by (subst scan_loop.simps) simp
  then show ?thesis
    by (simp only: find_next_nonzero_byte_def Let_def chunk_stage [OF p32] chunk_stage [OF p16]) simp
qed

lemma find_next_nonzero_u16_scan:
  "find_next_nonzero_u16 t ws start = scan_loop (\<lambda>i. ws ! i \<noteq> 0) (length ws) start"
proof -
  let ?P = "\<lambda>i. ws ! i \<noteq> 0"
  have x16: "probe_ok ?P 16 (length ws) (\<lambda>i. probe_mask 2 (x86_cmp_u16_neq_zero_mask_16 (load ws i 16)))"
    by (rule probe_mask_load_ok [where Q = "\<lambda>y. y \<noteq> 0"]) (auto simp: bits_u16_masks)
  have a16: "probe_ok ?P 16 (length ws) (\<lambda>i. probe_mask 2 (arm_cmp_u16_neq_zero_mask_16 (load ws i 16)))"
    by (rule probe_mask_load_ok [where Q = "\<lambda>y. y \<noteq> 0"]) (auto simp: bits_arm_u16_mask_16)
  have p8: "probe_ok ?P 8 (length ws) (\<lambda>i. probe_mask 2 (nonzero_u16_mask_8 t (load ws i 8)))"
    by (rule probe_mask_load_ok [where Q = "\<lambda>y. y \<noteq> 0"])
      (auto simp: nonzero_u16_mask_8_def bits_u16_masks bits_arm_u16_mask_8)
  have "scan_loop ?P (length ws) start = None" if "length ws \<le> start"
    using that by (subst scan_loop.simps) simp
  then show ?thesis
    using chunk_loop_scan [OF x16, of start] chunk_loop_scan [OF a16, of start]
    by (simp only: find_next_nonzero_u16_def Let_def chunk_stage [OF p8]) simp
qed

lemma node16_count_mask:
  "bit ((if cnt \<ge> 16 then 0xFFFF else push_bit (unat cnt) 1 - 1) :: u32) n \<longleftrightarrow> n < min (unat (cnt :: u8)) 16"
proof (cases "cnt \<ge> 16")
  case True
  then have "16 \<le> unat cnt" by (simp add: word_le_nat_alt)
  with True show ?thesis by (simp only: if_True bit_ffff) auto
next
  case False
  then have "unat cnt < 16" by (simp add: word_le_nat_alt)
  moreover have "push_bit (unat cnt) 1 - 1 = (mask (unat cnt) :: u32)"
    by (simp add: mask_eq_exp_minus_1 push_bit_eq_mult)
  ultimately show ?thesis using False by (auto simp: bit_mask_iff)
qed

lemma first_lane_scan:
  fixes m :: "'a::len word"
  assumes bits: "\<And>n. bit m n \<longleftrightarrow> n < c * d \<and> Q (n div d)" and d: "0 < d"
  shows "(if m = 0 then None else Some (trailing_zeros m div d)) = scan_loop Q c 0"
proof (cases "\<exists>k < c. Q k")
  case True
  have A2: "\<exists>n. n div d = k \<and> bit m n" if "k < c" "Q k" for k
    using that d by (intro exI [of _ "k * d"]) (simp add: bits)
  have A1: "Q (n div d)" if "n < c * d" "bit m n" for n
    using that by (simp add: bits)
  note fl = first_lane [where Q = Q and m = m and w = c and d = d, OF A1 A2 True d]
  from fl have "scan_loop Q c 0 = Some (trailing_zeros m div d)" unfolding scan_loop_Some by simp
  with fl show ?thesis by simp
next
  case False
  have "m = 0"
    by (rule bit_word_eqI) (use False d in \<open>auto simp: bits div_less_iff_less_mult\<close>)
  moreover have "scan_loop Q c 0 = None" using False by (auto simp: scan_loop_None)
  ultimately show ?thesis by simp
qed

lemma node16_find_byte_eq:
  assumes "length keys = 16"
  shows "node16_find_byte t keys cnt byte = node16_find_byte_scalar keys cnt byte"
proof -
  let ?c = "min (unat cnt) 16" and ?Q = "\<lambda>i. keys ! i = byte"
  have x86: "x86_find_byte_in_16 keys cnt byte = node16_find_byte_scalar keys cnt byte"
  proof -
    define m where "m = Bit_Operations.and (movemask (cmpeq keys (replicate 16 byte)) :: u32)
      (if cnt \<ge> 16 then 0xFFFF else push_bit (unat cnt) 1 - 1)"
    have "bit m n \<longleftrightarrow> n < ?c * 1 \<and> ?Q (n div 1)" for n
      unfolding m_def bit_and_iff node16_count_mask using assms by auto
    from first_lane_scan [OF this, symmetric] show ?thesis
      by (simp add: x86_find_byte_in_16_def node16_find_byte_scalar_def Let_def m_def [symmetric])
  qed
  have arm: "arm_find_byte_in_16 keys cnt byte = node16_find_byte_scalar keys cnt byte"
  proof -
    define m where "m = Bit_Operations.and (byte_mask_to_nibble_u64 (map lane_byte (cmpeq keys (replicate 16 byte))))
      (if ?c * 4 = 64 then - 1 else push_bit (?c * 4) 1 - 1)"
    have "(push_bit (?c * 4) 1 - 1 :: u64) = mask (?c * 4)"
      by (simp add: mask_eq_exp_minus_1 push_bit_eq_mult)
    then have cm: "bit ((if ?c * 4 = 64 then - 1 else push_bit (?c * 4) 1 - 1) :: u64) n \<longleftrightarrow> n < ?c * 4" for n
      by (auto simp: bit_mask_iff)
    have "bit m n \<longleftrightarrow> n < ?c * 4 \<and> ?Q (n div 4)" for n
      unfolding m_def bit_and_iff cm using assms by (subst bit_nibble_mask) (auto simp: min_def split: if_splits)
    from first_lane_scan [OF this, symmetric] show ?thesis
      unfolding arm_find_byte_in_16_def Let_def m_def [symmetric] node16_find_byte_scalar_def by simp
  qed
  show ?thesis using x86 arm by (cases t) (auto simp: node16_find_byte_def)
qed

section \<open>Longest common prefix\<close>

definition first_or_end :: "(nat \<Rightarrow> bool) \<Rightarrow> nat \<Rightarrow> nat \<Rightarrow> nat" where
  "first_or_end P len i = (case scan_loop P len i of None \<Rightarrow> len | Some k \<Rightarrow> k)"

lemma chunk_loop_le: "chunk_loop w len probe i = Inr i' \<Longrightarrow> i \<le> len \<Longrightarrow> i' \<le> len"
proof (induction w len probe i rule: chunk_loop.induct)
  case (1 w len probe i)
  from 1(2,3) show ?case
    by (subst (asm) chunk_loop.simps) (auto split: if_splits option.splits intro: 1(1))
qed

lemma chunk_first_or_end:
  assumes ok: "probe_ok P w len probe" and i: "i \<le> len"
    and g: "\<And>j. j \<le> len \<Longrightarrow> g j = first_or_end P len j"
  shows "(case (if c then chunk_loop w len probe i else Inr i) of Inl r \<Rightarrow> r | Inr i' \<Rightarrow> g i') = first_or_end P len i"
proof (cases c)
  case True
  have "(case chunk_loop w len probe i of Inl r \<Rightarrow> r | Inr i' \<Rightarrow> g i') = first_or_end P len i"
  proof (cases "chunk_loop w len probe i")
    case (Inl r)
    then show ?thesis using chunk_loop_scan [OF ok, of i, symmetric] by (simp add: first_or_end_def)
  next
    case (Inr i')
    then have "i' \<le> len" using i by (rule chunk_loop_le)
    with Inr show ?thesis using chunk_loop_scan [OF ok, of i] g by (simp add: first_or_end_def)
  qed
  with True show ?thesis by simp
qed (simp add: g i)

lemma skip_loop_first: "i \<le> len \<Longrightarrow> skip_loop (\<lambda>i. \<not> P i) len i = first_or_end P len i"
proof (induction "len - i" arbitrary: i)
  case 0
  then show ?case by (simp add: skip_loop.simps scan_loop.simps first_or_end_def)
next
  case (Suc n)
  then have "i < len" by simp
  with Suc(1) [of "i + 1"] Suc(2,3) show ?case
    by (subst skip_loop.simps, subst first_or_end_def, subst scan_loop.simps) (auto simp: first_or_end_def)
qed

lemma lcp_first_or_end:
  "length (Sublist.longest_common_prefix a b) = first_or_end (\<lambda>i. a ! i \<noteq> b ! i) (min (length a) (length b)) 0"
proof -
  let ?n = "length (Sublist.longest_common_prefix a b)" and ?len = "min (length a) (length b)"
  have "?n \<le> ?len \<and> (\<forall>j < ?n. a ! j = b ! j) \<and> (?n < ?len \<longrightarrow> a ! ?n \<noteq> b ! ?n)"
  proof (induction a b rule: Sublist.longest_common_prefix.induct)
    case (1 x xs y ys)
    then show ?case by (auto simp: nth_Cons split: nat.splits)
  qed auto
  then have n: "?n \<le> ?len" "\<And>j. j < ?n \<Longrightarrow> a ! j = b ! j" "?n < ?len \<Longrightarrow> a ! ?n \<noteq> b ! ?n" by blast+
  show ?thesis
  proof (cases "?n < ?len")
    case True
    then have "scan_loop (\<lambda>i. a ! i \<noteq> b ! i) ?len 0 = Some ?n" using n by (simp add: scan_loop_Some)
    then show ?thesis by (simp add: first_or_end_def)
  next
    case False
    then have "?n = ?len" using n(1) by linarith
    moreover have "scan_loop (\<lambda>i. a ! i \<noteq> b ! i) ?len 0 = None"
      using n(2) calculation by (simp add: scan_loop_None)
    ultimately show ?thesis by (simp add: first_or_end_def)
  qed
qed

lemma probe_ones_ok:
  fixes m :: "nat \<Rightarrow> 'a::len word"
  assumes bits: "\<And>i n. i + w \<le> len \<Longrightarrow> n < w * d \<Longrightarrow> bit (m i) n \<longleftrightarrow> \<not> P (i + n div d)"
    and full: "\<And>i. i + w \<le> len \<Longrightarrow> m i = full \<longleftrightarrow> (\<forall>k < w. \<not> P (i + k))"
    and d: "0 < d" and w: "w * d \<le> LENGTH('a)"
  shows "probe_ok P w len (\<lambda>i. if m i \<noteq> full then Some (trailing_ones (m i) div d) else None)"
  unfolding probe_ok_def
proof (intro allI impI)
  fix i assume i: "i + w \<le> len"
  show "case if m i \<noteq> full then Some (trailing_ones (m i) div d) else None of
      None \<Rightarrow> \<forall>k<w. \<not> P (i + k) | Some j \<Rightarrow> j < w \<and> P (i + j) \<and> (\<forall>k<j. \<not> P (i + k))"
  proof (cases "m i = full")
    case False
    let ?m = "Bit_Operations.not (m i)"
    have mb: "n < w * d \<Longrightarrow> bit ?m n \<longleftrightarrow> P (i + n div d)" for n
      using bits [OF i] w by (simp add: bit_not_iff)
    have A2: "\<exists>n. n div d = k \<and> bit ?m n" if "k < w" "P (i + k)" for k
      using that d by (intro exI [of _ "k * d"]) (simp add: mb)
    have ex: "\<exists>k < w. P (i + k)" using False full [OF i] by blast
    note fl = first_lane [where Q = "\<lambda>k. P (i + k)" and m = ?m and w = w and d = d, OF mb [THEN iffD1] A2 ex d]
    show ?thesis using False fl by (simp add: trailing_ones_not)
  qed (use full [OF i] in auto)
qed

lemma tail_probe_ok:
  fixes a b :: bytes
  assumes "len \<le> length a" "len \<le> length b"
  shows "probe_ok (\<lambda>i. a ! i \<noteq> b ! i) 8 len
    (\<lambda>i. let x = Bit_Operations.xor (u64_of_bytes (load a i 8)) (u64_of_bytes (load b i 8))
         in if x \<noteq> 0 then Some (trailing_zeros x div 8) else None)"
  unfolding probe_ok_def
proof (intro allI impI)
  fix i assume i: "i + 8 \<le> len"
  let ?x = "Bit_Operations.xor (u64_of_bytes (load a i 8)) (u64_of_bytes (load b i 8))"
  let ?Q = "\<lambda>k. a ! (i + k) \<noteq> b ! (i + k)"
  have bits: "bit ?x n \<longleftrightarrow> n < 64 \<and> bit (a ! (i + n div 8)) (n mod 8) \<noteq> bit (b ! (i + n div 8)) (n mod 8)" for n
    using i assms by (auto simp: bit_xor_iff bit_uN_of_bytes)
  have A1: "?Q (n div 8)" if "n < 8 * 8" "bit ?x n" for n using that by (auto simp: bits)
  have A2: "\<exists>n. n div 8 = k \<and> bit ?x n" if k: "k < 8" "?Q k" for k
  proof -
    obtain m where m: "m < 8" "bit (a ! (i + k)) m \<noteq> bit (b ! (i + k)) m"
      using k(2) bit_word_eqI [of "a ! (i + k)" "b ! (i + k)"] by auto
    then show ?thesis using k by (intro exI [of _ "k * 8 + m"]) (simp add: bits)
  qed
  show "case let x = ?x in if x \<noteq> 0 then Some (trailing_zeros x div 8) else None of
     None \<Rightarrow> \<forall>k<8. \<not> a ! (i + k) \<noteq> b ! (i + k)
   | Some j \<Rightarrow> j < 8 \<and> a ! (i + j) \<noteq> b ! (i + j) \<and> (\<forall>k<j. \<not> a ! (i + k) \<noteq> b ! (i + k))"
  proof (cases "\<exists>k < 8. ?Q k")
    case True
    from first_lane [where Q = ?Q and m = ?x and w = 8 and d = 8, OF A1 A2 True]
    show ?thesis by (simp add: Let_def)
  next
    case False
    have "?x = 0" by (rule bit_word_eqI) (use False in \<open>auto simp: bits\<close>)
    with False show ?thesis by simp
  qed
qed

lemma lcp_tail_first:
  assumes "i \<le> limit" "limit \<le> length a" "limit \<le> length b"
  shows "longest_common_prefix_tail a b i limit = first_or_end (\<lambda>i. a ! i \<noteq> b ! i) limit i"
  unfolding longest_common_prefix_tail_def
  using chunk_first_or_end [OF tail_probe_ok [OF assms(2,3)] assms(1), where c = True]
    skip_loop_first [where P = "\<lambda>i. a ! i \<noteq> b ! i"] by simp

lemma lcp_probes:
  fixes a b :: bytes
  assumes len: "len \<le> length a" "len \<le> length b"
  defines "P \<equiv> \<lambda>i. a ! i \<noteq> b ! i"
  shows "probe_ok P 32 len (\<lambda>i. let m = x86_cmp_32_bytes_bitmask (load a i 32) (load b i 32)
           in if m \<noteq> - 1 then Some (trailing_ones m) else None)"
    and "probe_ok P 16 len (\<lambda>i. let m = x86_cmp_16_bytes_bitmask (load a i 16) (load b i 16)
           in if m \<noteq> 0xFFFF then Some (trailing_ones m) else None)"
    and "probe_ok P 16 len (\<lambda>i. let m = arm_cmp_16_bytes_nibble (load a i 16) (load b i 16)
           in if m \<noteq> - 1 then Some (trailing_ones m div 4) else None)"
proof -
  have l: "i + n \<le> length a" "i + n \<le> length b" if "i + n \<le> len" for i n using len that by auto
  have b32: "bit (x86_cmp_32_bytes_bitmask (load a i 32) (load b i 32)) n \<longleftrightarrow> n < 32 \<and> \<not> P (i + n)"
    if "i + 32 \<le> len" for i n
    using l [OF that] by (auto simp: x86_cmp_32_bytes_bitmask_def P_def)
  have b16: "bit (x86_cmp_16_bytes_bitmask (load a i 16) (load b i 16)) n \<longleftrightarrow> n < 16 \<and> \<not> P (i + n)"
    if "i + 16 \<le> len" for i n
    using l [OF that] by (auto simp: x86_cmp_16_bytes_bitmask_def P_def)
  have n64: "bit (arm_cmp_16_bytes_nibble (load a i 16) (load b i 16)) n \<longleftrightarrow> n < 64 \<and> \<not> P (i + n div 4)"
    if "i + 16 \<le> len" for i n
    using l [OF that] unfolding arm_cmp_16_bytes_nibble_def P_def by (subst bit_nibble_mask) auto
  show "probe_ok P 32 len (\<lambda>i. let m = x86_cmp_32_bytes_bitmask (load a i 32) (load b i 32)
           in if m \<noteq> - 1 then Some (trailing_ones m) else None)"
  proof -
    have "x86_cmp_32_bytes_bitmask (load a i 32) (load b i 32) = - 1 \<longleftrightarrow> (\<forall>k<32. \<not> P (i + k))"
      if "i + 32 \<le> len" for i
      unfolding bit_eq_iff b32 [OF that] by auto
    then show ?thesis
      using probe_ones_ok [where d = 1 and w = 32 and P = P and len = len and full = "- 1"
        and m = "\<lambda>i. x86_cmp_32_bytes_bitmask (load a i 32) (load b i 32)"]
      by (simp add: b32 Let_def cong: if_cong)
  qed
  show "probe_ok P 16 len (\<lambda>i. let m = x86_cmp_16_bytes_bitmask (load a i 16) (load b i 16)
           in if m \<noteq> 0xFFFF then Some (trailing_ones m) else None)"
  proof -
    have "x86_cmp_16_bytes_bitmask (load a i 16) (load b i 16) = 0xFFFF \<longleftrightarrow> (\<forall>k<16. \<not> P (i + k))"
      if "i + 16 \<le> len" for i
    proof
      assume eq: "x86_cmp_16_bytes_bitmask (load a i 16) (load b i 16) = 0xFFFF"
      show "\<forall>k<16. \<not> P (i + k)" using b16 [OF that] bit_ffff unfolding eq by blast
    next
      assume "\<forall>k<16. \<not> P (i + k)"
      then show "x86_cmp_16_bytes_bitmask (load a i 16) (load b i 16) = 0xFFFF"
        by (intro bit_word_eqI) (unfold b16 [OF that] bit_ffff, blast)
    qed
    then show ?thesis
      using probe_ones_ok [where d = 1 and w = 16 and P = P and len = len and full = "0xFFFF"
        and m = "\<lambda>i. x86_cmp_16_bytes_bitmask (load a i 16) (load b i 16)"]
      by (simp add: b16 Let_def cong: if_cong)
  qed
  show "probe_ok P 16 len (\<lambda>i. let m = arm_cmp_16_bytes_nibble (load a i 16) (load b i 16)
           in if m \<noteq> - 1 then Some (trailing_ones m div 4) else None)"
  proof -
    have "arm_cmp_16_bytes_nibble (load a i 16) (load b i 16) = - 1 \<longleftrightarrow> (\<forall>k<16. \<not> P (i + k))"
      if "i + 16 \<le> len" for i
    proof -
      have "arm_cmp_16_bytes_nibble (load a i 16) (load b i 16) = - 1 \<longleftrightarrow> (\<forall>n < 64. \<not> P (i + n div 4))"
        unfolding bit_eq_iff n64 [OF that] by auto
      also have "\<dots> \<longleftrightarrow> (\<forall>k<16. \<not> P (i + k))"
      proof (intro iffI allI impI)
        fix k :: nat assume "\<forall>n < 64. \<not> P (i + n div 4)" "k < 16"
        then show "\<not> P (i + k)" by (auto dest!: spec [of _ "k * 4"])
      qed (auto simp: div_less_iff_less_mult)
      finally show ?thesis .
    qed
    then show ?thesis
      using probe_ones_ok [where d = 4 and w = 16 and P = P and len = len and full = "- 1"
        and m = "\<lambda>i. arm_cmp_16_bytes_nibble (load a i 16) (load b i 16)"]
      by (simp add: n64 Let_def)
  qed
qed

lemma longest_common_prefix_eq:
  "longest_common_prefix t a b = length (Sublist.longest_common_prefix a b)"
proof -
  let ?n = "min (length a) (length b)" and ?P = "\<lambda>i. a ! i \<noteq> b ! i"
  have n: "?n \<le> length a" "?n \<le> length b" by auto
  note probes = lcp_probes [OF n]
  note tail = lcp_tail_first [OF _ n]
  let ?mid = "\<lambda>i. case (case t of
        X86_64 _ \<Rightarrow> chunk_loop 16 ?n (\<lambda>i. let m = x86_cmp_16_bytes_bitmask (load a i 16) (load b i 16)
                          in if m \<noteq> 0xFFFF then Some (trailing_ones m) else None) i
      | Aarch64 \<Rightarrow> chunk_loop 16 ?n (\<lambda>i. let m = arm_cmp_16_bytes_nibble (load a i 16) (load b i 16)
                          in if m \<noteq> - 1 then Some (trailing_ones m div 4) else None) i
      | OtherArch \<Rightarrow> Inr i) of Inl r \<Rightarrow> r | Inr i \<Rightarrow> longest_common_prefix_tail a b i ?n"
  have mid: "?mid i = first_or_end ?P ?n i" if "i \<le> ?n" for i
    using chunk_first_or_end [OF probes(2) that tail, where c = True]
      chunk_first_or_end [OF probes(3) that tail, where c = True] tail [OF that]
    by (cases t) simp_all
  show ?thesis
    unfolding lcp_first_or_end
    using chunk_first_or_end [OF probes(1) _ mid, of 0 "t = X86_64 True \<and> ?n \<ge> 32"]
    unfolding longest_common_prefix_def Let_def by simp
qed

end
