(* ===== verification/Search_Key.thy ===== *)
theory Search_Key
  imports Holt_Errors Simd
begin

text \<open>The search-key view of point operations (\<^verbatim>\<open>src/src/engine/walker/key.rs\<close>): the user's bytes with
  a virtual terminator byte \<open>0\<close>.  Every operation is shown to be the plain list operation on the
  terminated key \<open>full k\<close>.\<close>

text \<open>The target the crate is compiled for.  \<open>longest_common_prefix_eq\<close> makes every result below
  independent of it.\<close>

definition build_target :: target where
  "build_target = X86_64 True"

record SearchKey =
  sk_bytes :: bytes
  virtual_terminator :: bool

definition sk_user :: "bytes \<Rightarrow> SearchKey" where
  "sk_user bs = \<lparr> sk_bytes = bs, virtual_terminator = True \<rparr>"

definition sk_exact :: "bytes \<Rightarrow> SearchKey" where
  "sk_exact bs = \<lparr> sk_bytes = bs, virtual_terminator = False \<rparr>"

definition sk_len :: "SearchKey \<Rightarrow> nat" where
  "sk_len k = length (sk_bytes k) + (if virtual_terminator k then 1 else 0)"

definition user_prefix :: "SearchKey \<Rightarrow> nat \<Rightarrow> bytes option" where
  "user_prefix k len = (if len \<le> length (sk_bytes k) then Some (take len (sk_bytes k)) else None)"

definition user_bytes :: "SearchKey \<Rightarrow> bytes option" where
  "user_bytes k = (if virtual_terminator k then Some (sk_bytes k) else None)"

definition remaining_len :: "SearchKey \<Rightarrow> nat \<Rightarrow> nat" where
  "remaining_len k depth = sk_len k - depth"

definition byte_at :: "SearchKey \<Rightarrow> nat \<Rightarrow> u8 option" where
  "byte_at k idx =
    (if idx < length (sk_bytes k) then Some (sk_bytes k ! idx)
     else if virtual_terminator k \<and> idx = length (sk_bytes k) then Some 0
     else None)"

definition eq_slice :: "SearchKey \<Rightarrow> bytes \<Rightarrow> bool" where
  "eq_slice k other =
    (let bs = sk_bytes k in
     if \<not> virtual_terminator k then
       length bs = length other \<and> longest_common_prefix build_target bs other = length bs
     else if length other \<noteq> length bs + 1 then False
     else longest_common_prefix build_target bs (take (length bs) other) = length bs
          \<and> other ! length bs = 0)"

definition range_eq :: "SearchKey \<Rightarrow> nat \<Rightarrow> bytes \<Rightarrow> bool" where
  "range_eq k depth other =
    (let bs = sk_bytes k in
     if other = [] then depth \<le> sk_len k
     else if length other > remaining_len k depth then False
     else if \<not> virtual_terminator k \<or> depth + length other \<le> length bs then
       longest_common_prefix build_target (take (length other) (drop depth bs)) other = length other
     else if depth < length bs then
       let raw_len = length bs - depth in
       longest_common_prefix build_target (drop depth bs) (take raw_len other) = raw_len
       \<and> other ! raw_len = 0
     else other ! 0 = 0)"

definition common_prefix_with_slice :: "SearchKey \<Rightarrow> nat \<Rightarrow> bytes \<Rightarrow> nat" where
  "common_prefix_with_slice k depth other =
    (let bs = sk_bytes k in
     if depth \<ge> sk_len k \<or> other = [] then 0
     else if \<not> virtual_terminator k then longest_common_prefix build_target (drop depth bs) other
     else if depth < length bs then
       let raw_tail = drop depth bs;
           common = longest_common_prefix build_target raw_tail other in
       if common < length raw_tail \<or> common = length other then common
       else common + (if other ! common = 0 then 1 else 0)
     else if other ! 0 = 0 then 1 else 0)"

definition fnv_step :: "u64 \<Rightarrow> u8 \<Rightarrow> u64" where
  "fnv_step h b = Bit_Operations.xor h (ucast b) * 0x00000100000001b3"

definition fingerprint :: "SearchKey \<Rightarrow> u8" where
  "fingerprint k =
    (let h = foldl fnv_step 0xcbf29ce484222325 (sk_bytes k);
         h = (if virtual_terminator k then h * 0x00000100000001b3 else h);
         fp = ucast (Bit_Operations.xor h (drop_bit 32 h)) :: u8
     in if fp = 0 then 0xFF else fp)"

definition write_to_slice :: "SearchKey \<Rightarrow> bytes \<Rightarrow> bytes result" where
  "write_to_slice k dst =
    (let bs = sk_bytes k in
     if virtual_terminator k then
       if length bs < length dst then Inr (bs @ [0] @ drop (length bs + 1) dst)
       else Inl (Panic ''write_to_slice'')
     else if length dst = length bs then Inr bs
     else Inl (Panic ''write_to_slice''))"

section \<open>The terminated key\<close>

definition full :: "SearchKey \<Rightarrow> bytes" where
  "full k = sk_bytes k @ (if virtual_terminator k then [0] else [])"

lemma full_user [simp]: "full (sk_user bs) = bs @ [0]"
  by (simp add: full_def sk_user_def)

lemma full_exact [simp]: "full (sk_exact bs) = bs"
  by (simp add: full_def sk_exact_def)

lemma sk_len_full: "sk_len k = length (full k)"
  by (simp add: sk_len_def full_def)

lemma byte_at_full: "byte_at k i = (if i < length (full k) then Some (full k ! i) else None)"
  by (auto simp: byte_at_def full_def nth_append)

lemma lcp_self_iff: "length (Sublist.longest_common_prefix a b) = length a \<longleftrightarrow> prefix a b"
proof
  assume l: "length (Sublist.longest_common_prefix a b) = length a"
  have "Sublist.longest_common_prefix a b = a"
    using longest_common_prefix_prefix1 [of a b] l by (metis not_equal_is_parallel parallel_def)
  then show "prefix a b" using longest_common_prefix_prefix2 [of a b] by simp
next
  assume "prefix a b"
  then have "prefix a (Sublist.longest_common_prefix a b)"
    by (intro longest_common_prefix_max_prefix) auto
  then show "length (Sublist.longest_common_prefix a b) = length a"
    using longest_common_prefix_prefix1 [of a b] by (metis prefix_order.antisym)
qed

lemma lcp_commute: "Sublist.longest_common_prefix a b = Sublist.longest_common_prefix b a"
  by (induction a b rule: Sublist.longest_common_prefix.induct) auto

lemma lcp_other_iff: "length (Sublist.longest_common_prefix a b) = length b \<longleftrightarrow> prefix b a"
  using lcp_self_iff [of b a] by (simp add: lcp_commute)

lemma prefix_same_length: "length a = length b \<Longrightarrow> prefix a b \<longleftrightarrow> a = b"
  by (auto simp: prefix_def)

lemma length_lcp_snoc:
  "length (Sublist.longest_common_prefix (xs @ [c]) ys) =
    (let n = length (Sublist.longest_common_prefix xs ys) in
     if n < length xs \<or> n = length ys then n else n + (if ys ! n = c then 1 else 0))"
proof (induction xs arbitrary: ys)
  case Nil
  then show ?case by (cases ys) auto
next
  case (Cons x xs)
  then show ?case by (cases ys) (auto simp: Let_def)
qed

lemma eq_slice_full: "eq_slice k other \<longleftrightarrow> other = full k"
proof (cases "virtual_terminator k")
  case False
  then show ?thesis
    using prefix_same_length [of "sk_bytes k" other]
    by (auto simp: eq_slice_def Let_def full_def longest_common_prefix_eq lcp_self_iff)
next
  case True
  show ?thesis
  proof (cases "length other = length (sk_bytes k) + 1")
    case len: True
    obtain u x where o: "other = u @ [x]" "length u = length (sk_bytes k)"
      using len by (cases other rule: rev_cases) auto
    then show ?thesis using True prefix_same_length [of "sk_bytes k" u]
      by (auto simp: eq_slice_def Let_def full_def longest_common_prefix_eq lcp_self_iff nth_append)
  qed (use True in \<open>auto simp: eq_slice_def Let_def full_def\<close>)
qed

lemma common_prefix_full:
  "common_prefix_with_slice k depth other = length (Sublist.longest_common_prefix (drop depth (full k)) other)"
proof (cases "depth \<ge> sk_len k \<or> other = []")
  case True
  then show ?thesis by (auto simp: common_prefix_with_slice_def Let_def sk_len_full)
next
  case False
  then obtain o1 os where o: "other = o1 # os" by (cases other) auto
  show ?thesis
  proof (cases "virtual_terminator k")
    case vt: True
    show ?thesis
    proof (cases "depth < length (sk_bytes k)")
      case True
      then show ?thesis using False vt
        by (simp add: common_prefix_with_slice_def Let_def full_def longest_common_prefix_eq length_lcp_snoc)
    next
      case d: False
      then have "depth = length (sk_bytes k)" using False vt by (simp add: sk_len_def)
      then show ?thesis using False vt o by (simp add: common_prefix_with_slice_def Let_def full_def)
    qed
  qed (use False in \<open>simp add: common_prefix_with_slice_def Let_def full_def longest_common_prefix_eq\<close>)
qed

lemma prefix_snoc_longer:
  "length other = Suc (length xs) \<Longrightarrow> prefix other (xs @ [c]) \<longleftrightarrow> prefix xs (take (length xs) other) \<and> other ! length xs = c"
proof -
  assume l: "length other = Suc (length xs)"
  then obtain u x where o: "other = u @ [x]" "length u = length xs" by (cases other rule: rev_cases) auto
  then show ?thesis using prefix_same_length [of other "xs @ [c]"] prefix_same_length [of xs u]
    by (auto simp: nth_append)
qed

lemma range_eq_full:
  "range_eq k depth other \<longleftrightarrow> depth \<le> length (full k) \<and> prefix other (drop depth (full k))"
proof (cases "other = [] \<or> length other > remaining_len k depth")
  case True
  then show ?thesis
    by (auto simp: range_eq_def Let_def sk_len_full remaining_len_def dest!: prefix_length_le)
next
  case False
  let ?bs = "sk_bytes k"
  have ne: "0 < length other" using False by simp
  then have len: "depth + length other \<le> length (full k)"
    using False unfolding remaining_len_def sk_len_full by linarith
  consider (raw) "\<not> virtual_terminator k \<or> depth + length other \<le> length ?bs"
    | (mix) "virtual_terminator k" "depth + length other = Suc (length ?bs)" "depth < length ?bs"
    | (tail) "virtual_terminator k" "depth = length ?bs" "length other = 1"
  proof (cases "\<not> virtual_terminator k \<or> depth + length other \<le> length ?bs")
    case False
    then have vt: "virtual_terminator k" "depth + length other = Suc (length ?bs)"
      using len by (auto simp: full_def)
    show ?thesis
    proof (cases "depth < length ?bs")
      case False
      then have "depth = length ?bs" "length other = 1" using vt(2) ne by linarith+
      with vt(1) show ?thesis by (rule that(3))
    qed (use vt that(2) in blast)
  qed (rule that(1))
  then show ?thesis
  proof cases
    case raw
    have "take (length other) (drop depth (full k)) = take (length other) (drop depth ?bs)"
      using raw by (auto simp: full_def)
    moreover have "prefix other (drop depth (full k)) \<longleftrightarrow> prefix other (take (length other) (drop depth (full k)))"
      by (metis append_eq_conv_conj prefix_def take_is_prefix prefix_order.trans prefix_order.refl)
    ultimately show ?thesis using raw False len
      by (simp add: range_eq_def Let_def longest_common_prefix_eq lcp_other_iff)
  next
    case mix
    then have "length other = Suc (length (drop depth ?bs))" by simp
    from prefix_snoc_longer [OF this, of 0] lcp_self_iff [of "drop depth ?bs" "take (length ?bs - depth) other"]
      mix False len
    show ?thesis by (simp add: range_eq_def Let_def longest_common_prefix_eq full_def)
  next
    case tail
    then obtain x where "other = [x]" by (cases other) auto
    with tail False len show ?thesis by (simp add: range_eq_def Let_def full_def remaining_len_def)
  qed
qed

lemma fingerprint_nonzero: "fingerprint k \<noteq> 0"
  by (simp add: fingerprint_def Let_def)

text \<open>The terminator byte is mixed in exactly as a stored \<open>0\<close> byte would be, so the fingerprint depends
  on the terminated key only.\<close>

lemma fingerprint_full: "fingerprint k = fingerprint (sk_exact (full k))"
  by (simp add: fingerprint_def Let_def full_def sk_exact_def fnv_step_def)

lemma fingerprint_cong: "full k = full k' \<Longrightarrow> fingerprint k = fingerprint k'"
  using fingerprint_full by metis

lemma write_to_slice_full: "length dst = sk_len k \<Longrightarrow> write_to_slice k dst = Inr (full k)"
  by (simp add: write_to_slice_def sk_len_def full_def Let_def)

end
