(* ===== verification/Node_Access.thy ===== *)
theory Node_Access
  imports Frame_Monad Search_Key
begin

text \<open>Node readers and writers (\<^verbatim>\<open>src/src/engine/walker/readers.rs\<close>, \<^verbatim>\<open>writers.rs\<close>): decoding node bodies
  at byte offsets, writing leaves, prefix chains and inner nodes, and the find, update, add, grow
  and shrink operations on the four inner node sizes.  A cast to a struct of another size, which a
  debug build asserts against, is a panic of the model, as is every out-of-range index.\<close>

section \<open>Readers\<close>

definition cast :: "(bytes \<Rightarrow> 'a) \<Rightarrow> nat \<Rightarrow> bytes \<Rightarrow> 'a result" where
  "cast dec sz body = (if length body = sz then Inr (dec body) else Inl (Panic ''cast''))"

definition cast_leaf :: "bytes \<Rightarrow> Leaf result" where
  "cast_leaf body = (if length body < 16 then Inl (Panic ''slice'') else cast leaf_dec 16 (take 16 body))"

definition resolve_typed :: "frame \<Rightarrow> nat \<Rightarrow> (NodeType \<times> bytes) result" where
  "resolve_typed f off =
    rbind (ok_or (ntype_at f off) (node_corrupt ''walker: undecodable node type''))
      (\<lambda>ntype. rbind (ok_or (body_at_offset f off) (node_corrupt ''walker: body resolution failed''))
        (\<lambda>body. Inr (ntype, body)))"

definition ntype_of :: "frame \<Rightarrow> nat \<Rightarrow> NodeType result" where
  "ntype_of f off = ok_or (ntype_at f off) (node_corrupt ''walker: undecodable node type'')"

definition split_leaf_body :: "bytes \<Rightarrow> Leaf \<Rightarrow> (bytes \<times> bytes) result" where
  "split_leaf_body body leaf =
    (let key_end = 16 + unat (key_len leaf);
         value_end = key_end + unat (value_len leaf)
     in if value_end > length body then Inl (Fail (node_corrupt ''leaf body: key/value out of range''))
        else Inr (drop 16 (take key_end body), drop key_end (take value_end body)))"

definition leaf_extent :: "frame \<Rightarrow> nat \<Rightarrow> (bytes \<times> bytes) result" where
  "leaf_extent f off =
    rbind (ok_or (body_at_offset f off) (node_corrupt ''leaf body resolution failed''))
      (\<lambda>body. rbind (cast_leaf body) (\<lambda>leaf. split_leaf_body body leaf))"

definition leaf_key_extent :: "frame \<Rightarrow> nat \<Rightarrow> bytes result" where
  "leaf_key_extent f off = rbind (leaf_extent f off) (\<lambda>(key, val). Inr key)"

definition read_leaf_key_ref :: "frame \<Rightarrow> nat \<Rightarrow> (bytes \<times> Leaf) result" where
  "read_leaf_key_ref f off =
    rbind (ok_or (body_at_offset f off) (node_corrupt ''read_leaf_key_ref: body''))
      (\<lambda>body. rbind (cast_leaf body) (\<lambda>leaf.
         rbind (split_leaf_body body leaf) (\<lambda>(key, val). Inr (key, leaf))))"

definition leaf_any_key :: "frame \<Rightarrow> nat \<Rightarrow> bytes result" where
  "leaf_any_key f off =
    rbind (resolve_typed f off) (\<lambda>(ntype, body). rbind (cast_leaf body) (\<lambda>leaf.
      rbind (split_leaf_body body leaf) (\<lambda>(key, val). Inr key)))"

definition read_prefix :: "frame \<Rightarrow> nat \<Rightarrow> Prefix result" where
  "read_prefix f off =
    rbind (ok_or (body_at_offset f off) (node_corrupt ''read_prefix: body'')) (cast prefix_dec 128)"

definition read_node4 :: "frame \<Rightarrow> nat \<Rightarrow> Node4 result" where
  "read_node4 f off =
    rbind (ok_or (body_at_offset f off) (node_corrupt ''read_node4: body'')) (cast node4_dec 16)"

definition read_node16 :: "frame \<Rightarrow> nat \<Rightarrow> Node16 result" where
  "read_node16 f off =
    rbind (ok_or (body_at_offset f off) (node_corrupt ''read_node16: body'')) (cast node16_dec 56)"

definition read_node48 :: "frame \<Rightarrow> nat \<Rightarrow> Node48 result" where
  "read_node48 f off =
    rbind (ok_or (body_at_offset f off) (node_corrupt ''read_node48: body'')) (cast node48_dec 360)"

definition read_node256 :: "frame \<Rightarrow> nat \<Rightarrow> Node256 result" where
  "read_node256 f off =
    rbind (ok_or (body_at_offset f off) (node_corrupt ''read_node256: body'')) (cast node256_dec 520)"

definition read_node256_child :: "frame \<Rightarrow> nat \<Rightarrow> u8 \<Rightarrow> u16 result" where
  "read_node256_child f off byte =
    rbind (ok_or (body_at_offset f off) (node_corrupt ''read_node256_child: body''))
      (\<lambda>body. if length body \<noteq> 520 then Inl (Fail (node_corrupt ''read_node256_child: non-Node256 slot''))
              else rbind (cast node256_dec 520 body) (\<lambda>n. Inr (n256_children n ! unat byte)))"

definition child_offset :: "u16 \<Rightarrow> nat" where
  "child_offset encoded = decode_child_off encoded"

definition root_child_offset :: "u16 \<Rightarrow> string \<Rightarrow> nat result" where
  "root_child_offset encoded context =
    (if encoded = 0 then Inl (Fail (node_corrupt context)) else Inr (decode_child_off encoded))"

section \<open>Writers\<close>

definition slot_offset :: "u16 \<Rightarrow> nat fop" where
  "slot_offset slot = reads (\<lambda>f. ok_or (offset_of_slot f slot) (node_corrupt ''walker: alloc slot has no offset''))"

definition write_struct_at :: "nat \<Rightarrow> bytes \<Rightarrow> unit fop" where
  "write_struct_at off img f =
    (if bytes_at_mut f off (length img) then (Inr (), poke f off img)
     else (Inl (Fail (node_corrupt ''write_struct_at: body'')), f))"

definition repoint_blob_node :: "nat \<Rightarrow> BlobGuid \<Rightarrow> unit fop" where
  "repoint_blob_node off new_child =
    sbind (reads (\<lambda>f. rbind (ok_or (body_at_offset f off) (node_corrupt ''repoint_blob_node: body''))
                        (cast blob_node_dec 128)))
      (\<lambda>bn. write_struct_at off (blob_node_enc (bn\<lparr> child_blob_guid := new_child \<rparr>)))"

definition write_leaf :: "SearchKey \<Rightarrow> bytes \<Rightarrow> u64 \<Rightarrow> nat fop" where
  "write_leaf key val sq =
    (let klen = sk_len key;
         vlen = length val;
         total = leaf_body_size (klen mod 2 ^ 32) (vlen mod 2 ^ 32) in
     sbind (allocs (alloc_leaf total)) (\<lambda>slot.
       let leaf = leaf_live (word_of_nat klen) (word_of_nat vlen) sq (fingerprint key) in
       sbind (slot_offset slot) (\<lambda>body_off f.
         if \<not> bytes_at_mut f body_off total then
           (Inl (Fail (node_corrupt ''write_leaf: body out of range'')), f)
         else if total < 16 + klen + vlen then (Inl (Panic ''slice''), f)
         else
           case write_to_slice key (replicate klen 0) of
             Inl e \<Rightarrow> (Inl e, f)
           | Inr kb \<Rightarrow> (Inr body_off, poke f body_off (leaf_enc leaf @ kb @ val)))))"

text \<open>The chain is built back to front: the last chunk points at \<open>child_off\<close>, each earlier chunk at
  the one after it.\<close>

function write_prefix_chain_loop :: "bytes \<Rightarrow> nat \<Rightarrow> nat \<Rightarrow> nat fop" where
  "write_prefix_chain_loop remaining next_child head =
    (if remaining = [] then ret head
     else
       let chunk_len = min (length remaining) PREFIX_MAX_INLINE;
           chunk_start = length remaining - chunk_len;
           chunk = drop chunk_start remaining in
       sbind (allocs (alloc_node Prefix)) (\<lambda>slot.
       sbind (slot_offset slot) (\<lambda>off.
       sbind (reads (\<lambda>_. prefix_new chunk (ucast (encode_child_off next_child)))) (\<lambda>p.
       sbind (write_struct_at off (prefix_enc p)) (\<lambda>_.
         write_prefix_chain_loop (take chunk_start remaining) off off)))))"
  by auto
termination
  by (relation "measure (\<lambda>(r, _). length r)") (auto simp: PREFIX_MAX_INLINE_def)

definition write_prefix_chain :: "bytes \<Rightarrow> nat \<Rightarrow> nat fop" where
  "write_prefix_chain bs child_off = write_prefix_chain_loop bs child_off 0"

text \<open>\<^verbatim>\<open>sort_by_key\<close> is stable; the bytes of a fresh \<open>Node4\<close> are written in ascending order.\<close>

definition write_node4_with :: "(u8 \<times> nat) list \<Rightarrow> nat fop" where
  "write_node4_with children =
    sbind (allocs (alloc_node Node4)) (\<lambda>slot.
    sbind (slot_offset slot) (\<lambda>off.
      let sorted = sort_key fst children in
      if length sorted > 4 then panic ''index''
      else
        let n = node4_empty\<lparr> n4_count := word_of_nat (length sorted),
                  n4_keys := map fst sorted @ drop (length sorted) (n4_keys node4_empty),
                  n4_children := map (encode_child_off \<circ> snd) sorted
                                   @ drop (length sorted) (n4_children node4_empty) \<rparr> in
        sbind (write_struct_at off (node4_enc n)) (\<lambda>_. ret off)))"

definition set_prefix_child :: "nat \<Rightarrow> nat \<Rightarrow> unit fop" where
  "set_prefix_child pfx_off new_child_off =
    sbind (reads (\<lambda>f. read_prefix f pfx_off)) (\<lambda>p.
      write_struct_at pfx_off (prefix_enc (p\<lparr> prefix_child := ucast (encode_child_off new_child_off) \<rparr>)))"

section \<open>Inner nodes: find and update\<close>

function node4_find_loop :: "bytes \<Rightarrow> nat \<Rightarrow> u8 \<Rightarrow> nat \<Rightarrow> nat option" where
  "node4_find_loop keys cnt byte i =
    (if i < cnt then
       if keys ! i = byte then Some i
       else if keys ! i > byte then None
       else node4_find_loop keys cnt byte (i + 1)
     else None)"
  by auto
termination by (relation "measure (\<lambda>(_, cnt, _, i). cnt - i)") auto

declare node4_find_loop.simps [simp del]

definition idx_result :: "'a list \<Rightarrow> nat \<Rightarrow> 'a result" where
  "idx_result xs i = (if i < length xs then Inr (xs ! i) else Inl (Panic ''index''))"

definition inner_find_child :: "frame \<Rightarrow> nat \<Rightarrow> NodeType \<Rightarrow> u8 \<Rightarrow> nat option result" where
  "inner_find_child f off ntype byte =
    (case ntype of
       Node4 \<Rightarrow>
         rbind (read_node4 f off) (\<lambda>n.
           case node4_find_loop (n4_keys n) (min (unat (n4_count n)) 4) byte 0 of
             Some i \<Rightarrow> Inr (Some (child_offset (n4_children n ! i)))
           | None \<Rightarrow> Inr None)
     | Node16 \<Rightarrow>
         rbind (read_node16 f off) (\<lambda>n.
           case node16_find_byte build_target (n16_keys n) (n16_count n) byte of
             Some i \<Rightarrow> Inr (Some (child_offset (n16_children n ! unat i)))
           | None \<Rightarrow> Inr None)
     | Node48 \<Rightarrow>
         rbind (read_node48 f off) (\<lambda>n.
           let idx = n48_index n ! unat byte in
           if idx = 0 then Inr None
           else rbind (idx_result (n48_children n) (unat idx - 1)) (\<lambda>c. Inr (Some (child_offset c))))
     | Node256 \<Rightarrow>
         rbind (read_node256_child f off byte) (\<lambda>encoded.
           if encoded = 0 then Inr None else Inr (Some (child_offset encoded)))
     | _ \<Rightarrow> Inl (Fail (node_corrupt ''inner_find_child: not an inner node'')))"

definition inner_update_child :: "nat \<Rightarrow> NodeType \<Rightarrow> u8 \<Rightarrow> nat \<Rightarrow> unit fop" where
  "inner_update_child off ntype byte new_child_off =
    (let encoded = encode_child_off new_child_off in
     case ntype of
       Node4 \<Rightarrow>
         sbind (reads (\<lambda>f. read_node4 f off)) (\<lambda>n.
           case scan_loop (\<lambda>i. n4_keys n ! i = byte) (min (unat (n4_count n)) 4) 0 of
             Some i \<Rightarrow> write_struct_at off (node4_enc (n\<lparr> n4_children := (n4_children n)[i := encoded] \<rparr>))
           | None \<Rightarrow> throw (node_corrupt ''inner_update_child: byte not found in Node4''))
     | Node16 \<Rightarrow>
         sbind (reads (\<lambda>f. read_node16 f off)) (\<lambda>n.
           case node16_find_byte build_target (n16_keys n) (n16_count n) byte of
             Some i \<Rightarrow> write_struct_at off (node16_enc (n\<lparr> n16_children := (n16_children n)[unat i := encoded] \<rparr>))
           | None \<Rightarrow> throw (node_corrupt ''inner_update_child: byte not found in Node16''))
     | Node48 \<Rightarrow>
         sbind (reads (\<lambda>f. read_node48 f off)) (\<lambda>n.
           let idx = n48_index n ! unat byte in
           if idx = 0 then throw (node_corrupt ''inner_update_child: byte not found in Node48'')
           else sbind (reads (\<lambda>_. idx_result (n48_children n) (unat idx - 1))) (\<lambda>_.
             write_struct_at off (node48_enc (n\<lparr> n48_children := (n48_children n)[unat idx - 1 := encoded] \<rparr>))))
     | Node256 \<Rightarrow>
         sbind (reads (\<lambda>f. read_node256 f off)) (\<lambda>n.
           write_struct_at off (node256_enc (n\<lparr> n256_children := (n256_children n)[unat byte := encoded] \<rparr>)))
     | _ \<Rightarrow> throw (node_corrupt ''inner_update_child: not an inner node''))"

section \<open>Inner nodes: add and grow\<close>

text \<open>The shift loop \<^verbatim>\<open>while i > pos { a[i] = a[i - 1]; i -= 1 }\<close>.\<close>

fun shift_up :: "'a list \<Rightarrow> nat \<Rightarrow> nat \<Rightarrow> 'a list" where
  "shift_up xs pos 0 = xs"
| "shift_up xs pos (Suc i) = (if Suc i > pos then shift_up (xs[Suc i := xs ! i]) pos i else xs)"

definition insert_pos :: "bytes \<Rightarrow> nat \<Rightarrow> u8 \<Rightarrow> nat" where
  "insert_pos keys cnt byte = (case scan_loop (\<lambda>i. keys ! i > byte) cnt 0 of Some i \<Rightarrow> i | None \<Rightarrow> cnt)"

definition node4_insert_sorted :: "Node4 \<Rightarrow> u8 \<Rightarrow> u16 \<Rightarrow> Node4" where
  "node4_insert_sorted n byte child =
    (let cnt = unat (n4_count n);
         pos = insert_pos (n4_keys n) cnt byte
     in n\<lparr> n4_keys := (shift_up (n4_keys n) pos cnt)[pos := byte],
           n4_children := (shift_up (n4_children n) pos cnt)[pos := child],
           n4_count := n4_count n + 1 \<rparr>)"

definition node16_insert_sorted :: "Node16 \<Rightarrow> u8 \<Rightarrow> u16 \<Rightarrow> Node16" where
  "node16_insert_sorted n byte child =
    (let cnt = unat (n16_count n);
         pos = insert_pos (n16_keys n) cnt byte
     in n\<lparr> n16_keys := (shift_up (n16_keys n) pos cnt)[pos := byte],
           n16_children := (shift_up (n16_children n) pos cnt)[pos := child],
           n16_count := n16_count n + 1 \<rparr>)"

definition node48_insert :: "Node48 \<Rightarrow> u8 \<Rightarrow> u16 \<Rightarrow> Node48 result" where
  "node48_insert n byte child =
    (if n48_index n ! unat byte \<noteq> 0 then Inl (Fail (node_corrupt ''node48_insert: byte already present''))
     else
       case scan_loop (\<lambda>i. n48_children n ! i = 0) 48 0 of
         Some i \<Rightarrow> Inr (n\<lparr> n48_children := (n48_children n)[i := child],
                           n48_index := (n48_index n)[unat byte := word_of_nat (i + 1)],
                           n48_count := n48_count n + 1 \<rparr>)
       | None \<Rightarrow> Inl (Fail (node_corrupt ''node48_insert: no free children[] slot despite count < 48'')))"

text \<open>\<open>copy_first c src dst\<close> is \<^verbatim>\<open>for i in 0..c { dst[i] = src[i] }\<close>.\<close>

definition copy_first :: "nat \<Rightarrow> 'a list \<Rightarrow> 'a list \<Rightarrow> 'a list" where
  "copy_first c src dst = take c src @ drop c dst"

definition node16_from_node4 :: "Node4 \<Rightarrow> Node16" where
  "node16_from_node4 old =
    (let c = unat (n4_count old)
     in node16_empty\<lparr> n16_count := n4_count old,
          n16_keys := copy_first c (n4_keys old) (n16_keys node16_empty),
          n16_children := copy_first c (n4_children old) (n16_children node16_empty) \<rparr>)"

definition grow_node4_to_node16 :: "Node4 \<Rightarrow> nat fop" where
  "grow_node4_to_node16 old =
    sbind (allocs (alloc_node Node16)) (\<lambda>slot.
    sbind (slot_offset slot) (\<lambda>off.
      if unat (n4_count old) > 4 then panic ''index''
      else sbind (write_struct_at off (node16_enc (node16_from_node4 old))) (\<lambda>_. ret off)))"

definition index_keys :: "bytes \<Rightarrow> nat \<Rightarrow> bytes \<Rightarrow> bytes" where
  "index_keys keys c idx = foldl (\<lambda>ix i. ix[unat (keys ! i) := word_of_nat (i + 1)]) idx [0 ..< c]"

definition node48_from_node16 :: "Node16 \<Rightarrow> Node48" where
  "node48_from_node16 old =
    (let c = unat (n16_count old)
     in node48_empty\<lparr> n48_count := n16_count old,
          n48_children := copy_first c (n16_children old) (n48_children node48_empty),
          n48_index := index_keys (n16_keys old) c (n48_index node48_empty) \<rparr>)"

definition grow_node16_to_node48 :: "Node16 \<Rightarrow> nat fop" where
  "grow_node16_to_node48 old =
    sbind (allocs (alloc_node Node48)) (\<lambda>slot.
    sbind (slot_offset slot) (\<lambda>off.
      if unat (n16_count old) > 16 then panic ''index''
      else sbind (write_struct_at off (node48_enc (node48_from_node16 old))) (\<lambda>_. ret off)))"

definition node256_from_node48 :: "Node48 \<Rightarrow> Node256" where
  "node256_from_node48 old =
    (let child = (\<lambda>byte. let idx = n48_index old ! byte in
                    if idx \<noteq> 0 then n48_children old ! (unat idx - 1) else 0);
         cnt = length (filter (\<lambda>byte. n48_index old ! byte \<noteq> 0) [0 ..< 256])
     in node256_empty\<lparr> n256_children := map child [0 ..< 256], n256_count := word_of_nat (min cnt 255) \<rparr>)"

definition grow_node48_to_node256 :: "Node48 \<Rightarrow> nat fop" where
  "grow_node48_to_node256 old =
    sbind (allocs (alloc_node Node256)) (\<lambda>slot.
    sbind (slot_offset slot) (\<lambda>off.
      if \<exists>idx \<in> set (n48_index old). 48 < unat idx then panic ''index''
      else sbind (write_struct_at off (node256_enc (node256_from_node48 old))) (\<lambda>_. ret off)))"

definition u8_saturating_add1 :: "u8 \<Rightarrow> u8" where
  "u8_saturating_add1 a = (if a = - 1 then a else a + 1)"

text \<open>\<open>inner_add_child\<close> recurses into the grown node; the recursion is unfolded from the largest size
  down.\<close>

definition inner_add_child_256 :: "nat \<Rightarrow> u8 \<Rightarrow> nat \<Rightarrow> nat fop" where
  "inner_add_child_256 off byte new_child_off =
    sbind (reads (\<lambda>f. read_node256 f off)) (\<lambda>n.
      if n256_children n ! unat byte \<noteq> 0 then
        throw (node_corrupt ''inner_add_child: byte already present on Node256'')
      else
        let n' = n\<lparr> n256_children := (n256_children n)[unat byte := encode_child_off new_child_off],
                    n256_count := u8_saturating_add1 (n256_count n) \<rparr> in
        sbind (write_struct_at off (node256_enc n')) (\<lambda>_. ret off))"

definition inner_add_child_48 :: "nat \<Rightarrow> u8 \<Rightarrow> nat \<Rightarrow> nat fop" where
  "inner_add_child_48 off byte new_child_off =
    sbind (reads (\<lambda>f. read_node48 f off)) (\<lambda>n.
      if n48_count n < 48 then
        sbind (reads (\<lambda>_. node48_insert n byte (encode_child_off new_child_off))) (\<lambda>n'.
        sbind (write_struct_at off (node48_enc n')) (\<lambda>_. ret off))
      else
        sbind (grow_node48_to_node256 n) (\<lambda>n256_off.
        sbind (modify (note_abandoned off)) (\<lambda>_.
          inner_add_child_256 n256_off byte new_child_off)))"

definition inner_add_child_16 :: "nat \<Rightarrow> u8 \<Rightarrow> nat \<Rightarrow> nat fop" where
  "inner_add_child_16 off byte new_child_off =
    sbind (reads (\<lambda>f. read_node16 f off)) (\<lambda>n.
      if n16_count n < 16 then
        sbind (write_struct_at off (node16_enc (node16_insert_sorted n byte (encode_child_off new_child_off))))
          (\<lambda>_. ret off)
      else
        sbind (grow_node16_to_node48 n) (\<lambda>n48_off.
        sbind (modify (note_abandoned off)) (\<lambda>_.
          inner_add_child_48 n48_off byte new_child_off)))"

definition inner_add_child_4 :: "nat \<Rightarrow> u8 \<Rightarrow> nat \<Rightarrow> nat fop" where
  "inner_add_child_4 off byte new_child_off =
    sbind (reads (\<lambda>f. read_node4 f off)) (\<lambda>n.
      if n4_count n < 4 then
        sbind (write_struct_at off (node4_enc (node4_insert_sorted n byte (encode_child_off new_child_off))))
          (\<lambda>_. ret off)
      else
        sbind (grow_node4_to_node16 n) (\<lambda>n16_off.
        sbind (modify (note_abandoned off)) (\<lambda>_.
          inner_add_child_16 n16_off byte new_child_off)))"

definition inner_add_child :: "nat \<Rightarrow> NodeType \<Rightarrow> u8 \<Rightarrow> nat \<Rightarrow> nat fop" where
  "inner_add_child off ntype byte new_child_off =
    (case ntype of
       Node4 \<Rightarrow> inner_add_child_4 off byte new_child_off
     | Node16 \<Rightarrow> inner_add_child_16 off byte new_child_off
     | Node48 \<Rightarrow> inner_add_child_48 off byte new_child_off
     | Node256 \<Rightarrow> inner_add_child_256 off byte new_child_off
     | _ \<Rightarrow> throw (node_corrupt ''inner_add_child: not an inner node''))"

section \<open>Allocation outcomes\<close>

lemma alloc_node_then:
  assumes "frame_ok f" "t \<noteq> Invalid"
  obtains (fail) e where "sbind (allocs (alloc_node t)) (\<lambda>slot. sbind (slot_offset slot) k) f = (Inl (Fail (Alloc e)), f)" "crowded f"
  | (bump) f' where "sbind (allocs (alloc_node t)) (\<lambda>slot. sbind (slot_offset slot) k) f = k (cursor f) f'"
      "bumped (size_of_node t) f f'" "cursor f + size_of_node t + reserve t \<le> PAGE_SIZE"
  using assms
proof (cases rule: alloc_node_cases)
  case (fail e)
  then show ?thesis using size_of_node_bounds [OF assms(2)]
    by (intro that(1) [of e]) (auto simp: sbind_def allocs_def reserve_def intro: crowdedI)
next
  case (bump slot f')
  then show ?thesis by (intro that(2) [of f']) (simp_all add: sbind_def allocs_def slot_offset_def reads_def)
qed

lemma alloc_leaf_then:
  assumes "frame_ok f" "0 < n" "8 dvd n" "n \<le> 131096"
  obtains (fail) e where "sbind (allocs (alloc_leaf n)) (\<lambda>slot. sbind (slot_offset slot) k) f = (Inl (Fail (Alloc e)), f)" "crowded f"
  | (bump) f' where "sbind (allocs (alloc_leaf n)) (\<lambda>slot. sbind (slot_offset slot) k) f = k (cursor f) f'"
      "bumped n f f'" "cursor f + n + SPILLOVER_RESERVATION \<le> PAGE_SIZE"
  using assms(1-3)
proof (cases rule: alloc_leaf_cases)
  case (fail e)
  then show ?thesis using assms(4) by (intro that(1) [of e]) (auto simp: sbind_def allocs_def intro: crowdedI)
next
  case (bump slot f')
  then show ?thesis by (intro that(2) [of f']) (simp_all add: sbind_def allocs_def slot_offset_def reads_def)
qed

end
