(* ===== verification/Node_Shape.thy ===== *)
theory Node_Shape
  imports Node_Access
begin

text \<open>The meaning of the four inner node sizes: each well-formed node is a finite map from key bytes
  to encoded child offsets.  The find, update, insert and grow operations are shown to act on that
  map, whichever representation the node is in.\<close>

section \<open>Sorted key arrays\<close>

text \<open>\<open>assoc keys ch c\<close> is the map held by the first \<open>c\<close> entries of a parallel key and child array.\<close>

definition assoc :: "bytes \<Rightarrow> u16 list \<Rightarrow> nat \<Rightarrow> u8 \<Rightarrow> u16 option" where
  "assoc keys ch c = map_of (zip (take c keys) (take c ch))"

lemma map_of_first: "b \<notin> fst ` set A \<Longrightarrow> map_of (A @ (b, x) # B) b = Some x"
  by (induction A) auto

lemma map_of_insert_middle: "b \<notin> fst ` set A \<Longrightarrow> map_of (A @ (b, e) # B) = (map_of (A @ B))(b \<mapsto> e)"
  by (induction A) (auto simp: fun_upd_twist simp del: map_of_append)

lemma scan_assoc_Some:
  assumes "scan_loop (\<lambda>i. keys ! i = b) c 0 = Some i" "c \<le> length keys" "c \<le> length ch"
  shows "i < c" "keys ! i = b" "assoc keys ch c b = Some (ch ! i)"
proof -
  let ?z = "zip (take c keys) (take c ch)"
  have i: "i < c" "keys ! i = b" "\<forall>j < i. keys ! j \<noteq> b" using assms(1) by (auto simp: scan_loop_Some)
  show "i < c" "keys ! i = b" by (fact i)+
  have "?z = take i ?z @ (b, ch ! i) # drop (Suc i) ?z"
    using i assms by (subst id_take_nth_drop [of i]) auto
  moreover have "b \<notin> fst ` set (take i ?z)"
    using i assms by (auto simp: in_set_conv_nth)
  ultimately show "assoc keys ch c b = Some (ch ! i)"
    unfolding assoc_def using map_of_first by metis
qed

lemma scan_assoc_None:
  assumes "scan_loop (\<lambda>i. keys ! i = b) c 0 = None" "c \<le> length keys"
  shows "assoc keys ch c b = None"
  using assms by (auto simp: scan_loop_None assoc_def map_of_eq_None_iff in_set_conv_nth)

lemma assoc_scan:
  "c \<le> length keys \<Longrightarrow> c \<le> length ch \<Longrightarrow>
   assoc keys ch c b = map_option (nth ch) (scan_loop (\<lambda>i. keys ! i = b) c 0)"
  by (cases "scan_loop (\<lambda>i. keys ! i = b) c 0") (simp_all add: scan_assoc_None scan_assoc_Some(3))

lemma node4_find_scan:
  "sorted_wrt (<) (take c keys) \<Longrightarrow> c \<le> length keys \<Longrightarrow>
   node4_find_loop keys c b i = scan_loop (\<lambda>i. keys ! i = b) c i"
proof (induction keys c b i rule: node4_find_loop.induct)
  case (1 keys c b i)
  show ?case
  proof (cases "i < c \<and> keys ! i > b")
    case True
    have "keys ! j \<noteq> b" if "i \<le> j" "j < c" for j
    proof (cases "i = j")
      case False
      then have "take c keys ! i < take c keys ! j"
        using that 1(2,3) sorted_wrt_nth_less [of "(<)" "take c keys" i j] by auto
      then show ?thesis using True that by auto
    qed (use True in auto)
    then have "scan_loop (\<lambda>i. keys ! i = b) c i = None" by (auto simp: scan_loop_None)
    then show ?thesis using True by (subst node4_find_loop.simps) auto
  next
    case False
    with 1 show ?thesis by (subst node4_find_loop.simps, subst scan_loop.simps) auto
  qed
qed

lemma shift_up_insert:
  "pos \<le> i \<Longrightarrow> i < length xs \<Longrightarrow>
   (shift_up xs pos i)[pos := x] = take pos xs @ x # drop pos (take i xs) @ drop (Suc i) xs"
proof (induction xs pos i rule: shift_up.induct)
  case (1 xs pos)
  then show ?case by (cases xs) auto
next
  case (2 xs pos i)
  show ?case
  proof (cases "pos < Suc i")
    case True
    let ?ys = "xs[Suc i := xs ! i]"
    have "(shift_up xs pos (Suc i))[pos := x] = take pos ?ys @ x # drop pos (take i ?ys) @ drop (Suc i) ?ys"
      using True 2 by simp
    also have "\<dots> = take pos xs @ x # drop pos (take (Suc i) xs) @ drop (Suc (Suc i)) xs"
      using True 2(3) by (simp add: take_Suc_conv_app_nth drop_update_swap Cons_nth_drop_Suc [symmetric])
    finally show ?thesis .
  next
    case False
    then have "pos = Suc i" using 2(2) by simp
    then show ?thesis using 2(3) by (simp add: upd_conv_take_nth_drop)
  qed
qed

lemma insert_pos_spec:
  fixes b :: u8
  assumes "sorted_wrt (<) (take c keys)" "c \<le> length keys"
  defines "p \<equiv> insert_pos keys c b"
  shows "p \<le> c" "\<And>i. i < p \<Longrightarrow> keys ! i \<le> b" "\<And>i. p \<le> i \<Longrightarrow> i < c \<Longrightarrow> b < keys ! i"
proof -
  have "p \<le> c \<and> (\<forall>i < p. \<not> keys ! i > b) \<and> (p < c \<longrightarrow> keys ! p > b)"
    unfolding p_def insert_pos_def
    by (auto simp: scan_loop_Some scan_loop_None split: option.split)
  then show 1: "p \<le> c" and "\<And>i. i < p \<Longrightarrow> keys ! i \<le> b" by (auto simp: not_less)
  show "b < keys ! i" if i: "p \<le> i" "i < c" for i
  proof (cases "p = i")
    case False
    then have "take c keys ! p < take c keys ! i" 
      using i assms(1,2) sorted_wrt_nth_less [of "(<)" "take c keys" p i] by auto
    moreover have "b < keys ! p" using \<open>p \<le> c \<and> _\<close> i by auto
    ultimately show ?thesis using i by auto
  qed (use \<open>p \<le> c \<and> _\<close> i in auto)
qed

lemma assoc_insert:
  fixes b :: u8 and e :: u16
  assumes s: "sorted_wrt (<) (take c keys)" and c: "c < length keys" "c < length ch"
    and new: "assoc keys ch c b = None"
  defines "p \<equiv> insert_pos keys c b"
  defines "keys' \<equiv> (shift_up keys p c)[p := b]" and "ch' \<equiv> (shift_up ch p c)[p := e]"
  shows "sorted_wrt (<) (take (Suc c) keys')" "assoc keys' ch' (Suc c) = (assoc keys ch c)(b \<mapsto> e)"
    "length keys' = length keys" "length ch' = length ch"
proof -
  let ?ks = "take c keys" and ?cs = "take c ch"
  note p = insert_pos_spec [OF s less_imp_le [OF c(1)], where b = b, folded p_def]
  have k': "keys' = take p keys @ b # drop p ?ks @ drop (Suc c) keys"
    unfolding keys'_def by (rule shift_up_insert [OF p(1) c(1)])
  have c': "ch' = take p ch @ e # drop p ?cs @ drop (Suc c) ch"
    unfolding ch'_def by (rule shift_up_insert [OF p(1) c(2)])
  show "length keys' = length keys" "length ch' = length ch" unfolding k' c' using p(1) c by auto
  have tk: "take (Suc c) keys' = take p ?ks @ b # drop p ?ks" and tc: "take (Suc c) ch' = take p ?cs @ e # drop p ?cs"
    unfolding k' c' using p(1) c by (auto simp: min_def Suc_diff_le)
  have nb: "b \<notin> set ?ks"
    using new c by (simp add: assoc_def map_of_zip_is_None)
  have "sorted_wrt (<) (take p ?ks)" "sorted_wrt (<) (drop p ?ks)" 
    by (rule sorted_wrt_take [OF s], rule sorted_wrt_drop [OF s])
  moreover have "x < b" if x: "x \<in> set (take p ?ks)" for x
  proof -
    obtain i where i: "i < p" "x = keys ! i" using x p(1) by (auto simp: in_set_conv_nth)
    then have "x \<le> b" using p(2) by simp
    moreover have "x \<noteq> b" using x nb in_set_takeD by fastforce
    ultimately show ?thesis by simp
  qed
  moreover have "b < x" if "x \<in> set (drop p ?ks)" for x
    using that p c by (auto simp: in_set_conv_nth)
  ultimately show "sorted_wrt (<) (take (Suc c) keys')"
    unfolding tk by (auto simp: sorted_wrt_append) (meson order_less_trans)
  have z: "zip (take (Suc c) keys') (take (Suc c) ch') = take p (zip ?ks ?cs) @ (b, e) # drop p (zip ?ks ?cs)"
    unfolding tk tc using p(1) c by (simp add: take_zip drop_zip)
  have "map_of (take p z @ (b, e) # drop p z) = (map_of z)(b \<mapsto> e)" if "b \<notin> fst ` set z" for z :: "(u8 \<times> u16) list"
  proof -
    have "b \<notin> fst ` set (take p z)" using that by (auto dest: in_set_takeD)
    then show ?thesis using map_of_insert_middle [of b "take p z" e "drop p z"] by (simp del: map_of_append)
  qed
  moreover have "b \<notin> fst ` set (zip ?ks ?cs)" using nb by (auto dest: set_zip_leftD)
  ultimately show "assoc keys' ch' (Suc c) = (assoc keys ch c)(b \<mapsto> e)"
    unfolding assoc_def z by blast
qed

section \<open>Inner nodes as maps\<close>

datatype inner = I4 Node4 | I16 Node16 | I48 Node48 | I256 Node256

primrec inner_type :: "inner \<Rightarrow> NodeType" where
  "inner_type (I4 n) = Node4"
| "inner_type (I16 n) = Node16"
| "inner_type (I48 n) = Node48"
| "inner_type (I256 n) = Node256"

primrec inner_enc :: "inner \<Rightarrow> bytes" where
  "inner_enc (I4 n) = node4_enc n"
| "inner_enc (I16 n) = node16_enc n"
| "inner_enc (I48 n) = node48_enc n"
| "inner_enc (I256 n) = node256_enc n"

primrec inner_kids :: "inner \<Rightarrow> u8 \<Rightarrow> u16 option" where
  "inner_kids (I4 n) = assoc (n4_keys n) (n4_children n) (unat (n4_count n))"
| "inner_kids (I16 n) = assoc (n16_keys n) (n16_children n) (unat (n16_count n))"
| "inner_kids (I48 n) =
    (\<lambda>b. let i = n48_index n ! unat b in if i = 0 then None else Some (n48_children n ! (unat i - 1)))"
| "inner_kids (I256 n) =
    (\<lambda>b. let c = n256_children n ! unat b in if c = 0 then None else Some c)"

definition n48_ok :: "Node48 \<Rightarrow> bool" where
  "n48_ok n =
    ((\<forall>b < 256. unat (n48_index n ! b) \<le> 48)
     \<and> (\<forall>b < 256. \<forall>b' < 256. n48_index n ! b = n48_index n ! b' \<longrightarrow> n48_index n ! b \<noteq> 0 \<longrightarrow> b = b')
     \<and> (\<forall>i < 48. n48_children n ! i \<noteq> 0 \<longrightarrow> (\<exists>b < 256. unat (n48_index n ! b) = Suc i))
     \<and> unat (n48_count n) = card {b. b < 256 \<and> n48_index n ! b \<noteq> 0})"

primrec inner_ok :: "inner \<Rightarrow> bool" where
  "inner_ok (I4 n) =
    (node4_wf n \<and> n4_node_type n = as_u8 Node4 \<and> unat (n4_count n) \<le> 4
     \<and> sorted_wrt (<) (take (unat (n4_count n)) (n4_keys n)))"
| "inner_ok (I16 n) =
    (node16_wf n \<and> n16_node_type n = as_u8 Node16 \<and> unat (n16_count n) \<le> 16
     \<and> sorted_wrt (<) (take (unat (n16_count n)) (n16_keys n)))"
| "inner_ok (I48 n) = (node48_wf n \<and> n48_node_type n = as_u8 Node48 \<and> n48_ok n)"
| "inner_ok (I256 n) = (node256_wf n \<and> n256_node_type n = as_u8 Node256)"

definition inner_wf :: "inner \<Rightarrow> bool" where
  "inner_wf x = (inner_ok x \<and> Some 0 \<notin> range (inner_kids x))"

lemma u8_lt_256 [simp]: "unat (b :: u8) < 256"
  using unsigned_less [of b, where ?'a = nat] by simp

lemma u8_unat_inject: "unat (a :: u8) = unat b \<longleftrightarrow> a = b"
  using word_unat_eq_iff [of a b] by blast

lemma length_inner_enc: "inner_ok x \<Longrightarrow> length (inner_enc x) = size_of_node (inner_type x)"
  by (cases x) (auto simp: node4.length_enc node16.length_enc node48.length_enc node256.length_enc)

lemma inner_enc_tag: "inner_ok x \<Longrightarrow> inner_enc x ! Suc 0 = as_u8 (inner_type x)"
  by (cases x) (auto simp: node4.enc_tag node16.enc_tag node48.enc_tag node256.enc_tag)

lemma inner_type_facts [simp]:
  "inner_type x \<noteq> Invalid" "inner_type x \<noteq> Leaf" "inner_type x \<noteq> Prefix" "inner_type x \<noteq> Blob"
  "inner_type x \<noteq> EmptyRoot"
  by (cases x; simp)+

text \<open>\<open>at_inner f off x\<close>: the frame stores the image of the well-formed node \<open>x\<close> at \<open>off\<close>.\<close>

definition at_inner :: "frame \<Rightarrow> nat \<Rightarrow> inner \<Rightarrow> bool" where
  "at_inner f off x =
    (inner_wf x \<and> off + size_of_node (inner_type x) \<le> PAGE_SIZE
     \<and> slice f off (size_of_node (inner_type x)) = inner_enc x)"

lemma at_inner_tag:
  assumes "at_inner f off x" shows "f (off + 1) = as_u8 (inner_type x)"
proof -
  have "slice f off (size_of_node (inner_type x)) ! 1 = f (off + 1)"
    using size_of_node_bounds [of "inner_type x"] by (subst nth_slice) auto
  then show ?thesis using assms by (simp add: at_inner_def inner_wf_def inner_enc_tag)
qed

lemma at_inner_body:
  assumes "at_inner f off x"
  shows "body_at_offset f off = Some (inner_enc x)" "body_at_offset_mut f off = Some (size_of_node (inner_type x))"
    "ntype_at f off = Some (inner_type x)"
  using body_at_offset_fixed [where f = f and off = off and t = "inner_type x"] at_inner_tag [OF assms] assms
  by (simp_all add: at_inner_def)

lemma at_inner_ok: "at_inner f off x \<Longrightarrow> inner_ok x"
  by (simp add: at_inner_def inner_wf_def)

lemma read_inner:
  "at_inner f off (I4 n) \<Longrightarrow> read_node4 f off = Inr n"
  "at_inner f off (I16 m) \<Longrightarrow> read_node16 f off = Inr m"
  "at_inner f off (I48 k) \<Longrightarrow> read_node48 f off = Inr k"
  "at_inner f off (I256 l) \<Longrightarrow> read_node256 f off = Inr l"
  by (frule at_inner_body(1), drule at_inner_ok,
      simp add: read_node4_def read_node16_def read_node48_def read_node256_def cast_def
        node4.length_enc node16.length_enc node48.length_enc node256.length_enc
        node4.dec_enc node16.dec_enc node48.dec_enc node256.dec_enc)+

lemma node16_find_scan:
  assumes "length keys = 16" "unat cnt \<le> 16"
  shows "map_option unat (node16_find_byte t keys cnt b) = scan_loop (\<lambda>i. keys ! i = b) (unat cnt) 0"
proof -
  have "i < 16" if "scan_loop (\<lambda>i. keys ! i = b) (unat cnt) 0 = Some i" for i
    using that assms by (auto simp: scan_loop_Some)
  then show ?thesis
    using assms by (cases "scan_loop (\<lambda>i. keys ! i = b) (unat cnt) 0")
      (auto simp: node16_find_byte_eq node16_find_byte_scalar_def Let_def unat_of_nat min_def)
qed

theorem inner_find_child_spec:
  assumes "at_inner f off x"
  shows "inner_find_child f off (inner_type x) b = Inr (map_option child_offset (inner_kids x b))"
proof -
  have wf: "inner_ok x" using assms by (simp add: at_inner_def inner_wf_def)
  show ?thesis
  proof (cases x)
    case (I4 n)
    let ?s = "scan_loop (\<lambda>i. n4_keys n ! i = b) (unat (n4_count n)) 0"
    have "node4_find_loop (n4_keys n) (min (unat (n4_count n)) 4) b 0 = ?s"
      using I4 wf by (simp add: node4_find_scan node4_wf_def min_absorb1)
    moreover have "inner_kids x b = map_option (nth (n4_children n)) ?s"
      using I4 wf by (simp add: assoc_scan node4_wf_def)
    moreover have "read_node4 f off = Inr n" using I4 assms by (simp add: read_inner)
    ultimately show ?thesis using I4 by (cases ?s) (simp_all add: inner_find_child_def)
  next
    case (I16 n)
    let ?r = "node16_find_byte build_target (n16_keys n) (n16_count n) b"
    have "map_option unat ?r = scan_loop (\<lambda>i. n16_keys n ! i = b) (unat (n16_count n)) 0"
      using I16 wf by (intro node16_find_scan) (auto simp: node16_wf_def)
    then have "inner_kids x b = map_option (nth (n16_children n)) (map_option unat ?r)"
      using I16 wf by (simp add: assoc_scan node16_wf_def)
    moreover have "read_node16 f off = Inr n" using I16 assms by (simp add: read_inner)
    ultimately show ?thesis using I16 by (cases ?r) (simp_all add: inner_find_child_def)
  next
    case (I48 n)
    then have "unat (n48_index n ! unat b) \<le> 48" "length (n48_children n) = 48"
      using wf by (auto simp: n48_ok_def node48_wf_def)
    then have "unat (n48_index n ! unat b) - Suc 0 < length (n48_children n)" by linarith
    moreover have "read_node48 f off = Inr n" using I48 assms by (simp add: read_inner)
    ultimately show ?thesis using I48
      by (simp add: inner_find_child_def Let_def idx_result_def)
  next
    case (I256 n)
    with assms at_inner_body(1) [OF assms] wf show ?thesis
      by (auto simp: inner_find_child_def read_node256_child_def cast_def Let_def node256.length_enc node256.dec_enc)
  qed
qed


section \<open>Update\<close>

lemma assoc_update:
  assumes "c \<le> length keys" "c \<le> length ch" "scan_loop (\<lambda>i. keys ! i = b) c 0 = Some i" "distinct (take c keys)"
  shows "assoc keys (ch[i := e]) c = (assoc keys ch c)(b \<mapsto> e)"
proof (rule ext)
  fix b'
  have i: "i < c" "keys ! i = b" using scan_assoc_Some(1,2) [OF assms(3,1,2)] .
  have "assoc keys (ch[i := e]) c b' = map_option (nth (ch[i := e])) (scan_loop (\<lambda>i. keys ! i = b') c 0)"
    using assms by (simp add: assoc_scan)
  also have "\<dots> = ((assoc keys ch c)(b \<mapsto> e)) b'"
  proof (cases "b' = b")
    case True
    then show ?thesis using assms i by simp
  next
    case False
    then have "j \<noteq> i" if "scan_loop (\<lambda>i. keys ! i = b') c 0 = Some j" for j
      using that i by (auto simp: scan_loop_Some)
    then show ?thesis using False assms
      by (cases "scan_loop (\<lambda>i. keys ! i = b') c 0") (auto simp: assoc_scan)
  qed
  finally show "assoc keys (ch[i := e]) c b' = ((assoc keys ch c)(b \<mapsto> e)) b'" .
qed

lemma strict_sorted_distinct: "sorted_wrt (<) (xs :: 'a::linorder list) \<Longrightarrow> distinct xs"
  by (simp add: strict_sorted_iff)

lemma range_upd_nonzero: "Some 0 \<notin> range m \<Longrightarrow> e \<noteq> 0 \<Longrightarrow> Some 0 \<notin> range (m(b \<mapsto> e))"
  by (auto simp: image_iff)

lemma write_inner:
  "inner_ok x \<Longrightarrow> off + size_of_node (inner_type x) \<le> PAGE_SIZE \<Longrightarrow>
   write_struct_at off (inner_enc x) f = (Inr (), poke f off (inner_enc x))"
  by (simp add: write_struct_at_def bytes_at_mut_def length_inner_enc)

lemma n48_facts:
  assumes "n48_ok n" "node48_wf n"
  shows "length (n48_index n) = 256" "length (n48_children n) = 48"
    "\<And>b. unat (n48_index n ! unat (b :: u8)) \<le> 48"
    "\<And>b b'. n48_index n ! unat (b :: u8) = n48_index n ! unat b' \<Longrightarrow> n48_index n ! unat b \<noteq> 0 \<Longrightarrow> b = b'"
proof -
  show "length (n48_index n) = 256" "length (n48_children n) = 48" using assms(2) by (auto simp: node48_wf_def)
  show "unat (n48_index n ! unat b) \<le> 48" for b :: u8 using assms(1) by (simp add: n48_ok_def)
  show "b = b'" if "n48_index n ! unat b = n48_index n ! unat b'" "n48_index n ! unat b \<noteq> 0" for b b' :: u8
    using assms(1) that u8_lt_256 [of b] u8_lt_256 [of b'] unfolding n48_ok_def u8_unat_inject [symmetric] by blast
qed

lemma n48_slot_bound:
  assumes "n48_ok n" "node48_wf n" "n48_index n ! unat (b :: u8) \<noteq> 0"
  shows "unat (n48_index n ! unat b) - 1 < 48" "0 < unat (n48_index n ! unat b)"
proof -
  show "0 < unat (n48_index n ! unat b)" using assms(3) by (simp add: unat_gt_0)
  then show "unat (n48_index n ! unat b) - 1 < 48" using n48_facts(3) [OF assms(1,2), of b] by linarith
qed

lemma n48_update:
  fixes b :: u8 and e :: u16
  assumes ok: "n48_ok n" "node48_wf n" and i0: "n48_index n ! unat b \<noteq> 0"
  defines "n' \<equiv> n\<lparr> n48_children := (n48_children n)[unat (n48_index n ! unat b) - 1 := e] \<rparr>"
  shows "n48_ok n'" "inner_kids (I48 n') = (inner_kids (I48 n))(b \<mapsto> e)"
proof -
  note facts = n48_facts [OF ok] and bnd = n48_slot_bound [OF ok]
  have "\<exists>b'<256. unat (n48_index n ! b') = Suc i"
    if "i < 48" "(n48_children n)[unat (n48_index n ! unat b) - 1 := e] ! i \<noteq> 0" for i
  proof (cases "i = unat (n48_index n ! unat b) - 1")
    case True
    then show ?thesis using bnd(2) [OF i0] by (intro exI [of _ "unat b"]) simp
  next
    case False
    then show ?thesis using that ok(1) by (auto simp: n48_ok_def)
  qed
  then show "n48_ok n'" using ok(1) by (simp add: n48_ok_def n'_def)
  show "inner_kids (I48 n') = (inner_kids (I48 n))(b \<mapsto> e)"
  proof (rule ext)
    fix b'
    have "unat (n48_index n ! unat b') - 1 \<noteq> unat (n48_index n ! unat b) - 1"
      if "b' \<noteq> b" "n48_index n ! unat b' \<noteq> 0"
    proof
      assume "unat (n48_index n ! unat b') - 1 = unat (n48_index n ! unat b) - 1"
      then have "unat (n48_index n ! unat b') = unat (n48_index n ! unat b)"
        using bnd(2) [OF that(2)] bnd(2) [OF i0] by linarith
      then show False using that facts(4) [of b' b] by (simp add: u8_unat_inject)
    qed
    then show "inner_kids (I48 n') b' = ((inner_kids (I48 n))(b \<mapsto> e)) b'"
      using facts(2) bnd(1) [OF i0] i0 by (auto simp: n'_def Let_def)
  qed
qed

theorem inner_update_child_spec:
  assumes at: "at_inner f off x" and old: "inner_kids x b \<noteq> None" and c: "node_off c"
  shows "\<exists>x'. inner_update_child off (inner_type x) b c f = (Inr (), poke f off (inner_enc x'))
    \<and> inner_wf x' \<and> inner_type x' = inner_type x \<and> inner_kids x' = (inner_kids x)(b \<mapsto> encode_child_off c)"
proof -
  let ?e = "encode_child_off c"
  have wf: "inner_ok x" and fits: "off + size_of_node (inner_type x) \<le> PAGE_SIZE"
    using at by (auto simp: at_inner_def inner_wf_def)
  have e: "?e \<noteq> 0" using c by (rule encode_child_off_pos)
  have nz: "Some 0 \<notin> range ((inner_kids x)(b \<mapsto> ?e))"
    using at e by (intro range_upd_nonzero) (auto simp: at_inner_def inner_wf_def)
  have fin: "\<exists>x'. inner_update_child off (inner_type x) b c f = (Inr (), poke f off (inner_enc x'))
      \<and> inner_wf x' \<and> inner_type x' = inner_type x \<and> inner_kids x' = (inner_kids x)(b \<mapsto> ?e)"
    if "inner_update_child off (inner_type x) b c f = write_struct_at off (inner_enc x') f" "inner_ok x'"
      "inner_type x' = inner_type x" "inner_kids x' = (inner_kids x)(b \<mapsto> ?e)" for x'
    using that fits nz by (intro exI [of _ x']) (simp add: write_inner inner_wf_def)
  show ?thesis
  proof (cases x)
    case (I4 n)
    let ?s = "scan_loop (\<lambda>i. n4_keys n ! i = b) (unat (n4_count n)) 0"
    have l: "unat (n4_count n) \<le> length (n4_keys n)" "unat (n4_count n) \<le> length (n4_children n)"
      "distinct (take (unat (n4_count n)) (n4_keys n))" "min (unat (n4_count n)) 4 = unat (n4_count n)"
      using I4 wf by (auto simp: node4_wf_def strict_sorted_distinct)
    obtain i where i: "?s = Some i" using old I4 l by (auto simp: assoc_scan)
    have "inner_kids (I4 (n\<lparr> n4_children := (n4_children n)[i := ?e] \<rparr>)) = (inner_kids x)(b \<mapsto> ?e)"
      using I4 assoc_update [OF l(1,2) i l(3)] by simp
    then show ?thesis using I4 wf at l i
      by (intro fin [of "I4 (n\<lparr> n4_children := (n4_children n)[i := ?e] \<rparr>)"])
        (simp_all add: inner_update_child_def sbind_def reads_def read_inner node4_wf_def)
  next
    case (I16 n)
    let ?s = "scan_loop (\<lambda>i. n16_keys n ! i = b) (unat (n16_count n)) 0"
    let ?r = "node16_find_byte build_target (n16_keys n) (n16_count n) b"
    have l: "unat (n16_count n) \<le> length (n16_keys n)" "unat (n16_count n) \<le> length (n16_children n)"
      "distinct (take (unat (n16_count n)) (n16_keys n))"
      using I16 wf by (auto simp: node16_wf_def strict_sorted_distinct)
    have s: "map_option unat ?r = ?s" using I16 wf by (intro node16_find_scan) (auto simp: node16_wf_def)
    obtain i where i: "?s = Some (unat i)" "?r = Some i" using old I16 l s by (auto simp: assoc_scan)
    have "inner_kids (I16 (n\<lparr> n16_children := (n16_children n)[unat i := ?e] \<rparr>)) = (inner_kids x)(b \<mapsto> ?e)"
      using I16 assoc_update [OF l(1,2) i(1) l(3)] by simp
    then show ?thesis using I16 wf at l i
      by (intro fin [of "I16 (n\<lparr> n16_children := (n16_children n)[unat i := ?e] \<rparr>)"])
        (simp_all add: inner_update_child_def sbind_def reads_def read_inner node16_wf_def)
  next
    case (I48 n)
    let ?i = "n48_index n ! unat b"
    let ?n' = "n\<lparr> n48_children := (n48_children n)[unat ?i - 1 := ?e] \<rparr>"
    have ok: "n48_ok n" "node48_wf n" using I48 wf by auto
    have i0: "?i \<noteq> 0" using old I48 by (auto simp: Let_def split: if_splits)
    note i48 = n48_slot_bound(1) [OF ok i0]
    have "n48_ok ?n'" and "inner_kids (I48 ?n') = (inner_kids x)(b \<mapsto> ?e)"
      using n48_update [OF ok i0, of ?e] I48 by simp_all
    then show ?thesis using I48 wf at ok i0 i48
      by (intro fin [of "I48 ?n'"])
        (simp_all add: inner_update_child_def sbind_def reads_def read_inner node48_wf_def Let_def idx_result_def)
  next
    case (I256 n)
    let ?n' = "n\<lparr> n256_children := (n256_children n)[unat b := ?e] \<rparr>"
    have "inner_kids (I256 ?n') = (inner_kids x)(b \<mapsto> ?e)"
      using I256 wf e by (auto simp: fun_eq_iff Let_def node256_wf_def nth_list_update u8_unat_inject)
    then show ?thesis using I256 wf at
      by (intro fin [of "I256 ?n'"])
        (simp_all add: inner_update_child_def sbind_def reads_def read_inner node256_wf_def)
  qed
qed

section \<open>Insertion\<close>

lemma u8_succ: "unat (c :: u8) < 255 \<Longrightarrow> unat (c + 1) = Suc (unat c)"
  by (simp add: unat_word_ariths)

lemma node4_insert_spec:
  assumes ok: "inner_ok (I4 n)" and c: "n4_count n < 4" and new: "inner_kids (I4 n) b = None"
  shows "inner_ok (I4 (node4_insert_sorted n b e))"
    "inner_kids (I4 (node4_insert_sorted n b e)) = (inner_kids (I4 n))(b \<mapsto> e)"
proof -
  have c4: "unat (n4_count n) < 4" using c by (simp add: word_less_nat_alt)
  have l: "unat (n4_count n) < length (n4_keys n)" "unat (n4_count n) < length (n4_children n)"
    using ok c4 by (auto simp: node4_wf_def)
  note ins = assoc_insert(1,3) [OF _ l, where b = b] assoc_insert(2,4) [OF _ l, where b = b and e = e]
  show "inner_ok (I4 (node4_insert_sorted n b e))"
    "inner_kids (I4 (node4_insert_sorted n b e)) = (inner_kids (I4 n))(b \<mapsto> e)"
    using ok new c4 ins by (simp_all add: node4_insert_sorted_def Let_def u8_succ node4_wf_def)
qed

lemma node16_insert_spec:
  assumes ok: "inner_ok (I16 n)" and c: "n16_count n < 16" and new: "inner_kids (I16 n) b = None"
  shows "inner_ok (I16 (node16_insert_sorted n b e))"
    "inner_kids (I16 (node16_insert_sorted n b e)) = (inner_kids (I16 n))(b \<mapsto> e)"
proof -
  have c16: "unat (n16_count n) < 16" using c by (simp add: word_less_nat_alt)
  have l: "unat (n16_count n) < length (n16_keys n)" "unat (n16_count n) < length (n16_children n)"
    using ok c16 by (auto simp: node16_wf_def)
  note ins = assoc_insert(1,3) [OF _ l, where b = b] assoc_insert(2,4) [OF _ l, where b = b and e = e]
  show "inner_ok (I16 (node16_insert_sorted n b e))"
    "inner_kids (I16 (node16_insert_sorted n b e)) = (inner_kids (I16 n))(b \<mapsto> e)"
    using ok new c16 ins by (simp_all add: node16_insert_sorted_def Let_def u8_succ node16_wf_def)
qed

lemma node48_free_slot:
  assumes ok: "n48_ok n" "node48_wf n" and c: "n48_count n < 48"
  obtains i where "scan_loop (\<lambda>i. n48_children n ! i = 0) 48 0 = Some i" "i < 48" "n48_children n ! i = 0"
proof (cases "scan_loop (\<lambda>i. n48_children n ! i = 0) 48 0")
  case None
  let ?U = "{b. b < 256 \<and> n48_index n ! b \<noteq> 0}"
  have nz: "\<forall>i < 48. n48_children n ! i \<noteq> 0" using None by (simp add: scan_loop_None)
  have "{..<48} \<subseteq> (\<lambda>b. unat (n48_index n ! b) - 1) ` ?U"
  proof
    fix i :: nat assume "i \<in> {..<48}"
    then obtain b where "b < 256" "unat (n48_index n ! b) = Suc i"
      using nz ok(1) by (auto simp: n48_ok_def)
    then show "i \<in> (\<lambda>b. unat (n48_index n ! b) - 1) ` ?U" by (intro image_eqI [of _ _ b]) auto
  qed
  then have "card {..<48::nat} \<le> card ?U" by (intro surj_card_le) auto
  then show ?thesis using ok(1) c by (simp add: n48_ok_def word_less_nat_alt)
next
  case (Some i)
  then show ?thesis using that by (auto simp: scan_loop_Some)
qed

lemma node48_insert_spec:
  assumes wf: "inner_wf (I48 n)" and c: "n48_count n < 48" and new: "inner_kids (I48 n) b = None" and e: "e \<noteq> 0"
  obtains n' where "node48_insert n b e = Inr n'" "inner_ok (I48 n')" "inner_kids (I48 n') = (inner_kids (I48 n))(b \<mapsto> e)"
proof -
  have ok: "n48_ok n" "node48_wf n" using wf by (auto simp: inner_wf_def)
  note facts = n48_facts [OF ok]
  have b0: "n48_index n ! unat b = 0" using new by (auto simp: Let_def split: if_splits)
  obtain i where i: "scan_loop (\<lambda>i. n48_children n ! i = 0) 48 0 = Some i" "i < 48" "n48_children n ! i = 0"
    using node48_free_slot [OF ok c] .
  define v :: u8 where "v = word_of_nat (i + 1)"
  define n' where "n' = n\<lparr> n48_children := (n48_children n)[i := e],
    n48_index := (n48_index n)[unat b := v], n48_count := n48_count n + 1 \<rparr>"
  have ui: "unat v = Suc i" unfolding v_def using i(2) by (simp only: unat_of_nat) simp
  then have iw: "v \<noteq> 0" by (metis nat.simps(3) unat_0)
  have idx: "n48_index n' ! j = (if j = unat b then v else n48_index n ! j)" if "j < 256" for j
    using that facts(1) by (simp add: n'_def nth_list_update)
  have unused: "unat (n48_index n ! j) \<noteq> Suc i" if j: "j < 256" for j
  proof
    assume eq: "unat (n48_index n ! j) = Suc i"
    have "unat (word_of_nat j :: u8) = j" using j by (simp only: unat_of_nat) simp
    then have "inner_kids (I48 n) (word_of_nat j) = Some 0"
      using eq i(3) by (auto simp: Let_def)
    then show False using wf unfolding inner_wf_def by (metis rangeI)
  qed
  have "node48_insert n b e = Inr n'" using b0 i by (simp add: node48_insert_def n'_def v_def)
  moreover have "n48_ok n'" unfolding n48_ok_def
  proof (intro conjI allI impI)
    fix j :: nat assume "j < 256"
    then show "unat (n48_index n' ! j) \<le> 48" using ok(1) ui i(2) by (simp add: idx n48_ok_def)
  next
    fix j j' :: nat assume j: "j < 256" "j' < 256" "n48_index n' ! j = n48_index n' ! j'" "n48_index n' ! j \<noteq> 0"
    then show "j = j'" using ok(1) unused [of j] unused [of j'] ui unfolding n48_ok_def
      by (auto simp: idx split: if_splits)
  next
    fix k :: nat assume k: "k < 48" "n48_children n' ! k \<noteq> 0"
    show "\<exists>j<256. unat (n48_index n' ! j) = Suc k"
    proof (cases "k = i")
      case True
      then show ?thesis using ui by (intro exI [of _ "unat b"]) (simp add: idx)
    next
      case False
      then obtain j where "j < 256" "unat (n48_index n ! j) = Suc k"
        using k ok(1) by (auto simp: n'_def n48_ok_def)
      then show ?thesis using b0 by (intro exI [of _ j]) (auto simp: idx)
    qed
  next
    have "{j. j < 256 \<and> n48_index n' ! j \<noteq> 0} = insert (unat b) {j. j < 256 \<and> n48_index n ! j \<noteq> 0}"
      using iw by (auto simp: idx split: if_splits)
    moreover have "unat (n48_count n + 1) = Suc (unat (n48_count n))"
      using c by (intro u8_succ) (simp add: word_less_nat_alt)
    ultimately show "unat (n48_count n') = card {j. j < 256 \<and> n48_index n' ! j \<noteq> 0}"
      using ok(1) b0 by (simp add: n48_ok_def n'_def)
  qed
  moreover have "inner_kids (I48 n') = (inner_kids (I48 n))(b \<mapsto> e)"
  proof (rule ext)
    fix b' :: u8
    have "unat (n48_index n ! unat b') - 1 \<noteq> i" if "n48_index n ! unat b' \<noteq> 0"
      using unused [of "unat b'"] n48_slot_bound(2) [OF ok that] by auto
    then show "inner_kids (I48 n') b' = ((inner_kids (I48 n))(b \<mapsto> e)) b'"
      using ui iw i(2) facts(2) by (auto simp: Let_def idx u8_unat_inject) (auto simp: n'_def)
  qed
  ultimately show ?thesis using that wf by (simp add: n'_def node48_wf_def inner_wf_def)
qed

section \<open>Growth\<close>

lemma grow_4_16_spec:
  assumes ok: "inner_ok (I4 n)"
  shows "inner_ok (I16 (node16_from_node4 n))" "inner_kids (I16 (node16_from_node4 n)) = inner_kids (I4 n)"
  using ok
  by (simp_all add: node16_from_node4_def Let_def node16_empty_def node4_wf_def node16_wf_def copy_first_def
      assoc_def)

lemma index_keys_spec:
  assumes "distinct (take c keys)" "c \<le> length keys" "length idx = 256" "j < 256"
  shows "index_keys keys c idx ! j =
    (case scan_loop (\<lambda>i. unat (keys ! i) = j) c 0 of None \<Rightarrow> idx ! j | Some i \<Rightarrow> word_of_nat (i + 1))"
    "length (index_keys keys c idx) = 256"
  using assms
proof (induction c)
  case 0
  {
    case 1
    then show ?case by (simp add: index_keys_def scan_loop.simps)
  next
    case 2
    then show ?case by (simp add: index_keys_def)
  }
next
  case (Suc c)
  have step: "index_keys keys (Suc c) idx = (index_keys keys c idx)[unat (keys ! c) := word_of_nat (c + 1)]"
    by (simp add: index_keys_def)
  {
    case 1
    have d: "distinct (take c keys)" "c \<le> length keys" using 1 by (auto simp: take_Suc_conv_app_nth)
    have nc: "keys ! i \<noteq> keys ! c" if "i < c" for i
      using 1(1,2) that by (auto simp: distinct_conv_nth dest!: spec [of _ i] spec [of _ c])
    have len: "length (index_keys keys c idx) = 256" using Suc(2) d 1 by simp
    show ?case
    proof (cases "unat (keys ! c) = j")
      case True
      then have "scan_loop (\<lambda>i. unat (keys ! i) = j) (Suc c) 0 = Some c"
        using nc by (auto simp: scan_loop_Some u8_unat_inject)
      then show ?thesis using True len 1 by (simp add: step)
    next
      case False
      have "scan_loop (\<lambda>i. unat (keys ! i) = j) (Suc c) 0 = scan_loop (\<lambda>i. unat (keys ! i) = j) c 0"
      proof (cases "scan_loop (\<lambda>i. unat (keys ! i) = j) c 0")
        case None
        then have "scan_loop (\<lambda>i. unat (keys ! i) = j) (Suc c) 0 = None"
          using False by (auto simp: scan_loop_None less_Suc_eq)
        with None show ?thesis by simp
      next
        case (Some i)
        then have "scan_loop (\<lambda>i. unat (keys ! i) = j) (Suc c) 0 = Some i"
          by (auto simp: scan_loop_Some)
        with Some show ?thesis by simp
      qed
      then show ?thesis using False len 1 d Suc(1) by (simp add: step)
    qed
  next
    case 2
    have "distinct (take c keys)" "c \<le> length keys" using 2 by (auto simp: take_Suc_conv_app_nth)
    then show ?case using Suc(2) 2 by (simp add: step)
  }
qed

text \<open>A \<open>Node48\<close> whose first \<open>c\<close> child slots are filled in key order.\<close>

lemma packed48_spec:
  assumes d: "distinct (take c keys)" "c \<le> length keys" "c \<le> 48" "c \<le> length xs"
    and n: "\<And>i. i < 48 \<Longrightarrow> n48_children n ! i = (if i < c then xs ! i else 0)"
      "n48_index n = index_keys keys c (replicate 256 0)" "unat (n48_count n) = c"
  shows "n48_ok n" "inner_kids (I48 n) = assoc keys xs c"
proof -
  let ?s = "\<lambda>j. scan_loop (\<lambda>i. unat (keys ! i) = j) c 0"
  have idx: "n48_index n ! j = (case ?s j of None \<Rightarrow> 0 | Some i \<Rightarrow> word_of_nat (i + 1))" if "j < 256" for j
    using that index_keys_spec(1) [OF d(1,2)] by (simp add: n(2) split: option.split)
  have sb: "i < c" "i < 48" "unat (keys ! i) = j" if "?s j = Some i" for i j
    using that d by (auto simp: scan_loop_Some)
  have un: "unat (word_of_nat (i + 1) :: u8) = Suc i" if "i < 48" for i
    using that by (simp only: unat_of_nat) simp
  have idx0: "n48_index n ! j = 0 \<longleftrightarrow> ?s j = None" if "j < 256" for j
    using idx [OF that] un sb(2) by (cases "?s j") (auto, metis nat.simps(3) of_nat_Suc unat_0)
  have sk: "?s (unat (keys ! i)) = Some i" if "i < c" for i
    using that d(1,2) by (auto simp: scan_loop_Some u8_unat_inject distinct_conv_nth)
  show "n48_ok n" unfolding n48_ok_def
  proof (intro conjI allI impI)
    fix j :: nat assume "j < 256"
    then show "unat (n48_index n ! j) \<le> 48"
      using un sb(2) by (cases "?s j") (fastforce simp: idx)+
  next
    fix j j' :: nat assume j: "j < 256" "j' < 256" "n48_index n ! j = n48_index n ! j'" "n48_index n ! j \<noteq> 0"
    obtain i where i: "?s j = Some i" using idx0 [OF j(1)] j(4) by auto
    obtain i' where i': "?s j' = Some i'" using idx0 [OF j(2)] j(3,4) by auto
    have "unat (word_of_nat (i + 1) :: u8) = unat (word_of_nat (i' + 1) :: u8)"
      using j(3) idx [OF j(1)] idx [OF j(2)] i i' by simp
    then have "i = i'" using un [OF sb(2) [OF i]] un [OF sb(2) [OF i']] by simp
    then show "j = j'" using sb(3) [OF i] sb(3) [OF i'] by simp
  next
    fix k :: nat assume k: "k < 48" "n48_children n ! k \<noteq> 0"
    then have "k < c" using n(1) [of k] by (auto split: if_splits)
    then show "\<exists>j<256. unat (n48_index n ! j) = Suc k"
      using sk un d(3) by (intro exI [of _ "unat (keys ! k)"]) (simp add: idx)
  next
    have "{j. j < 256 \<and> n48_index n ! j \<noteq> 0} = (\<lambda>i. unat (keys ! i)) ` {..<c}"
    proof (intro equalityI subsetI)
      fix j assume "j \<in> {j. j < 256 \<and> n48_index n ! j \<noteq> 0}"
      then obtain i where i: "?s j = Some i" using idx0 [of j] by auto
      show "j \<in> (\<lambda>i. unat (keys ! i)) ` {..<c}"
        using sb(1,3) [OF i] by (intro image_eqI [of _ _ i]) simp_all
    next
      fix j assume "j \<in> (\<lambda>i. unat (keys ! i)) ` {..<c}"
      then obtain i where "i < c" "j = unat (keys ! i)" by auto
      then show "j \<in> {j. j < 256 \<and> n48_index n ! j \<noteq> 0}" using sk [of i] idx0 [of j] by simp
    qed
    moreover have "inj_on (\<lambda>i. unat (keys ! i)) {..<c}"
      using sk by (intro inj_onI) (metis lessThan_iff option.inject)
    ultimately show "unat (n48_count n) = card {j. j < 256 \<and> n48_index n ! j \<noteq> 0}"
      using n(3) by (simp add: card_image)
  qed
  show "inner_kids (I48 n) = assoc keys xs c"
  proof (rule ext)
    fix b :: u8
    have s: "scan_loop (\<lambda>i. keys ! i = b) c 0 = ?s (unat b)" by (simp add: u8_unat_inject)
    show "inner_kids (I48 n) b = assoc keys xs c b"
    proof (cases "?s (unat b)")
      case None
      then show ?thesis using idx0 [of "unat b"] s d by (simp add: Let_def assoc_scan)
    next
      case (Some i)
      then have "n48_index n ! unat b \<noteq> 0" "unat (n48_index n ! unat b) = Suc i"
        using idx0 [of "unat b"] idx [of "unat b"] un [OF sb(2) [OF Some]] by simp_all
      then show ?thesis using Some s d n(1) [of i] sb(1,2) [OF Some] by (simp add: Let_def assoc_scan)
    qed
  qed
qed

lemma grow_16_48_spec:
  assumes ok: "inner_ok (I16 n)"
  shows "inner_ok (I48 (node48_from_node16 n))" "inner_kids (I48 (node48_from_node16 n)) = inner_kids (I16 n)"
proof -
  let ?c = "unat (n16_count n)" and ?n = "node48_from_node16 n"
  have d: "distinct (take ?c (n16_keys n))" "?c \<le> length (n16_keys n)" "?c \<le> 48" "?c \<le> length (n16_children n)"
    using ok by (auto simp: node16_wf_def strict_sorted_distinct)
  have ch: "n48_children ?n ! i = (if i < ?c then n16_children n ! i else 0)" if "i < 48" for i
    using that d by (simp add: node48_from_node16_def Let_def node48_empty_def copy_first_def nth_append)
  have n: "n48_index ?n = index_keys (n16_keys n) ?c (replicate 256 0)" "unat (n48_count ?n) = ?c"
    by (simp_all add: node48_from_node16_def Let_def node48_empty_def)
  have wf: "node48_wf ?n" "n48_node_type ?n = as_u8 Node48"
    using d index_keys_spec(2) [OF d(1,2), of "replicate 256 0" 0]
    by (simp_all add: node48_from_node16_def Let_def node48_empty_def node48_wf_def copy_first_def)
  note p = packed48_spec [OF d ch n]
  show "inner_ok (I48 ?n)" using p(1) wf by simp
  show "inner_kids (I48 ?n) = inner_kids (I16 n)" using p(2) by simp
qed

lemma grow_48_256_spec:
  assumes wf: "inner_wf (I48 n)"
  shows "inner_ok (I256 (node256_from_node48 n))" "inner_kids (I256 (node256_from_node48 n)) = inner_kids (I48 n)"
proof -
  show "inner_ok (I256 (node256_from_node48 n))"
    by (simp add: node256_from_node48_def Let_def node256_empty_def node256_wf_def)
  show "inner_kids (I256 (node256_from_node48 n)) = inner_kids (I48 n)"
  proof (rule ext)
    fix b
    have "inner_kids (I48 n) b \<noteq> Some 0" using wf by (metis inner_wf_def rangeI)
    then show "inner_kids (I256 (node256_from_node48 n)) b = inner_kids (I48 n) b"
      by (auto simp: node256_from_node48_def Let_def split: if_splits)
  qed
qed

section \<open>Adding a child\<close>

lemma at_inner_write:
  assumes "inner_wf x" "off + size_of_node (inner_type x) \<le> PAGE_SIZE"
  shows "at_inner (poke f off (inner_enc x)) off x"
  using assms by (simp add: at_inner_def inner_wf_def length_inner_enc)

lemma at_inner_cong:
  assumes "at_inner f off x" "\<And>i. off \<le> i \<Longrightarrow> i < off + size_of_node (inner_type x) \<Longrightarrow> f' i = f i"
  shows "at_inner f' off x"
proof -
  have "slice f' off (size_of_node (inner_type x)) = slice f off (size_of_node (inner_type x))"
    by (rule slice_eqI) (simp add: assms(2))
  with assms(1) show ?thesis by (simp add: at_inner_def)
qed

text \<open>An in-place add, for each representation that has room.\<close>

definition adds_in_place :: "(nat \<Rightarrow> u8 \<Rightarrow> nat \<Rightarrow> nat fop) \<Rightarrow> inner \<Rightarrow> u8 \<Rightarrow> nat \<Rightarrow> frame \<Rightarrow> nat \<Rightarrow> bool" where
  "adds_in_place add x b c f off =
    (\<exists>x'. add off b c f = (Inr off, poke f off (inner_enc x')) \<and> inner_wf x' \<and> inner_type x' = inner_type x
        \<and> inner_kids x' = (inner_kids x)(b \<mapsto> encode_child_off c))"

lemma adds_in_placeI:
  assumes "add off b c f = sbind (write_struct_at off (inner_enc x')) (\<lambda>_. ret off) f" "inner_ok x'"
    "inner_type x' = inner_type x" "inner_kids x' = (inner_kids x)(b \<mapsto> encode_child_off c)"
    "at_inner f off x" "node_off c"
  shows "adds_in_place add x b c f off"
  unfolding adds_in_place_def
proof (intro exI [of _ x'] conjI)
  show "add off b c f = (Inr off, poke f off (inner_enc x'))"
    using assms by (simp add: sbind_def write_inner ret_def at_inner_def)
  have "Some 0 \<notin> range (inner_kids x')"
    unfolding assms(4) using assms(5,6)
    by (intro range_upd_nonzero encode_child_off_pos) (auto simp: at_inner_def inner_wf_def)
  with assms(2) show "inner_wf x'" by (simp add: inner_wf_def)
qed (use assms in simp_all)

lemma add_in_place_4:
  assumes at: "at_inner f off (I4 n)" and c: "node_off c" and new: "inner_kids (I4 n) b = None" and room: "n4_count n < 4"
  shows "adds_in_place inner_add_child_4 (I4 n) b c f off"
  using node4_insert_spec [OF at_inner_ok [OF at] room new, of "encode_child_off c"] at room c
  by (intro adds_in_placeI [of _ _ _ _ _ "I4 (node4_insert_sorted n b (encode_child_off c))"])
    (simp_all add: inner_add_child_4_def sbind_def reads_def read_inner)

lemma add_in_place_16:
  assumes at: "at_inner f off (I16 n)" and c: "node_off c" and new: "inner_kids (I16 n) b = None" and room: "n16_count n < 16"
  shows "adds_in_place inner_add_child_16 (I16 n) b c f off"
  using node16_insert_spec [OF at_inner_ok [OF at] room new, of "encode_child_off c"] at room c
  by (intro adds_in_placeI [of _ _ _ _ _ "I16 (node16_insert_sorted n b (encode_child_off c))"])
    (simp_all add: inner_add_child_16_def sbind_def reads_def read_inner)

lemma add_in_place_48:
  assumes at: "at_inner f off (I48 n)" and c: "node_off c" and new: "inner_kids (I48 n) b = None" and room: "n48_count n < 48"
  shows "adds_in_place inner_add_child_48 (I48 n) b c f off"
proof -
  have "inner_wf (I48 n)" using at by (simp add: at_inner_def)
  then obtain n' where n': "node48_insert n b (encode_child_off c) = Inr n'" "inner_ok (I48 n')"
    "inner_kids (I48 n') = (inner_kids (I48 n))(b \<mapsto> encode_child_off c)"
    using node48_insert_spec room new encode_child_off_pos [OF c] by blast
  then show ?thesis using at room c
    by (intro adds_in_placeI [of _ _ _ _ _ "I48 n'"])
      (simp_all add: inner_add_child_48_def sbind_def reads_def read_inner)
qed

lemma add_in_place_256:
  assumes at: "at_inner f off (I256 n)" and c: "node_off c" and new: "inner_kids (I256 n) b = None"
  shows "adds_in_place inner_add_child_256 (I256 n) b c f off"
proof -
  let ?n' = "n\<lparr> n256_children := (n256_children n)[unat b := encode_child_off c],
                n256_count := u8_saturating_add1 (n256_count n) \<rparr>"
  have ok: "inner_ok (I256 n)" using at by (rule at_inner_ok)
  have b0: "n256_children n ! unat b = 0" using new by (simp add: Let_def split: if_splits)
  have "inner_kids (I256 ?n') = (inner_kids (I256 n))(b \<mapsto> encode_child_off c)"
    using ok encode_child_off_pos [OF c]
    by (auto simp: fun_eq_iff Let_def node256_wf_def nth_list_update u8_unat_inject)
  then show ?thesis using at c b0 ok
    by (intro adds_in_placeI [of _ _ _ _ _ "I256 ?n'"])
      (simp_all add: inner_add_child_256_def sbind_def reads_def read_inner Let_def node256_wf_def)
qed

text \<open>Growing writes the larger image at the old cursor and then adds there.\<close>

lemma bumped_write_step:
  assumes b: "bumped n f f1" and ok: "frame_ok f" and l: "length img \<le> n" "length img' \<le> n"
  shows "frame_step {} f (poke f1 (cursor f) img)"
    "frame_step {} f (poke (note_abandoned off (poke f1 (cursor f) img)) (cursor f) img')"
    "cursor (poke f1 (cursor f) img) = cursor f + n"
    "cursor (poke (note_abandoned off (poke f1 (cursor f) img)) (cursor f) img') = cursor f + n"
proof -
  have lo: "DATA_AREA_START \<le> cursor f" using ok by (simp add: frame_ok_def)
  have c1: "cursor f1 = cursor f + n" "frame_ok f1" using b by (auto simp: bumped_def)
  show s1: "frame_step {} f (poke f1 (cursor f) img)"
    by (rule frame_step_trans [OF bumped_step [OF b] poke_step]) (use lo c1 l in auto)
  let ?f3 = "note_abandoned off (poke f1 (cursor f) img)"
  have ok2: "frame_ok (poke f1 (cursor f) img)" using s1 by (rule frame_step_ok)
  have s2: "frame_step {} f ?f3"
    by (rule frame_step_trans [OF s1 note_abandoned_step [OF ok2]]) auto
  show "frame_step {} f (poke ?f3 (cursor f) img')"
    by (rule frame_step_trans [OF s2 poke_step]) (use lo c1 l ok2 in auto)
  show "cursor (poke f1 (cursor f) img) = cursor f + n"
    "cursor (poke ?f3 (cursor f) img') = cursor f + n" using lo c1 by simp_all
qed

definition adds_grown :: "(nat \<Rightarrow> u8 \<Rightarrow> nat \<Rightarrow> nat fop) \<Rightarrow> inner \<Rightarrow> u8 \<Rightarrow> nat \<Rightarrow> frame \<Rightarrow> nat \<Rightarrow> bool" where
  "adds_grown add x b c f off =
    (\<exists>x' f'. add off b c f = (Inr (cursor f), f') \<and> at_inner f' (cursor f) x'
        \<and> inner_kids x' = (inner_kids x)(b \<mapsto> encode_child_off c) \<and> frame_step {} f f'
        \<and> cursor f' = cursor f + size_of_node (inner_type x')
        \<and> tombstone_leaf_cnt (header_of f') = tombstone_leaf_cnt (header_of f))"

lemma grow_then_add:
  assumes ok: "frame_ok f" and fits: "cursor f + size_of_node (inner_type g) \<le> PAGE_SIZE"
    and b: "bumped (size_of_node (inner_type g)) f f1"
    and add: "add off b c f = add' (cursor f) b c (note_abandoned off (poke f1 (cursor f) (inner_enc g)))"
    and g: "inner_wf g" "inner_kids g = inner_kids x"
    and step: "\<And>f'. at_inner f' (cursor f) g \<Longrightarrow> adds_in_place add' g b c f' (cursor f)"
  shows "adds_grown add x b c f off"
proof -
  let ?f2 = "poke f1 (cursor f) (inner_enc g)" and ?f3 = "note_abandoned off (poke f1 (cursor f) (inner_enc g))"
  have lo: "DATA_AREA_START \<le> cursor f" using ok by (simp add: frame_ok_def)
  have "at_inner ?f2 (cursor f) g" using g(1) fits by (rule at_inner_write)
  then have "at_inner ?f3 (cursor f) g"
    by (rule at_inner_cong) (use lo in \<open>simp add: geometry\<close>)
  then obtain x' where x': "add' (cursor f) b c ?f3 = (Inr (cursor f), poke ?f3 (cursor f) (inner_enc x'))"
    "inner_wf x'" "inner_type x' = inner_type g" "inner_kids x' = (inner_kids g)(b \<mapsto> encode_child_off c)"
    using step unfolding adds_in_place_def by blast
  have l: "length (inner_enc g) \<le> size_of_node (inner_type g)" "length (inner_enc x') \<le> size_of_node (inner_type g)"
    using g(1) x'(2,3) by (simp_all add: inner_wf_def length_inner_enc)
  note st = bumped_write_step [OF b ok l]
  have "at_inner (poke ?f3 (cursor f) (inner_enc x')) (cursor f) x'"
    using x' fits by (intro at_inner_write) auto
  moreover have "tombstone_leaf_cnt (header_of (poke ?f3 (cursor f) (inner_enc x'))) = tombstone_leaf_cnt (header_of f)"
    using b lo by (simp add: bumped_def)
  ultimately show ?thesis
    unfolding adds_grown_def using x' g(2) add st(2,4) by (intro exI [of _ x'] exI) auto
qed


lemma grow_16_outcome:
  assumes ok: "frame_ok f" and x: "inner_ok (I4 n)"
  obtains (fail) e where "grow_node4_to_node16 n f = (Inl (Fail (Alloc e)), f)" "crowded f"
  | (bump) f1 where "grow_node4_to_node16 n f = (Inr (cursor f), poke f1 (cursor f) (node16_enc (node16_from_node4 n)))"
      "bumped 56 f f1" "cursor f + 56 \<le> PAGE_SIZE"
proof -
  have nt: "Node16 \<noteq> Invalid" by simp
  let ?k = "\<lambda>off. if unat (n4_count n) > 4 then panic ''index''
      else sbind (write_struct_at off (node16_enc (node16_from_node4 n))) (\<lambda>_. ret off)"
  show ?thesis
    using ok nt
  proof (cases rule: alloc_node_then [where k = ?k])
    case (bump f1)
    have "length (node16_enc (node16_from_node4 n)) = 56"
      using grow_4_16_spec(1) [OF x] by (simp add: node16.length_enc)
    then have "?k (cursor f) f1 = (Inr (cursor f), poke f1 (cursor f) (node16_enc (node16_from_node4 n)))"
      using x bump(3) by (simp add: sbind_def write_struct_at_def bytes_at_mut_def ret_def)
    with bump show ?thesis by (intro that(2)) (simp_all add: grow_node4_to_node16_def)
  qed (rule that(1), simp_all add: grow_node4_to_node16_def)
qed

lemma grow_48_outcome:
  assumes ok: "frame_ok f" and x: "inner_ok (I16 n)"
  obtains (fail) e where "grow_node16_to_node48 n f = (Inl (Fail (Alloc e)), f)" "crowded f"
  | (bump) f1 where "grow_node16_to_node48 n f = (Inr (cursor f), poke f1 (cursor f) (node48_enc (node48_from_node16 n)))"
      "bumped 360 f f1" "cursor f + 360 \<le> PAGE_SIZE"
proof -
  have nt: "Node48 \<noteq> Invalid" by simp
  let ?k = "\<lambda>off. if unat (n16_count n) > 16 then panic ''index''
      else sbind (write_struct_at off (node48_enc (node48_from_node16 n))) (\<lambda>_. ret off)"
  show ?thesis
    using ok nt
  proof (cases rule: alloc_node_then [where k = ?k])
    case (bump f1)
    have "length (node48_enc (node48_from_node16 n)) = 360"
      using grow_16_48_spec(1) [OF x] by (simp add: node48.length_enc)
    then have "?k (cursor f) f1 = (Inr (cursor f), poke f1 (cursor f) (node48_enc (node48_from_node16 n)))"
      using x bump(3) by (simp add: sbind_def write_struct_at_def bytes_at_mut_def ret_def)
    with bump show ?thesis by (intro that(2)) (simp_all add: grow_node16_to_node48_def)
  qed (rule that(1), simp_all add: grow_node16_to_node48_def)
qed

lemma grow_256_outcome:
  assumes ok: "frame_ok f" and x: "inner_wf (I48 n)"
  obtains (fail) e where "grow_node48_to_node256 n f = (Inl (Fail (Alloc e)), f)" "crowded f"
  | (bump) f1 where "grow_node48_to_node256 n f = (Inr (cursor f), poke f1 (cursor f) (node256_enc (node256_from_node48 n)))"
      "bumped 520 f f1" "cursor f + 520 \<le> PAGE_SIZE"
proof -
  have nt: "Node256 \<noteq> Invalid" by simp
  let ?k = "\<lambda>off. if \<exists>idx \<in> set (n48_index n). 48 < unat idx then panic ''index''
      else sbind (write_struct_at off (node256_enc (node256_from_node48 n))) (\<lambda>_. ret off)"
  have i48: "\<not> (\<exists>idx \<in> set (n48_index n). 48 < unat idx)"
    using x by (auto simp: inner_wf_def n48_ok_def node48_wf_def in_set_conv_nth not_less)
  show ?thesis
    using ok nt
  proof (cases rule: alloc_node_then [where k = ?k])
    case (bump f1)
    have "length (node256_enc (node256_from_node48 n)) = 520"
      using grow_48_256_spec(1) [OF x] by (simp add: node256.length_enc)
    then have "?k (cursor f) f1 = (Inr (cursor f), poke f1 (cursor f) (node256_enc (node256_from_node48 n)))"
      using i48 bump(3) by (simp add: sbind_def write_struct_at_def bytes_at_mut_def ret_def)
    with bump show ?thesis by (intro that(2)) (simp_all add: grow_node48_to_node256_def)
  qed (rule that(1), simp_all add: grow_node48_to_node256_def)
qed

lemma add_grow_4:
  assumes ok: "frame_ok f" and at: "at_inner f off (I4 n)" and c: "node_off c" and new: "inner_kids (I4 n) b = None"
    and full: "\<not> n4_count n < 4"
  shows "adds_grown inner_add_child_4 (I4 n) b c f off \<or> (\<exists>e. inner_add_child_4 off b c f = (Inl (Fail (Alloc e)), f) \<and> crowded f)"
proof -
  have okx: "inner_ok (I4 n)" using at by (rule at_inner_ok)
  note g = grow_4_16_spec [OF okx]
  let ?g = "I16 (node16_from_node4 n)"
  have gw: "inner_wf ?g" using g at by (simp add: inner_wf_def at_inner_def del: inner_kids.simps)
  have rd: "inner_add_child_4 off b c f = sbind (grow_node4_to_node16 n) (\<lambda>o'. sbind (modify (note_abandoned off))
      (\<lambda>_. inner_add_child_16 o' b c)) f"
    using at full by (simp add: inner_add_child_4_def sbind_def reads_def read_inner)
  have cnt: "n16_count (node16_from_node4 n) < 16"
    using okx by (simp add: node16_from_node4_def Let_def word_less_nat_alt)
  from ok okx show ?thesis
  proof (cases rule: grow_16_outcome)
    case (fail e)
    then show ?thesis using rd by (simp add: sbind_def)
  next
    case (bump f1)
    have "adds_grown inner_add_child_4 (I4 n) b c f off"
    proof (rule grow_then_add [where g = ?g and add' = inner_add_child_16, OF ok])
      show "adds_in_place inner_add_child_16 ?g b c f' (cursor f)" if "at_inner f' (cursor f) ?g" for f'
        using add_in_place_16 [OF that c] new g(2) cnt by (simp del: inner_kids.simps)
    qed (use bump rd gw g in \<open>simp_all add: sbind_def modify_def\<close>)
    then show ?thesis ..
  qed
qed

lemma add_grow_16:
  assumes ok: "frame_ok f" and at: "at_inner f off (I16 n)" and c: "node_off c" and new: "inner_kids (I16 n) b = None"
    and full: "\<not> n16_count n < 16"
  shows "adds_grown inner_add_child_16 (I16 n) b c f off \<or> (\<exists>e. inner_add_child_16 off b c f = (Inl (Fail (Alloc e)), f) \<and> crowded f)"
proof -
  have okx: "inner_ok (I16 n)" using at by (rule at_inner_ok)
  note g = grow_16_48_spec [OF okx]
  let ?g = "I48 (node48_from_node16 n)"
  have gw: "inner_wf ?g" using g at by (simp add: inner_wf_def at_inner_def del: inner_kids.simps)
  have rd: "inner_add_child_16 off b c f = sbind (grow_node16_to_node48 n) (\<lambda>o'. sbind (modify (note_abandoned off))
      (\<lambda>_. inner_add_child_48 o' b c)) f"
    using at full by (simp add: inner_add_child_16_def sbind_def reads_def read_inner)
  have cnt: "n48_count (node48_from_node16 n) < 48"
    using okx by (simp add: node48_from_node16_def Let_def word_less_nat_alt)
  from ok okx show ?thesis
  proof (cases rule: grow_48_outcome)
    case (fail e)
    then show ?thesis using rd by (simp add: sbind_def)
  next
    case (bump f1)
    have "adds_grown inner_add_child_16 (I16 n) b c f off"
    proof (rule grow_then_add [where g = ?g and add' = inner_add_child_48, OF ok])
      show "adds_in_place inner_add_child_48 ?g b c f' (cursor f)" if "at_inner f' (cursor f) ?g" for f'
        using add_in_place_48 [OF that c] new g(2) cnt by (simp del: inner_kids.simps)
    qed (use bump rd gw g in \<open>simp_all add: sbind_def modify_def\<close>)
    then show ?thesis ..
  qed
qed

lemma add_grow_48:
  assumes ok: "frame_ok f" and at: "at_inner f off (I48 n)" and c: "node_off c" and new: "inner_kids (I48 n) b = None"
    and full: "\<not> n48_count n < 48"
  shows "adds_grown inner_add_child_48 (I48 n) b c f off \<or> (\<exists>e. inner_add_child_48 off b c f = (Inl (Fail (Alloc e)), f) \<and> crowded f)"
proof -
  have x: "inner_wf (I48 n)" using at by (simp add: at_inner_def)
  note g = grow_48_256_spec [OF x]
  let ?g = "I256 (node256_from_node48 n)"
  have gw: "inner_wf ?g" using g at by (simp add: inner_wf_def at_inner_def del: inner_kids.simps)
  have rd: "inner_add_child_48 off b c f = sbind (grow_node48_to_node256 n) (\<lambda>o'. sbind (modify (note_abandoned off))
      (\<lambda>_. inner_add_child_256 o' b c)) f"
    using at full by (simp add: inner_add_child_48_def sbind_def reads_def read_inner)
  from ok x show ?thesis
  proof (cases rule: grow_256_outcome)
    case (fail e)
    then show ?thesis using rd by (simp add: sbind_def)
  next
    case (bump f1)
    have "adds_grown inner_add_child_48 (I48 n) b c f off"
    proof (rule grow_then_add [where g = ?g and add' = inner_add_child_256, OF ok])
      show "adds_in_place inner_add_child_256 ?g b c f' (cursor f)" if "at_inner f' (cursor f) ?g" for f'
        using add_in_place_256 [OF that c] new g(2) by (simp del: inner_kids.simps)
    qed (use bump rd gw g in \<open>simp_all add: sbind_def modify_def\<close>)
    then show ?thesis ..
  qed
qed

lemma inner_add_child_dispatch:
  "(\<lambda>off. inner_add_child off Node4) = inner_add_child_4" "(\<lambda>off. inner_add_child off Node16) = inner_add_child_16"
  "(\<lambda>off. inner_add_child off Node48) = inner_add_child_48" "(\<lambda>off. inner_add_child off Node256) = inner_add_child_256"
  by (auto simp: inner_add_child_def fun_eq_iff)

theorem inner_add_child_spec:
  assumes ok: "frame_ok f" and at: "at_inner f off x" and c: "node_off c" and new: "inner_kids x b = None"
  obtains (in_place) "adds_in_place (\<lambda>off. inner_add_child off (inner_type x)) x b c f off"
  | (grown) "adds_grown (\<lambda>off. inner_add_child off (inner_type x)) x b c f off"
  | (fail) e where "inner_add_child off (inner_type x) b c f = (Inl (Fail (Alloc e)), f)" "crowded f"
proof -
  let ?add = "\<lambda>off. inner_add_child off (inner_type x)"
  have "adds_in_place ?add x b c f off \<or> adds_grown ?add x b c f off
      \<or> (\<exists>e. inner_add_child off (inner_type x) b c f = (Inl (Fail (Alloc e)), f) \<and> crowded f)"
  proof (cases x)
    case (I4 n)
    then show ?thesis
      using at new add_in_place_4 [of f off n c b] add_grow_4 [of f off n c b] ok c
      by (cases "n4_count n < 4") (auto simp: inner_add_child_dispatch inner_add_child_def)
  next
    case (I16 n)
    then show ?thesis
      using at new add_in_place_16 [of f off n c b] add_grow_16 [of f off n c b] ok c
      by (cases "n16_count n < 16") (auto simp: inner_add_child_dispatch inner_add_child_def)
  next
    case (I48 n)
    then show ?thesis
      using at new add_in_place_48 [of f off n c b] add_grow_48 [of f off n c b] ok c
      by (cases "n48_count n < 48") (auto simp: inner_add_child_dispatch inner_add_child_def)
  next
    case (I256 n)
    then show ?thesis using add_in_place_256 [of f off n c b] at c new
      by (simp add: inner_add_child_dispatch)
  qed
  then show ?thesis using that by blast
qed

end
