(* ===== verification/Art.thy ===== *)
theory Art
  imports Node_Shape
begin

text \<open>The abstract radix tree a frame stores.  \<open>holds f t\<close> says that the frame's bytes represent the
  tree \<open>t\<close>: every node lies aligned below the bump cursor, its image is what the writers produce, and
  the nodes do not overlap.  \<open>apath pre t\<close> is the ART invariant proper: every leaf key extends the path
  that leads to it, and terminated keys cannot be strict prefixes of one another.\<close>

section \<open>Trees\<close>

datatype art =
  AEmpty nat
| ALeaf nat Leaf bytes bytes
| APrefix nat bytes art
| ABlob nat bytes BlobGuid
| AInner nat NodeType "u8 \<Rightarrow> art option"

primrec aoff :: "art \<Rightarrow> nat" where
  "aoff (AEmpty off) = off"
| "aoff (ALeaf off l key val) = off"
| "aoff (APrefix off bs t) = off"
| "aoff (ABlob off bs guid) = off"
| "aoff (AInner off nt ch) = off"

primrec asize :: "art \<Rightarrow> nat" where
  "asize (AEmpty off) = 8"
| "asize (ALeaf off l key val) = leaf_body_size (length key) (length val)"
| "asize (APrefix off bs t) = 128"
| "asize (ABlob off bs guid) = 128"
| "asize (AInner off nt ch) = size_of_node nt"

definition region :: "nat \<Rightarrow> nat \<Rightarrow> nat set" where
  "region off n = {off ..< off + n}"

primrec footprint :: "art \<Rightarrow> nat set" where
  "footprint (AEmpty off) = region off 8"
| "footprint (ALeaf off l key val) = region off (leaf_body_size (length key) (length val))"
| "footprint (APrefix off bs t) = region off 128 \<union> footprint t"
| "footprint (ABlob off bs guid) = region off 128"
| "footprint (AInner off nt ch) =
    region off (size_of_node nt) \<union> (\<Union>b. case (map_option footprint \<circ> ch) b of None \<Rightarrow> {} | Some s \<Rightarrow> s)"

lemma footprint_AInner:
  "footprint (AInner off nt ch) = region off (size_of_node nt) \<union> (\<Union>b. \<Union>t \<in> set_option (ch b). footprint t)"
  by (auto split: option.splits)

declare footprint.simps(5) [simp del]

section \<open>Representation\<close>

definition placed :: "frame \<Rightarrow> nat \<Rightarrow> nat \<Rightarrow> bool" where
  "placed f off n = (DATA_AREA_START \<le> off \<and> 8 dvd off \<and> off + n \<le> cursor f)"

definition prefix_img :: "bytes \<Rightarrow> nat \<Rightarrow> bytes" where
  "prefix_img bs child =
    prefix_enc \<lparr> prefix_count = 1, prefix_node_type = as_u8 Prefix, prefix_len = word_of_nat (length bs),
      prefix_child = ucast (encode_child_off child), prefix_bytes = bs @ replicate (PREFIX_MAX_INLINE - length bs) 0 \<rparr>"

definition blob_img :: "bytes \<Rightarrow> BlobGuid \<Rightarrow> bytes" where
  "blob_img bs guid =
    blob_node_enc \<lparr> blob_count = 1, blob_node_type = as_u8 Blob, blob_prefix_len = word_of_nat (length bs),
      child_blob_guid = guid, blob_bytes = bs @ replicate (BLOB_MAX_INLINE - length bs) 0 \<rparr>"

definition leaf_matches :: "Leaf \<Rightarrow> bytes \<Rightarrow> bytes \<Rightarrow> bool" where
  "leaf_matches l key val =
    (leaf_node_type l = as_u8 Leaf \<and> unat (key_len l) = length key \<and> unat (value_len l) = length val
     \<and> (key_fp l = 0 \<or> key_fp l = fingerprint (sk_exact key)))"

inductive holds :: "frame \<Rightarrow> art \<Rightarrow> bool" for f where
  empty: "placed f off 8 \<Longrightarrow> f (off + 1) = as_u8 EmptyRoot \<Longrightarrow> holds f (AEmpty off)"
| leaf: "placed f off (leaf_body_size (length key) (length val)) \<Longrightarrow> leaf_matches l key val \<Longrightarrow>
    slice f off (16 + length key + length val) = leaf_enc l @ key @ val \<Longrightarrow> holds f (ALeaf off l key val)"
| pfx: "placed f off 128 \<Longrightarrow> bs \<noteq> [] \<Longrightarrow> length bs \<le> PREFIX_MAX_INLINE \<Longrightarrow>
    slice f off 128 = prefix_img bs (aoff t) \<Longrightarrow> holds f t \<Longrightarrow> region off 128 \<inter> footprint t = {} \<Longrightarrow>
    holds f (APrefix off bs t)"
| blob: "placed f off 128 \<Longrightarrow> length bs \<le> BLOB_MAX_INLINE \<Longrightarrow> length guid = 16 \<Longrightarrow>
    slice f off 128 = blob_img bs guid \<Longrightarrow> holds f (ABlob off bs guid)"
| inner: "placed f off (size_of_node nt) \<Longrightarrow> at_inner f off x \<Longrightarrow> inner_type x = nt \<Longrightarrow>
    inner_kids x = (\<lambda>b. map_option (encode_child_off \<circ> aoff) (ch b)) \<Longrightarrow>
    (\<And>b t. ch b = Some t \<Longrightarrow> holds f t \<and> region off (size_of_node nt) \<inter> footprint t = {}) \<Longrightarrow>
    (\<And>b b' t t'. ch b = Some t \<Longrightarrow> ch b' = Some t' \<Longrightarrow> b \<noteq> b' \<Longrightarrow> footprint t \<inter> footprint t' = {}) \<Longrightarrow>
    holds f (AInner off nt ch)"

inductive_cases holds_emptyE: "holds f (AEmpty off)"
inductive_cases holds_leafE: "holds f (ALeaf off l key val)"
inductive_cases holds_prefixE: "holds f (APrefix off bs t)"
inductive_cases holds_blobE: "holds f (ABlob off bs guid)"
inductive_cases holds_innerE: "holds f (AInner off nt ch)"

section \<open>The path invariant and abstract lookup\<close>

text \<open>A stored key is a NUL-free user key followed by the terminator.\<close>

definition valid_key :: "bytes \<Rightarrow> bool" where
  "valid_key k = (k \<noteq> [] \<and> last k = 0 \<and> 0 \<notin> set (butlast k))"

primrec apath :: "art \<Rightarrow> bytes \<Rightarrow> bool" where
  "apath (AEmpty off) = (\<lambda>pre. True)"
| "apath (ALeaf off l key val) = (\<lambda>pre. valid_key key \<and> prefix pre key)"
| "apath (APrefix off bs t) = (\<lambda>pre. 0 \<notin> set (butlast (pre @ bs)) \<and> apath t (pre @ bs))"
| "apath (ABlob off bs guid) = (\<lambda>pre. 0 \<notin> set (butlast (pre @ bs)))"
| "apath (AInner off nt ch) =
    (\<lambda>pre. 0 \<notin> set pre \<and> (\<forall>b. case (map_option apath \<circ> ch) b of None \<Rightarrow> True | Some p \<Rightarrow> p (pre @ [b])))"

lemma apath_AInner:
  "apath (AInner off nt ch) pre \<longleftrightarrow> 0 \<notin> set pre \<and> (\<forall>b t. ch b = Some t \<longrightarrow> apath t (pre @ [b]))"
  by (auto split: option.splits)

declare apath.simps(5) [simp del]

datatype LookupResult =
  Found bytes u64
| LookupNotFound
| Crossing BlobGuid nat

primrec alookup :: "art \<Rightarrow> bytes \<Rightarrow> nat \<Rightarrow> LookupResult" where
  "alookup (AEmpty off) = (\<lambda>k d. LookupNotFound)"
| "alookup (ALeaf off l key val) =
    (\<lambda>k d. if tombstone l = 0 \<and> k = key then Found val (seq l) else LookupNotFound)"
| "alookup (APrefix off bs t) =
    (\<lambda>k d. if d \<le> length k \<and> prefix bs (drop d k) then alookup t k (d + length bs) else LookupNotFound)"
| "alookup (ABlob off bs guid) =
    (\<lambda>k d. if d \<le> length k \<and> prefix bs (drop d k) then Crossing guid (d + length bs) else LookupNotFound)"
| "alookup (AInner off nt ch) =
    (\<lambda>k d. if d < length k then
       (case (map_option alookup \<circ> ch) (k ! d) of None \<Rightarrow> LookupNotFound | Some g \<Rightarrow> g k (d + 1))
     else LookupNotFound)"

lemma alookup_AInner:
  "alookup (AInner off nt ch) k d =
    (if d < length k then (case ch (k ! d) of None \<Rightarrow> LookupNotFound | Some t \<Rightarrow> alookup t k (d + 1))
     else LookupNotFound)"
  by (auto split: option.splits)

declare alookup.simps(5) [simp del]

section \<open>Placement and framing\<close>

lemma holds_placed: "holds f t \<Longrightarrow> placed f (aoff t) (asize t)"
  by (cases rule: holds.cases) auto

lemma leaf_lengths:
  "leaf_matches l key val \<Longrightarrow> length key < 2 ^ 16 \<and> length val < 2 ^ 16"
  using unsigned_less [of "key_len l", where ?'a = nat] unsigned_less [of "value_len l", where ?'a = nat]
  by (simp add: leaf_matches_def)

lemma holds_asize:
  assumes "holds f t" shows "8 \<le> asize t"
  using assms
proof (cases rule: holds.cases)
  case (leaf off key val l)
  then show ?thesis using leaf_lengths [of l key val] leaf_body_size_bounds(1) [of "length key" "length val"] by simp
next
  case (inner off nt x ch)
  then show ?thesis using size_of_node_bounds [of nt] inner_type_facts(1) [of x] by auto
qed auto

lemma region_footprint: "region (aoff t) (asize t) \<subseteq> footprint t"
  by (cases t) (auto simp: footprint_AInner)

lemma holds_footprint: "holds f t \<Longrightarrow> footprint t \<subseteq> {DATA_AREA_START ..< cursor f}"
proof (induction rule: holds.induct)
  case (inner off nt x ch)
  then show ?case unfolding footprint_AInner placed_def region_def by fastforce
qed (auto simp: placed_def region_def)

lemma holds_node_off: "holds f t \<Longrightarrow> frame_ok f \<Longrightarrow> node_off (aoff t)"
  using holds_placed [of f t] holds_asize [of f t] by (auto simp: node_off_def placed_def frame_ok_def)

lemma placed_mono: "placed f off n \<Longrightarrow> cursor f \<le> cursor f' \<Longrightarrow> placed f' off n"
  by (auto simp: placed_def)

lemma slice_agree:
  "(\<And>i. i \<in> region off n \<Longrightarrow> f' i = f i) \<Longrightarrow> m \<le> n \<Longrightarrow> slice f' off m = slice f off m"
  by (rule slice_eqI) (simp add: region_def)

lemma holds_agree:
  assumes "holds f t" "\<And>i. i \<in> footprint t \<Longrightarrow> f' i = f i" "cursor f \<le> cursor f'"
  shows "holds f' t"
  using assms
proof (induction rule: holds.induct)
  case (empty off)
  have "placed f' off 8" by (rule placed_mono [OF empty(1,4)])
  moreover have "off + 1 \<in> footprint (AEmpty off)" by (simp add: region_def)
  ultimately show ?case using empty(2,3) by (intro holds.empty) auto
next
  case (leaf off key val l)
  have "16 + length key + length val \<le> leaf_body_size (length key) (length val)"
    using leaf_lengths [OF leaf(2)] by (intro leaf_body_size_bounds) auto
  then have "slice f' off (16 + length key + length val) = slice f off (16 + length key + length val)"
    using leaf(4) by (intro slice_agree) auto
  then show ?case using leaf(2,3) placed_mono [OF leaf(1,5)] by (intro holds.leaf) auto
next
  case (pfx off bs t)
  have "slice f' off 128 = slice f off 128" using pfx(8) by (intro slice_agree [of off 128]) auto
  then show ?case using pfx(2-8) placed_mono [OF pfx(1,9)] pfx(9) by (intro holds.pfx) auto
next
  case (blob off bs guid)
  have "slice f' off 128 = slice f off 128" using blob(5) by (intro slice_agree [of off 128]) auto
  then show ?case using blob(2-4) placed_mono [OF blob(1,6)] by (intro holds.blob) auto
next
  case (inner off nt x ch)
  have at: "at_inner f' off x"
    using inner.hyps(3) inner.prems(1) by (intro at_inner_cong [OF inner.hyps(2)]) (auto simp: footprint_AInner region_def)
  have "holds f' t" if "ch b = Some t" for b t
  proof -
    have "footprint t \<subseteq> footprint (AInner off nt ch)" using that by (force simp: footprint_AInner)
    then show ?thesis using inner.IH [OF that] inner.prems by blast
  qed
  then show ?case using inner.hyps inner.IH placed_mono [OF inner.hyps(1) inner.prems(2)]
    by (intro holds.inner [OF _ at]) blast+
qed

lemma holds_step:
  assumes "holds f t" "frame_step R f f'" "footprint t \<inter> R = {}"
  shows "holds f' t"
proof (rule holds_agree [OF assms(1)])
  fix i assume "i \<in> footprint t"
  then show "f' i = f i"
    using assms(2,3) holds_footprint [OF assms(1)] unfolding frame_step_def by fastforce
qed (use assms(2) in \<open>simp add: frame_step_def\<close>)

section \<open>Reading node headers\<close>

lemma ucast_u16_u32 [simp]: "ucast (ucast (w :: u16) :: u32) = w"
  by (rule bit_word_eqI) (simp add: bit_ucast_iff)

primrec antype :: "art \<Rightarrow> NodeType" where
  "antype (AEmpty off) = EmptyRoot"
| "antype (ALeaf off l key val) = Leaf"
| "antype (APrefix off bs t) = Prefix"
| "antype (ABlob off bs guid) = Blob"
| "antype (AInner off nt ch) = nt"

lemma length_images [simp]:
  "length bs \<le> PREFIX_MAX_INLINE \<Longrightarrow> length (prefix_img bs c) = 128"
  "length bs \<le> BLOB_MAX_INLINE \<Longrightarrow> length guid = 16 \<Longrightarrow> length (blob_img bs guid) = 128"
  by (simp_all add: prefix_img_def blob_img_def prefix_enc_def blob_node_enc_def PREFIX_MAX_INLINE_def
      BLOB_MAX_INLINE_def)

lemma image_tags [simp]: "prefix_img bs c ! Suc 0 = as_u8 Prefix" "blob_img bs guid ! Suc 0 = as_u8 Blob"
  "leaf_enc l ! Suc 0 = leaf_node_type l"
  by (simp_all add: prefix_img_def blob_img_def prefix_enc_def blob_node_enc_def leaf_enc_def)

lemma slice_tag: "slice f off n = img \<Longrightarrow> 2 \<le> n \<Longrightarrow> f (off + 1) = img ! 1"
  by auto

lemma holds_tag:
  assumes "holds f t" shows "f (aoff t + 1) = as_u8 (antype t)"
  using assms
proof (cases rule: holds.cases)
  case (leaf off key val l)
  then have "f (off + 1) = (leaf_enc l @ key @ val) ! 1" by (intro slice_tag) auto
  moreover have "length (leaf_enc l) = 16" by (simp add: leaf.length_enc)
  ultimately show ?thesis using leaf by (simp add: nth_append leaf_matches_def)
next
  case (pfx off bs t')
  then show ?thesis using slice_tag [OF pfx(5)] by simp
next
  case (blob off bs guid)
  then show ?thesis using slice_tag [OF blob(5)] by simp
next
  case (inner off nt x ch)
  then show ?thesis using at_inner_tag [OF inner(3)] by simp
qed auto

lemma holds_antype: "holds f t \<Longrightarrow> antype t \<noteq> Invalid"
  by (cases rule: holds.cases) auto

lemma holds_ntype:
  assumes "holds f t" "frame_ok f" shows "ntype_at f (aoff t) = Some (antype t)"
proof -
  have "aoff t + 1 < PAGE_SIZE"
    using holds_placed [OF assms(1)] holds_asize [OF assms(1)] assms(2) by (auto simp: placed_def frame_ok_def)
  then show ?thesis using holds_tag [OF assms(1)] by (intro ntype_at_poke_tag)
qed

lemma holds_body:
  assumes "holds f t" "frame_ok f"
  shows "body_at_offset f (aoff t) = Some (slice f (aoff t) (asize t))"
    "body_at_offset_mut f (aoff t) = Some (asize t)"
proof -
  have fits: "aoff t + asize t \<le> PAGE_SIZE"
    using holds_placed [OF assms(1)] assms(2) by (auto simp: placed_def frame_ok_def)
  note tag = holds_tag [OF assms(1)]
  have "body_at_offset f (aoff t) = Some (slice f (aoff t) (asize t)) \<and> body_at_offset_mut f (aoff t) = Some (asize t)"
  proof (cases "antype t = Leaf")
    case True
    with assms(1) obtain off l key val where t: "t = ALeaf off l key val" by (cases t) (auto elim: holds_innerE)
    then have l: "leaf_matches l key val" "slice f off (16 + length key + length val) = leaf_enc l @ key @ val"
      using assms(1) by (auto elim: holds_leafE)
    have "slice f off 16 = take 16 (slice f off (16 + length key + length val))" by simp
    also have "\<dots> = leaf_enc l" unfolding l(2) by (simp add: leaf.length_enc)
    finally have "leaf_dec (slice f off 16) = l" by (simp add: leaf.dec_enc)
    then show ?thesis
      using body_at_offset_leaf [of f off l] l(1) tag fits t by (simp add: leaf_matches_def)
  next
    case False
    then have "asize t = size_of_node (antype t)" by (cases t) auto
    then show ?thesis
      using body_at_offset_fixed [of f "aoff t" "antype t"] tag fits False holds_antype [OF assms(1)] by simp
  qed
  then show "body_at_offset f (aoff t) = Some (slice f (aoff t) (asize t))"
    "body_at_offset_mut f (aoff t) = Some (asize t)" by auto
qed

end
