(* ===== verification/Lookup.thy ===== *)
theory Lookup
  imports Art
begin

text \<open>Single-frame point lookup (\<^verbatim>\<open>src/src/engine/walker/lookup.rs\<close>).  The descent is recursive in
  the source; here it takes fuel, and \<open>None\<close> means the fuel ran out.  Every arm of the dispatch is one
  definition, with the recursive call as its first argument.  On a frame that holds a tree the
  descent returns within \<open>length key + 1 - depth\<close> calls and computes the abstract lookup.\<close>

section \<open>Descent\<close>

type_synonym descend_call = "nat \<Rightarrow> nat \<Rightarrow> LookupResult result option"

definition blob_descend :: "bytes \<Rightarrow> SearchKey \<Rightarrow> nat \<Rightarrow> LookupResult result" where
  "blob_descend body key depth =
    rbind (cast blob_node_dec 128 body) (\<lambda>b.
      let plen = unat (blob_prefix_len b) in
      if plen > BLOB_MAX_INLINE then
        Inl (Fail (node_corrupt ''walker::blob_descend: prefix_len exceeds inline buffer''))
      else if \<not> range_eq key depth (take plen (blob_bytes b)) then Inr LookupNotFound
      else Inr (Crossing (child_blob_guid b) (depth + plen)))"

definition leaf_check :: "bytes \<Rightarrow> SearchKey \<Rightarrow> nat \<Rightarrow> LookupResult result" where
  "leaf_check body key depth =
    rbind (cast_leaf body) (\<lambda>leaf.
      if tombstone leaf \<noteq> 0 then Inr LookupNotFound
      else if key_fp leaf \<noteq> 0 \<and> key_fp leaf \<noteq> fingerprint key then Inr LookupNotFound
      else
        let key_end = 16 + unat (key_len leaf);
            value_end = key_end + unat (value_len leaf) in
        if value_end > length body then Inl (Fail (node_corrupt ''leaf_check: key/value out of range''))
        else if \<not> eq_slice key (drop 16 (take key_end body)) then Inr LookupNotFound
        else Inr (Found (drop key_end (take value_end body)) (seq leaf)))"

definition prefix_descend :: "descend_call \<Rightarrow> bytes \<Rightarrow> SearchKey \<Rightarrow> nat \<Rightarrow> LookupResult result option" where
  "prefix_descend call body key depth =
    (case cast prefix_dec 128 body of
       Inl e \<Rightarrow> Some (Inl e)
     | Inr p \<Rightarrow>
         let plen = unat (prefix_len p) in
         if plen > length (prefix_bytes p) then
           Some (Inl (Fail (node_corrupt ''walker::prefix_descend: prefix_len exceeds inline buffer'')))
         else if \<not> range_eq key depth (take plen (prefix_bytes p)) then Some (Inr LookupNotFound)
         else call (child_offset (ucast (prefix_child p))) (depth + plen))"

definition node4_descend :: "descend_call \<Rightarrow> bytes \<Rightarrow> SearchKey \<Rightarrow> nat \<Rightarrow> LookupResult result option" where
  "node4_descend call body key depth =
    (case cast node4_dec 16 body of
       Inl e \<Rightarrow> Some (Inl e)
     | Inr n \<Rightarrow>
         (case byte_at key depth of
            None \<Rightarrow> Some (Inr LookupNotFound)
          | Some byte \<Rightarrow>
              (case node4_find_loop (n4_keys n) (min (unat (n4_count n)) 4) byte 0 of
                 Some i \<Rightarrow> call (child_offset (n4_children n ! i)) (depth + 1)
               | None \<Rightarrow> Some (Inr LookupNotFound))))"

definition node16_descend :: "descend_call \<Rightarrow> bytes \<Rightarrow> SearchKey \<Rightarrow> nat \<Rightarrow> LookupResult result option" where
  "node16_descend call body key depth =
    (case cast node16_dec 56 body of
       Inl e \<Rightarrow> Some (Inl e)
     | Inr n \<Rightarrow>
         (case byte_at key depth of
            None \<Rightarrow> Some (Inr LookupNotFound)
          | Some byte \<Rightarrow>
              (case node16_find_byte build_target (n16_keys n) (n16_count n) byte of
                 Some i \<Rightarrow> call (child_offset (n16_children n ! unat i)) (depth + 1)
               | None \<Rightarrow> Some (Inr LookupNotFound))))"

definition node48_descend :: "descend_call \<Rightarrow> bytes \<Rightarrow> SearchKey \<Rightarrow> nat \<Rightarrow> LookupResult result option" where
  "node48_descend call body key depth =
    (case cast node48_dec 360 body of
       Inl e \<Rightarrow> Some (Inl e)
     | Inr n \<Rightarrow>
         (case byte_at key depth of
            None \<Rightarrow> Some (Inr LookupNotFound)
          | Some byte \<Rightarrow>
              let idx = n48_index n ! unat byte in
              if idx = 0 then Some (Inr LookupNotFound)
              else
                let ci = unat idx - 1 in
                if ci \<ge> 48 then Some (Inl (Fail (node_corrupt ''walker::node48_descend: child index out of range'')))
                else call (child_offset (n48_children n ! ci)) (depth + 1)))"

definition node256_descend :: "descend_call \<Rightarrow> bytes \<Rightarrow> SearchKey \<Rightarrow> nat \<Rightarrow> LookupResult result option" where
  "node256_descend call body key depth =
    (case cast node256_dec 520 body of
       Inl e \<Rightarrow> Some (Inl e)
     | Inr n \<Rightarrow>
         (case byte_at key depth of
            None \<Rightarrow> Some (Inr LookupNotFound)
          | Some byte \<Rightarrow>
              let encoded = n256_children n ! unat byte in
              if encoded = 0 then Some (Inr LookupNotFound)
              else call (child_offset encoded) (depth + 1)))"

fun descend :: "nat \<Rightarrow> frame \<Rightarrow> nat \<Rightarrow> SearchKey \<Rightarrow> nat \<Rightarrow> LookupResult result option" where
  "descend 0 f off key depth = None"
| "descend (Suc fuel) f off key depth =
    (let call = (\<lambda>off' depth'. descend fuel f off' key depth') in
     case resolve_typed f off of
       Inl e \<Rightarrow> Some (Inl e)
     | Inr (ntype, body) \<Rightarrow>
         (case ntype of
            Invalid \<Rightarrow> Some (Inl (Fail (node_corrupt ''walker::descend: hit NodeType::Invalid'')))
          | EmptyRoot \<Rightarrow> Some (Inr LookupNotFound)
          | Leaf \<Rightarrow> Some (leaf_check body key depth)
          | Prefix \<Rightarrow> prefix_descend call body key depth
          | Node4 \<Rightarrow> node4_descend call body key depth
          | Node16 \<Rightarrow> node16_descend call body key depth
          | Node48 \<Rightarrow> node48_descend call body key depth
          | Node256 \<Rightarrow> node256_descend call body key depth
          | Blob \<Rightarrow> Some (blob_descend body key depth)))"

definition lookup_at :: "nat \<Rightarrow> frame \<Rightarrow> u16 \<Rightarrow> SearchKey \<Rightarrow> nat \<Rightarrow> LookupResult result option" where
  "lookup_at fuel f start_root key depth =
    (case root_child_offset start_root ''lookup_at: root child'' of
       Inl e \<Rightarrow> Some (Inl e)
     | Inr off \<Rightarrow> descend fuel f off key depth)"

definition lookup :: "nat \<Rightarrow> frame \<Rightarrow> u16 \<Rightarrow> bytes \<Rightarrow> LookupResult result option" where
  "lookup fuel f start_root key =
    (case root_child_offset start_root ''lookup: root child'' of
       Inl e \<Rightarrow> Some (Inl e)
     | Inr off \<Rightarrow> descend fuel f off (sk_exact key) 0)"

section \<open>Refinement of the abstract lookup\<close>

lemma resolve_holds:
  "holds f t \<Longrightarrow> frame_ok f \<Longrightarrow> resolve_typed f (aoff t) = Inr (antype t, slice f (aoff t) (asize t))"
  by (simp add: resolve_typed_def holds_ntype holds_body)

lemma leaf_body_split:
  assumes h: "holds f (ALeaf off l key val)"
  defines "body \<equiv> slice f off (leaf_body_size (length key) (length val))"
  shows "cast_leaf body = Inr l" "16 + length key + length val \<le> length body"
    "drop 16 (take (16 + length key) body) = key"
    "drop (16 + length key) (take (16 + length key + length val) body) = val"
proof -
  have l: "leaf_matches l key val" "slice f off (16 + length key + length val) = leaf_enc l @ key @ val"
    using h by (auto elim: holds_leafE)
  have n: "16 + length key + length val \<le> leaf_body_size (length key) (length val)"
    using leaf_lengths [OF l(1)] by (intro leaf_body_size_bounds) auto
  then show "16 + length key + length val \<le> length body" by (simp add: body_def)
  have tk: "take (16 + length key + length val) body = leaf_enc l @ key @ val"
    using n l(2) by (simp add: body_def min_absorb1)
  have enc: "length (leaf_enc l) = 16" by (simp add: leaf.length_enc)
  have "take 16 body = take 16 (take (16 + length key + length val) body)" by simp
  then have "take 16 body = leaf_enc l" unfolding tk using enc by simp
  then show "cast_leaf body = Inr l"
    using n enc by (simp add: cast_leaf_def cast_def body_def leaf.dec_enc)
  have "take (16 + length key) body = take (16 + length key) (take (16 + length key + length val) body)"
    by simp
  then show "drop 16 (take (16 + length key) body) = key" unfolding tk using enc by simp
  show "drop (16 + length key) (take (16 + length key + length val) body) = val" unfolding tk using enc by simp
qed

lemma leaf_check_holds:
  assumes h: "holds f (ALeaf off l lk lv)"
  shows "leaf_check (slice f off (leaf_body_size (length lk) (length lv))) key d =
    Inr (alookup (ALeaf off l lk lv) (full key) d)"
proof -
  have m: "leaf_matches l lk lv" using h by (auto elim: holds_leafE)
  have "key_fp l = 0 \<or> key_fp l = fingerprint key" if "lk = full key"
    using m that fingerprint_full [of key] by (auto simp: leaf_matches_def)
  then show ?thesis
    using m leaf_body_split [OF h] by (auto simp: leaf_check_def Let_def eq_slice_full leaf_matches_def)
qed

lemma prefix_img_dec:
  assumes "length bs \<le> PREFIX_MAX_INLINE"
  shows "cast prefix_dec 128 (prefix_img bs c) = Inr \<lparr> prefix_count = 1, prefix_node_type = as_u8 Prefix,
    prefix_len = word_of_nat (length bs), prefix_child = ucast (encode_child_off c),
    prefix_bytes = bs @ replicate (PREFIX_MAX_INLINE - length bs) 0 \<rparr>"
    "unat (word_of_nat (length bs) :: u16) = length bs"
  using assms by (simp_all add: cast_def prefix_img_def prefix.length_enc prefix.dec_enc prefix_wf_def
      PREFIX_MAX_INLINE_def unat_of_nat)

lemma blob_img_dec:
  assumes "length bs \<le> BLOB_MAX_INLINE" "length guid = 16"
  shows "cast blob_node_dec 128 (blob_img bs guid) = Inr \<lparr> blob_count = 1, blob_node_type = as_u8 Blob,
    blob_prefix_len = word_of_nat (length bs), child_blob_guid = guid,
    blob_bytes = bs @ replicate (BLOB_MAX_INLINE - length bs) 0 \<rparr>"
    "unat (word_of_nat (length bs) :: u16) = length bs"
  using assms by (simp_all add: cast_def blob_img_def blob_node.length_enc blob_node.dec_enc blob_node_wf_def
      BLOB_MAX_INLINE_def unat_of_nat)

text \<open>The four inner arms look the byte up in the node's child map.\<close>

definition inner_descend :: "descend_call \<Rightarrow> inner \<Rightarrow> SearchKey \<Rightarrow> nat \<Rightarrow> LookupResult result option" where
  "inner_descend call x key depth =
    (case byte_at key depth of
       None \<Rightarrow> Some (Inr LookupNotFound)
     | Some byte \<Rightarrow>
         (case inner_kids x byte of
            None \<Rightarrow> Some (Inr LookupNotFound)
          | Some e \<Rightarrow> call (child_offset e) (depth + 1)))"

lemma node4_descend_inner:
  assumes "inner_ok (I4 n)"
  shows "node4_descend call (inner_enc (I4 n)) key d = inner_descend call (I4 n) key d"
proof -
  let ?s = "\<lambda>b. scan_loop (\<lambda>i. n4_keys n ! i = b) (unat (n4_count n)) 0"
  have "node4_find_loop (n4_keys n) (min (unat (n4_count n)) 4) b 0 = ?s b" for b
    using assms by (simp add: node4_find_scan node4_wf_def min_absorb1)
  moreover have "inner_kids (I4 n) b = map_option (nth (n4_children n)) (?s b)" for b
    using assms by (simp add: assoc_scan node4_wf_def)
  ultimately show ?thesis
    using assms by (auto simp: node4_descend_def inner_descend_def cast_def node4.length_enc node4.dec_enc
        split: option.split simp del: inner_kids.simps)
qed

lemma node16_descend_inner:
  assumes "inner_ok (I16 n)"
  shows "node16_descend call (inner_enc (I16 n)) key d = inner_descend call (I16 n) key d"
proof -
  let ?r = "\<lambda>b. node16_find_byte build_target (n16_keys n) (n16_count n) b"
  have "map_option unat (?r b) = scan_loop (\<lambda>i. n16_keys n ! i = b) (unat (n16_count n)) 0" for b
    using assms by (intro node16_find_scan) (auto simp: node16_wf_def)
  then have "inner_kids (I16 n) b = map_option (nth (n16_children n)) (map_option unat (?r b))" for b
    using assms by (simp add: assoc_scan node16_wf_def)
  then show ?thesis
    using assms by (auto simp: node16_descend_def inner_descend_def cast_def node16.length_enc node16.dec_enc
        split: option.split simp del: inner_kids.simps)
qed

lemma node48_descend_inner:
  assumes "inner_ok (I48 n)"
  shows "node48_descend call (inner_enc (I48 n)) key d = inner_descend call (I48 n) key d"
proof -
  have "\<not> 48 \<le> unat (n48_index n ! unat b) - Suc 0" for b :: u8
    using n48_facts(3) [of n b] assms by auto
  then show ?thesis
    using assms by (auto simp: node48_descend_def inner_descend_def cast_def node48.length_enc node48.dec_enc
        Let_def split: option.split)
qed

lemma node256_descend_inner:
  assumes "inner_ok (I256 n)"
  shows "node256_descend call (inner_enc (I256 n)) key d = inner_descend call (I256 n) key d"
  using assms by (auto simp: node256_descend_def inner_descend_def cast_def node256.length_enc node256.dec_enc
      Let_def split: option.split)

lemma descend_AInner:
  assumes h: "holds f (AInner off nt ch)" and ok: "frame_ok f"
  shows "descend (Suc n) f off key d =
    (case byte_at key d of
       None \<Rightarrow> Some (Inr LookupNotFound)
     | Some b \<Rightarrow> (case ch b of None \<Rightarrow> Some (Inr LookupNotFound) | Some t \<Rightarrow> descend n f (aoff t) key (d + 1)))"
proof -
  obtain x where x: "at_inner f off x" "inner_type x = nt"
      "inner_kids x = (\<lambda>b. map_option (encode_child_off \<circ> aoff) (ch b))"
      "\<And>b t. ch b = Some t \<Longrightarrow> holds f t"
    using h by (auto elim!: holds_innerE)
  have body: "slice f off (size_of_node nt) = inner_enc x" using x by (auto simp: at_inner_def)
  have "descend (Suc n) f off key d = inner_descend (\<lambda>o' d'. descend n f o' key d') x key d"
    using resolve_holds [OF h ok] x(2) body at_inner_ok [OF x(1)]
    by (cases x) (auto simp: node4_descend_inner node16_descend_inner node48_descend_inner node256_descend_inner
        simp del: inner_enc.simps inner_ok.simps)
  then show ?thesis
    using x(3,4) holds_node_off [OF _ ok]
    by (auto simp: inner_descend_def child_offset_def split: option.split)
qed

theorem descend_refines:
  assumes "holds f t" "frame_ok f" "length (full key) < n + d" "0 < n"
  shows "descend n f (aoff t) key d = Some (Inr (alookup t (full key) d))"
  using assms
proof (induction arbitrary: n d rule: holds.induct)
  case (empty off)
  then show ?case using resolve_holds [OF holds.empty] by (cases n) simp_all
next
  case (leaf off lk lv l)
  then show ?case
    using resolve_holds [OF holds.leaf] leaf_check_holds [OF holds.leaf] by (cases n) simp_all
next
  case (pfx off bs t)
  obtain m where m: "n = Suc m" using pfx.prems by (cases n) auto
  have h: "holds f (APrefix off bs t)" using pfx.hyps pfx.IH by (intro holds.pfx)
  have rd: "resolve_typed f off = Inr (Prefix, prefix_img bs (aoff t))"
    using resolve_holds [OF h pfx.prems(1)] pfx.hyps by simp
  have c: "child_offset (encode_child_off (aoff t)) = aoff t"
    using holds_node_off [OF pfx.hyps(5) pfx.prems(1)] by (simp add: child_offset_def)
  have step: "descend n f off key d =
      (if range_eq key d bs then descend m f (aoff t) key (d + length bs) else Some (Inr LookupNotFound))"
    using rd prefix_img_dec [OF pfx.hyps(3)] pfx.hyps(3) c m by (simp add: prefix_descend_def Let_def)
  have "descend m f (aoff t) key (d + length bs) = Some (Inr (alookup t (full key) (d + length bs)))"
    if "range_eq key d bs"
  proof (rule pfx.IH [OF pfx.prems(1)])
    have "0 < length bs" using pfx.hyps(2) by simp
    moreover have "length bs \<le> length (full key) - d" "d \<le> length (full key)"
      using that by (auto simp: range_eq_full dest: prefix_length_le)
    ultimately show "length (full key) < m + (d + length bs)" "0 < m" using pfx.prems(2) m by linarith+
  qed
  then show ?case using step by (auto simp: range_eq_full)
next
  case (blob off bs guid)
  have h: "holds f (ABlob off bs guid)" using blob.hyps by (intro holds.blob)
  obtain m where m: "n = Suc m" using blob.prems by (cases n) auto
  show ?case using resolve_holds [OF h blob.prems(1)] blob_img_dec [OF blob.hyps(2,3)] blob.hyps m
    by (auto simp: blob_descend_def Let_def range_eq_full)
next
  case (inner off nt x ch)
  obtain m where m: "n = Suc m" using inner.prems by (cases n) auto
  have h: "holds f (AInner off nt ch)" using inner.hyps inner.IH by (intro holds.inner) auto
  have "descend m f (aoff t) key (d + 1) = Some (Inr (alookup t (full key) (d + 1)))"
    if "d < length (full key)" "ch b = Some t" for b t
    using inner.IH [OF that(2)] inner.prems m that(1) by auto
  then show ?case
    using descend_AInner [OF h inner.prems(1), of m key d] m
    by (auto simp: alookup_AInner byte_at_full split: option.split)
qed

end
