(* ===== verification/Insert.thy ===== *)
theory Insert
  imports Lookup
begin

text \<open>Single-frame insertion (\<^verbatim>\<open>src/src/engine/walker/insert.rs\<close>): the recursive dispatch over node
  types, leaf update and split, prefix split, blob-node split, and the node growth it triggers.  The
  recursion takes fuel like the descent.\<close>

datatype InsertCondition = Always | IfAbsent | IfVersion u64

text \<open>\<open>InsertDone off mutated\<close> is \<^verbatim>\<open>InsertStep::Done(InsertReturn)\<close>; \<open>InsertCrossing\<close> carries the child blob,
  the depth to continue at, and the offset of the blob node.\<close>

datatype InsertStep =
  InsertDone nat bool
| InsertCrossing BlobGuid nat nat

definition is_if_version :: "InsertCondition \<Rightarrow> bool" where
  "is_if_version c = (case c of IfVersion _ \<Rightarrow> True | _ \<Rightarrow> False)"

type_synonym insert_call = "nat \<Rightarrow> nat \<Rightarrow> frame \<Rightarrow> (InsertStep result \<times> frame) option"

definition obind :: "('a result \<times> frame) option \<Rightarrow> ('a \<Rightarrow> 'b fop) \<Rightarrow> ('b result \<times> frame) option" where
  "obind m k =
    (case m of
       None \<Rightarrow> None
     | Some (Inl e, f) \<Rightarrow> Some (Inl e, f)
     | Some (Inr a, f) \<Rightarrow> Some (k a f))"

section \<open>Arms\<close>

definition insert_into_empty_root :: "nat \<Rightarrow> SearchKey \<Rightarrow> bytes \<Rightarrow> u64 \<Rightarrow> InsertCondition \<Rightarrow> InsertStep fop" where
  "insert_into_empty_root empty_off key val sq cond =
    (if is_if_version cond then ret (InsertDone empty_off False)
     else
       sbind (write_leaf key val sq) (\<lambda>new_off.
       sbind (modify (note_abandoned empty_off)) (\<lambda>_.
         ret (InsertDone new_off True))))"

definition write_leaf_split :: "nat \<Rightarrow> SearchKey \<Rightarrow> bytes \<Rightarrow> u64 \<Rightarrow> bytes \<Rightarrow> u8 \<Rightarrow> u8 \<Rightarrow> nat fop" where
  "write_leaf_split leaf_off new_key new_value sq common_prefix byte_existing byte_new =
    sbind (write_leaf new_key new_value sq) (\<lambda>new_leaf.
    sbind (write_node4_with [(byte_existing, leaf_off), (byte_new, new_leaf)]) (\<lambda>n4.
      if common_prefix = [] then ret n4 else write_prefix_chain common_prefix n4))"

definition update_guard :: "InsertCondition \<Rightarrow> Leaf \<Rightarrow> bool" where
  "update_guard cond leaf =
    (if tombstone leaf = 0 then
       (case cond of Always \<Rightarrow> True | IfVersion expected \<Rightarrow> seq leaf = expected | IfAbsent \<Rightarrow> False)
     else \<not> is_if_version cond)"

definition u32_saturating_sub1 :: "u32 \<Rightarrow> u32" where
  "u32_saturating_sub1 a = (if a = 0 then 0 else a - 1)"

definition note_resurrected :: "bool \<Rightarrow> frame \<Rightarrow> frame" where
  "note_resurrected was_tombstoned f =
    (if was_tombstoned
     then header_mut (\<lambda>h. h\<lparr> tombstone_leaf_cnt := u32_saturating_sub1 (tombstone_leaf_cnt h) \<rparr>) f
     else f)"

definition overwrite_leaf :: "nat \<Rightarrow> Leaf \<Rightarrow> nat \<Rightarrow> bytes \<Rightarrow> unit fop" where
  "overwrite_leaf leaf_off new_leaf klen new_value f =
    (case body_at_offset_mut f leaf_off of
       None \<Rightarrow> (Inl (Fail (node_corrupt ''insert_into_leaf: leaf body (mut)'')), f)
     | Some n \<Rightarrow>
         let value_start = 16 + klen;
             value_end = value_start + length new_value in
         if n < value_end then (Inl (Panic ''slice''), f)
         else (Inr (), poke (poke f leaf_off (leaf_enc new_leaf)) (leaf_off + value_start)
                         (new_value @ replicate (n - value_end) 0)))"

definition update_same_key :: "nat \<Rightarrow> Leaf \<Rightarrow> SearchKey \<Rightarrow> bytes \<Rightarrow> u64 \<Rightarrow> InsertCondition \<Rightarrow> InsertStep fop" where
  "update_same_key leaf_off existing_leaf new_key new_value sq cond =
    (if \<not> update_guard cond existing_leaf then ret (InsertDone leaf_off False)
     else
       let was_tombstoned = (tombstone existing_leaf \<noteq> 0);
           klen = unat (key_len existing_leaf);
           new_total = leaf_body_size klen (length new_value mod 2 ^ 32) in
       sbind (reads (\<lambda>f. ok_or (body_at_offset f leaf_off) (node_corrupt ''insert_into_leaf: leaf body''))) (\<lambda>body.
         if new_total \<le> length body then
           sbind (overwrite_leaf leaf_off
                    (leaf_live (word_of_nat klen) (word_of_nat (length new_value)) sq (fingerprint new_key))
                    klen new_value) (\<lambda>_.
           sbind (modify (note_resurrected was_tombstoned)) (\<lambda>_.
             ret (InsertDone leaf_off True)))
         else
           sbind (write_leaf new_key new_value sq) (\<lambda>new_off.
           sbind (modify (note_abandoned leaf_off)) (\<lambda>_.
           sbind (modify (note_resurrected was_tombstoned)) (\<lambda>_.
             ret (InsertDone new_off True))))))"

definition insert_into_leaf ::
  "nat \<Rightarrow> SearchKey \<Rightarrow> bytes \<Rightarrow> nat \<Rightarrow> u64 \<Rightarrow> InsertCondition \<Rightarrow> InsertStep fop" where
  "insert_into_leaf leaf_off new_key new_value depth sq cond =
    sbind (reads (\<lambda>f. read_leaf_key_ref f leaf_off)) (\<lambda>(existing_key, existing_leaf).
      if eq_slice new_key existing_key then update_same_key leaf_off existing_leaf new_key new_value sq cond
      else if depth > length existing_key then panic ''slice''
      else
        let suffix_a = drop depth existing_key;
            common_len = common_prefix_with_slice new_key depth suffix_a in
        if common_len = length suffix_a \<or> common_len = remaining_len new_key depth then
          throw (NotYetImplemented ''walker::insert_into_leaf: one key is a strict prefix of the other'')
        else
          case byte_at new_key (depth + common_len) of
            None \<Rightarrow> panic ''new key has divergence byte''
          | Some byte_new \<Rightarrow>
              if is_if_version cond then ret (InsertDone leaf_off False)
              else
                sbind (write_leaf_split leaf_off new_key new_value sq (take common_len suffix_a)
                         (suffix_a ! common_len) byte_new) (\<lambda>final_off.
                  ret (InsertDone final_off True)))"

definition blob_node_insert_step ::
  "nat \<Rightarrow> SearchKey \<Rightarrow> bytes \<Rightarrow> nat \<Rightarrow> u64 \<Rightarrow> InsertCondition \<Rightarrow> bool \<Rightarrow> InsertStep fop" where
  "blob_node_insert_step off key val depth sq cond allow_crossing =
    sbind (reads (\<lambda>f. rbind (ok_or (body_at_offset f off)
        (node_corrupt ''blob_node_insert_step: BlobNode body resolution failed'')) (cast blob_node_dec 128))) (\<lambda>bn.
      let plen = unat (blob_prefix_len bn) in
      if plen > BLOB_MAX_INLINE then
        throw (node_corrupt ''blob_node_insert_step: BlobNode prefix_len exceeds inline buffer'')
      else
        let pfx = take plen (blob_bytes bn);
            common = common_prefix_with_slice key depth pfx in
        if common = plen then
          if \<not> allow_crossing then
            throw (NotYetImplemented ''walker::insert_at: BlobNode crossing requires BufferManager - use insert_multi'')
          else ret (InsertCrossing (child_blob_guid bn) (depth + plen) off)
        else
          case byte_at key (depth + common) of
            None \<Rightarrow> throw (NotYetImplemented ''blob_node_insert_step: key terminates inside BlobNode prefix'')
          | Some new_div_byte \<Rightarrow>
              if is_if_version cond then ret (InsertDone off False)
              else
                sbind (write_leaf key val sq) (\<lambda>new_leaf.
                sbind (write_node4_with [(pfx ! common, off), (new_div_byte, new_leaf)]) (\<lambda>n4.
                sbind (if common = 0 then ret n4 else write_prefix_chain (take common pfx) n4) (\<lambda>final_off.
                sbind (reads (\<lambda>_. blob_node_new (drop (common + 1) pfx) (child_blob_guid bn))) (\<lambda>adjusted.
                sbind (write_struct_at off (blob_node_enc adjusted)) (\<lambda>_.
                  ret (InsertDone final_off True)))))))"

definition insert_into_prefix_step ::
  "insert_call \<Rightarrow> nat \<Rightarrow> SearchKey \<Rightarrow> bytes \<Rightarrow> nat \<Rightarrow> u64 \<Rightarrow> InsertCondition \<Rightarrow> frame \<Rightarrow> (InsertStep result \<times> frame) option" where
  "insert_into_prefix_step call pfx_off key val depth sq cond f =
    (case read_prefix f pfx_off of
       Inl e \<Rightarrow> Some (Inl e, f)
     | Inr p \<Rightarrow>
         let plen = unat (prefix_len p) in
         if plen > length (prefix_bytes p) then Some (Inl (Panic ''slice''), f)
         else
           let pbytes = take plen (prefix_bytes p);
               child_off = child_offset (ucast (prefix_child p));
               common = common_prefix_with_slice key depth pbytes in
           if common = plen then
             obind (call child_off (depth + plen) f) (\<lambda>r.
               case r of
                 InsertCrossing g d o' \<Rightarrow> ret r
               | InsertDone off_after mutated \<Rightarrow>
                   sbind (if off_after \<noteq> child_off then set_prefix_child pfx_off off_after else ret ()) (\<lambda>_.
                     ret (InsertDone pfx_off mutated)))
           else if depth + common \<ge> sk_len key then
             Some (throw (NotYetImplemented ''walker::insert_into_prefix: key terminates inside a prefix'') f)
           else
             case byte_at key (depth + common) of
               None \<Rightarrow> Some (panic ''new key has prefix divergence byte'' f)
             | Some new_div_byte \<Rightarrow>
                 if is_if_version cond then Some (ret (InsertDone pfx_off False) f)
                 else
                   let tail_bytes = drop (common + 1) pbytes in
                   Some (sbind (if tail_bytes = [] then ret child_off else write_prefix_chain tail_bytes child_off)
                     (\<lambda>existing_branch_off.
                     sbind (write_leaf key val sq) (\<lambda>new_leaf.
                     sbind (write_node4_with [(pbytes ! common, existing_branch_off), (new_div_byte, new_leaf)]) (\<lambda>n4.
                     sbind (if common = 0 then ret n4 else write_prefix_chain (take common pbytes) n4) (\<lambda>final_off.
                     sbind (modify (note_abandoned pfx_off)) (\<lambda>_.
                       ret (InsertDone final_off True)))))) f))"

definition insert_into_inner_step ::
  "insert_call \<Rightarrow> nat \<Rightarrow> NodeType \<Rightarrow> SearchKey \<Rightarrow> bytes \<Rightarrow> nat \<Rightarrow> u64 \<Rightarrow> InsertCondition \<Rightarrow> frame
    \<Rightarrow> (InsertStep result \<times> frame) option" where
  "insert_into_inner_step call inner_off ntype key val depth sq cond f =
    (case byte_at key depth of
       None \<Rightarrow> Some (throw (NotYetImplemented ''walker::insert_into_inner: key terminates at an inner node'') f)
     | Some byte \<Rightarrow>
         (case inner_find_child f inner_off ntype byte of
            Inl e \<Rightarrow> Some (Inl e, f)
          | Inr (Some child_off) \<Rightarrow>
              obind (call child_off (depth + 1) f) (\<lambda>r.
                case r of
                  InsertCrossing g d o' \<Rightarrow> ret r
                | InsertDone off_after mutated \<Rightarrow>
                    sbind (if off_after \<noteq> child_off then inner_update_child inner_off ntype byte off_after else ret ()) (\<lambda>_.
                      ret (InsertDone inner_off mutated)))
          | Inr None \<Rightarrow>
              if is_if_version cond then Some (ret (InsertDone inner_off False) f)
              else
                Some (sbind (write_leaf key val sq) (\<lambda>new_leaf.
                  sbind (inner_add_child inner_off ntype byte new_leaf) (\<lambda>possibly_grown.
                    ret (InsertDone possibly_grown True))) f)))"

fun insert_at_step ::
  "nat \<Rightarrow> nat \<Rightarrow> SearchKey \<Rightarrow> bytes \<Rightarrow> nat \<Rightarrow> u64 \<Rightarrow> InsertCondition \<Rightarrow> bool \<Rightarrow> frame \<Rightarrow> (InsertStep result \<times> frame) option" where
  "insert_at_step 0 off key val depth sq cond allow_crossing f = None"
| "insert_at_step (Suc fuel) off key val depth sq cond allow_crossing f =
    (let call = (\<lambda>off' depth' f'. insert_at_step fuel off' key val depth' sq cond allow_crossing f') in
     case ntype_of f off of
       Inl e \<Rightarrow> Some (Inl e, f)
     | Inr ntype \<Rightarrow>
         (case ntype of
            Invalid \<Rightarrow> Some (throw (node_corrupt ''walker::insert_at: hit NodeType::Invalid'') f)
          | EmptyRoot \<Rightarrow> Some (insert_into_empty_root off key val sq cond f)
          | Leaf \<Rightarrow> Some (insert_into_leaf off key val depth sq cond f)
          | Prefix \<Rightarrow> insert_into_prefix_step call off key val depth sq cond f
          | Blob \<Rightarrow> Some (blob_node_insert_step off key val depth sq cond allow_crossing f)
          | _ \<Rightarrow> insert_into_inner_step call off ntype key val depth sq cond f))"

text \<open>The single-blob entry: with no buffer manager a crossing is an error.\<close>

definition insert_at :: "nat \<Rightarrow> nat \<Rightarrow> SearchKey \<Rightarrow> bytes \<Rightarrow> nat \<Rightarrow> u64 \<Rightarrow> frame \<Rightarrow> ((nat \<times> bool) result \<times> frame) option" where
  "insert_at fuel off key val depth sq f =
    obind (insert_at_step fuel off key val depth sq Always False f) (\<lambda>r.
      case r of
        InsertDone off_after mutated \<Rightarrow> ret (off_after, mutated)
      | InsertCrossing g d o' \<Rightarrow>
          throw (NotYetImplemented ''walker::insert_at: BlobNode crossing requires BufferManager - use insert_multi''))"

text \<open>The single-blob entry point: the length checks of the on-disk \<^verbatim>\<open>u16\<close> fields, the walk from the
  root, and the root pointer update.\<close>

record InsertOutcome =
  root_dirty :: bool
  outcome_mutated :: bool

definition insert_single :: "nat \<Rightarrow> u16 \<Rightarrow> bytes \<Rightarrow> bytes \<Rightarrow> u64 \<Rightarrow> frame \<Rightarrow> (InsertOutcome result \<times> frame) option" where
  "insert_single fuel root_enc key val sq f =
    (if 2 ^ 16 - 1 < length key then Some (Inl (Fail (KeyTooLong (length key))), f)
     else if 2 ^ 16 - 1 < length val then Some (Inl (Fail (ValueTooLong (length val))), f)
     else
       obind (insert_at fuel (decode_child_off root_enc) (sk_exact key) val 0 sq f) (\<lambda>r f'.
         (Inr \<lparr> root_dirty = True, outcome_mutated = True \<rparr>,
          header_mut (\<lambda>h. h\<lparr> root_slot := encode_child_off (fst r) \<rparr>) f')))"

end
