(* ===== verification/Erase.thy ===== *)
theory Erase
  imports Insert
begin

text \<open>Single-frame erase (\<^verbatim>\<open>src/src/engine/walker/erase.rs\<close>) and the node shrinking it can trigger
  (\<^verbatim>\<open>src/src/engine/walker/writers.rs\<close>).  A live leaf is soft-deleted in place; the structural collapse
  arms answer the signals a subtree can send to its parent.\<close>

datatype EraseCondition = EraseAlways | EraseIfVersion u64

datatype EraseSignal = Unchanged | SubtreeGone | Replaced nat

text \<open>\<open>EraseDone signal mutated\<close> is \<^verbatim>\<open>EraseStep::Done(EraseReturn)\<close>.\<close>

datatype EraseStep =
  EraseDone EraseSignal bool
| EraseCrossing BlobGuid nat nat

type_synonym erase_call = "nat \<Rightarrow> nat \<Rightarrow> frame \<Rightarrow> (EraseStep result \<times> frame) option"

section \<open>Shrinking\<close>

definition SHRINK_NODE16_TO_NODE4_AT :: u8 where "SHRINK_NODE16_TO_NODE4_AT = 3"
definition SHRINK_NODE48_TO_NODE16_AT :: u8 where "SHRINK_NODE48_TO_NODE16_AT = 12"
definition SHRINK_NODE256_TO_NODE48_AT :: u8 where "SHRINK_NODE256_TO_NODE48_AT = 37"

definition node4_from_node16 :: "Node16 \<Rightarrow> Node4" where
  "node4_from_node16 old =
    (let c = unat (n16_count old)
     in node4_empty\<lparr> n4_count := n16_count old,
          n4_keys := copy_first c (n16_keys old) (n4_keys node4_empty),
          n4_children := copy_first c (n16_children old) (n4_children node4_empty) \<rparr>)"

definition shrink_node16_to_node4 :: "Node16 \<Rightarrow> nat fop" where
  "shrink_node16_to_node4 old =
    sbind (allocs (alloc_node Node4)) (\<lambda>slot.
    sbind (slot_offset slot) (\<lambda>off.
      if unat (n16_count old) > 4 then panic ''index''
      else sbind (write_struct_at off (node4_enc (node4_from_node16 old))) (\<lambda>_. ret off)))"

text \<open>The \<^verbatim>\<open>while let Some(next_byte)\<close> walk over the populated positions of the source node.\<close>

function populated :: "(nat \<Rightarrow> nat option) \<Rightarrow> nat \<Rightarrow> nat \<Rightarrow> nat list" where
  "populated next n byte =
    (case next byte of
       None \<Rightarrow> []
     | Some next_byte \<Rightarrow>
         if byte \<le> next_byte \<and> next_byte < n then next_byte # populated next n (next_byte + 1) else [])"
  by pat_completeness auto
termination
  by (relation "measure (\<lambda>(next, n, byte). n - byte)") auto

declare populated.simps [simp del]

definition node16_from_node48 :: "Node48 \<Rightarrow> Node16" where
  "node16_from_node48 old =
    (let bs = populated (find_next_nonzero_byte build_target (n48_index old)) 256 0
     in node16_empty\<lparr> n16_count := n48_count old,
          n16_keys := map word_of_nat bs @ drop (length bs) (n16_keys node16_empty),
          n16_children := map (\<lambda>b. n48_children old ! (unat (n48_index old ! b) - 1)) bs
                            @ drop (length bs) (n16_children node16_empty) \<rparr>)"

definition shrink_node48_to_node16 :: "Node48 \<Rightarrow> nat fop" where
  "shrink_node48_to_node16 old =
    sbind (allocs (alloc_node Node16)) (\<lambda>slot.
    sbind (slot_offset slot) (\<lambda>off.
      let bs = populated (find_next_nonzero_byte build_target (n48_index old)) 256 0 in
      if length bs > 16 \<or> (\<exists>b \<in> set bs. 48 < unat (n48_index old ! b)) then panic ''index''
      else sbind (write_struct_at off (node16_enc (node16_from_node48 old))) (\<lambda>_. ret off)))"

definition node48_from_node256 :: "Node256 \<Rightarrow> Node48" where
  "node48_from_node256 old =
    (let bs = populated (find_next_nonzero_u16 build_target (n256_children old)) 256 0
     in node48_empty\<lparr> n48_count := n256_count old,
          n48_children := map (\<lambda>b. n256_children old ! b) bs @ drop (length bs) (n48_children node48_empty),
          n48_index := index_keys (map word_of_nat bs) (length bs) (n48_index node48_empty) \<rparr>)"

definition shrink_node256_to_node48 :: "Node256 \<Rightarrow> nat fop" where
  "shrink_node256_to_node48 old =
    sbind (allocs (alloc_node Node48)) (\<lambda>slot.
    sbind (slot_offset slot) (\<lambda>off.
      let bs = populated (find_next_nonzero_u16 build_target (n256_children old)) 256 0 in
      if length bs > 48 then panic ''index''
      else sbind (write_struct_at off (node48_enc (node48_from_node256 old))) (\<lambda>_. ret off)))"

definition finish_inner_with_sorted :: "nat \<Rightarrow> u8 \<Rightarrow> bytes \<Rightarrow> u8 \<Rightarrow> u16 \<Rightarrow> EraseSignal fop" where
  "finish_inner_with_sorted off new_count img surviving_byte surviving_child_enc =
    (if new_count = 0 then sbind (modify (note_abandoned off)) (\<lambda>_. ret SubtreeGone)
     else if new_count = 1 then
       sbind (write_prefix_chain [surviving_byte] (child_offset surviving_child_enc)) (\<lambda>new_off.
       sbind (modify (note_abandoned off)) (\<lambda>_. ret (Replaced new_off)))
     else sbind (write_struct_at off img) (\<lambda>_. ret Unchanged))"

section \<open>Removing a child\<close>

text \<open>The loop \<^verbatim>\<open>for j in i..count - 1 { a[j] = a[j + 1] }\<close> followed by \<^verbatim>\<open>a[count - 1] = 0\<close>.\<close>

definition remove_at :: "nat \<Rightarrow> nat \<Rightarrow> 'a::zero list \<Rightarrow> 'a list" where
  "remove_at i cnt xs = take i xs @ take (cnt - 1 - i) (drop (i + 1) xs) @ [0] @ drop cnt xs"

definition remove_from_node4 :: "nat \<Rightarrow> u8 \<Rightarrow> EraseSignal fop" where
  "remove_from_node4 off byte =
    sbind (reads (\<lambda>f. read_node4 f off)) (\<lambda>n.
      let cnt = min (unat (n4_count n)) 4 in
      case scan_loop (\<lambda>i. n4_keys n ! i = byte) cnt 0 of
        None \<Rightarrow> throw (node_corrupt ''inner_remove_child_and_collapse: byte not present (Node4)'')
      | Some i \<Rightarrow>
          let n' = n\<lparr> n4_keys := remove_at i cnt (n4_keys n), n4_children := remove_at i cnt (n4_children n),
                      n4_count := n4_count n - 1 \<rparr> in
          finish_inner_with_sorted off (n4_count n') (node4_enc n') (n4_keys n' ! 0) (n4_children n' ! 0))"

definition remove_from_node16 :: "nat \<Rightarrow> u8 \<Rightarrow> EraseSignal fop" where
  "remove_from_node16 off byte =
    sbind (reads (\<lambda>f. read_node16 f off)) (\<lambda>n.
      let cnt = min (unat (n16_count n)) 16 in
      case node16_find_byte build_target (n16_keys n) (n16_count n) byte of
        None \<Rightarrow> throw (node_corrupt ''inner_remove_child_and_collapse: byte not present (Node16)'')
      | Some i \<Rightarrow>
          let n' = n\<lparr> n16_keys := remove_at (unat i) cnt (n16_keys n),
                      n16_children := remove_at (unat i) cnt (n16_children n), n16_count := n16_count n - 1 \<rparr> in
          if 2 \<le> n16_count n' \<and> n16_count n' \<le> SHRINK_NODE16_TO_NODE4_AT then
            sbind (shrink_node16_to_node4 n') (\<lambda>shrunk.
            sbind (modify (note_abandoned off)) (\<lambda>_. ret (Replaced shrunk)))
          else finish_inner_with_sorted off (n16_count n') (node16_enc n') (n16_keys n' ! 0) (n16_children n' ! 0))"

definition remove_from_node48 :: "nat \<Rightarrow> u8 \<Rightarrow> EraseSignal fop" where
  "remove_from_node48 off byte =
    sbind (reads (\<lambda>f. read_node48 f off)) (\<lambda>n.
      let ci = n48_index n ! unat byte in
      if ci = 0 then throw (node_corrupt ''inner_remove_child_and_collapse: byte not present (Node48)'')
      else if 48 < unat ci then panic ''index''
      else
        let n' = n\<lparr> n48_children := (n48_children n)[unat ci - 1 := 0], n48_index := (n48_index n)[unat byte := 0],
                    n48_count := n48_count n - 1 \<rparr> in
        if n48_count n' = 0 then sbind (modify (note_abandoned off)) (\<lambda>_. ret SubtreeGone)
        else if n48_count n' = 1 then
          (case find_next_nonzero_byte build_target (n48_index n') 0 of
             None \<Rightarrow> throw (node_corrupt ''inner_remove_child_and_collapse: empty Node48'')
           | Some b \<Rightarrow>
               if 48 < unat (n48_index n' ! b) then panic ''index''
               else
                 sbind (write_prefix_chain [word_of_nat b]
                          (child_offset (n48_children n' ! (unat (n48_index n' ! b) - 1)))) (\<lambda>new_off.
                 sbind (modify (note_abandoned off)) (\<lambda>_. ret (Replaced new_off))))
        else if n48_count n' \<le> SHRINK_NODE48_TO_NODE16_AT then
          sbind (shrink_node48_to_node16 n') (\<lambda>shrunk.
          sbind (modify (note_abandoned off)) (\<lambda>_. ret (Replaced shrunk)))
        else sbind (write_struct_at off (node48_enc n')) (\<lambda>_. ret Unchanged))"

definition u8_saturating_sub1 :: "u8 \<Rightarrow> u8" where
  "u8_saturating_sub1 a = (if a = 0 then 0 else a - 1)"

definition remove_from_node256 :: "nat \<Rightarrow> u8 \<Rightarrow> EraseSignal fop" where
  "remove_from_node256 off byte =
    sbind (reads (\<lambda>f. read_node256 f off)) (\<lambda>n.
      if n256_children n ! unat byte = 0 then
        throw (node_corrupt ''inner_remove_child_and_collapse: byte not present (Node256)'')
      else
        let n' = n\<lparr> n256_children := (n256_children n)[unat byte := 0],
                    n256_count := u8_saturating_sub1 (n256_count n) \<rparr> in
        if n256_count n' = 0 then sbind (modify (note_abandoned off)) (\<lambda>_. ret SubtreeGone)
        else if n256_count n' = 1 then
          (case find_next_nonzero_u16 build_target (n256_children n') 0 of
             None \<Rightarrow> throw (node_corrupt ''inner_remove_child_and_collapse: empty Node256'')
           | Some b \<Rightarrow>
               sbind (write_prefix_chain [word_of_nat b] (child_offset (n256_children n' ! b))) (\<lambda>new_off.
               sbind (modify (note_abandoned off)) (\<lambda>_. ret (Replaced new_off))))
        else if n256_count n' \<le> SHRINK_NODE256_TO_NODE48_AT then
          sbind (shrink_node256_to_node48 n') (\<lambda>shrunk.
          sbind (modify (note_abandoned off)) (\<lambda>_. ret (Replaced shrunk)))
        else sbind (write_struct_at off (node256_enc n')) (\<lambda>_. ret Unchanged))"

definition inner_remove_child_and_collapse :: "nat \<Rightarrow> NodeType \<Rightarrow> u8 \<Rightarrow> EraseSignal fop" where
  "inner_remove_child_and_collapse off ntype byte =
    (case ntype of
       Node4 \<Rightarrow> remove_from_node4 off byte
     | Node16 \<Rightarrow> remove_from_node16 off byte
     | Node48 \<Rightarrow> remove_from_node48 off byte
     | Node256 \<Rightarrow> remove_from_node256 off byte
     | _ \<Rightarrow> throw (node_corrupt ''inner_remove_child_and_collapse: not an inner node''))"

section \<open>Arms\<close>

definition u32_saturating_add1 :: "u32 \<Rightarrow> u32" where
  "u32_saturating_add1 a = (if a = - 1 then a else a + 1)"

definition erase_at_leaf :: "nat \<Rightarrow> SearchKey \<Rightarrow> EraseCondition \<Rightarrow> (EraseSignal \<times> bool) fop" where
  "erase_at_leaf leaf_off key cond =
    sbind (reads (\<lambda>f. read_leaf_key_ref f leaf_off)) (\<lambda>(existing_key, leaf).
      if \<not> eq_slice key existing_key then ret (Unchanged, False)
      else if tombstone leaf \<noteq> 0 then ret (Unchanged, False)
      else if (case cond of EraseIfVersion expected \<Rightarrow> seq leaf \<noteq> expected | EraseAlways \<Rightarrow> False)
      then ret (Unchanged, False)
      else
        sbind (reads (\<lambda>f. ok_or (body_at_offset_mut f leaf_off) (node_corrupt ''erase_at_leaf: leaf body''))) (\<lambda>n.
          if n \<le> 6 then panic ''index''
          else
            sbind (modify (\<lambda>f. poke f (leaf_off + 6) [1])) (\<lambda>_.
            sbind (modify (header_mut (\<lambda>h. h\<lparr> tombstone_leaf_cnt := u32_saturating_add1 (tombstone_leaf_cnt h) \<rparr>))) (\<lambda>_.
              ret (Unchanged, True)))))"

definition blob_node_erase_step :: "nat \<Rightarrow> SearchKey \<Rightarrow> nat \<Rightarrow> EraseStep fop" where
  "blob_node_erase_step off key depth =
    sbind (reads (\<lambda>f. rbind (ok_or (body_at_offset f off)
        (node_corrupt ''blob_node_erase_step: BlobNode body resolution failed'')) (cast blob_node_dec 128))) (\<lambda>bn.
      let plen = unat (blob_prefix_len bn) in
      if plen > BLOB_MAX_INLINE then
        throw (node_corrupt ''blob_node_erase_step: BlobNode prefix_len exceeds inline buffer'')
      else if \<not> range_eq key depth (take plen (blob_bytes bn)) then ret (EraseDone Unchanged False)
      else ret (EraseCrossing (child_blob_guid bn) (depth + plen) off))"

definition erase_at_prefix_step ::
  "erase_call \<Rightarrow> nat \<Rightarrow> SearchKey \<Rightarrow> nat \<Rightarrow> frame \<Rightarrow> (EraseStep result \<times> frame) option" where
  "erase_at_prefix_step call pfx_off key depth f =
    (case read_prefix f pfx_off of
       Inl e \<Rightarrow> Some (Inl e, f)
     | Inr p \<Rightarrow>
         let plen = unat (prefix_len p) in
         if plen > length (prefix_bytes p) then Some (Inl (Panic ''slice''), f)
         else if \<not> range_eq key depth (take plen (prefix_bytes p)) then Some (Inr (EraseDone Unchanged False), f)
         else
           obind (call (child_offset (ucast (prefix_child p))) (depth + plen) f) (\<lambda>r.
             case r of
               EraseCrossing g d o' \<Rightarrow> ret r
             | EraseDone Unchanged mutated \<Rightarrow> ret (EraseDone Unchanged mutated)
             | EraseDone (Replaced new_child_off) mutated \<Rightarrow>
                 sbind (set_prefix_child pfx_off new_child_off) (\<lambda>_. ret (EraseDone Unchanged mutated))
             | EraseDone SubtreeGone mutated \<Rightarrow>
                 sbind (modify (note_abandoned pfx_off)) (\<lambda>_. ret (EraseDone SubtreeGone mutated))))"

definition erase_at_inner_step ::
  "erase_call \<Rightarrow> nat \<Rightarrow> NodeType \<Rightarrow> SearchKey \<Rightarrow> nat \<Rightarrow> frame \<Rightarrow> (EraseStep result \<times> frame) option" where
  "erase_at_inner_step call inner_off ntype key depth f =
    (case byte_at key depth of
       None \<Rightarrow> Some (Inr (EraseDone Unchanged False), f)
     | Some byte \<Rightarrow>
         (case inner_find_child f inner_off ntype byte of
            Inl e \<Rightarrow> Some (Inl e, f)
          | Inr None \<Rightarrow> Some (Inr (EraseDone Unchanged False), f)
          | Inr (Some child_off) \<Rightarrow>
              obind (call child_off (depth + 1) f) (\<lambda>r.
                case r of
                  EraseCrossing g d o' \<Rightarrow> ret r
                | EraseDone Unchanged mutated \<Rightarrow> ret (EraseDone Unchanged mutated)
                | EraseDone (Replaced new_child_off) mutated \<Rightarrow>
                    sbind (inner_update_child inner_off ntype byte new_child_off) (\<lambda>_. ret (EraseDone Unchanged mutated))
                | EraseDone SubtreeGone mutated \<Rightarrow>
                    sbind (inner_remove_child_and_collapse inner_off ntype byte) (\<lambda>sig. ret (EraseDone sig mutated)))))"

fun erase_at_step ::
  "nat \<Rightarrow> nat \<Rightarrow> SearchKey \<Rightarrow> nat \<Rightarrow> EraseCondition \<Rightarrow> bool \<Rightarrow> frame \<Rightarrow> (EraseStep result \<times> frame) option" where
  "erase_at_step 0 off key depth cond allow_crossing f = None"
| "erase_at_step (Suc fuel) off key depth cond allow_crossing f =
    (let call = (\<lambda>off' depth' f'. erase_at_step fuel off' key depth' cond allow_crossing f') in
     case ntype_of f off of
       Inl e \<Rightarrow> Some (Inl e, f)
     | Inr ntype \<Rightarrow>
         (case ntype of
            Invalid \<Rightarrow> Some (throw (node_corrupt ''walker::erase_at: hit NodeType::Invalid'') f)
          | EmptyRoot \<Rightarrow> Some (ret (EraseDone Unchanged False) f)
          | Leaf \<Rightarrow> Some (sbind (erase_at_leaf off key cond) (\<lambda>(sig, mutated). ret (EraseDone sig mutated)) f)
          | Prefix \<Rightarrow> erase_at_prefix_step call off key depth f
          | Blob \<Rightarrow>
              if allow_crossing then Some (blob_node_erase_step off key depth f)
              else Some (throw (NotYetImplemented
                ''walker::erase_at: BlobNode crossing requires BufferManager - use erase_multi'') f)
          | _ \<Rightarrow> erase_at_inner_step call off ntype key depth f))"

section \<open>Entry points\<close>

definition erase_at :: "nat \<Rightarrow> nat \<Rightarrow> bytes \<Rightarrow> nat \<Rightarrow> frame \<Rightarrow> ((EraseSignal \<times> bool) result \<times> frame) option" where
  "erase_at fuel off key depth f =
    obind (erase_at_step fuel off (sk_exact key) depth EraseAlways False f) (\<lambda>r.
      case r of
        EraseDone sig mutated \<Rightarrow> ret (sig, mutated)
      | EraseCrossing g d o' \<Rightarrow>
          throw (NotYetImplemented ''walker::erase_at: BlobNode crossing requires BufferManager - use erase_multi''))"

definition resolve_new_root_after_erase :: "nat \<Rightarrow> EraseSignal \<Rightarrow> nat fop" where
  "resolve_new_root_after_erase root_off signal =
    (case signal of
       Unchanged \<Rightarrow> ret root_off
     | Replaced off \<Rightarrow> ret off
     | SubtreeGone \<Rightarrow>
         sbind (allocs (alloc_node EmptyRoot)) (\<lambda>slot.
         sbind (reads (\<lambda>f. ok_or (offset_of_slot f slot) (node_corrupt ''resolve_new_root: sentinel offset''))) (\<lambda>off.
         sbind (modify (\<lambda>f. if bytes_at_mut f off 8 then poke f (off + 1) [as_u8 EmptyRoot] else f)) (\<lambda>_. ret off))))"

record EraseOutcome =
  erase_root_dirty :: bool
  erase_mutated :: bool

definition erase_single :: "nat \<Rightarrow> u16 \<Rightarrow> bytes \<Rightarrow> frame \<Rightarrow> (EraseOutcome result \<times> frame) option" where
  "erase_single fuel root_enc key f =
    (let root_off = decode_child_off root_enc in
     obind (erase_at fuel root_off key 0 f) (\<lambda>r.
       sbind (resolve_new_root_after_erase root_off (fst r)) (\<lambda>new_root f'.
         (Inr \<lparr> erase_root_dirty = (snd r \<or> fst r \<noteq> Unchanged), erase_mutated = snd r \<rparr>,
          header_mut (\<lambda>h. h\<lparr> root_slot := encode_child_off new_root \<rparr>) f'))))"

end
