(* ===== verification/Writer_Specs.thy ===== *)
theory Writer_Specs
  imports Lookup
begin

text \<open>What the node writers of \<^verbatim>\<open>src/src/engine/walker/writers.rs\<close> build, as trees.  \<open>writes m f Q\<close> is the
  contract every allocating writer meets: it stops only with an allocation error in a frame that is nearly full, it never touches a
  byte below the old cursor, and on success \<open>Q\<close> holds of the offset returned and the new frame.\<close>

section \<open>Contracts\<close>

definition tombs :: "frame \<Rightarrow> nat" where
  "tombs f = unat (tombstone_leaf_cnt (header_of f))"

definition quiet_step :: "frame \<Rightarrow> frame \<Rightarrow> bool" where
  "quiet_step f f' = (frame_step {} f f' \<and> tombs f' = tombs f)"

definition writes :: "'a fop \<Rightarrow> frame \<Rightarrow> ('a \<Rightarrow> frame \<Rightarrow> bool) \<Rightarrow> bool" where
  "writes m f Q =
    (case m f of
       (Inl e, f') \<Rightarrow> quiet_step f f' \<and> crowded f' \<and> (\<exists>a. e = Fail (Alloc a))
     | (Inr v, f') \<Rightarrow> quiet_step f f' \<and> Q v f')"

text \<open>The number of tombstoned leaves of a tree.\<close>

primrec atombs :: "art \<Rightarrow> nat" where
  "atombs (AEmpty off) = 0"
| "atombs (ALeaf off l key val) = (if tombstone l = 0 then 0 else 1)"
| "atombs (APrefix off bs t) = atombs t"
| "atombs (ABlob off bs guid) = 0"
| "atombs (AInner off nt ch) = (\<Sum>b\<in>UNIV. case (map_option atombs \<circ> ch) b of None \<Rightarrow> 0 | Some n \<Rightarrow> n)"

text \<open>The child blobs a tree refers to.\<close>

primrec aguids :: "art \<Rightarrow> BlobGuid set" where
  "aguids (AEmpty off) = {}"
| "aguids (ALeaf off l key val) = {}"
| "aguids (APrefix off bs t) = aguids t"
| "aguids (ABlob off bs guid) = {guid}"
| "aguids (AInner off nt ch) = (\<Union>b. case (map_option aguids \<circ> ch) b of None \<Rightarrow> {} | Some g \<Rightarrow> g)"

text \<open>\<open>wraps t' bs t\<close>: the tree \<open>t'\<close> is \<open>t\<close> behind the key bytes \<open>bs\<close>.\<close>

definition wraps :: "art \<Rightarrow> bytes \<Rightarrow> art \<Rightarrow> bool" where
  "wraps t' bs t =
    ((\<forall>k d. d \<le> length k \<longrightarrow>
        alookup t' k d = (if prefix bs (drop d k) then alookup t k (d + length bs) else LookupNotFound))
     \<and> (\<forall>pre. 0 \<notin> set (butlast (pre @ bs)) \<longrightarrow> apath t (pre @ bs) \<longrightarrow> apath t' pre)
     \<and> atombs t' = atombs t \<and> aguids t' = aguids t)"

definition fork :: "nat \<Rightarrow> u8 \<Rightarrow> art \<Rightarrow> u8 \<Rightarrow> art \<Rightarrow> art" where
  "fork off b1 t1 b2 t2 = AInner off Node4 [b1 \<mapsto> t1, b2 \<mapsto> t2]"

text \<open>A patch is a pending write of bytes below the cursor.  Splitting a blob node builds the nodes above
  it first and rewrites the node itself last; the nodes above are correct for the patched frame.\<close>

definition patched :: "nat \<times> bytes \<Rightarrow> frame \<Rightarrow> frame" where
  "patched p f = poke f (fst p) (snd p)"

definition patch_ok :: "nat \<times> bytes \<Rightarrow> frame \<Rightarrow> bool" where
  "patch_ok p f = (DATA_AREA_START \<le> fst p \<and> fst p + length (snd p) \<le> cursor f)"

definition no_patch :: "nat \<times> bytes" where
  "no_patch = (DATA_AREA_START, [])"

text \<open>\<open>grown p f f' R t'\<close>: once patched, \<open>f'\<close> holds \<open>t'\<close>, which lives in \<open>R\<close> and in newly allocated bytes.\<close>

definition grown :: "nat \<times> bytes \<Rightarrow> frame \<Rightarrow> frame \<Rightarrow> nat set \<Rightarrow> art \<Rightarrow> bool" where
  "grown p f f' R t' = (holds (patched p f') t' \<and> footprint t' \<subseteq> R \<union> {cursor f ..< cursor f'})"

lemma quiet_refl [simp]: "frame_ok f \<Longrightarrow> quiet_step f f"
  by (simp add: quiet_step_def)

lemma quiet_trans: "quiet_step f f' \<Longrightarrow> quiet_step f' f'' \<Longrightarrow> quiet_step f f''"
  unfolding quiet_step_def by (auto intro: frame_step_trans)

lemma quiet_step_ok: "quiet_step f f' \<Longrightarrow> frame_ok f'" "quiet_step f f' \<Longrightarrow> cursor f \<le> cursor f'"
  by (auto simp: quiet_step_def dest: frame_step_ok)

lemma holds_quiet: "quiet_step f f' \<Longrightarrow> holds f t \<Longrightarrow> holds f' t"
  by (auto simp: quiet_step_def intro: holds_step)

lemma patched_no_patch [simp]: "patched no_patch f = f"
  by (rule ext) (auto simp: patched_def no_patch_def poke_def)

lemma patch_ok_no_patch [simp]: "frame_ok f \<Longrightarrow> patch_ok no_patch f"
  by (simp add: patch_ok_def no_patch_def frame_ok_def)

lemma patched_facts:
  assumes "patch_ok p f"
  shows "cursor (patched p g) = cursor g" "frame_ok (patched p g) = frame_ok g"
    "header_of (patched p g) = header_of g"
    "cursor f \<le> a \<Longrightarrow> patched p (poke g a x) = poke (patched p g) a x"
    "cursor f \<le> i \<Longrightarrow> patched p g i = g i"
proof -
  have lo: "DATA_AREA_START \<le> fst p" and hi: "fst p + length (snd p) \<le> cursor f"
    using assms by (auto simp: patch_ok_def)
  show "cursor (patched p g) = cursor g" "frame_ok (patched p g) = frame_ok g"
    "header_of (patched p g) = header_of g" using lo by (simp_all add: patched_def)
  show "cursor f \<le> a \<Longrightarrow> patched p (poke g a x) = poke (patched p g) a x" "cursor f \<le> i \<Longrightarrow> patched p g i = g i"
    using hi by (auto simp: patched_def poke_def fun_eq_iff)
qed

lemma patch_ok_quiet: "patch_ok p f \<Longrightarrow> quiet_step f f' \<Longrightarrow> patch_ok p f'"
  using quiet_step_ok(2) [of f f'] by (simp add: patch_ok_def)

lemma quiet_patched:
  assumes "patch_ok p f" "quiet_step f f'"
  shows "quiet_step (patched p f) (patched p f')"
proof -
  note p = patched_facts [OF assms(1)]
  have q: "frame_step {} f f'" "tombs f' = tombs f" using assms(2) by (auto simp: quiet_step_def)
  have "patched p f' i = patched p f i" if "DATA_AREA_START \<le> i" "\<not> (cursor f \<le> i \<and> i < cursor f')" for i
    using q(1) that by (simp add: frame_step_def patched_def poke_def)
  then have "frame_step {} (patched p f) (patched p f')"
    using q(1) unfolding frame_step_def p by simp
  then show ?thesis using q(2) p by (simp add: quiet_step_def tombs_def)
qed

lemma holds_patched_quiet:
  "patch_ok p f \<Longrightarrow> quiet_step f f' \<Longrightarrow> holds (patched p f) t \<Longrightarrow> holds (patched p f') t"
  by (rule holds_quiet [OF quiet_patched])

lemma holds_patched:
  assumes "holds f t" "footprint t \<inter> {fst p ..< fst p + length (snd p)} = {}" "DATA_AREA_START \<le> fst p"
  shows "holds (patched p f) t"
proof (rule holds_agree [OF assms(1)])
  fix i assume "i \<in> footprint t"
  then have "\<not> (fst p \<le> i \<and> i < fst p + length (snd p))" using assms(2) by auto
  then show "patched p f i = f i" by (auto simp: patched_def poke_def)
qed (use assms(3) in \<open>simp add: patched_def\<close>)

lemma quiet_bumped: "bumped n f f1 \<Longrightarrow> frame_ok f \<Longrightarrow> length img \<le> n \<Longrightarrow> quiet_step f (poke f1 (cursor f) img)"
  using bumped_write_step(1) [of n f f1 img img]
  by (auto simp: quiet_step_def tombs_def bumped_def header_of_poke frame_ok_def)

lemma quiet_note_abandoned: "frame_ok f \<Longrightarrow> quiet_step f (note_abandoned off f)"
  by (simp add: quiet_step_def note_abandoned_step tombs_def)

lemma writes_ret [simp]: "frame_ok f \<Longrightarrow> writes (ret v) f Q = Q v f"
  by (simp add: writes_def ret_def)

lemma writes_bind:
  assumes "writes m f P"
    and "\<And>v f'. quiet_step f f' \<Longrightarrow> P v f' \<Longrightarrow> writes (k v) f' Q"
  shows "writes (sbind m k) f Q"
proof (cases "m f")
  case (Pair r f')
  show ?thesis
  proof (cases r)
    case (Inl e)
    then show ?thesis using assms(1) Pair by (auto simp: writes_def sbind_def)
  next
    case (Inr v)
    then have q: "quiet_step f f'" "P v f'" using assms(1) Pair by (auto simp: writes_def)
    have "sbind m k f = k v f'" using Pair Inr by (simp add: sbind_def)
    then show ?thesis using assms(2) [OF q] q(1)
      by (auto simp: writes_def split: prod.splits sum.splits intro: quiet_trans)
  qed
qed

lemma writes_mono: "writes m f P \<Longrightarrow> (\<And>v f'. quiet_step f f' \<Longrightarrow> P v f' \<Longrightarrow> Q v f') \<Longrightarrow> writes m f Q"
  by (auto simp: writes_def split: prod.splits sum.splits)

lemma writes_cases:
  assumes "writes m f Q"
  obtains (fail) a f' where "m f = (Inl (Fail (Alloc a)), f')" "quiet_step f f'" "crowded f'"
  | (success) v f' where "m f = (Inr v, f')" "quiet_step f f'" "Q v f'"
  using assms by (auto simp: writes_def split: prod.splits sum.splits)

lemma atombs_AInner: "atombs (AInner off nt ch) = (\<Sum>b\<in>UNIV. case ch b of None \<Rightarrow> 0 | Some t \<Rightarrow> atombs t)"
  by (auto intro!: sum.cong split: option.splits)

declare atombs.simps(5) [simp del]

lemma aguids_AInner: "aguids (AInner off nt ch) = (\<Union>b. \<Union>t \<in> set_option (ch b). aguids t)"
  by (auto split: option.splits)

declare aguids.simps(5) [simp del]

lemma aguids_upd: "ch b = Some t \<Longrightarrow> aguids t' = aguids t \<Longrightarrow> aguids (AInner off nt (ch(b \<mapsto> t'))) = aguids (AInner off' nt' ch)"
proof -
  assume "ch b = Some t" "aguids t' = aguids t"
  then have "\<Union> (aguids ` set_option ((ch(b \<mapsto> t')) c)) = \<Union> (aguids ` set_option (ch c))" for c
    by (cases "c = b") auto
  then show ?thesis by (simp only: aguids_AInner)
qed

lemma aguids_new: "ch b = None \<Longrightarrow> aguids (AInner off nt (ch(b \<mapsto> t'))) = aguids (AInner off' nt' ch) \<union> aguids t'"
proof -
  assume "ch b = None"
  then have "\<Union> (aguids ` set_option ((ch(b \<mapsto> t')) c)) =
      \<Union> (aguids ` set_option (ch c)) \<union> (if c = b then aguids t' else {})" for c by auto
  then show ?thesis by (simp only: aguids_AInner) (auto split: if_splits)
qed

lemma atombs_upd:
  assumes "ch b = Some t"
  shows "atombs (AInner off nt (ch(b \<mapsto> t'))) + atombs t = atombs (AInner off' nt' ch) + atombs t'"
proof -
  let ?g = "\<lambda>c x. case c x of None \<Rightarrow> 0 | Some t \<Rightarrow> atombs t"
  have "(\<Sum>x\<in>UNIV. ?g c x) = ?g c b + (\<Sum>x\<in>UNIV - {b}. ?g c x)" for c :: "u8 \<Rightarrow> art option"
    by (rule sum.remove) auto
  moreover have "(\<Sum>x\<in>UNIV - {b}. ?g (ch(b \<mapsto> t')) x) = (\<Sum>x\<in>UNIV - {b}. ?g ch x)"
    by (rule sum.cong) auto
  ultimately show ?thesis using assms by (simp add: atombs_AInner)
qed

lemma atombs_new:
  assumes "ch b = None"
  shows "atombs (AInner off nt (ch(b \<mapsto> t'))) = atombs (AInner off' nt' ch) + atombs t'"
proof -
  let ?g = "\<lambda>c x. case c x of None \<Rightarrow> 0 | Some t \<Rightarrow> atombs t"
  have "(\<Sum>x\<in>UNIV. ?g c x) = ?g c b + (\<Sum>x\<in>UNIV - {b}. ?g c x)" for c :: "u8 \<Rightarrow> art option"
    by (rule sum.remove) auto
  moreover have "(\<Sum>x\<in>UNIV - {b}. ?g (ch(b \<mapsto> t')) x) = (\<Sum>x\<in>UNIV - {b}. ?g ch x)"
    by (rule sum.cong) auto
  ultimately show ?thesis using assms by (simp add: atombs_AInner)
qed

lemma atombs_fork: "b1 \<noteq> b2 \<Longrightarrow> atombs (fork off b1 t1 b2 t2) = atombs t1 + atombs t2"
  using atombs_new [of "[b1 \<mapsto> t1]" b2 off Node4 t2 off Node4] atombs_new [of Map.empty b1 off Node4 t1 off Node4]
  by (simp add: fork_def atombs_AInner [of _ _ Map.empty])

lemma aguids_fork: "b1 \<noteq> b2 \<Longrightarrow> aguids (fork off b1 t1 b2 t2) = aguids t1 \<union> aguids t2"
  by (auto simp: fork_def aguids_AInner split: if_splits)

section \<open>Leaves\<close>

definition fresh_leaf :: "frame \<Rightarrow> SearchKey \<Rightarrow> bytes \<Rightarrow> u64 \<Rightarrow> art" where
  "fresh_leaf f key val sq =
    ALeaf (cursor f) (leaf_live (word_of_nat (length (full key))) (word_of_nat (length val)) sq (fingerprint key))
      (full key) val"

lemma live_matches:
  assumes "length key < 2 ^ 16" "length val < 2 ^ 16" "fp = fingerprint (sk_exact key)"
  shows "leaf_matches (leaf_live (word_of_nat (length key)) (word_of_nat (length val)) sq fp) key val"
  using assms by (simp add: leaf_matches_def leaf_live_def unat_of_nat)

lemma write_leaf_cases:
  assumes ok: "frame_ok f" and k: "length (full key) < 2 ^ 16" and v: "length val < 2 ^ 16"
  obtains (fail) e where "write_leaf key val sq f = (Inl (Fail (Alloc e)), f)" "crowded f"
  | (written) f' where "write_leaf key val sq f = (Inr (cursor f), f')" "quiet_step f f'"
      "grown no_patch f f' {} (fresh_leaf f key val sq)"
proof -
  let ?n = "leaf_body_size (length (full key)) (length val)"
  let ?l = "leaf_live (word_of_nat (length (full key))) (word_of_nat (length val)) sq (fingerprint key)"
  let ?img = "leaf_enc ?l @ full key @ val"
  note b = leaf_body_size_bounds [OF k v]
  have m: "length (full key) mod 2 ^ 32 = length (full key)" "length val mod 2 ^ 32 = length val"
    using k v by auto
  let ?k = "\<lambda>body_off f. if \<not> bytes_at_mut f body_off ?n then
           (Inl (Fail (node_corrupt ''write_leaf: body out of range'')), f)
         else if ?n < 16 + length (full key) + length val then (Inl (Panic ''slice''), f)
         else
           case write_to_slice key (replicate (length (full key)) 0) of
             Inl e \<Rightarrow> (Inl e, f)
           | Inr kb \<Rightarrow> (Inr body_off, poke f body_off (leaf_enc ?l @ kb @ val))"
  have eq: "write_leaf key val sq f = sbind (allocs (alloc_leaf ?n)) (\<lambda>slot. sbind (slot_offset slot) ?k) f"
    unfolding write_leaf_def sk_len_full Let_def m ..
  have img: "length ?img \<le> ?n" using b by (simp add: leaf.length_enc)
  have pos: "0 < ?n" using b by linarith
  have small: "?n \<le> 131096" using b(2) k v by simp
  show ?thesis
    using ok pos b(3) small
  proof (cases rule: alloc_leaf_then [where k = ?k])
    case (fail e)
    then show ?thesis using eq by (intro that(1)) simp_all
  next
    case (bump f1)
    let ?f' = "poke f1 (cursor f) ?img"
    have out: "write_leaf key val sq f = (Inr (cursor f), ?f')"
      using eq bump b by (simp add: bytes_at_mut_def write_to_slice_full sk_len_full)
    have q: "quiet_step f ?f'" using bump(2) ok img by (rule quiet_bumped)
    have c: "cursor ?f' = cursor f + ?n"
      using bumped_write_step(3) [OF bump(2) ok img img] .
    have "holds ?f' (fresh_leaf f key val sq)"
      unfolding fresh_leaf_def
    proof (rule holds.leaf)
      show "placed ?f' (cursor f) ?n" using c ok by (auto simp: placed_def frame_ok_def)
      show "leaf_matches ?l (full key) val" using k v fingerprint_full by (rule live_matches)
      show "slice ?f' (cursor f) (16 + length (full key) + length val) = ?img"
        using slice_poke_same [where bs = ?img] by (simp add: leaf.length_enc)
    qed
    then have "grown no_patch f ?f' {} (fresh_leaf f key val sq)"
      using c by (simp add: grown_def fresh_leaf_def region_def)
    then show ?thesis by (rule that(2) [OF out q])
  qed
qed

lemma write_leaf_spec:
  assumes "frame_ok f" "length (full key) < 2 ^ 16" "length val < 2 ^ 16"
  shows "writes (write_leaf key val sq) f (\<lambda>off f'. off = cursor f \<and> grown no_patch f f' {} (fresh_leaf f key val sq))"
  using assms by (cases rule: write_leaf_cases [where sq = sq]) (use assms(1) in \<open>auto simp: writes_def\<close>)

section \<open>Prefix chains\<close>

lemma wraps_refl: "wraps t [] t"
  by (simp add: wraps_def)

lemma wraps_APrefix: "wraps (APrefix off bs t) bs t"
  by (simp add: wraps_def)

lemma butlast_prefix_subset: "set (butlast (xs @ ys)) \<subseteq> set (butlast (xs @ ys @ zs))"
  by (cases zs) (auto simp: butlast_append dest: in_set_butlastD)

lemma wraps_trans:
  assumes 1: "wraps t1 ys t" and 2: "wraps t2 xs t1"
  shows "wraps t2 (xs @ ys) t"
proof -
  have "alookup t2 k d = (if prefix (xs @ ys) (drop d k) then alookup t k (d + length (xs @ ys)) else LookupNotFound)"
    if d: "d \<le> length k" for k d
  proof (cases "prefix xs (drop d k)")
    case True
    then obtain zs where z: "drop d k = xs @ zs" by (auto simp: prefix_def)
    have "length k - d = length xs + length zs" using arg_cong [OF z, of length] by simp
    then have dl: "d + length xs \<le> length k" using d by linarith
    have "drop (d + length xs) k = zs" using z by (metis drop_drop add.commute append_eq_conv_conj)
    moreover have "alookup t2 k d = alookup t1 k (d + length xs)" using 2 d True by (simp add: wraps_def)
    ultimately show ?thesis using 1 dl z by (simp add: wraps_def add.assoc)
  next
    case False
    then have "\<not> prefix (xs @ ys) (drop d k)" by (auto simp: prefix_def)
    then show ?thesis using 2 d False by (simp add: wraps_def)
  qed
  moreover have "apath t2 pre" if a: "0 \<notin> set (butlast (pre @ xs @ ys))" "apath t (pre @ xs @ ys)" for pre
  proof -
    have "apath t1 (pre @ xs)" using 1 a by (simp add: wraps_def)
    moreover have "0 \<notin> set (butlast (pre @ xs))" using a(1) butlast_prefix_subset [of pre xs ys] by auto
    ultimately show ?thesis using 2 by (simp add: wraps_def)
  qed
  ultimately show ?thesis using 1 2 by (simp add: wraps_def)
qed

lemma prefix_new_img:
  assumes "length bs \<le> PREFIX_MAX_INLINE"
  obtains p where "prefix_new bs (ucast (encode_child_off c)) = Inr p" "prefix_enc p = prefix_img bs c"
  using assms by (simp add: prefix_new_def prefix_img_def)

text \<open>One link of the chain: the prefix node written at the old cursor points at \<open>t\<close>.\<close>

lemma write_prefix_node:
  assumes ok: "frame_ok f" and h: "holds (patched p f) t" and bs: "bs \<noteq> []" "length bs \<le> PREFIX_MAX_INLINE"
    and p: "patch_ok p f"
    and b: "bumped 128 f f1" and fits: "cursor f + 128 \<le> PAGE_SIZE"
  shows "write_struct_at (cursor f) (prefix_img bs (aoff t)) f1 = (Inr (), poke f1 (cursor f) (prefix_img bs (aoff t)))"
    and "quiet_step f (poke f1 (cursor f) (prefix_img bs (aoff t)))"
    and "grown p f (poke f1 (cursor f) (prefix_img bs (aoff t))) (footprint t) (APrefix (cursor f) bs t)"
proof -
  let ?img = "prefix_img bs (aoff t)"
  let ?f2 = "poke f1 (cursor f) ?img"
  have len: "length ?img = 128" using bs(2) by simp
  show "write_struct_at (cursor f) ?img f1 = (Inr (), ?f2)"
    using fits len by (simp add: write_struct_at_def bytes_at_mut_def)
  show q: "quiet_step f ?f2" using b ok by (rule quiet_bumped) (simp add: len)
  have c: "cursor ?f2 = cursor f + 128" using bumped_write_step(3) [OF b ok, of ?img ?img] len by simp
  note pf = patched_facts [OF p]
  have "holds (patched p ?f2) (APrefix (cursor f) bs t)"
  proof (rule holds.pfx)
    show "placed (patched p ?f2) (cursor f) 128" using c ok pf(1) by (auto simp: placed_def frame_ok_def)
    show "slice (patched p ?f2) (cursor f) 128 = ?img" using len pf(4) by simp
    show "region (cursor f) 128 \<inter> footprint t = {}" using holds_footprint [OF h] pf(1) by (auto simp: region_def)
    show "holds (patched p ?f2) t" using p q h by (rule holds_patched_quiet)
  qed (use bs in auto)
  then show "grown p f ?f2 (footprint t) (APrefix (cursor f) bs t)"
    using c by (auto simp: grown_def region_def)
qed

lemma write_prefix_chain_loop_spec:
  assumes "frame_ok f" "patch_ok p f" "holds (patched p f) t" "nxt = aoff t" "remaining = [] \<Longrightarrow> head = aoff t"
  shows "writes (write_prefix_chain_loop remaining nxt head) f
    (\<lambda>off f'. \<exists>t'. off = aoff t' \<and> grown p f f' (footprint t) t' \<and> wraps t' remaining t)"
  using assms
proof (induction remaining nxt head arbitrary: f t rule: write_prefix_chain_loop.induct)
  case (1 remaining nxt head)
  show ?case
  proof (cases "remaining = []")
    case True
    then show ?thesis
      using 1(2-6) by (auto simp: grown_def intro: exI [of _ t] wraps_refl)
  next
    case False
    define cs where "cs = length remaining - min (length remaining) PREFIX_MAX_INLINE"
    define chunk where "chunk = drop cs remaining"
    have chunk: "chunk \<noteq> []" "length chunk \<le> PREFIX_MAX_INLINE" "take cs remaining @ chunk = remaining"
      using False by (cases remaining; auto simp: chunk_def cs_def PREFIX_MAX_INLINE_def)+
    obtain pn where pn: "prefix_new chunk (ucast (encode_child_off (aoff t))) = Inr pn"
        "prefix_enc pn = prefix_img chunk (aoff t)"
      using chunk(2) by (rule prefix_new_img)
    let ?k = "\<lambda>off. sbind (reads (\<lambda>_. prefix_new chunk (ucast (encode_child_off (aoff t))))) (\<lambda>p.
       sbind (write_struct_at off (prefix_enc p)) (\<lambda>_. write_prefix_chain_loop (take cs remaining) off off))"
    have eq: "write_prefix_chain_loop remaining nxt head f =
        sbind (allocs (alloc_node Prefix)) (\<lambda>slot. sbind (slot_offset slot) ?k) f"
      using False 1(5) by (subst write_prefix_chain_loop.simps) (simp add: Let_def cs_def chunk_def)
    have ni: "Prefix \<noteq> Invalid" by simp
    show ?thesis
      using 1(2) ni
    proof (cases rule: alloc_node_then [where k = ?k])
      case (fail e)
      then show ?thesis using eq 1(2) by (simp add: writes_def)
    next
      case (bump f1)
      let ?f2 = "poke f1 (cursor f) (prefix_img chunk (aoff t))"
      let ?t1 = "APrefix (cursor f) chunk t"
      have b: "bumped 128 f f1" "cursor f + 128 \<le> PAGE_SIZE" using bump(2,3) by simp_all
      note w = write_prefix_node [OF 1(2,4) chunk(1,2) 1(3) b]
      have run: "write_prefix_chain_loop remaining nxt head f =
          write_prefix_chain_loop (take cs remaining) (cursor f) (cursor f) ?f2"
        using eq bump(1) pn w(1) by (simp add: sbind_def reads_def)
      have "writes (write_prefix_chain_loop (take cs remaining) (cursor f) (cursor f)) ?f2
          (\<lambda>off f'. \<exists>t'. off = aoff t' \<and> grown p ?f2 f' (footprint ?t1) t' \<and> wraps t' (take cs remaining) ?t1)"
        using False w by (intro 1(1)) (auto simp: cs_def chunk_def pn grown_def intro: patch_ok_quiet [OF 1(3)] dest: quiet_step_ok)
      then have "writes (write_prefix_chain_loop (take cs remaining) (cursor f) (cursor f)) ?f2
          (\<lambda>off f'. \<exists>t'. off = aoff t' \<and> grown p f f' (footprint t) t' \<and> wraps t' remaining t)"
      proof (rule writes_mono)
        fix off f' assume q: "quiet_step ?f2 f'"
          and "\<exists>t'. off = aoff t' \<and> grown p ?f2 f' (footprint ?t1) t' \<and> wraps t' (take cs remaining) ?t1"
        then obtain t' where t': "off = aoff t'" "grown p ?f2 f' (footprint ?t1) t'" "wraps t' (take cs remaining) ?t1"
          by blast
        have "wraps t' remaining t" using wraps_trans [OF wraps_APrefix t'(3)] chunk(3) by simp
        moreover have "grown p f f' (footprint t) t'"
          using t'(2) w(3) quiet_step_ok(2) [OF q] quiet_step_ok(2) [OF w(2)] by (fastforce simp: grown_def)
        ultimately show "\<exists>t'. off = aoff t' \<and> grown p f f' (footprint t) t' \<and> wraps t' remaining t"
          using t'(1) by blast
      qed
      then show ?thesis
        using run w(2) by (auto simp: writes_def split: prod.splits sum.splits intro: quiet_trans)
    qed
  qed
qed

lemma write_prefix_chain_spec:
  assumes "frame_ok f" "patch_ok p f" "holds (patched p f) t" "bs \<noteq> []"
  shows "writes (write_prefix_chain bs (aoff t)) f
    (\<lambda>off f'. \<exists>t'. off = aoff t' \<and> grown p f f' (footprint t) t' \<and> wraps t' bs t)"
  unfolding write_prefix_chain_def using assms by (intro write_prefix_chain_loop_spec) auto

section \<open>Forks\<close>

definition pair_node :: "u8 \<Rightarrow> u16 \<Rightarrow> u8 \<Rightarrow> u16 \<Rightarrow> Node4" where
  "pair_node b1 e1 b2 e2 = node4_empty\<lparr> n4_count := 2, n4_keys := [b1, b2, 0, 0], n4_children := [e1, e2, 0, 0] \<rparr>"

lemma pair_node_ok:
  assumes "b1 < b2" "e1 \<noteq> 0" "e2 \<noteq> 0"
  shows "inner_wf (I4 (pair_node b1 e1 b2 e2))" "inner_kids (I4 (pair_node b1 e1 b2 e2)) = [b1 \<mapsto> e1, b2 \<mapsto> e2]"
proof -
  have k: "inner_kids (I4 (pair_node b1 e1 b2 e2)) = [b1 \<mapsto> e1, b2 \<mapsto> e2]"
    using assms(1) by (auto simp: pair_node_def assoc_def fun_eq_iff)
  then show "inner_kids (I4 (pair_node b1 e1 b2 e2)) = [b1 \<mapsto> e1, b2 \<mapsto> e2]" .
  have "inner_ok (I4 (pair_node b1 e1 b2 e2))"
    using assms(1) by (simp add: pair_node_def node4_wf_def node4_empty_def)
  then show "inner_wf (I4 (pair_node b1 e1 b2 e2))"
    unfolding inner_wf_def k using assms(2,3) by (auto split: if_splits)
qed

definition fork_node :: "u8 \<Rightarrow> nat \<Rightarrow> u8 \<Rightarrow> nat \<Rightarrow> Node4" where
  "fork_node b1 o1 b2 o2 =
    (if b1 \<le> b2 then pair_node b1 (encode_child_off o1) b2 (encode_child_off o2)
     else pair_node b2 (encode_child_off o2) b1 (encode_child_off o1))"

lemma fork_node_ok:
  assumes "b1 \<noteq> b2" "node_off o1" "node_off o2"
  shows "inner_wf (I4 (fork_node b1 o1 b2 o2))"
    "inner_kids (I4 (fork_node b1 o1 b2 o2)) = [b1 \<mapsto> encode_child_off o1, b2 \<mapsto> encode_child_off o2]"
  using assms pair_node_ok [OF _ encode_child_off_pos encode_child_off_pos]
  by (auto simp: fork_node_def fun_upd_twist simp del: inner_kids.simps)

lemma write_node4_pair:
  "write_node4_with [(b1, o1), (b2, o2)] =
    sbind (allocs (alloc_node Node4)) (\<lambda>slot. sbind (slot_offset slot) (\<lambda>off.
      sbind (write_struct_at off (node4_enc (fork_node b1 o1 b2 o2))) (\<lambda>_. ret off)))"
  by (auto simp: write_node4_with_def fork_node_def pair_node_def node4_empty_def Let_def numeral_2_eq_2)

lemma write_fork_spec:
  assumes ok: "frame_ok f" and h: "holds (patched p f) t1" "holds (patched p f) t2" and p: "patch_ok p f" and ne: "b1 \<noteq> b2"
    and dis: "footprint t1 \<inter> footprint t2 = {}"
  shows "writes (write_node4_with [(b1, aoff t1), (b2, aoff t2)]) f
    (\<lambda>off f'. off = cursor f \<and> grown p f f' (footprint t1 \<union> footprint t2) (fork (cursor f) b1 t1 b2 t2))"
proof -
  let ?x = "I4 (fork_node b1 (aoff t1) b2 (aoff t2))"
  let ?k = "\<lambda>off. sbind (write_struct_at off (inner_enc ?x)) (\<lambda>_. ret off)"
  note pf = patched_facts [OF p]
  have okp: "frame_ok (patched p f)" using pf(2) ok by simp
  note x = fork_node_ok [OF ne holds_node_off [OF h(1) okp] holds_node_off [OF h(2) okp]]
  have ni: "Node4 \<noteq> Invalid" by simp
  have len: "length (inner_enc ?x) = 16" using length_inner_enc [of ?x] x(1) by (simp add: inner_wf_def)
  have eq: "write_node4_with [(b1, aoff t1), (b2, aoff t2)] =
      sbind (allocs (alloc_node Node4)) (\<lambda>slot. sbind (slot_offset slot) ?k)"
    by (simp add: write_node4_pair)
  show ?thesis
    using ok ni
  proof (cases rule: alloc_node_then [where k = ?k])
    case (fail e)
    then show ?thesis using eq ok by (simp add: writes_def)
  next
    case (bump f1)
    let ?f2 = "poke f1 (cursor f) (inner_enc ?x)"
    have b: "bumped 16 f f1" "cursor f + 16 \<le> PAGE_SIZE" using bump(2,3) by simp_all
    have run: "write_node4_with [(b1, aoff t1), (b2, aoff t2)] f = (Inr (cursor f), ?f2)"
      using eq bump(1) write_inner [of ?x "cursor f" f1] x(1) b(2) by (simp add: inner_wf_def sbind_def ret_def)
    have q: "quiet_step f ?f2" using b(1) ok by (rule quiet_bumped) (simp only: len)
    have c: "cursor ?f2 = cursor f + 16" using bumped_write_step(3) [OF b(1) ok, of "inner_enc ?x" "inner_enc ?x"] len by simp
    have "holds (patched p ?f2) (fork (cursor f) b1 t1 b2 t2)"
      unfolding fork_def
    proof (rule holds.inner)
      show "placed (patched p ?f2) (cursor f) (size_of_node Node4)" using c ok pf(1) by (auto simp: placed_def frame_ok_def)
      show "at_inner (patched p ?f2) (cursor f) ?x"
        unfolding pf(4) [OF order_refl] using x(1) b(2) by (intro at_inner_write) simp_all
      show "inner_kids ?x = (\<lambda>b. map_option (encode_child_off \<circ> aoff) ([b1 \<mapsto> t1, b2 \<mapsto> t2] b))"
        unfolding x(2) by (simp add: fun_eq_iff)
      show "holds (patched p ?f2) t \<and> region (cursor f) (size_of_node Node4) \<inter> footprint t = {}"
        if "[b1 \<mapsto> t1, b2 \<mapsto> t2] b = Some t" for b t
        using that holds_patched_quiet [OF p q] h holds_footprint [of "patched p f" t] pf(1)
        by (auto simp: region_def split: if_splits)
      show "footprint t \<inter> footprint t' = {}"
        if "[b1 \<mapsto> t1, b2 \<mapsto> t2] b = Some t" "[b1 \<mapsto> t1, b2 \<mapsto> t2] b' = Some t'" "b \<noteq> b'" for b b' t t'
        using that dis by (auto split: if_splits)
    qed simp
    then show ?thesis
      using run q c by (auto simp: writes_def grown_def fork_def footprint_AInner region_def split: if_splits)
  qed
qed

text \<open>A fork behind a shared run of key bytes: the shape every key divergence produces.\<close>

definition write_branch :: "bytes \<Rightarrow> u8 \<Rightarrow> nat \<Rightarrow> u8 \<Rightarrow> nat \<Rightarrow> nat fop" where
  "write_branch common b1 o1 b2 o2 =
    sbind (write_node4_with [(b1, o1), (b2, o2)]) (\<lambda>n4. if common = [] then ret n4 else write_prefix_chain common n4)"

lemma write_branch_spec:
  assumes ok: "frame_ok f" and h: "holds (patched p f) t1" "holds (patched p f) t2" and p: "patch_ok p f" and ne: "b1 \<noteq> b2"
    and dis: "footprint t1 \<inter> footprint t2 = {}"
  shows "writes (write_branch common b1 (aoff t1) b2 (aoff t2)) f
    (\<lambda>off f'. \<exists>t' n. off = aoff t' \<and> grown p f f' (footprint t1 \<union> footprint t2) t' \<and> wraps t' common (fork n b1 t1 b2 t2))"
  unfolding write_branch_def
proof (rule writes_bind [OF write_fork_spec [OF ok h p ne dis]])
  let ?R = "footprint t1 \<union> footprint t2"
  fix n4 f1 assume q: "quiet_step f f1" and P: "n4 = cursor f \<and> grown p f f1 ?R (fork (cursor f) b1 t1 b2 t2)"
  let ?t = "fork (cursor f) b1 t1 b2 t2"
  have ok1: "frame_ok f1" and le: "cursor f \<le> cursor f1" using q by (auto dest: quiet_step_ok)
  have t: "holds (patched p f1) ?t" "n4 = aoff ?t" using P by (auto simp: grown_def fork_def)
  show "writes (if common = [] then ret n4 else write_prefix_chain common n4) f1
      (\<lambda>off f'. \<exists>t' n. off = aoff t' \<and> grown p f f' ?R t' \<and> wraps t' common (fork n b1 t1 b2 t2))"
  proof (cases "common = []")
    case True
    have "\<exists>t' n. n4 = aoff t' \<and> grown p f f1 ?R t' \<and> wraps t' [] (fork n b1 t1 b2 t2)"
      using P t(2) wraps_refl by blast
    then show ?thesis using True ok1 by simp
  next
    case False
    have "writes (write_prefix_chain common (aoff ?t)) f1
        (\<lambda>off f'. \<exists>t' n. off = aoff t' \<and> grown p f f' ?R t' \<and> wraps t' common (fork n b1 t1 b2 t2))"
    proof (rule writes_mono [OF write_prefix_chain_spec [OF ok1 patch_ok_quiet [OF p q] t(1) False]])
      fix off f' assume q1: "quiet_step f1 f'"
        and "\<exists>t'. off = aoff t' \<and> grown p f1 f' (footprint ?t) t' \<and> wraps t' common ?t"
      then obtain t' where t': "off = aoff t'" "grown p f1 f' (footprint ?t) t'" "wraps t' common ?t" by blast
      have "grown p f f' ?R t'" using t'(2) P le quiet_step_ok(2) [OF q1] by (fastforce simp: grown_def)
      then show "\<exists>t' n. off = aoff t' \<and> grown p f f' ?R t' \<and> wraps t' common (fork n b1 t1 b2 t2)" using t' by blast
    qed
    then show ?thesis using False t(2) by simp
  qed
qed

section \<open>Diverging keys\<close>

lemma valid_key_path: "valid_key k \<Longrightarrow> prefix (p @ [b]) k \<Longrightarrow> 0 \<notin> set p"
  by (auto simp: valid_key_def prefix_def butlast_append split: if_splits)

lemma valid_key_prefix_eq:
  assumes "valid_key k" "0 \<notin> set (butlast xs)" "prefix k xs" shows "k = xs"
proof (rule ccontr)
  assume "k \<noteq> xs"
  then obtain c zs where z: "xs = k @ c # zs" using assms(3) by (auto simp: prefix_def) (metis neq_Nil_conv)
  have "last k \<in> set k" by (rule last_in_set) (use assms(1) in \<open>simp add: valid_key_def\<close>)
  moreover have "last k = 0" using assms(1) by (simp add: valid_key_def)
  ultimately have "0 \<in> set (butlast xs)" using z by (simp add: butlast_append)
  then show False using assms(2) by simp
qed

lemma lcp_split:
  "\<not> prefix xs ys \<Longrightarrow> \<not> prefix ys xs \<Longrightarrow>
   \<exists>cp a as b bs. xs = cp @ a # as \<and> ys = cp @ b # bs \<and> a \<noteq> b \<and> length (Sublist.longest_common_prefix xs ys) = length cp"
proof (induction xs arbitrary: ys)
  case (Cons x xs)
  then obtain y ys' where ys: "ys = y # ys'" by (cases ys) auto
  show ?case
  proof (cases "x = y")
    case True
    then obtain cp a as b bs where "xs = cp @ a # as" "ys' = cp @ b # bs" "a \<noteq> b"
        "length (Sublist.longest_common_prefix xs ys') = length cp"
      using Cons.IH [of ys'] Cons.prems ys by auto
    then show ?thesis using True ys by (intro exI [of _ "y # cp"]) auto
  next
    case False
    then show ?thesis using ys by (intro exI [of _ "[]"]) auto
  qed
qed simp

text \<open>A terminated key that leaves a stored path does so at a byte inside both.\<close>

lemma key_diverges:
  assumes k: "valid_key k" "prefix pre k" and xs: "0 \<notin> set (butlast (pre @ xs))"
    and np: "\<not> prefix xs (drop (length pre) k)"
  obtains cp a as b bs where "drop (length pre) k = cp @ b # bs" "xs = cp @ a # as" "a \<noteq> b"
    "length (Sublist.longest_common_prefix (drop (length pre) k) xs) = length cp" "prefix (pre @ cp @ [b]) k"
proof -
  let ?r = "drop (length pre) k"
  have kr: "k = pre @ ?r" using k(2) by (auto simp: prefix_def)
  have "\<not> prefix ?r xs"
  proof
    assume "prefix ?r xs"
    then have "prefix k (pre @ xs)" by (subst kr) simp
    then have "k = pre @ xs" using valid_key_prefix_eq [OF k(1) xs] by simp
    then have "?r = xs" by simp
    then show False using np by simp
  qed
  with np obtain cp a as b bs where d: "?r = cp @ b # bs" "xs = cp @ a # as" "b \<noteq> a"
      "length (Sublist.longest_common_prefix ?r xs) = length cp"
    using lcp_split [of ?r xs] by blast
  have "k = (pre @ cp @ [b]) @ bs" using kr d(1) by simp
  then have "prefix (pre @ cp @ [b]) k" by (rule prefixI)
  with d show ?thesis by (intro that) auto
qed

lemma prefix_pre_drop: "prefix pre k \<Longrightarrow> prefix (pre @ xs) k \<longleftrightarrow> prefix xs (drop (length pre) k)"
  by (auto simp: prefix_def)

lemma prefix_nth: "prefix (xs @ [b]) ys \<longleftrightarrow> prefix xs ys \<and> length xs < length ys \<and> ys ! length xs = b"
proof -
  have "prefix (xs @ [b]) ys \<longleftrightarrow> (\<exists>zs. ys = xs @ b # zs)" by (auto simp: prefix_def)
  also have "\<dots> \<longleftrightarrow> (\<exists>r. ys = xs @ r \<and> r \<noteq> [] \<and> hd r = b)" by (metis list.collapse list.sel(1) list.discI)
  also have "\<dots> \<longleftrightarrow> prefix xs ys \<and> length xs < length ys \<and> ys ! length xs = b"
    by (auto simp: prefix_def nth_append hd_conv_nth)
  finally show ?thesis .
qed

lemma branch_lookup:
  assumes w: "wraps t' cp (fork n a t1 b t2)" and pre: "prefix pre k" and ab: "a \<noteq> b"
  shows "alookup t' k (length pre) =
    (if prefix (pre @ cp @ [a]) k then alookup t1 k (length (pre @ cp @ [a]))
     else if prefix (pre @ cp @ [b]) k then alookup t2 k (length (pre @ cp @ [b])) else LookupNotFound)"
proof -
  have le: "length pre \<le> length k" using pre by (rule prefix_length_le)
  have 1: "alookup t' k (length pre) =
      (if prefix (pre @ cp) k then alookup (fork n a t1 b t2) k (length (pre @ cp)) else LookupNotFound)"
    using w le prefix_pre_drop [OF pre, of cp] by (simp add: wraps_def)
  have 2: "prefix (pre @ cp @ [c]) k \<longleftrightarrow>
      prefix (pre @ cp) k \<and> length (pre @ cp) < length k \<and> k ! length (pre @ cp) = c" for c
    using prefix_nth [of "pre @ cp" c k] by simp
  show ?thesis unfolding 1 2 using ab by (auto simp: fork_def alookup_AInner)
qed

lemma branch_path:
  assumes "wraps t' cp (fork n a t1 b t2)" "a \<noteq> b" "0 \<notin> set (pre @ cp)"
    "apath t1 (pre @ cp @ [a])" "apath t2 (pre @ cp @ [b])"
  shows "apath t' pre"
proof -
  have "apath (fork n a t1 b t2) (pre @ cp)" using assms by (auto simp: fork_def apath_AInner)
  moreover have "0 \<notin> set (butlast (pre @ cp))" using assms(3) by (auto dest: in_set_butlastD)
  ultimately show ?thesis using assms(1) by (simp add: wraps_def)
qed

end
