(* ===== verification/Insert_Correct.thy ===== *)
theory Insert_Correct
  imports Insert Writer_Specs
begin

text \<open>Correctness of single-frame insertion.  The outcome of \<^verbatim>\<open>insert_at_step\<close> on a frame that holds a tree
  is a function of the abstract lookup of the key: a crossing is handed to the caller, a failed guard
  leaves the frame untouched, an allocation failure leaves the tree untouched, and otherwise the new
  frame holds a tree that maps the key to the new value and every other key as before.\<close>

section \<open>What an insertion does to the tree\<close>

definition guard_passes :: "InsertCondition \<Rightarrow> LookupResult \<Rightarrow> bool" where
  "guard_passes cond r =
    (case cond of
       Always \<Rightarrow> True
     | IfAbsent \<Rightarrow> r = LookupNotFound
     | IfVersion v \<Rightarrow> (case r of Found val s \<Rightarrow> s = v | _ \<Rightarrow> False))"

text \<open>The blob node a key's descent stops at.\<close>

primrec across :: "art \<Rightarrow> bytes \<Rightarrow> nat \<Rightarrow> nat option" where
  "across (AEmpty off) = (\<lambda>k d. None)"
| "across (ALeaf off l key val) = (\<lambda>k d. None)"
| "across (APrefix off bs t) = (\<lambda>k d. if d \<le> length k \<and> prefix bs (drop d k) then across t k (d + length bs) else None)"
| "across (ABlob off bs guid) = (\<lambda>k d. if d \<le> length k \<and> prefix bs (drop d k) then Some off else None)"
| "across (AInner off nt ch) =
    (\<lambda>k d. if d < length k then (case (map_option across \<circ> ch) (k ! d) of None \<Rightarrow> None | Some g \<Rightarrow> g k (d + 1)) else None)"

definition ins_lookup :: "art \<Rightarrow> art \<Rightarrow> bytes \<Rightarrow> bytes \<Rightarrow> bytes \<Rightarrow> u64 \<Rightarrow> bool" where
  "ins_lookup t t' pre k val sq =
    (\<forall>k'. prefix pre k' \<longrightarrow>
       alookup t' k' (length pre) = (if k' = k then Found val sq else alookup t k' (length pre)))"

definition ins_post :: "frame \<Rightarrow> art \<Rightarrow> frame \<Rightarrow> art \<Rightarrow> bytes \<Rightarrow> bytes \<Rightarrow> bytes \<Rightarrow> u64 \<Rightarrow> bool" where
  "ins_post f t f' t' pre k val sq =
    (holds f' t' \<and> frame_step (footprint t) f f' \<and> footprint t' \<subseteq> footprint t \<union> {cursor f ..< cursor f'}
     \<and> apath t' pre \<and> ins_lookup t t' pre k val sq
     \<and> aguids t' = aguids t \<and> tombs f' + atombs t = tombs f + atombs t')"

definition ins_writes ::
  "InsertCondition \<Rightarrow> bytes \<Rightarrow> bytes \<Rightarrow> bytes \<Rightarrow> u64 \<Rightarrow> frame \<Rightarrow> art \<Rightarrow> (InsertStep result \<times> frame) option \<Rightarrow> bool" where
  "ins_writes cond pre k val sq f t out =
    ((\<exists>a f'. out = Some (Inl (Fail (Alloc a)), f') \<and> quiet_step f f' \<and> crowded f')
     \<or> (\<exists>f' t'. out = Some (Inr (InsertDone (aoff t') True), f') \<and> ins_post f t f' t' pre k val sq))"

definition ins_outcome ::
  "InsertCondition \<Rightarrow> bool \<Rightarrow> bytes \<Rightarrow> bytes \<Rightarrow> bytes \<Rightarrow> u64 \<Rightarrow> frame \<Rightarrow> art \<Rightarrow> (InsertStep result \<times> frame) option \<Rightarrow> bool" where
  "ins_outcome cond allow pre k val sq f t out =
    (case alookup t k (length pre) of
       Crossing g d \<Rightarrow>
         if allow then \<exists>p. across t k (length pre) = Some p \<and> out = Some (Inr (InsertCrossing g d p), f)
         else \<exists>msg. out = Some (Inl (Fail (NotYetImplemented msg)), f)
     | r \<Rightarrow>
         if guard_passes cond r then ins_writes cond pre k val sq f t out
         else out = Some (Inr (InsertDone (aoff t) False), f))"

lemma across_AInner:
  "across (AInner off nt ch) k d =
    (if d < length k then (case ch (k ! d) of None \<Rightarrow> None | Some t \<Rightarrow> across t k (d + 1)) else None)"
  by (auto split: option.splits)

declare across.simps(5) [simp del]

lemma guard_notfound: "guard_passes cond LookupNotFound = (\<not> is_if_version cond)"
  by (cases cond) (auto simp: guard_passes_def is_if_version_def)

lemma ins_postI_quiet:
  assumes "quiet_step f f'" "grown no_patch f f' (footprint t) t'" "apath t' pre" "ins_lookup t t' pre k val sq"
    "atombs t' = atombs t" "aguids t' = aguids t"
  shows "ins_post f t f' t' pre k val sq"
  using assms by (auto simp: ins_post_def quiet_step_def grown_def intro: frame_step_mono)

lemma ins_writesI:
  assumes "writes m f (\<lambda>off f'. \<exists>t'. off = aoff t' \<and> ins_post f t f' t' pre k val sq)"
    and "out = Some (sbind m (\<lambda>off. ret (InsertDone off True)) f)"
  shows "ins_writes cond pre k val sq f t out"
  using assms(1)
proof (cases rule: writes_cases)
  case (fail a f')
  then show ?thesis using assms(2) by (auto simp: ins_writes_def sbind_def)
next
  case (success v f')
  then show ?thesis using assms(2) by (auto simp: ins_writes_def sbind_def ret_def)
qed

section \<open>Branching off\<close>

definition ins_built ::
  "nat \<times> bytes \<Rightarrow> frame \<Rightarrow> art \<Rightarrow> bytes \<Rightarrow> bytes \<Rightarrow> bytes \<Rightarrow> u64 \<Rightarrow> nat \<Rightarrow> frame \<Rightarrow> bool" where
  "ins_built p f t pre k val sq off f' =
    (\<exists>t'. off = aoff t' \<and> quiet_step f f' \<and> grown p f f' (footprint t) t' \<and> apath t' pre
       \<and> atombs t' = atombs t \<and> aguids t' = aguids t \<and> ins_lookup t t' pre k val sq)"

lemma ins_built_post:
  "writes m f (ins_built no_patch f t pre k val sq) \<Longrightarrow>
   writes m f (\<lambda>off f'. \<exists>t'. off = aoff t' \<and> ins_post f t f' t' pre k val sq)"
  by (erule writes_mono) (unfold ins_built_def, blast intro: ins_postI_quiet)

text \<open>The common part of the three divergence arms: \<open>t\<close> answers exactly the keys that continue with
  \<open>cp @ [a]\<close>, through \<open>t1\<close>; the new key continues with \<open>cp @ [b]\<close>.\<close>

lemma branch_insert:
  assumes ok: "frame_ok f" and len: "length (full key) < 2 ^ 16" "length val < 2 ^ 16"
    and k: "valid_key (full key)" "prefix (pre @ cp @ [b]) (full key)" and ab: "a \<noteq> b"
    and p: "patch_ok p f" and q: "quiet_step f f1" and g: "grown p f f1 (footprint t) t1"
    and t1: "apath t1 (pre @ cp @ [a])" "atombs t1 = atombs t" "aguids t1 = aguids t"
    and lk: "\<And>k'. prefix pre k' \<Longrightarrow> alookup t k' (length pre) =
      (if prefix (pre @ cp @ [a]) k' then alookup t1 k' (length (pre @ cp @ [a])) else LookupNotFound)"
  shows "writes (sbind (write_leaf key val sq) (\<lambda>new. write_branch cp a (aoff t1) b new)) f1
    (ins_built p f t pre (full key) val sq)"
proof (rule writes_bind [OF write_leaf_spec [OF _ len]])
  show ok1: "frame_ok f1" using q by (rule quiet_step_ok)
  let ?L = "fresh_leaf f1 key val sq"
  fix off f2 assume q2: "quiet_step f1 f2" and "off = cursor f1 \<and> grown no_patch f1 f2 {} ?L"
  then have L: "off = aoff ?L" "holds f2 ?L" "footprint ?L \<subseteq> {cursor f1 ..< cursor f2}"
    by (auto simp: grown_def fresh_leaf_def)
  have p1: "patch_ok p f1" using p q by (rule patch_ok_quiet)
  have p2: "patch_ok p f2" using p1 q2 by (rule patch_ok_quiet)
  have h1: "holds (patched p f2) t1" using g holds_patched_quiet [OF p1 q2] by (simp add: grown_def)
  have h2: "holds (patched p f2) ?L"
    using L(2,3) p1 by (intro holds_patched) (auto simp: patch_ok_def)
  have b1: "footprint t1 \<subseteq> {..< cursor f1}"
    using g holds_footprint [of "patched p f1" t1] patched_facts(1) [OF p1] by (auto simp: grown_def)
  have ne0: "0 \<notin> set (pre @ cp)" using valid_key_path [OF k(1), of "pre @ cp" b] k(2) by simp
  have "writes (write_branch cp a (aoff t1) b (aoff ?L)) f2
      (\<lambda>off f'. \<exists>t' n. off = aoff t' \<and> grown p f2 f' (footprint t1 \<union> footprint ?L) t' \<and> wraps t' cp (fork n a t1 b ?L))"
    using quiet_step_ok(1) [OF q2] h1 h2 p2 ab b1 L(3) by (intro write_branch_spec) fastforce+
  then show "writes (write_branch cp a (aoff t1) b off) f2
(ins_built p f t pre (full key) val sq)"
    unfolding L(1)
  proof (rule writes_mono)
    fix off f' assume q3: "quiet_step f2 f'"
      and "\<exists>t' n. off = aoff t' \<and> grown p f2 f' (footprint t1 \<union> footprint ?L) t' \<and> wraps t' cp (fork n a t1 b ?L)"
    then obtain t' n where t': "off = aoff t'" "grown p f2 f' (footprint t1 \<union> footprint ?L) t'"
        "wraps t' cp (fork n a t1 b ?L)" by blast
    have "quiet_step f f'" using quiet_trans [OF quiet_trans [OF q q2] q3] .
    moreover have "grown p f f' (footprint t) t'"
      using t'(2) g L(3) quiet_step_ok(2) [OF q] quiet_step_ok(2) [OF q2] quiet_step_ok(2) [OF q3]
      unfolding grown_def by fastforce
    moreover have "apath t' pre"
      using t1(1) k ne0 by (intro branch_path [OF t'(3) ab]) (simp_all add: fresh_leaf_def)
    moreover have "atombs t' = atombs t"
      using t'(3) t1(2) ab by (simp add: wraps_def atombs_fork) (simp add: fresh_leaf_def leaf_live_def)
    moreover have "aguids t' = aguids t"
      using t'(3) t1(3) ab by (simp add: wraps_def aguids_fork) (simp add: fresh_leaf_def)
    moreover have "ins_lookup t t' pre (full key) val sq"
      unfolding ins_lookup_def
    proof (intro allI impI)
      fix k' assume pre: "prefix pre k'"
      have "\<not> (prefix (pre @ cp @ [a]) k' \<and> prefix (pre @ cp @ [b]) k')"
        using ab prefix_nth [of "pre @ cp" a k'] prefix_nth [of "pre @ cp" b k'] by auto
      then show "alookup t' k' (length pre) = (if k' = full key then Found val sq else alookup t k' (length pre))"
        using branch_lookup [OF t'(3) pre ab] lk [OF pre] k(2) by (auto simp: fresh_leaf_def leaf_live_def)
    qed
    ultimately show "ins_built p f t pre (full key) val sq off f'" using t'(1) unfolding ins_built_def by blast
  qed
qed

section \<open>The arms\<close>

lemma sbind_reads: "g f = Inr a \<Longrightarrow> sbind (reads g) k f = k a f"
  by (simp add: sbind_def reads_def)

lemma sbind_reads_const: "sbind (reads (\<lambda>_. Inr a)) k = k a"
  by (rule ext) (simp add: sbind_def reads_def)

lemma sbind_modify: "sbind (modify g) k f = k () (g f)"
  by (simp add: sbind_def modify_def)

lemma insert_empty_outcome:
  assumes ok: "frame_ok f" and h: "holds f (AEmpty off)" and len: "length (full key) < 2 ^ 16" "length val < 2 ^ 16"
    and k: "valid_key (full key)" "prefix pre (full key)"
  shows "ins_outcome cond allow pre (full key) val sq f (AEmpty off) (Some (insert_into_empty_root off key val sq cond f))"
proof (cases "is_if_version cond")
  case True
  then show ?thesis by (simp add: ins_outcome_def guard_notfound insert_into_empty_root_def ret_def)
next
  case False
  have "ins_writes cond pre (full key) val sq f (AEmpty off) (Some (insert_into_empty_root off key val sq cond f))"
    using write_leaf_spec [OF ok len, of sq]
  proof (cases rule: writes_cases)
    case (fail a f')
    then show ?thesis using False by (auto simp: ins_writes_def insert_into_empty_root_def sbind_def)
  next
    case (success v f1)
    let ?f2 = "note_abandoned off f1"
    have q: "quiet_step f1 ?f2" using success(2) by (intro quiet_note_abandoned) (rule quiet_step_ok)
    have "ins_post f (AEmpty off) ?f2 (fresh_leaf f key val sq) pre (full key) val sq"
    proof (rule ins_postI_quiet)
      show "quiet_step f ?f2" using success(2) q by (rule quiet_trans)
      show "grown no_patch f ?f2 (footprint (AEmpty off)) (fresh_leaf f key val sq)"
        using success(3) holds_quiet [OF q] by (auto simp: grown_def)
      show "apath (fresh_leaf f key val sq) pre" using k by (simp add: fresh_leaf_def)
      show "ins_lookup (AEmpty off) (fresh_leaf f key val sq) pre (full key) val sq"
        by (simp add: ins_lookup_def fresh_leaf_def leaf_live_def)
      show "atombs (fresh_leaf f key val sq) = atombs (AEmpty off)" "aguids (fresh_leaf f key val sq) = aguids (AEmpty off)"
        by (simp_all add: fresh_leaf_def leaf_live_def)
    qed
    moreover have "insert_into_empty_root off key val sq cond f = (Inr (InsertDone (aoff (fresh_leaf f key val sq)) True), ?f2)"
      using False success by (simp add: insert_into_empty_root_def sbind_def modify_def ret_def fresh_leaf_def)
    ultimately show ?thesis by (auto simp: ins_writes_def)
  qed
  then show ?thesis using False by (simp add: ins_outcome_def guard_notfound)
qed

lemma leaf_key_ref:
  assumes "frame_ok f" "holds f (ALeaf off l lk lv)"
  shows "read_leaf_key_ref f off = Inr (lk, l)"
proof -
  have m: "leaf_matches l lk lv" using assms(2) by (auto elim: holds_leafE)
  show ?thesis
    using holds_body(1) [OF assms(2,1)] leaf_body_split [OF assms(2)] m
    by (simp add: read_leaf_key_ref_def split_leaf_body_def leaf_key_extent_def leaf_matches_def Let_def)
qed

text \<open>A header write that only touches the tombstone counter.\<close>

lemma tombstone_mut:
  fixes g :: "u32 \<Rightarrow> u32"
  defines "m \<equiv> header_mut (\<lambda>h. h\<lparr> tombstone_leaf_cnt := g (tombstone_leaf_cnt h) \<rparr>)"
  assumes ok: "frame_ok f"
  shows "frame_step {} f (m f)" "tombs (m f) = unat (g (tombstone_leaf_cnt (header_of f)))" "cursor (m f) = cursor f"
  using ok by (auto simp: m_def frame_step_def frame_ok_def cursor_def tombs_def geometry)

lemma resurrect_step:
  assumes ok: "frame_ok f" and b: "b \<Longrightarrow> 0 < tombs f"
  shows "frame_step {} f (note_resurrected b f)" "tombs (note_resurrected b f) + (if b then 1 else 0) = tombs f"
    "cursor (note_resurrected b f) = cursor f"
proof -
  have "unat (u32_saturating_sub1 w) = unat w - 1" for w
    by (simp add: u32_saturating_sub1_def unat_minus_one)
  then show "frame_step {} f (note_resurrected b f)" "tombs (note_resurrected b f) + (if b then 1 else 0) = tombs f"
    "cursor (note_resurrected b f) = cursor f"
    using tombstone_mut [OF ok, of u32_saturating_sub1] ok b by (auto simp: note_resurrected_def tombs_def)
qed

text \<open>Rewriting a leaf in place: header and value change, the key bytes stay.\<close>

lemma overwrite_leaf_spec:
  assumes ok: "frame_ok f" and h: "holds f (ALeaf off l lk lv)" and v: "length val < 2 ^ 16"
    and fit: "leaf_body_size (length lk) (length val) \<le> leaf_body_size (length lk) (length lv)"
    and l': "leaf_matches l' lk val"
  obtains f1 where "overwrite_leaf off l' (length lk) val f = (Inr (), f1)" "holds f1 (ALeaf off l' lk val)"
    "frame_step (footprint (ALeaf off l lk lv)) f f1" "tombs f1 = tombs f" "cursor f1 = cursor f"
proof -
  let ?n = "leaf_body_size (length lk) (length lv)"
  let ?k = "length lk"
  let ?tail = "val @ replicate (?n - (16 + ?k + length val)) 0"
  let ?f1 = "poke (poke f off (leaf_enc l')) (off + (16 + ?k)) ?tail"
  have m: "leaf_matches l lk lv" and s: "slice f off (16 + ?k + length lv) = leaf_enc l @ lk @ lv"
    and pl: "placed f off ?n" using h by (auto elim: holds_leafE)
  have lo: "DATA_AREA_START \<le> off" using pl by (simp add: placed_def)
  note b = leaf_body_size_bounds [OF conjunct1 [OF leaf_lengths [OF m]] v]
  have big: "16 + ?k + length val \<le> ?n" using b(1) fit by linarith
  have len [simp]: "length (leaf_enc l') = 16" "length (leaf_enc l) = 16" by (simp_all add: leaf.length_enc)
  have run: "overwrite_leaf off l' ?k val f = (Inr (), ?f1)"
    using holds_body(2) [OF h ok] big by (simp add: overwrite_leaf_def Let_def)
  have key: "slice f (off + 16) ?k = lk"
  proof -
    have "slice f off (16 + ?k + length lv) = slice f off 16 @ slice f (off + 16) ?k @ slice f (off + (16 + ?k)) (length lv)"
      by (simp add: slice_append add.assoc)
    then show ?thesis using s by simp
  qed
  have sl: "slice ?f1 off (16 + ?k + length val) = leaf_enc l' @ lk @ val"
  proof -
    have "slice ?f1 off (16 + ?k + length val) =
        slice ?f1 off 16 @ slice ?f1 (off + 16) ?k @ slice ?f1 (off + (16 + ?k)) (length val)"
      by (simp add: slice_append add.assoc)
    moreover have "slice ?f1 off 16 = leaf_enc l'" by (simp add: slice_poke_other)
    moreover have "slice ?f1 (off + 16) ?k = lk" using key by (simp add: slice_poke_other)
    moreover have "slice ?f1 (off + (16 + ?k)) (length val) = val" by (simp add: slice_poke_sub)
    ultimately show ?thesis by simp
  qed
  have c: "cursor ?f1 = cursor f" "header_of ?f1 = header_of f" using lo by simp_all
  have "holds ?f1 (ALeaf off l' lk val)"
    using pl fit c(1) l' sl by (intro holds.leaf) (auto simp: placed_def)
  moreover have "frame_step (footprint (ALeaf off l lk lv)) f ?f1"
  proof -
    have "?f1 i = f i" if "i \<notin> region off ?n" for i
      using that big by (auto simp: region_def poke_def)
    then show ?thesis using ok lo c by (auto simp: frame_step_def)
  qed
  ultimately show ?thesis using c by (intro that [OF run]) (simp_all add: tombs_def)
qed

lemma update_guard_lookup:
  "update_guard cond l = guard_passes cond (alookup (ALeaf off l k lv) k d)"
  by (auto simp: update_guard_def guard_passes_def is_if_version_def split: InsertCondition.splits)

lemma update_same_key_outcome:
  assumes ok: "frame_ok f" and h: "holds f (ALeaf off l (full key) lv)" and v: "length val < 2 ^ 16"
    and k: "valid_key (full key)" "prefix pre (full key)" and tb: "atombs (ALeaf off l (full key) lv) \<le> tombs f"
  shows "ins_outcome cond allow pre (full key) val sq f (ALeaf off l (full key) lv)
    (Some (update_same_key off l key val sq cond f))"
proof (cases "update_guard cond l")
  case False
  then have "\<not> guard_passes cond (alookup (ALeaf off l (full key) lv) (full key) (length pre))"
    by (simp only: update_guard_lookup [where off = off and k = "full key" and lv = lv and d = "length pre"] not_False_eq_True)
  then show ?thesis using False by (auto simp: ins_outcome_def update_same_key_def ret_def split: if_splits)
next
  case True
  let ?t = "ALeaf off l (full key) lv"
  let ?wt = "tombstone l \<noteq> 0"
  let ?l' = "leaf_live (word_of_nat (length (full key))) (word_of_nat (length val)) sq (fingerprint key)"
  let ?new = "leaf_body_size (length (full key)) (length val)"
  let ?old = "leaf_body_size (length (full key)) (length lv)"
  have m: "leaf_matches l (full key) lv" using h by (auto elim: holds_leafE)
  then have kl: "unat (key_len l) = length (full key)" "length (full key) < 2 ^ 16"
    using leaf_lengths [OF m] by (simp_all add: leaf_matches_def)
  have vm: "length val mod 2 ^ 32 = length val" using v by simp
  have l': "leaf_matches ?l' (full key) val" using kl(2) v fingerprint_full by (rule live_matches)
  have body: "body_at_offset f off = Some (slice f off ?old)" using holds_body(1) [OF h ok] by simp
  have wt: "?wt \<Longrightarrow> 0 < tombs f" using tb by (simp split: if_splits)
  have lk: "ins_lookup ?t (ALeaf off' ?l' (full key) val) pre (full key) val sq" for off'
    by (simp add: ins_lookup_def leaf_live_def)
  have "ins_writes cond pre (full key) val sq f ?t (Some (update_same_key off l key val sq cond f))"
  proof (cases "?new \<le> ?old")
    case fit: True
    obtain f1 where f1: "overwrite_leaf off ?l' (length (full key)) val f = (Inr (), f1)" "holds f1 (ALeaf off ?l' (full key) val)"
        "frame_step (footprint ?t) f f1" "tombs f1 = tombs f" "cursor f1 = cursor f"
      using ok h v fit l' by (rule overwrite_leaf_spec)
    let ?f2 = "note_resurrected ?wt f1"
    have r: "frame_step {} f1 ?f2" "tombs ?f2 + (if ?wt then 1 else 0) = tombs f" "cursor ?f2 = cursor f"
      using resurrect_step [OF frame_step_ok(1) [OF f1(3)], of ?wt] wt f1(4,5) by auto
    have "ins_post f ?t ?f2 (ALeaf off ?l' (full key) val) pre (full key) val sq"
      unfolding ins_post_def
    proof (intro conjI lk)
      show "holds ?f2 (ALeaf off ?l' (full key) val)" using f1(2) r(1) by (rule holds_step) simp
      show "frame_step (footprint ?t) f ?f2" by (rule frame_step_trans [OF f1(3) r(1)]) simp
    qed (use fit k r in \<open>auto simp: region_def leaf_live_def\<close>)
    moreover have "update_same_key off l key val sq cond f = (Inr (InsertDone off True), ?f2)"
      using True fit f1(1) kl(1) body vm by (simp add: update_same_key_def Let_def sbind_def reads_def modify_def ret_def)
    ultimately show ?thesis unfolding ins_writes_def by (intro disjI2 exI [of _ ?f2] exI [of _ "ALeaf off ?l' (full key) val"]) simp
  next
    case big: False
    have step: "update_same_key off l key val sq cond f =
        sbind (write_leaf key val sq) (\<lambda>new_off. sbind (modify (note_abandoned off))
          (\<lambda>_. sbind (modify (note_resurrected ?wt)) (\<lambda>_. ret (InsertDone new_off True)))) f"
      using True big kl(1) body vm by (simp add: update_same_key_def Let_def sbind_def reads_def)
    show ?thesis
      using write_leaf_spec [OF ok kl(2) v, of sq]
    proof (cases rule: writes_cases)
      case (fail a f')
      then show ?thesis using step by (auto simp: ins_writes_def sbind_def)
    next
      case (success off' f1)
      let ?f2 = "note_abandoned off f1"
      let ?f3 = "note_resurrected ?wt ?f2"
      let ?t' = "ALeaf (cursor f) ?l' (full key) val"
      have q: "quiet_step f ?f2"
        using success(2) by (rule quiet_trans) (intro quiet_note_abandoned quiet_step_ok(1) [OF success(2)])
      have h1: "holds f1 ?t'" "footprint ?t' \<subseteq> {cursor f ..< cursor f1}" "off' = cursor f"
        using success(3) by (auto simp: grown_def fresh_leaf_def)
      have q12: "frame_step {} f1 ?f2" by (intro note_abandoned_step quiet_step_ok(1) [OF success(2)])
      have r: "frame_step {} ?f2 ?f3" "tombs ?f3 + (if ?wt then 1 else 0) = tombs f" "cursor ?f3 = cursor f1"
        using resurrect_step [of ?f2 ?wt] quiet_step_ok(1) [OF q] wt q by (auto simp: quiet_step_def)
      have "ins_post f ?t ?f3 ?t' pre (full key) val sq"
        unfolding ins_post_def
      proof (intro conjI lk)
        show "holds ?f3 ?t'" using holds_step [OF holds_step [OF h1(1) q12] r(1)] by simp
        show "frame_step (footprint ?t) f ?f3"
          using q r(1) by (auto simp: quiet_step_def intro: frame_step_mono [OF frame_step_trans])
      qed (use h1 k r in \<open>auto simp: leaf_live_def\<close>)
      moreover have "update_same_key off l key val sq cond f = (Inr (InsertDone (cursor f) True), ?f3)"
        using step success(1) h1(3) by (simp add: sbind_def modify_def ret_def)
      ultimately show ?thesis unfolding ins_writes_def by (intro disjI2 exI [of _ ?f3] exI [of _ ?t']) simp
    qed
  qed
  moreover have "guard_passes cond (alookup ?t (full key) (length pre))"
    using True by (simp only: update_guard_lookup [where off = off and k = "full key" and lv = lv and d = "length pre"])
  ultimately show ?thesis by (auto simp: ins_outcome_def split: if_splits)
qed

lemma write_leaf_split_branch:
  "write_leaf_split off key val sq cp a b = sbind (write_leaf key val sq) (\<lambda>new. write_branch cp a off b new)"
  by (simp add: write_leaf_split_def write_branch_def)

lemma insert_leaf_outcome:
  assumes ok: "frame_ok f" and h: "holds f (ALeaf off l lk lv)"
    and len: "length (full key) < 2 ^ 16" "length val < 2 ^ 16"
    and k: "valid_key (full key)" "prefix pre (full key)" and path: "apath (ALeaf off l lk lv) pre"
    and tb: "atombs (ALeaf off l lk lv) \<le> tombs f"
  shows "ins_outcome cond allow pre (full key) val sq f (ALeaf off l lk lv)
    (Some (insert_into_leaf off key val (length pre) sq cond f))"
proof (cases "lk = full key")
  case True
  have "insert_into_leaf off key val (length pre) sq cond f = update_same_key off l key val sq cond f"
    using leaf_key_ref [OF ok h] True by (simp add: insert_into_leaf_def sbind_def reads_def eq_slice_full)
  then show ?thesis using update_same_key_outcome [of f off l key lv] ok h len k tb True by simp
next
  case False
  let ?t = "ALeaf off l lk lv"
  let ?xs = "drop (length pre) lk"
  have lk: "valid_key lk" "pre @ ?xs = lk" using path by (auto simp: prefix_def)
  have np: "\<not> prefix ?xs (drop (length pre) (full key))"
  proof
    assume "prefix ?xs (drop (length pre) (full key))"
    then have "prefix (pre @ ?xs) (full key)" using k(2) by (simp only: prefix_pre_drop)
    then have "prefix lk (full key)" using lk(2) by simp
    then show False using valid_key_prefix_eq [OF lk(1), of "full key"] k(1) False by (simp add: valid_key_def)
  qed
  have "0 \<notin> set (butlast (pre @ ?xs))" using lk by (simp add: valid_key_def)
  then obtain cp a as b bs where d: "drop (length pre) (full key) = cp @ b # bs" "?xs = cp @ a # as" "a \<noteq> b"
      "length (Sublist.longest_common_prefix (drop (length pre) (full key)) ?xs) = length cp"
      "prefix (pre @ cp @ [b]) (full key)"
    using np by (rule key_diverges [OF k])
  have byte: "byte_at key (length pre + length cp) = Some b"
  proof -
    have "full key = pre @ cp @ b # bs" using d(1) k(2) by (auto simp: prefix_def)
    then show ?thesis by (simp add: byte_at_full nth_append)
  qed
  have rl: "length (full key) - length pre = length cp + 1 + length bs" using arg_cong [OF d(1), of length] by simp
  have cnt: "length cp \<noteq> length ?xs" "length cp \<noteq> remaining_len key (length pre)"
    using rl arg_cong [OF d(2), of length] by (simp_all add: remaining_len_def sk_len_full)
  have step: "insert_into_leaf off key val (length pre) sq cond f =
      (if is_if_version cond then ret (InsertDone off False)
       else sbind (sbind (write_leaf key val sq) (\<lambda>new. write_branch cp a off b new)) (\<lambda>off. ret (InsertDone off True))) f"
    using leaf_key_ref [OF ok h] False d(2,4) byte cnt path prefix_length_le [of pre lk]
    by (simp add: insert_into_leaf_def sbind_def reads_def eq_slice_full common_prefix_full write_leaf_split_branch
        Let_def split: prod.splits)
  have "writes (sbind (write_leaf key val sq) (\<lambda>new. write_branch cp a (aoff ?t) b new)) f
    (ins_built no_patch f ?t pre (full key) val sq)"
  proof (rule branch_insert [OF ok len k(1) d(5,3)])
    have "lk = (pre @ cp @ [a]) @ as" using lk(2) d(2) by simp
    then have pa: "prefix (pre @ cp @ [a]) lk" by (rule prefixI)
    then show "apath ?t (pre @ cp @ [a])" using lk(1) by simp
    show "alookup ?t k' (length pre) =
      (if prefix (pre @ cp @ [a]) k' then alookup ?t k' (length (pre @ cp @ [a])) else LookupNotFound)" for k'
      using pa by auto
  qed (use ok h in \<open>auto simp: grown_def\<close>)
  then have "writes (sbind (write_leaf key val sq) (\<lambda>new. write_branch cp a off b new)) f
      (\<lambda>off f'. \<exists>t'. off = aoff t' \<and> ins_post f ?t f' t' pre (full key) val sq)"
    by (simp add: ins_built_post)
  then have "\<not> is_if_version cond \<Longrightarrow>
      ins_writes cond pre (full key) val sq f ?t (Some (insert_into_leaf off key val (length pre) sq cond f))"
    by (rule ins_writesI) (simp add: step)
  moreover have "alookup ?t (full key) (length pre) = LookupNotFound" using False by auto
  ultimately show ?thesis by (auto simp: ins_outcome_def guard_notfound step ret_def)
qed

lemma stem_split:
  assumes "prefix pre k"
  shows "prefix (cp @ a # as) (drop (length pre) k) \<longleftrightarrow>
    prefix (pre @ cp @ [a]) k \<and> prefix as (drop (length (pre @ cp @ [a])) k)"
proof -
  obtain r where r: "k = pre @ r" using assms by (auto simp: prefix_def)
  have "prefix (cp @ a # as) r \<longleftrightarrow> prefix (cp @ [a]) r \<and> prefix as (drop (length (cp @ [a])) r)"
    by (auto simp: prefix_def)
  then show ?thesis using r by (simp add: add.commute)
qed

lemma byte_at_stem:
  "prefix pre (full key) \<Longrightarrow> drop (length pre) (full key) = cp @ b # bs \<Longrightarrow>
   byte_at key (length pre + length cp) = Some b"
  by (auto simp: prefix_def byte_at_full nth_append)

lemma take_drop_stem [simp]:
  "take (length cp) (cp @ a # as) = cp" "drop (length cp + 1) (cp @ a # as) = as" "(cp @ a # as) ! length cp = a"
  by simp_all

lemma blob_node_new_img:
  assumes "length bs \<le> BLOB_MAX_INLINE"
  obtains p where "blob_node_new bs guid = Inr p" "blob_node_enc p = blob_img bs guid"
  using assms by (simp add: blob_node_new_def blob_img_def)

lemma ins_post_patched:
  assumes b: "ins_built p f t pre k val sq off f'" and p: "patch_ok p f"
    and inside: "{fst p ..< fst p + length (snd p)} \<subseteq> footprint t"
  shows "\<exists>t'. off = aoff t' \<and> ins_post f t (patched p f') t' pre k val sq"
proof -
  obtain t' where t': "off = aoff t'" "quiet_step f f'" "grown p f f' (footprint t) t'" "apath t' pre"
      "atombs t' = atombs t" "aguids t' = aguids t" "ins_lookup t t' pre k val sq" using b unfolding ins_built_def by blast
  have lo: "DATA_AREA_START \<le> fst p" using p by (simp add: patch_ok_def)
  have "frame_step (footprint t) f (patched p f')"
    using t'(2) lo inside unfolding patched_def quiet_step_def
    by (intro frame_step_mono [OF frame_step_trans [OF frame_step_mono poke_step]]) (auto dest: frame_step_ok)
  then show ?thesis
    using t' patched_facts(1,3) [OF p]
    by (intro exI [of _ t']) (auto simp: ins_post_def grown_def quiet_step_def tombs_def)
qed

lemma insert_blob_outcome:
  assumes ok: "frame_ok f" and h: "holds f (ABlob off bs guid)"
    and len: "length (full key) < 2 ^ 16" "length val < 2 ^ 16"
    and k: "valid_key (full key)" "prefix pre (full key)" and path: "apath (ABlob off bs guid) pre"
  shows "ins_outcome cond allow pre (full key) val sq f (ABlob off bs guid)
    (Some (blob_node_insert_step off key val (length pre) sq cond allow f))"
proof -
  let ?t = "ABlob off bs guid"
  let ?r = "drop (length pre) (full key)"
  have t: "placed f off 128" "length bs \<le> BLOB_MAX_INLINE" "length guid = 16" "slice f off 128 = blob_img bs guid"
    using h by (auto elim: holds_blobE)
  have rd: "rbind (ok_or (body_at_offset f off) e) (cast blob_node_dec 128) =
      Inr \<lparr> blob_count = 1, blob_node_type = as_u8 Blob, blob_prefix_len = word_of_nat (length bs),
        child_blob_guid = guid, blob_bytes = bs @ replicate (BLOB_MAX_INLINE - length bs) 0 \<rparr>" for e
    using holds_body(1) [OF h ok] t(4) blob_img_dec(1) [OF t(2,3)] by simp
  note plen = blob_img_dec(2) [OF t(2,3)]
  have com: "common_prefix_with_slice key (length pre) bs = length bs \<longleftrightarrow> prefix bs ?r"
    by (simp add: common_prefix_full lcp_other_iff)
  show ?thesis
  proof (cases "prefix bs ?r")
    case True
    then have "alookup ?t (full key) (length pre) = Crossing guid (length pre + length bs)"
        "across ?t (full key) (length pre) = Some off" using prefix_length_le [OF k(2)] by simp_all
    then show ?thesis using True rd plen com t(2)
      by (auto simp: ins_outcome_def blob_node_insert_step_def sbind_def reads_def throw_def ret_def Let_def)
  next
    case False
    obtain cp a as b bs' where d: "?r = cp @ b # bs'" "bs = cp @ a # as" "a \<noteq> b"
        "length (Sublist.longest_common_prefix ?r bs) = length cp" "prefix (pre @ cp @ [b]) (full key)"
      using path [simplified] False by (rule key_diverges [OF k])
    let ?p = "(off, blob_img as guid)"
    let ?t1 = "ABlob off as guid"
    have las: "length as \<le> BLOB_MAX_INLINE" using t(2) d(2) by simp
    have limg: "length (blob_img as guid) = 128" using las t(3) by simp
    have p: "patch_ok ?p f" using t(1) limg by (simp add: patch_ok_def placed_def)
    obtain bn where bn: "blob_node_new as guid = Inr bn" "blob_node_enc bn = blob_img as guid"
      using las by (rule blob_node_new_img)
    have h1: "holds (patched ?p f) ?t1"
      using t las limg patched_facts(1) [OF p] by (intro holds.blob) (auto simp: placed_def patched_def)
    have "writes (sbind (write_leaf key val sq) (\<lambda>new. write_branch cp a (aoff ?t1) b new)) f
        (ins_built ?p f ?t pre (full key) val sq)"
    proof (rule branch_insert [OF ok len k(1) d(5,3) p])
      show "grown ?p f f (footprint ?t) ?t1" using h1 by (simp add: grown_def)
      show "apath ?t1 (pre @ cp @ [a])" using path d(2) by simp
      show "alookup ?t k' (length pre) =
          (if prefix (pre @ cp @ [a]) k' then alookup ?t1 k' (length (pre @ cp @ [a])) else LookupNotFound)"
        if "prefix pre k'" for k'
        using stem_split [OF that, of cp a as] d(2) prefix_length_le [OF that] by (auto dest: prefix_length_le)
    qed (use ok in auto)
    then have w: "writes (sbind (write_leaf key val sq) (\<lambda>new. write_branch cp a off b new)) f
        (ins_built ?p f ?t pre (full key) val sq)" by simp
    have step: "blob_node_insert_step off key val (length pre) sq cond allow f =
        (if is_if_version cond then ret (InsertDone off False)
         else sbind (sbind (write_leaf key val sq) (\<lambda>new. write_branch cp a off b new)) (\<lambda>final f'.
           sbind (write_struct_at off (blob_img as guid)) (\<lambda>_. ret (InsertDone final True)) f')) f"
      unfolding blob_node_insert_step_def
      by (subst sbind_reads, rule rd) (insert False plen com t(2) d(2,4) byte_at_stem [OF k(2) d(1)] bn, simp add: Let_def common_prefix_full write_branch_def sbind_assoc sbind_reads_const cong: if_cong)
    have "ins_writes cond pre (full key) val sq f ?t (Some (blob_node_insert_step off key val (length pre) sq cond allow f))"
      if nv: "\<not> is_if_version cond"
      using w
    proof (cases rule: writes_cases)
      case (fail e f')
      then show ?thesis using step nv by (auto simp: ins_writes_def sbind_def)
    next
      case (success v f')
      have "write_struct_at off (blob_img as guid) f' = (Inr (), patched ?p f')"
        using limg t(1) ok by (simp add: write_struct_at_def bytes_at_mut_def patched_def placed_def frame_ok_def)
      moreover have "\<exists>t'. v = aoff t' \<and> ins_post f ?t (patched ?p f') t' pre (full key) val sq"
        using success(3) p limg by (intro ins_post_patched) (auto simp: region_def)
      ultimately show ?thesis using step nv success(1) by (auto simp: ins_writes_def sbind_def ret_def)
    qed
    moreover have "alookup ?t (full key) (length pre) = LookupNotFound" using False by simp
    ultimately show ?thesis using step by (auto simp: ins_outcome_def guard_notfound ret_def)
  qed
qed

section \<open>Parents of a changed child\<close>

text \<open>After the child \<open>t\<close> became \<open>t'\<close>, the parent stores the new child offset if it moved.\<close>

lemma read_prefix_holds:
  assumes "frame_ok f" "placed f off 128" "slice f off 128 = prefix_img bs c" "length bs \<le> PREFIX_MAX_INLINE"
  shows "read_prefix f off = Inr \<lparr> prefix_count = 1, prefix_node_type = as_u8 Prefix,
    prefix_len = word_of_nat (length bs), prefix_child = ucast (encode_child_off c),
    prefix_bytes = bs @ replicate (PREFIX_MAX_INLINE - length bs) 0 \<rparr>"
proof -
  have "f (off + 1) = as_u8 Prefix" using slice_tag [OF assms(3)] by simp
  moreover have "off + 128 \<le> PAGE_SIZE" using assms(1,2) by (auto simp: placed_def frame_ok_def)
  ultimately have "body_at_offset f off = Some (prefix_img bs c)"
    using body_at_offset_fixed(1) [of f off Prefix] assms(3) by simp
  then show ?thesis using prefix_img_dec(1) [OF assms(4)] by (simp add: read_prefix_def)
qed

lemma poke_slice_same: "poke m off (slice m off n) = m"
  by (rule ext) (auto simp: poke_def slice_def)

lemma reparent_prefix:
  assumes ok: "frame_ok f" and h: "holds f (APrefix off bs t)" and st: "frame_step (footprint t) f f'"
    and h': "holds f' t'" and fp: "footprint t' \<subseteq> footprint t \<union> {cursor f ..< cursor f'}"
  obtains f'' where
    "\<And>k. sbind (if aoff t' \<noteq> aoff t then set_prefix_child off (aoff t') else ret ()) k f' = k () f''"
    "holds f'' (APrefix off bs t')" "frame_step (footprint (APrefix off bs t)) f f''"
    "footprint (APrefix off bs t') \<subseteq> footprint (APrefix off bs t) \<union> {cursor f ..< cursor f''}" "tombs f'' = tombs f'"
proof -
  have t: "placed f off 128" "bs \<noteq> []" "length bs \<le> PREFIX_MAX_INLINE" "slice f off 128 = prefix_img bs (aoff t)"
      "holds f t" "region off 128 \<inter> footprint t = {}" using h by (auto elim: holds_prefixE)
  have ok': "frame_ok f'" "cursor f \<le> cursor f'" using st by (auto dest: frame_step_ok)
  have lo: "DATA_AREA_START \<le> off" "off + 128 \<le> cursor f" "off + 128 \<le> PAGE_SIZE"
    using t(1) ok by (auto simp: placed_def frame_ok_def)
  have pl': "placed f' off 128" using t(1) ok'(2) by (auto simp: placed_def)
  have s': "slice f' off 128 = prefix_img bs (aoff t)"
    using slice_step [OF st lo(1,2)] t(4,6) by (simp add: region_def)
  let ?img = "prefix_img bs (aoff t')"
  let ?f'' = "poke f' off ?img"
  have limg: "length ?img = 128" using t(3) by simp
  have same: "?f'' = f'" if "aoff t' = aoff t" using poke_slice_same [of f' off 128] s' that by simp
  have dis: "region off 128 \<inter> footprint t' = {}" using fp t(6) lo(2) by (auto simp: region_def)
  have c: "cursor ?f'' = cursor f'" using lo by simp
  have "sbind (if aoff t' \<noteq> aoff t then set_prefix_child off (aoff t') else ret ()) k f' = k () ?f''" for k
    using read_prefix_holds [OF ok'(1) pl' s' t(3)] same limg lo(3)
    by (simp add: set_prefix_child_def sbind_def reads_def ret_def write_struct_at_def bytes_at_mut_def prefix_img_def)
  moreover have "holds ?f'' (APrefix off bs t')"
  proof (rule holds.pfx)
    show "holds ?f'' t'" using h' dis limg lo(1) holds_patched [of f' t' "(off, ?img)"]
      by (auto simp: patched_def region_def)
  qed (use pl' t c dis limg in \<open>auto simp: placed_def\<close>)
  moreover have "frame_step (footprint (APrefix off bs t)) f ?f''"
    using st limg ok'(1) lo(1)
    by (intro frame_step_trans [OF frame_step_mono [OF st] poke_step]) (auto simp: region_def)
  ultimately show ?thesis using fp c lo by (intro that [of ?f'']) (auto simp: tombs_def)
qed

lemma ins_lookup_prefix:
  assumes "ins_lookup t t' (pre @ bs) k val sq" "prefix (pre @ bs) k"
  shows "ins_lookup (APrefix off bs t) (APrefix off bs t') pre k val sq"
  unfolding ins_lookup_def
proof (intro allI impI)
  fix k' assume pre: "prefix pre k'"
  have "prefix (pre @ bs) k' \<longleftrightarrow> prefix bs (drop (length pre) k')" using pre by (rule prefix_pre_drop)
  then show "alookup (APrefix off bs t') k' (length pre) =
      (if k' = k then Found val sq else alookup (APrefix off bs t) k' (length pre))"
    using assms prefix_length_le [OF pre] by (auto simp: ins_lookup_def)
qed

lemma ins_outcome_cases:
  assumes "ins_outcome cond allow pre k val sq f t out"
  obtains (crossing) g d p where "alookup t k (length pre) = Crossing g d" "allow" "across t k (length pre) = Some p"
      "out = Some (Inr (InsertCrossing g d p), f)"
  | (refused) g d msg where "alookup t k (length pre) = Crossing g d" "\<not> allow"
      "out = Some (Inl (Fail (NotYetImplemented msg)), f)"
  | (unchanged) "\<And>g d. alookup t k (length pre) \<noteq> Crossing g d" "\<not> guard_passes cond (alookup t k (length pre))"
      "out = Some (Inr (InsertDone (aoff t) False), f)"
  | (fail) a f' where "\<And>g d. alookup t k (length pre) \<noteq> Crossing g d" "guard_passes cond (alookup t k (length pre))"
      "out = Some (Inl (Fail (Alloc a)), f')" "quiet_step f f'" "crowded f'"
  | (inserted) f' t' where "\<And>g d. alookup t k (length pre) \<noteq> Crossing g d"
      "guard_passes cond (alookup t k (length pre))"
      "out = Some (Inr (InsertDone (aoff t') True), f')" "ins_post f t f' t' pre k val sq"
  using assms
  by (auto simp: ins_outcome_def ins_writes_def split: LookupResult.splits if_splits)

lemma ins_outcomeI:
  assumes "\<And>g d. alookup t k (length pre) \<noteq> Crossing g d"
  shows "ins_outcome cond allow pre k val sq f t out =
    (if guard_passes cond (alookup t k (length pre)) then ins_writes cond pre k val sq f t out
     else out = Some (Inr (InsertDone (aoff t) False), f))"
  using assms by (auto simp: ins_outcome_def split: LookupResult.splits)

text \<open>The shared part of both recursive arms: \<open>u\<close> is the parent of \<open>t\<close>, \<open>fix_up\<close> repoints it.\<close>

lemma ins_outcome_parent:
  assumes child: "ins_outcome cond allow pre' k val sq f t out"
    and lk: "alookup u k (length pre) = alookup t k (length pre')" "across u k (length pre) = across t k (length pre')"
    and same: "\<And>r. fix_up (aoff t) r f = (Inr r, f)"
    and moved: "\<And>f' t'. ins_post f t f' t' pre' k val sq \<Longrightarrow>
      \<exists>f'' u'. (\<forall>r. fix_up (aoff t') r f' = (Inr r, f'')) \<and> aoff u' = aoff u \<and> ins_post f u f'' u' pre k val sq"
  shows "ins_outcome cond allow pre k val sq f u (obind out (\<lambda>r.
      case r of InsertCrossing g d o' \<Rightarrow> ret r | InsertDone off_after mutated \<Rightarrow> fix_up off_after (InsertDone (aoff u) mutated)))"
  using child
proof (cases rule: ins_outcome_cases)
  case (crossing g d p)
  then show ?thesis using lk by (simp add: ins_outcome_def obind_def ret_def)
next
  case (refused g d msg)
  then show ?thesis using lk by (simp add: ins_outcome_def obind_def)
next
  case unchanged
  then show ?thesis using lk same by (simp add: ins_outcomeI obind_def)
next
  case (fail a f')
  then show ?thesis using lk by (simp add: ins_outcomeI obind_def ins_writes_def)
next
  case (inserted f' t')
  obtain f'' u' where u': "\<forall>r. fix_up (aoff t') r f' = (Inr r, f'')" "aoff u = aoff u'" "ins_post f u f'' u' pre k val sq"
    using moved [OF inserted(4)] by metis
  have "\<exists>t'. aoff u = aoff t' \<and> ins_post f u f'' t' pre k val sq" using u'(2,3) by blast
  then show ?thesis using inserted lk u'(1) by (simp add: ins_outcomeI obind_def ins_writes_def)
qed

lemma insert_prefix_through:
  assumes ok: "frame_ok f" and h: "holds f (APrefix off bs t)" and path: "apath (APrefix off bs t) pre"
    and pk: "prefix (pre @ bs) (full key)"
    and child: "ins_outcome cond allow (pre @ bs) (full key) val sq f t (call (aoff t) (length pre + length bs) f)"
  shows "ins_outcome cond allow pre (full key) val sq f (APrefix off bs t)
    (insert_into_prefix_step call off key val (length pre) sq cond f)"
proof -
  let ?u = "APrefix off bs t"
  have t: "placed f off 128" "length bs \<le> PREFIX_MAX_INLINE" "slice f off 128 = prefix_img bs (aoff t)" "holds f t"
    using h by (auto elim: holds_prefixE)
  have off: "decode_child_off (encode_child_off (aoff t)) = aoff t" using holds_node_off [OF t(4) ok] by simp
  have pr: "prefix pre (full key)" using pk by (auto simp: prefix_def)
  have com: "prefix bs (drop (length pre) (full key))" using pk prefix_pre_drop [OF pr] by simp
  define fix_up where "fix_up o' r = sbind (if o' \<noteq> aoff t then set_prefix_child off o' else ret ()) (\<lambda>_. ret r)" for o' and r :: InsertStep
  have step: "insert_into_prefix_step call off key val (length pre) sq cond f =
      obind (call (aoff t) (length pre + length bs) f) (\<lambda>r.
        case r of InsertCrossing g d o' \<Rightarrow> ret r | InsertDone off_after mutated \<Rightarrow> fix_up off_after (InsertDone (aoff ?u) mutated))"
    using read_prefix_holds [OF ok t(1,3,2)] prefix_img_dec(2) [OF t(2)] t(2) off com
    by (simp add: insert_into_prefix_step_def Let_def fix_up_def child_offset_def common_prefix_full lcp_other_iff
        cong: InsertStep.case_cong)
  show ?thesis
    unfolding step
  proof (rule ins_outcome_parent [OF child])
    show "alookup ?u (full key) (length pre) = alookup t (full key) (length (pre @ bs))"
      "across ?u (full key) (length pre) = across t (full key) (length (pre @ bs))"
      using com prefix_length_le [OF pr] by simp_all
    show "fix_up (aoff t) r f = (Inr r, f)" for r by (simp add: fix_up_def ret_def)
    fix f' t' assume "ins_post f t f' t' (pre @ bs) (full key) val sq"
    then have i: "frame_step (footprint t) f f'" "holds f' t'" "footprint t' \<subseteq> footprint t \<union> {cursor f ..< cursor f'}"
        "apath t' (pre @ bs)" "ins_lookup t t' (pre @ bs) (full key) val sq" "tombs f' + atombs t = tombs f + atombs t'" "aguids t' = aguids t"
      by (auto simp: ins_post_def)
    obtain f'' where f'': "\<And>k :: unit \<Rightarrow> InsertStep fop. sbind (if aoff t' \<noteq> aoff t then set_prefix_child off (aoff t') else ret ()) k f' = k () f''"
        "holds f'' (APrefix off bs t')" "frame_step (footprint ?u) f f''"
        "footprint (APrefix off bs t') \<subseteq> footprint ?u \<union> {cursor f ..< cursor f''}" "tombs f'' = tombs f'"
      using reparent_prefix [OF ok h i(1-3)] by metis
    have "ins_post f ?u f'' (APrefix off bs t') pre (full key) val sq"
      unfolding ins_post_def using f'' i path ins_lookup_prefix [OF i(5) pk] by simp
    then show "\<exists>f'' u'. (\<forall>r. fix_up (aoff t') r f' = (Inr r, f'')) \<and> aoff u' = aoff ?u \<and> ins_post f ?u f'' u' pre (full key) val sq"
      unfolding fix_up_def f''(1) by (intro exI [of _ f''] exI [of _ "APrefix off bs t'"]) (simp add: ret_def)
  qed
qed

lemma ins_built_abandoned:
  assumes "ins_built no_patch f t pre k val sq off f'"
  shows "\<exists>t'. off = aoff t' \<and> ins_post f t (note_abandoned o' f') t' pre k val sq"
proof -
  obtain t' where t': "off = aoff t'" "quiet_step f f'" "grown no_patch f f' (footprint t) t'" "apath t' pre"
      "atombs t' = atombs t" "aguids t' = aguids t" "ins_lookup t t' pre k val sq" using assms unfolding ins_built_def by blast
  have q: "quiet_step f' (note_abandoned o' f')" by (intro quiet_note_abandoned quiet_step_ok(1) [OF t'(2)])
  then have "grown no_patch f (note_abandoned o' f') (footprint t) t'"
    using t'(3) holds_quiet [OF q] by (simp add: grown_def)
  then have "ins_post f t (note_abandoned o' f') t' pre k val sq"
    by (intro ins_postI_quiet quiet_trans [OF t'(2) q] t')
  then show ?thesis using t'(1) by blast
qed

lemma insert_prefix_split:
  assumes ok: "frame_ok f" and h: "holds f (APrefix off bs t)" and path: "apath (APrefix off bs t) pre"
    and len: "length (full key) < 2 ^ 16" "length val < 2 ^ 16"
    and k: "valid_key (full key)" "prefix pre (full key)" and np: "\<not> prefix bs (drop (length pre) (full key))"
  shows "ins_outcome cond allow pre (full key) val sq f (APrefix off bs t)
    (insert_into_prefix_step call off key val (length pre) sq cond f)"
proof -
  let ?u = "APrefix off bs t"
  let ?r = "drop (length pre) (full key)"
  have t: "placed f off 128" "length bs \<le> PREFIX_MAX_INLINE" "slice f off 128 = prefix_img bs (aoff t)" "holds f t"
    using h by (auto elim: holds_prefixE)
  have off: "decode_child_off (encode_child_off (aoff t)) = aoff t" using holds_node_off [OF t(4) ok] by simp
  have z: "0 \<notin> set (butlast (pre @ bs))" using path by simp
  obtain cp a as b bs' where d: "?r = cp @ b # bs'" "bs = cp @ a # as" "a \<noteq> b"
      "length (Sublist.longest_common_prefix ?r bs) = length cp" "prefix (pre @ cp @ [b]) (full key)"
    using z np by (rule key_diverges [OF k])
  have sl: "length pre + length cp < sk_len key" using arg_cong [OF d(1), of length] by (simp add: sk_len_full)
  define tail where "tail = (if as = [] then ret (aoff t) else write_prefix_chain as (aoff t))"
  have step: "insert_into_prefix_step call off key val (length pre) sq cond f = Some (
      (if is_if_version cond then ret (InsertDone off False)
       else sbind (sbind tail (\<lambda>e. sbind (write_leaf key val sq) (\<lambda>new. write_branch cp a e b new)))
         (\<lambda>final. sbind (modify (note_abandoned off)) (\<lambda>_. ret (InsertDone final True)))) f)"
    using read_prefix_holds [OF ok t(1,3,2)] prefix_img_dec(2) [OF t(2)] t(2) off d(2,4) sl byte_at_stem [OF k(2) d(1)]
    by (simp add: insert_into_prefix_step_def Let_def child_offset_def common_prefix_full write_branch_def sbind_assoc
        tail_def cong: if_cong)
  have "writes tail f (\<lambda>e f1. \<exists>t1. e = aoff t1 \<and> grown no_patch f f1 (footprint t) t1 \<and> wraps t1 as t)"
  proof (cases "as = []")
    case True
    then show ?thesis using ok t(4) wraps_refl [of t] by (auto simp: tail_def grown_def)
  next
    case False
    then show ?thesis
      using write_prefix_chain_spec [OF ok patch_ok_no_patch [OF ok], of t as] t(4) by (simp add: tail_def)
  qed
  then have "writes (sbind tail (\<lambda>e. sbind (write_leaf key val sq) (\<lambda>new. write_branch cp a e b new))) f
      (ins_built no_patch f ?u pre (full key) val sq)"
  proof (rule writes_bind)
    fix e f1 assume q: "quiet_step f f1"
      and "\<exists>t1. e = aoff t1 \<and> grown no_patch f f1 (footprint t) t1 \<and> wraps t1 as t"
    then obtain t1 where t1: "e = aoff t1" "grown no_patch f f1 (footprint t) t1" "wraps t1 as t" by blast
    show "writes (sbind (write_leaf key val sq) (\<lambda>new. write_branch cp a e b new)) f1
        (ins_built no_patch f ?u pre (full key) val sq)"
      unfolding t1(1)
    proof (rule branch_insert [OF ok len k(1) d(5,3) patch_ok_no_patch [OF ok] q])
      show "grown no_patch f f1 (footprint ?u) t1" using t1(2) by (auto simp: grown_def)
      show "apath t1 (pre @ cp @ [a])" using t1(3) path d(2) by (simp add: wraps_def)
      show "atombs t1 = atombs ?u" "aguids t1 = aguids ?u" using t1(3) by (simp_all add: wraps_def)
      fix k' assume pr: "prefix pre k'"
      have "alookup t1 k' (length (pre @ cp @ [a])) =
          (if prefix as (drop (length (pre @ cp @ [a])) k') then alookup t k' (length pre + length bs) else LookupNotFound)"
        if "prefix (pre @ cp @ [a]) k'"
        using t1(3) prefix_length_le [OF that] d(2) by (simp add: wraps_def add.assoc)
      then show "alookup ?u k' (length pre) =
          (if prefix (pre @ cp @ [a]) k' then alookup t1 k' (length (pre @ cp @ [a])) else LookupNotFound)"
        using stem_split [OF pr, of cp a as] d(2) prefix_length_le [OF pr] by simp
    qed
  qed
  then have "ins_writes cond pre (full key) val sq f ?u (insert_into_prefix_step call off key val (length pre) sq cond f)"
    if nv: "\<not> is_if_version cond"
  proof (cases rule: writes_cases)
    case (fail e f')
    then show ?thesis using step nv by (auto simp: ins_writes_def sbind_def)
  next
    case (success v f')
    then show ?thesis using step nv ins_built_abandoned [OF success(3), of off]
      by (auto simp: ins_writes_def sbind_def modify_def ret_def)
  qed
  moreover have "alookup ?u (full key) (length pre) = LookupNotFound" using np by simp
  ultimately show ?thesis using step by (auto simp: ins_outcome_def guard_notfound ret_def)
qed

definition child_fp :: "art option \<Rightarrow> nat set" where
  "child_fp c = (case c of None \<Rightarrow> {} | Some t \<Rightarrow> footprint t)"

text \<open>An inner node whose child under \<open>b\<close> changed, was added, or that was itself moved to new bytes.\<close>

lemma holds_inner_upd:
  assumes h: "holds f (AInner off nt ch)" and st: "frame_step (region off (size_of_node nt) \<union> child_fp (ch b)) f f''"
    and h': "holds f'' t'" and fp: "footprint t' \<subseteq> child_fp (ch b) \<union> {cursor f ..< cursor f''}"
    and at: "at_inner f'' off' x'" and kids: "inner_kids x' = (\<lambda>c. map_option (encode_child_off \<circ> aoff) ((ch(b \<mapsto> t')) c))"
    and pl: "placed f'' off' (size_of_node (inner_type x'))"
    and N: "region off' (size_of_node (inner_type x')) \<subseteq> region off (size_of_node nt) \<union> {cursor f ..< cursor f''}"
    and dis: "region off' (size_of_node (inner_type x')) \<inter> footprint t' = {}"
  shows "holds f'' (AInner off' (inner_type x') (ch(b \<mapsto> t')))"
    and "footprint (AInner off' (inner_type x') (ch(b \<mapsto> t'))) \<subseteq> footprint (AInner off nt ch) \<union> {cursor f ..< cursor f''}"
proof -
  have ch: "\<And>c u. ch c = Some u \<Longrightarrow> holds f u \<and> region off (size_of_node nt) \<inter> footprint u = {}"
      "\<And>c c' u u'. ch c = Some u \<Longrightarrow> ch c' = Some u' \<Longrightarrow> c \<noteq> c' \<Longrightarrow> footprint u \<inter> footprint u' = {}"
    using h by (blast elim: holds_innerE)+
  have other: "holds f'' u" "region off' (size_of_node (inner_type x')) \<inter> footprint u = {}"
      "footprint t' \<inter> footprint u = {}" if "ch c = Some u" "c \<noteq> b" for c u
  proof -
    have old: "footprint u \<inter> child_fp (ch b) = {}"
      using ch(2) [OF that(1)] that(2) by (auto simp: child_fp_def split: option.splits)
    have lt: "footprint u \<subseteq> {..< cursor f}" using holds_footprint [of f u] ch(1) [OF that(1)] by auto
    show "holds f'' u" using ch(1) [OF that(1)] old by (intro holds_step [OF _ st]) auto
    show "region off' (size_of_node (inner_type x')) \<inter> footprint u = {}" using N ch(1) [OF that(1)] lt by fastforce
    show "footprint t' \<inter> footprint u = {}" using fp old lt by fastforce
  qed
  show "holds f'' (AInner off' (inner_type x') (ch(b \<mapsto> t')))"
  proof (rule holds.inner [OF pl at refl kids])
    show "holds f'' u \<and> region off' (size_of_node (inner_type x')) \<inter> footprint u = {}"
      if "(ch(b \<mapsto> t')) c = Some u" for c u
      using that h' dis other by (auto split: if_splits)
    show "footprint u \<inter> footprint u' = {}"
      if "(ch(b \<mapsto> t')) c = Some u" "(ch(b \<mapsto> t')) c' = Some u'" "c \<noteq> c'" for c c' u u'
      using that ch(2) other(3) by (auto split: if_splits) blast+
  qed
  let ?F = "footprint (AInner off nt ch) \<union> {cursor f ..< cursor f''}"
  have "child_fp (ch b) \<subseteq> ?F"
    by (auto simp: child_fp_def footprint_AInner split: option.splits)
  then have "footprint t' \<subseteq> ?F" using fp by blast
  moreover have "footprint u \<subseteq> ?F" if "ch c = Some u" for c u using that by (force simp: footprint_AInner)
  ultimately have "footprint u \<subseteq> ?F" if "(ch(b \<mapsto> t')) c = Some u" for c u
    using that by (cases "c = b") auto
  moreover have "region off' (size_of_node (inner_type x')) \<subseteq> ?F" using N by (auto simp: footprint_AInner)
  ultimately show "footprint (AInner off' (inner_type x') (ch(b \<mapsto> t'))) \<subseteq> ?F"
    unfolding footprint_AInner [of off'] by (intro Un_least UN_least) auto
qed

lemma ins_lookup_inner:
  assumes new: "\<And>k'. prefix (pre @ [b]) k' \<Longrightarrow> alookup t' k' (length pre + 1) =
      (if k' = k then Found val sq else case ch b of None \<Rightarrow> LookupNotFound | Some t \<Rightarrow> alookup t k' (length pre + 1))"
    and k: "prefix (pre @ [b]) k"
  shows "ins_lookup (AInner off nt ch) (AInner off' nt' (ch(b \<mapsto> t'))) pre k val sq"
  unfolding ins_lookup_def
proof (intro allI impI)
  fix k' assume pre: "prefix pre k'"
  have "prefix (pre @ [b]) k' \<longleftrightarrow> length pre < length k' \<and> k' ! length pre = b"
    using prefix_nth [of pre b k'] pre by auto
  then show "alookup (AInner off' nt' (ch(b \<mapsto> t'))) k' (length pre) =
      (if k' = k then Found val sq else alookup (AInner off nt ch) k' (length pre))"
    using new [of k'] k by (auto simp: alookup_AInner split: option.split)
qed

lemma apath_inner_upd:
  "apath (AInner off nt ch) pre \<Longrightarrow> apath t' (pre @ [b]) \<Longrightarrow> apath (AInner off' nt' (ch(b \<mapsto> t'))) pre"
  by (auto simp: apath_AInner)

section \<open>Inner nodes\<close>

lemma inner_shape:
  assumes "holds f (AInner off nt ch)"
  obtains x where "at_inner f off x" "inner_type x = nt" "inner_kids x = (\<lambda>b. map_option (encode_child_off \<circ> aoff) (ch b))"
    "placed f off (size_of_node nt)" "\<And>b t. ch b = Some t \<Longrightarrow> holds f t"
    "\<And>b t. ch b = Some t \<Longrightarrow> region off (size_of_node nt) \<inter> footprint t = {}"
  using assms by (blast elim: holds_innerE)

lemma inner_find_holds:
  assumes ok: "frame_ok f" and h: "holds f (AInner off nt ch)"
  shows "inner_find_child f off nt b = Inr (map_option aoff (ch b))"
proof -
  obtain x where x: "at_inner f off x" "inner_type x = nt" "inner_kids x = (\<lambda>b. map_option (encode_child_off \<circ> aoff) (ch b))"
      "\<And>b t. ch b = Some t \<Longrightarrow> holds f t" using inner_shape [OF h] by metis
  then show ?thesis
    using inner_find_child_spec [OF x(1), of b] holds_node_off [OF x(4) ok]
    by (cases "ch b") (auto simp: child_offset_def)
qed

lemma reparent_inner:
  assumes ok: "frame_ok f" and h: "holds f (AInner off nt ch)" and c: "ch b = Some t"
    and st: "frame_step (footprint t) f f'" and h': "holds f' t'"
    and fp: "footprint t' \<subseteq> footprint t \<union> {cursor f ..< cursor f'}"
  obtains f'' where
    "\<And>k :: unit \<Rightarrow> 'a fop. sbind (if aoff t' \<noteq> aoff t then inner_update_child off nt b (aoff t') else ret ()) k f' = k () f''"
    "holds f'' (AInner off nt (ch(b \<mapsto> t')))" "frame_step (footprint (AInner off nt ch)) f f''"
    "footprint (AInner off nt (ch(b \<mapsto> t'))) \<subseteq> footprint (AInner off nt ch) \<union> {cursor f ..< cursor f''}"
    "tombs f'' = tombs f'"
proof -
  let ?N = "size_of_node nt"
  obtain x where x: "at_inner f off x" "inner_type x = nt" "inner_kids x = (\<lambda>b. map_option (encode_child_off \<circ> aoff) (ch b))"
      "placed f off ?N" "\<And>b t. ch b = Some t \<Longrightarrow> holds f t"
      "\<And>b t. ch b = Some t \<Longrightarrow> region off ?N \<inter> footprint t = {}" using inner_shape [OF h] by metis
  have ok': "frame_ok f'" "cursor f \<le> cursor f'" using st by (auto dest: frame_step_ok)
  have lo: "DATA_AREA_START \<le> off" "off + ?N \<le> cursor f" using x(4) by (auto simp: placed_def)
  have dis: "region off ?N \<inter> footprint t' = {}" using fp x(6) [OF c] lo(2) by (fastforce simp: region_def)
  have "slice f' off ?N = slice f off ?N"
    using slice_step [OF st lo] x(6) [OF c] by (simp add: region_def)
  then have at': "at_inner f' off x" using x(1,2) by (simp add: at_inner_def)
  have sub: "footprint t \<subseteq> footprint (AInner off nt ch)" using c by (force simp: footprint_AInner)
  obtain f'' x' where f'': "\<And>k :: unit \<Rightarrow> 'a fop. sbind (if aoff t' \<noteq> aoff t then inner_update_child off nt b (aoff t') else ret ()) k f' = k () f''"
      "at_inner f'' off x'" "inner_type x' = nt" "inner_kids x' = (inner_kids x)(b \<mapsto> encode_child_off (aoff t'))"
      "frame_step (region off ?N) f' f''" "cursor f'' = cursor f'" "header_of f'' = header_of f'"
  proof (cases "aoff t' = aoff t")
    case True
    then show ?thesis using at' x(2,3) c ok'(1) by (intro that [of f' x]) (auto simp: fun_eq_iff)
  next
    case False
    have "inner_kids x b \<noteq> None" using x(3) c by simp
    then obtain x' where x': "inner_update_child off nt b (aoff t') f' = (Inr (), poke f' off (inner_enc x'))"
        "inner_wf x'" "inner_type x' = nt" "inner_kids x' = (inner_kids x)(b \<mapsto> encode_child_off (aoff t'))"
      using inner_update_child_spec [OF at' _ holds_node_off [OF h' ok'(1)], of b] x(2) by auto
    have len: "length (inner_enc x') = ?N" using x'(2,3) by (simp add: inner_wf_def length_inner_enc)
    have fits: "off + ?N \<le> PAGE_SIZE" using lo ok by (simp add: frame_ok_def)
    show ?thesis
    proof (rule that [of "poke f' off (inner_enc x')" x'])
      show "at_inner (poke f' off (inner_enc x')) off x'" using x'(2,3) fits by (intro at_inner_write) auto
      show "frame_step (region off ?N) f' (poke f' off (inner_enc x'))"
        using poke_step [OF ok'(1) lo(1), of "inner_enc x'"] len by (simp add: region_def)
    qed (use False x' lo in \<open>auto simp: sbind_def\<close>)
  qed
  have st2: "frame_step (region off ?N \<union> child_fp (ch b)) f f''"
    using st f''(5) by (intro frame_step_trans [OF frame_step_mono [OF st] f''(5)]) (auto simp: child_fp_def c)
  have h'': "holds f'' t'" using h' f''(5) by (rule holds_step) (use dis in auto)
  have pl: "placed f'' off (size_of_node (inner_type x'))" using x(4) f''(3,6) ok'(2) by (auto simp: placed_def)
  have kids: "inner_kids x' = (\<lambda>c. map_option (encode_child_off \<circ> aoff) ((ch(b \<mapsto> t')) c))"
    unfolding f''(4) x(3) by auto
  note up = holds_inner_upd [OF h st2 h'' _ f''(2) kids pl]
  show ?thesis
  proof (rule that [of f''])
    show "holds f'' (AInner off nt (ch(b \<mapsto> t')))"
      "footprint (AInner off nt (ch(b \<mapsto> t'))) \<subseteq> footprint (AInner off nt ch) \<union> {cursor f ..< cursor f''}"
      using up fp dis f''(3,6) c by (simp_all add: child_fp_def)
    show "frame_step (footprint (AInner off nt ch)) f f''"
      by (rule frame_step_mono [OF st2]) (use sub c in \<open>auto simp: child_fp_def footprint_AInner\<close>)
    show "tombs f'' = tombs f'" using f''(7) by (simp add: tombs_def)
  qed (rule f''(1))
qed

lemma insert_inner_through:
  assumes ok: "frame_ok f" and h: "holds f (AInner off nt ch)" and path: "apath (AInner off nt ch) pre"
    and pk: "prefix (pre @ [b]) (full key)" and c: "ch b = Some t"
    and child: "ins_outcome cond allow (pre @ [b]) (full key) val sq f t (call (aoff t) (length pre + 1) f)"
  shows "ins_outcome cond allow pre (full key) val sq f (AInner off nt ch)
    (insert_into_inner_step call off nt key val (length pre) sq cond f)"
proof -
  let ?u = "AInner off nt ch"
  have kb: "length pre < length (full key)" "full key ! length pre = b" using pk by (auto simp: prefix_nth)
  define fix_up where "fix_up o' r = sbind (if o' \<noteq> aoff t then inner_update_child off nt b o' else ret ()) (\<lambda>_. ret r)"
    for o' and r :: InsertStep
  have step: "insert_into_inner_step call off nt key val (length pre) sq cond f =
      obind (call (aoff t) (length pre + 1) f) (\<lambda>r.
        case r of InsertCrossing g d o' \<Rightarrow> ret r | InsertDone off_after mutated \<Rightarrow> fix_up off_after (InsertDone (aoff ?u) mutated))"
    using inner_find_holds [OF ok h, of b] c kb
    by (simp add: insert_into_inner_step_def byte_at_full fix_up_def cong: InsertStep.case_cong)
  show ?thesis
    unfolding step
  proof (rule ins_outcome_parent [OF child])
    show "alookup ?u (full key) (length pre) = alookup t (full key) (length (pre @ [b]))"
      "across ?u (full key) (length pre) = across t (full key) (length (pre @ [b]))"
      using kb c by (simp_all add: alookup_AInner across_AInner)
    show "fix_up (aoff t) r f = (Inr r, f)" for r by (simp add: fix_up_def ret_def)
    fix f' t' assume "ins_post f t f' t' (pre @ [b]) (full key) val sq"
    then have i: "frame_step (footprint t) f f'" "holds f' t'" "footprint t' \<subseteq> footprint t \<union> {cursor f ..< cursor f'}"
        "apath t' (pre @ [b])" "ins_lookup t t' (pre @ [b]) (full key) val sq" "tombs f' + atombs t = tombs f + atombs t'" "aguids t' = aguids t"
      by (auto simp: ins_post_def)
    let ?u' = "AInner off nt (ch(b \<mapsto> t'))"
    obtain f'' where f'': "\<And>k :: unit \<Rightarrow> InsertStep fop.
          sbind (if aoff t' \<noteq> aoff t then inner_update_child off nt b (aoff t') else ret ()) k f' = k () f''"
        "holds f'' ?u'" "frame_step (footprint ?u) f f''"
        "footprint ?u' \<subseteq> footprint ?u \<union> {cursor f ..< cursor f''}" "tombs f'' = tombs f'"
      using reparent_inner [OF ok h c i(1-3)] by metis
    have "ins_lookup ?u ?u' pre (full key) val sq"
      using i(5) c by (intro ins_lookup_inner [OF _ pk]) (simp add: ins_lookup_def)
    moreover have "tombs f'' + atombs ?u = tombs f + atombs ?u'"
      using i(6) f''(5) atombs_upd [of ch b t off nt t' off nt] c by linarith
    moreover have "aguids ?u' = aguids ?u" using aguids_upd [of ch b t t'] c i(7) by simp
    ultimately have "ins_post f ?u f'' ?u' pre (full key) val sq"
      unfolding ins_post_def using f'' i(4) apath_inner_upd [OF path] by blast
    then show "\<exists>f'' u'. (\<forall>r. fix_up (aoff t') r f' = (Inr r, f'')) \<and> aoff u' = aoff ?u \<and> ins_post f ?u f'' u' pre (full key) val sq"
      unfolding fix_up_def f''(1) by (intro exI [of _ f''] exI [of _ ?u']) (simp add: ret_def)
  qed
qed

text \<open>Adding a leaf under a byte the node has no child for: in place, or in a grown copy.\<close>

lemma insert_inner_add:
  assumes ok: "frame_ok f" and h: "holds f (AInner off nt ch)" and path: "apath (AInner off nt ch) pre"
    and len: "length (full key) < 2 ^ 16" "length val < 2 ^ 16" and k: "valid_key (full key)"
    and pk: "prefix (pre @ [b]) (full key)" and c: "ch b = None"
    and q: "quiet_step f f1" and L: "holds f1 (fresh_leaf f key val sq)"
      "footprint (fresh_leaf f key val sq) \<subseteq> {cursor f ..< cursor f1}"
  defines "u \<equiv> AInner off nt ch"
  shows "(\<exists>a. inner_add_child off nt b (cursor f) f1 = (Inl (Fail (Alloc a)), f1) \<and> crowded f1)
    \<or> (\<exists>f' t'. inner_add_child off nt b (cursor f) f1 = (Inr (aoff t'), f') \<and> ins_post f u f' t' pre (full key) val sq)"
proof -
  let ?L = "fresh_leaf f key val sq"
  let ?N = "size_of_node nt"
  have aL: "aoff ?L = cursor f" "atombs ?L = 0" by (simp_all add: fresh_leaf_def leaf_live_def)
  have h1: "holds f1 u" using holds_quiet [OF q h] by (simp add: u_def)
  obtain x where x: "at_inner f1 off x" "inner_type x = nt" "inner_kids x = (\<lambda>b. map_option (encode_child_off \<circ> aoff) (ch b))"
      "placed f1 off ?N" using inner_shape [OF h1 [unfolded u_def]] by metis
  have ok1: "frame_ok f1" and le: "cursor f \<le> cursor f1" using q by (auto dest: quiet_step_ok)
  have plf: "placed f off ?N" using inner_shape [OF h] by metis
  then have lo: "DATA_AREA_START \<le> off" "off + ?N \<le> cursor f" by (auto simp: placed_def)
  have no: "node_off (cursor f)" using holds_node_off [OF L(1) ok1] aL by simp
  have new: "inner_kids x b = None" using x(3) c by simp
  have post: "ins_post f u f' (AInner off' nt' (ch(b \<mapsto> ?L))) pre (full key) val sq"
    if t: "frame_step (region off ?N \<union> child_fp (ch b)) f f'" "holds f' ?L" "cursor f1 \<le> cursor f'"
      "at_inner f' off' x'" "nt' = inner_type x'" "inner_kids x' = (inner_kids x)(b \<mapsto> encode_child_off (cursor f))"
      "placed f' off' (size_of_node nt')" "tombs f' = tombs f"
      "region off' (size_of_node nt') \<subseteq> region off ?N \<union> {cursor f1 ..< cursor f'}" for f' off' nt' x'
  proof -
    have kids: "inner_kids x' = (\<lambda>c. map_option (encode_child_off \<circ> aoff) ((ch(b \<mapsto> ?L)) c))"
      unfolding t(6) x(3) using aL by auto
    have dis: "region off' (size_of_node nt') \<inter> footprint ?L = {}"
      using t(9) L(2) lo by (fastforce simp: region_def)
    have "footprint ?L \<subseteq> child_fp (ch b) \<union> {cursor f ..< cursor f'}" using L(2) t(3) by auto
    moreover have "region off' (size_of_node (inner_type x')) \<subseteq> region off ?N \<union> {cursor f ..< cursor f'}"
      using t(5,9) le by auto
    ultimately have up: "holds f' (AInner off' nt' (ch(b \<mapsto> ?L)))"
        "footprint (AInner off' nt' (ch(b \<mapsto> ?L))) \<subseteq> footprint u \<union> {cursor f ..< cursor f'}"
      using holds_inner_upd [OF h t(1,2) _ t(4) kids t(7) [unfolded t(5)] _ dis [unfolded t(5)]]
      unfolding t(5) u_def by blast+
    have "ins_lookup u (AInner off' nt' (ch(b \<mapsto> ?L))) pre (full key) val sq"
      unfolding u_def using c by (intro ins_lookup_inner [OF _ pk]) (auto simp: fresh_leaf_def leaf_live_def)
    moreover have "atombs (AInner off' nt' (ch(b \<mapsto> ?L))) = atombs u"
      using atombs_new [of ch b off' nt' ?L off nt] c aL by (simp add: u_def)
    moreover have "aguids (AInner off' nt' (ch(b \<mapsto> ?L))) = aguids u"
      using aguids_new [of ch b off' nt' ?L off nt] c by (simp add: u_def) (simp add: fresh_leaf_def)
    moreover have "apath (AInner off' nt' (ch(b \<mapsto> ?L))) pre"
      using path k pk by (intro apath_inner_upd [of off nt]) (auto simp: fresh_leaf_def)
    moreover have "frame_step (footprint u) f f'"
      by (rule frame_step_mono [OF t(1)]) (auto simp: u_def footprint_AInner child_fp_def c)
    ultimately show ?thesis using t(8) up by (simp add: ins_post_def)
  qed
  show ?thesis
    using ok1 x(1) no new
  proof (cases rule: inner_add_child_spec)
    case in_place
    then obtain x' where x': "inner_add_child off nt b (cursor f) f1 = (Inr off, poke f1 off (inner_enc x'))" "inner_wf x'"
        "inner_type x' = nt" "inner_kids x' = (inner_kids x)(b \<mapsto> encode_child_off (cursor f))"
      using x(2) by (auto simp: adds_in_place_def)
    let ?f' = "poke f1 off (inner_enc x')"
    have ln: "length (inner_enc x') = ?N" using x'(2,3) by (simp add: inner_wf_def length_inner_enc)
    have st: "frame_step (region off ?N) f1 ?f'"
      using poke_step [OF ok1 lo(1), of "inner_enc x'"] ln by (simp add: region_def)
    have "ins_post f u ?f' (AInner off nt (ch(b \<mapsto> ?L))) pre (full key) val sq"
    proof (rule post)
      show "frame_step (region off ?N \<union> child_fp (ch b)) f ?f'"
        using q by (intro frame_step_trans [OF frame_step_mono st]) (auto simp: quiet_step_def)
      show "holds ?f' ?L" by (rule holds_step [OF L(1) st]) (use L(2) lo in \<open>fastforce simp: region_def\<close>)
      show "at_inner ?f' off x'" using x'(2,3) lo ok by (intro at_inner_write) (auto simp: frame_ok_def)
      show "placed ?f' off ?N" using x(4) lo by (simp add: placed_def)
      show "tombs ?f' = tombs f" using q lo by (simp add: quiet_step_def tombs_def)
    qed (use x' lo in auto)
    then show ?thesis using x'(1) by (intro disjI2 exI [of _ ?f'] exI [of _ "AInner off nt (ch(b \<mapsto> ?L))"]) simp
  next
    case grown
    then obtain x' f' where x': "inner_add_child off nt b (cursor f) f1 = (Inr (cursor f1), f')" "at_inner f' (cursor f1) x'"
        "inner_kids x' = (inner_kids x)(b \<mapsto> encode_child_off (cursor f))" "frame_step {} f1 f'"
        "cursor f' = cursor f1 + size_of_node (inner_type x')" "tombs f' = tombs f1"
      using x(2) by (auto simp: adds_grown_def tombs_def)
    have "ins_post f u f' (AInner (cursor f1) (inner_type x') (ch(b \<mapsto> ?L))) pre (full key) val sq"
    proof (rule post)
      show "frame_step (region off ?N \<union> child_fp (ch b)) f f'"
        using q by (intro frame_step_mono [OF frame_step_trans [OF _ x'(4)], of "{}"]) (auto simp: quiet_step_def)
      show "holds f' ?L" by (rule holds_step [OF L(1) x'(4)]) simp
      show "placed f' (cursor f1) (size_of_node (inner_type x'))" using x'(5) ok1 by (auto simp: placed_def frame_ok_def)
      show "tombs f' = tombs f" using q x'(6) by (simp add: quiet_step_def)
    qed (use x' in \<open>auto simp: region_def\<close>)
    then show ?thesis using x'(1)
      by (intro disjI2 exI [of _ f'] exI [of _ "AInner (cursor f1) (inner_type x') (ch(b \<mapsto> ?L))"]) simp
  next
    case (fail e)
    then show ?thesis using x(2) by auto
  qed
qed

lemma insert_inner_new:
  assumes ok: "frame_ok f" and h: "holds f (AInner off nt ch)" and path: "apath (AInner off nt ch) pre"
    and len: "length (full key) < 2 ^ 16" "length val < 2 ^ 16" and k: "valid_key (full key)"
    and pk: "prefix (pre @ [b]) (full key)" and c: "ch b = None"
  shows "ins_outcome cond allow pre (full key) val sq f (AInner off nt ch)
    (insert_into_inner_step call off nt key val (length pre) sq cond f)"
proof -
  let ?u = "AInner off nt ch"
  have kb: "length pre < length (full key)" "full key ! length pre = b" using pk by (auto simp: prefix_nth)
  have step: "insert_into_inner_step call off nt key val (length pre) sq cond f =
      Some ((if is_if_version cond then ret (InsertDone off False)
        else sbind (write_leaf key val sq) (\<lambda>new. sbind (inner_add_child off nt b new) (\<lambda>g. ret (InsertDone g True)))) f)"
    using inner_find_holds [OF ok h, of b] c kb by (simp add: insert_into_inner_step_def byte_at_full)
  have "ins_writes cond pre (full key) val sq f ?u (insert_into_inner_step call off nt key val (length pre) sq cond f)"
    if nv: "\<not> is_if_version cond"
    using write_leaf_spec [OF ok len, of sq]
  proof (cases rule: writes_cases)
    case (fail e f')
    then show ?thesis using step nv by (auto simp: ins_writes_def sbind_def)
  next
    case (success v f1)
    have L: "v = cursor f" "holds f1 (fresh_leaf f key val sq)" "footprint (fresh_leaf f key val sq) \<subseteq> {cursor f ..< cursor f1}"
      using success(3) by (auto simp: grown_def)
    show ?thesis
      using insert_inner_add [OF ok h path len k pk c success(2) L(2,3)] step nv success(1,2) L(1)
      by (auto simp: ins_writes_def sbind_def ret_def)
  qed
  moreover have "alookup ?u (full key) (length pre) = LookupNotFound" using kb c by (simp add: alookup_AInner)
  ultimately show ?thesis using step by (auto simp: ins_outcome_def guard_notfound ret_def)
qed

section \<open>The walker\<close>

lemma insert_dispatch:
  assumes "frame_ok f" "holds f t"
  shows "insert_at_step (Suc n) (aoff t) key val d sq cond allow f =
    (case t of
       AEmpty off \<Rightarrow> Some (insert_into_empty_root off key val sq cond f)
     | ALeaf off l lk lv \<Rightarrow> Some (insert_into_leaf off key val d sq cond f)
     | APrefix off bs t \<Rightarrow> insert_into_prefix_step (\<lambda>o' d' f'. insert_at_step n o' key val d' sq cond allow f') off key val d sq cond f
     | ABlob off bs guid \<Rightarrow> Some (blob_node_insert_step off key val d sq cond allow f)
     | AInner off nt ch \<Rightarrow>
         insert_into_inner_step (\<lambda>o' d' f'. insert_at_step n o' key val d' sq cond allow f') off nt key val d sq cond f)"
proof -
  have n: "ntype_of f (aoff t) = Inr (antype t)" using holds_ntype [OF assms(2,1)] by (simp add: ntype_of_def)
  show ?thesis
  proof (cases t)
    case (AInner off nt ch)
    then obtain x where "inner_type x = nt" using inner_shape assms(2) by metis
    then show ?thesis using n AInner by (cases x) (auto simp: Let_def)
  qed (use n in \<open>simp_all add: Let_def\<close>)
qed

theorem insert_at_step_outcome:
  assumes "holds f t" "frame_ok f" "apath t pre" "prefix pre (full key)" "valid_key (full key)"
    "length (full key) < 2 ^ 16" "length val < 2 ^ 16" "atombs t \<le> tombs f"
    "length (full key) < n + length pre" "0 < n"
  shows "ins_outcome cond allow pre (full key) val sq f t
    (insert_at_step n (aoff t) key val (length pre) sq cond allow f)"
  using assms
proof (induction arbitrary: n pre rule: holds.induct)
  case (empty off)
  then obtain m where "n = Suc m" by (cases n) auto
  then show ?case
    using empty insert_dispatch [OF _ holds.empty] insert_empty_outcome [OF _ holds.empty] by simp
next
  case (leaf off lk lv l)
  then obtain m where "n = Suc m" by (cases n) auto
  then show ?case
    using leaf insert_dispatch [OF _ holds.leaf] insert_leaf_outcome [OF _ holds.leaf] by simp
next
  case (pfx off bs t)
  obtain m where m: "n = Suc m" using pfx.prems by (cases n) auto
  have h: "holds f (APrefix off bs t)" using pfx.hyps pfx.IH by (intro holds.pfx)
  have d: "insert_at_step n (aoff (APrefix off bs t)) key val (length pre) sq cond allow f =
      insert_into_prefix_step (\<lambda>o' d' f'. insert_at_step m o' key val d' sq cond allow f') off key val (length pre) sq cond f"
    using insert_dispatch [OF pfx.prems(1) h] m by simp
  show ?case
  proof (cases "prefix bs (drop (length pre) (full key))")
    case True
    then have pk: "prefix (pre @ bs) (full key)" using prefix_pre_drop [OF pfx.prems(3)] by simp
    have "ins_outcome cond allow (pre @ bs) (full key) val sq f t
        (insert_at_step m (aoff t) key val (length (pre @ bs)) sq cond allow f)"
    proof (rule pfx.IH)
      have "0 < length bs" using pfx.hyps(2) by simp
      moreover have "length pre + length bs \<le> length (full key)" using prefix_length_le [OF pk] by simp
      ultimately show "length (full key) < m + length (pre @ bs)" "0 < m"
        using pfx.prems(8) unfolding m length_append by linarith+
    qed (use pfx.prems pk in auto)
    then show ?thesis unfolding d by (intro insert_prefix_through [OF pfx.prems(1) h pfx.prems(2) pk]) simp
  next
    case False
    then show ?thesis unfolding d using pfx.prems by (intro insert_prefix_split h) auto
  qed
next
  case (blob off bs guid)
  then obtain m where "n = Suc m" by (cases n) auto
  then show ?case
    using blob insert_dispatch [OF _ holds.blob] insert_blob_outcome [OF _ holds.blob] by simp
next
  case (inner off nt x ch)
  obtain m where m: "n = Suc m" using inner.prems by (cases n) auto
  have h: "holds f (AInner off nt ch)" using inner.hyps inner.IH by (intro holds.inner) auto
  have d: "insert_at_step n (aoff (AInner off nt ch)) key val (length pre) sq cond allow f =
      insert_into_inner_step (\<lambda>o' d' f'. insert_at_step m o' key val d' sq cond allow f') off nt key val (length pre) sq cond f"
    using insert_dispatch [OF inner.prems(1) h] m by simp
  have "pre \<noteq> full key"
    using inner.prems(2,4) last_in_set [of "full key"] by (auto simp: apath_AInner valid_key_def)
  then obtain b where pk: "prefix (pre @ [b]) (full key)"
    using inner.prems(3) by (auto simp: prefix_def) (metis append_Cons append_Nil neq_Nil_conv)
  show ?case
  proof (cases "ch b")
    case None
    then show ?thesis unfolding d using inner.prems pk by (intro insert_inner_new h) auto
  next
    case (Some t)
    have "ins_outcome cond allow (pre @ [b]) (full key) val sq f t
        (insert_at_step m (aoff t) key val (length (pre @ [b])) sq cond allow f)"
    proof (rule conjunct2 [OF conjunct1 [OF inner.IH [OF Some]], rule_format])
      show "atombs t \<le> tombs f" using inner.prems(7) atombs_upd [of ch b t off nt "AEmpty 0" off nt] Some by simp
    qed (use inner.prems pk m prefix_length_le [OF pk] Some in \<open>auto simp: apath_AInner\<close>)
    then show ?thesis unfolding d by (intro insert_inner_through [OF inner.prems(1) h inner.prems(2) pk Some]) simp
  qed
qed

end
