(* ===== verification/Erase_Correct.thy ===== *)
theory Erase_Correct
  imports Erase Insert_Correct
begin

text \<open>Correctness of single-frame erase: a live matching leaf becomes a tombstone in place, the counter in
  the header follows, no node moves and no other key is affected.  The node-shrinking routines keep the
  child map of the node they replace.\<close>

section \<open>What an erase does to the tree\<close>

definition erase_hits :: "EraseCondition \<Rightarrow> LookupResult \<Rightarrow> bool" where
  "erase_hits cond r =
    (case r of
       Found val s \<Rightarrow> (case cond of EraseAlways \<Rightarrow> True | EraseIfVersion v \<Rightarrow> s = v)
     | _ \<Rightarrow> False)"

definition er_lookup :: "art \<Rightarrow> art \<Rightarrow> bytes \<Rightarrow> bytes \<Rightarrow> bool" where
  "er_lookup t t' pre k =
    (\<forall>k'. prefix pre k' \<longrightarrow> alookup t' k' (length pre) = (if k' = k then LookupNotFound else alookup t k' (length pre)))"

definition er_post :: "frame \<Rightarrow> art \<Rightarrow> frame \<Rightarrow> art \<Rightarrow> bytes \<Rightarrow> bytes \<Rightarrow> bool" where
  "er_post f t f' t' pre k =
    (holds f' t' \<and> frame_step (footprint t) f f' \<and> aoff t' = aoff t \<and> footprint t' = footprint t
     \<and> apath t' pre \<and> er_lookup t t' pre k \<and> aguids t' = aguids t \<and> atombs t' = atombs t + 1 \<and> tombs f' = tombs f + 1)"

definition er_outcome ::
  "EraseCondition \<Rightarrow> bool \<Rightarrow> bytes \<Rightarrow> bytes \<Rightarrow> frame \<Rightarrow> art \<Rightarrow> (EraseStep result \<times> frame) option \<Rightarrow> bool" where
  "er_outcome cond allow pre k f t out =
    (case alookup t k (length pre) of
       Crossing g d \<Rightarrow> \<exists>p. across t k (length pre) = Some p \<and> out = Some (Inr (EraseCrossing g d p), f)
     | r \<Rightarrow>
         if erase_hits cond r
         then \<exists>f' t'. out = Some (Inr (EraseDone Unchanged True), f') \<and> er_post f t f' t' pre k
         else out = Some (Inr (EraseDone Unchanged False), f))"

section \<open>Tombstoning a leaf\<close>

lemma slice_poke_byte:
  assumes "i < n" shows "slice (poke m (off + i) [b]) off n = (slice m off n)[i := b]"
  using assms by (intro nth_equalityI) (auto simp: poke_def nth_list_update)

lemma leaf_enc_tombstone: "(leaf_enc l)[6 := b] = leaf_enc (l\<lparr> tombstone := b \<rparr>)"
proof -
  have "leaf_enc l = ([key_fp l, leaf_node_type l] @ u16_bytes (value_len l) @ u16_bytes (key_len l))
      @ tombstone l # 0 # u64_bytes (seq l)" by (simp add: leaf_enc_def)
  moreover have "length ([key_fp l, leaf_node_type l] @ u16_bytes (value_len l) @ u16_bytes (key_len l)) = 6" by simp
  ultimately have "(leaf_enc l)[6 := b] = ([key_fp l, leaf_node_type l] @ u16_bytes (value_len l) @ u16_bytes (key_len l))
      @ b # 0 # u64_bytes (seq l)" by (metis list_update_length)
  then show ?thesis by (simp add: leaf_enc_def)
qed

lemma unat_saturating_add1: "unat a < 2 ^ 32 - 1 \<Longrightarrow> unat (u32_saturating_add1 a) = unat a + 1"
proof -
  assume a: "unat a < 2 ^ 32 - 1"
  have "unat (- 1 :: u32) = 2 ^ 32 - 1" by (simp add: unsigned_minus_1_eq_mask mask_eq_exp_minus_1)
  with a have "a \<noteq> - 1" by auto
  moreover have "unat (a + 1) = unat a + 1" using a by (simp add: unat_word_ariths)
  ultimately show ?thesis by (simp add: u32_saturating_add1_def)
qed

lemma erase_leaf_outcome:
  assumes ok: "frame_ok f" and h: "holds f (ALeaf off l lk lv)" and path: "apath (ALeaf off l lk lv) pre"
    and room: "tombs f < 2 ^ 32 - 1"
  shows "er_outcome cond allow pre (full key) f (ALeaf off l lk lv)
    (Some (sbind (erase_at_leaf off key cond) (\<lambda>(sig, mutated). ret (EraseDone sig mutated)) f))"
proof -
  let ?t = "ALeaf off l lk lv"
  note rd = leaf_key_ref [OF ok h]
  have m: "leaf_matches l lk lv" and s: "slice f off (16 + length lk + length lv) = leaf_enc l @ lk @ lv"
    and pl: "placed f off (leaf_body_size (length lk) (length lv))" using h by (auto elim: holds_leafE)
  have lo: "DATA_AREA_START \<le> off" using pl by (simp add: placed_def)
  note body = holds_body(2) [OF h ok]
  have big: "16 \<le> leaf_body_size (length lk) (length lv)"
    using leaf_body_size_bounds(1) [of "length lk" "length lv"] leaf_lengths [OF m] by simp
  show ?thesis
  proof (cases "erase_hits cond (alookup ?t (full key) (length pre))")
    case False
    then show ?thesis using rd
      by (auto simp: er_outcome_def erase_at_leaf_def sbind_def reads_def ret_def eq_slice_full erase_hits_def
          split: EraseCondition.splits if_splits)
  next
    case True
    then have hit: "lk = full key" "tombstone l = 0" "\<not> (case cond of EraseIfVersion e \<Rightarrow> seq l \<noteq> e | EraseAlways \<Rightarrow> False)"
      by (auto simp: erase_hits_def split: if_splits EraseCondition.splits)
    let ?l' = "l\<lparr> tombstone := 1 \<rparr>"
    let ?f1 = "poke f (off + 6) [1]"
    let ?f2 = "header_mut (\<lambda>h. h\<lparr> tombstone_leaf_cnt := u32_saturating_add1 (tombstone_leaf_cnt h) \<rparr>) ?f1"
    let ?t' = "ALeaf off ?l' lk lv"
    have out: "sbind (erase_at_leaf off key cond) (\<lambda>(sig, mutated). ret (EraseDone sig mutated)) f =
        (Inr (EraseDone Unchanged True), ?f2)"
      using rd hit body big by (simp add: erase_at_leaf_def sbind_def reads_def ret_def eq_slice_full modify_def)
    have c1: "cursor ?f1 = cursor f" "frame_ok ?f1" "header_of ?f1 = header_of f" using lo ok by simp_all
    have s1: "slice ?f1 off (16 + length lk + length lv) = leaf_enc ?l' @ lk @ lv"
    proof -
      have "slice ?f1 off (16 + length lk + length lv) = (leaf_enc l @ lk @ lv)[6 := 1]"
        using s by (simp add: slice_poke_byte)
      also have "\<dots> = (leaf_enc l)[6 := 1] @ lk @ lv" by (simp add: list_update_append leaf.length_enc)
      finally show ?thesis by (simp only: leaf_enc_tombstone)
    qed
    have h1: "holds ?f1 ?t'"
      using pl m s1 c1(1) by (intro holds.leaf) (auto simp: placed_def leaf_matches_def)
    have st1: "frame_step (footprint ?t) f ?f1"
      by (rule frame_step_mono [OF poke_step [OF ok]]) (use lo big in \<open>auto simp: region_def\<close>)
    note tm = tombstone_mut [OF c1(2), of u32_saturating_add1]
    have "er_post f ?t ?f2 ?t' pre (full key)"
      unfolding er_post_def
    proof (intro conjI)
      show "holds ?f2 ?t'" using h1 tm(1) by (rule holds_step) simp
      show "frame_step (footprint ?t) f ?f2" by (rule frame_step_trans [OF st1 tm(1)]) simp
      show "tombs ?f2 = tombs f + 1" using tm(2) c1(3) room unat_saturating_add1 by (simp add: tombs_def)
      show "er_lookup ?t ?t' pre (full key)" using hit by (simp add: er_lookup_def)
    qed (use path hit in auto)
    then show ?thesis using True out by (auto simp: er_outcome_def split: if_splits)
  qed
qed

section \<open>Through the parents\<close>

lemma holds_prefix_same:
  assumes h: "holds f (APrefix off bs t)" and st: "frame_step (footprint t) f f'" and h': "holds f' t'"
    and same: "aoff t' = aoff t" "footprint t' = footprint t"
  shows "holds f' (APrefix off bs t')"
proof -
  have t: "placed f off 128" "bs \<noteq> []" "length bs \<le> PREFIX_MAX_INLINE" "slice f off 128 = prefix_img bs (aoff t)"
      "region off 128 \<inter> footprint t = {}" using h by (auto elim: holds_prefixE)
  have "slice f' off 128 = slice f off 128"
    using slice_step [OF st] t(1,5) by (simp add: placed_def region_def)
  then show ?thesis using t h' same frame_step_ok(2) [OF st] by (intro holds.pfx) (auto simp: placed_def)
qed

lemma holds_inner_same:
  assumes h: "holds f (AInner off nt ch)" and c: "ch b = Some t" and st: "frame_step (footprint t) f f'"
    and h': "holds f' t'" and same: "aoff t' = aoff t" "footprint t' = footprint t"
  shows "holds f' (AInner off nt (ch(b \<mapsto> t')))"
proof -
  obtain x where x: "at_inner f off x" "inner_type x = nt" "inner_kids x = (\<lambda>b. map_option (encode_child_off \<circ> aoff) (ch b))"
      "placed f off (size_of_node nt)" "\<And>b t. ch b = Some t \<Longrightarrow> region off (size_of_node nt) \<inter> footprint t = {}"
    using inner_shape [OF h] by metis
  have "slice f' off (size_of_node nt) = slice f off (size_of_node nt)"
    using slice_step [OF st] x(4) x(5) [OF c] by (simp add: placed_def region_def)
  then have at: "at_inner f' off x" using x(1,2) by (simp add: at_inner_def)
  have "holds f' (AInner off (inner_type x) (ch(b \<mapsto> t')))"
  proof (rule holds_inner_upd(1) [OF h _ h' _ at])
    show "frame_step (region off (size_of_node nt) \<union> child_fp (ch b)) f f'"
      using st by (rule frame_step_mono) (auto simp: child_fp_def c)
    show "inner_kids x = (\<lambda>c. map_option (encode_child_off \<circ> aoff) ((ch(b \<mapsto> t')) c))"
      unfolding x(3) using c same by auto
    show "placed f' off (size_of_node (inner_type x))" using x(2,4) frame_step_ok(2) [OF st] by (auto simp: placed_def)
  qed (use c same x(2) x(5) [OF c] in \<open>auto simp: child_fp_def\<close>)
  then show ?thesis using x(2) by simp
qed

lemma footprint_inner_same:
  assumes "ch b = Some t" "footprint t' = footprint t"
  shows "footprint (AInner off nt (ch(b \<mapsto> t'))) = footprint (AInner off nt ch)"
proof -
  have "\<Union> (footprint ` set_option ((ch(b \<mapsto> t')) c)) = \<Union> (footprint ` set_option (ch c))" for c
    using assms by (cases "c = b") auto
  then show ?thesis by (simp only: footprint_AInner)
qed

lemma er_outcome_cases:
  assumes "er_outcome cond allow pre k f t out"
  obtains (crossing) g d p where "alookup t k (length pre) = Crossing g d" "across t k (length pre) = Some p"
      "out = Some (Inr (EraseCrossing g d p), f)"
  | (missed) "\<And>g d. alookup t k (length pre) \<noteq> Crossing g d" "\<not> erase_hits cond (alookup t k (length pre))"
      "out = Some (Inr (EraseDone Unchanged False), f)"
  | (erased) f' t' where "\<And>g d. alookup t k (length pre) \<noteq> Crossing g d" "erase_hits cond (alookup t k (length pre))"
      "out = Some (Inr (EraseDone Unchanged True), f')" "er_post f t f' t' pre k"
  using assms by (auto simp: er_outcome_def split: LookupResult.splits if_splits)

lemma er_outcomeI:
  assumes "\<And>g d. alookup t k (length pre) \<noteq> Crossing g d"
  shows "er_outcome cond allow pre k f t out =
    (if erase_hits cond (alookup t k (length pre))
     then \<exists>f' t'. out = Some (Inr (EraseDone Unchanged True), f') \<and> er_post f t f' t' pre k
     else out = Some (Inr (EraseDone Unchanged False), f))"
  using assms by (auto simp: er_outcome_def split: LookupResult.splits)

text \<open>Both recursive arms pass the child's answer through: no child ever signals a structural change.\<close>

lemma er_outcome_parent:
  assumes child: "er_outcome cond allow pre' k f t out"
    and lk: "alookup u k (length pre) = alookup t k (length pre')" "across u k (length pre) = across t k (length pre')"
    and up: "\<And>f' t'. er_post f t f' t' pre' k \<Longrightarrow> \<exists>u'. er_post f u f' u' pre k"
    and pass: "\<And>r f'. r = EraseDone Unchanged True \<or> r = EraseDone Unchanged False \<or> (\<exists>g d o'. r = EraseCrossing g d o') \<Longrightarrow>
      cont r f' = (Inr r, f')"
  shows "er_outcome cond allow pre k f u (obind out cont)"
  using child
proof (cases rule: er_outcome_cases)
  case (crossing g d p)
  then show ?thesis using lk pass by (simp add: er_outcome_def obind_def)
next
  case missed
  then show ?thesis using lk pass by (simp add: er_outcomeI obind_def)
next
  case (erased f' t')
  then show ?thesis using lk pass up [OF erased(4)] by (simp add: er_outcomeI obind_def)
qed

lemma erase_prefix_outcome:
  assumes ok: "frame_ok f" and h: "holds f (APrefix off bs t)" and path: "apath (APrefix off bs t) pre"
    and pk: "prefix pre (full key)"
    and child: "prefix (pre @ bs) (full key) \<Longrightarrow>
      er_outcome cond allow (pre @ bs) (full key) f t (call (aoff t) (length pre + length bs) f)"
  shows "er_outcome cond allow pre (full key) f (APrefix off bs t) (erase_at_prefix_step call off key (length pre) f)"
proof -
  let ?u = "APrefix off bs t"
  have t: "placed f off 128" "length bs \<le> PREFIX_MAX_INLINE" "slice f off 128 = prefix_img bs (aoff t)" "holds f t"
    using h by (auto elim: holds_prefixE)
  have off: "decode_child_off (encode_child_off (aoff t)) = aoff t" using holds_node_off [OF t(4) ok] by simp
  have le: "length pre \<le> length (full key)" using pk by (rule prefix_length_le)
  note rd = read_prefix_holds [OF ok t(1,3,2)] prefix_img_dec(2) [OF t(2)]
  show ?thesis
  proof (cases "prefix bs (drop (length pre) (full key))")
    case False
    then have "alookup ?u (full key) (length pre) = LookupNotFound" by simp
    then show ?thesis using False rd t(2) by (simp add: er_outcome_def erase_hits_def erase_at_prefix_step_def Let_def range_eq_full)
  next
    case True
    then have pbs: "prefix (pre @ bs) (full key)" using prefix_pre_drop [OF pk] by simp
    define cont where "cont = (\<lambda>r. case r of
               EraseCrossing g d o' \<Rightarrow> ret r
             | EraseDone Unchanged mutated \<Rightarrow> ret (EraseDone Unchanged mutated)
             | EraseDone (Replaced new_child_off) mutated \<Rightarrow>
                 sbind (set_prefix_child off new_child_off) (\<lambda>_. ret (EraseDone Unchanged mutated))
             | EraseDone SubtreeGone mutated \<Rightarrow>
                 sbind (modify (note_abandoned off)) (\<lambda>_. ret (EraseDone SubtreeGone mutated)))"
    have step: "erase_at_prefix_step call off key (length pre) f = obind (call (aoff t) (length pre + length bs) f) cont"
      using True rd t(2) off le by (simp add: erase_at_prefix_step_def Let_def range_eq_full child_offset_def cont_def)
    show ?thesis
      unfolding step
    proof (rule er_outcome_parent [OF child [OF pbs]])
      show "alookup ?u (full key) (length pre) = alookup t (full key) (length (pre @ bs))"
        "across ?u (full key) (length pre) = across t (full key) (length (pre @ bs))" using True le by simp_all
      fix f' t' assume p: "er_post f t f' t' (pre @ bs) (full key)"
      have "er_lookup ?u (APrefix off bs t') pre (full key)"
        unfolding er_lookup_def
      proof (intro allI impI)
        fix k' assume pre: "prefix pre k'"
        then show "alookup (APrefix off bs t') k' (length pre) = (if k' = full key then LookupNotFound else alookup ?u k' (length pre))"
          using p True le prefix_pre_drop [OF pre, of bs] prefix_length_le [OF pre] by (auto simp: er_post_def er_lookup_def)
      qed
      moreover have "frame_step (footprint ?u) f f'" using p by (auto simp: er_post_def intro: frame_step_mono)
      ultimately have "er_post f ?u f' (APrefix off bs t') pre (full key)"
        using p path holds_prefix_same [OF h] by (simp add: er_post_def)
      then show "\<exists>u'. er_post f ?u f' u' pre (full key)" by blast
    qed (auto simp: cont_def ret_def)
  qed
qed

lemma erase_inner_outcome:
  assumes ok: "frame_ok f" and h: "holds f (AInner off nt ch)" and path: "apath (AInner off nt ch) pre"
    and pk: "prefix pre (full key)"
    and child: "\<And>b t. prefix (pre @ [b]) (full key) \<Longrightarrow> ch b = Some t \<Longrightarrow>
      er_outcome cond allow (pre @ [b]) (full key) f t (call (aoff t) (length pre + 1) f)"
  shows "er_outcome cond allow pre (full key) f (AInner off nt ch) (erase_at_inner_step call off nt key (length pre) f)"
proof (cases "byte_at key (length pre)")
  case None
  then show ?thesis
    by (auto simp: er_outcome_def erase_hits_def erase_at_inner_step_def alookup_AInner byte_at_full split: if_splits)
next
  case (Some b)
  let ?u = "AInner off nt ch"
  have kb: "length pre < length (full key)" "full key ! length pre = b" using Some by (auto simp: byte_at_full split: if_splits)
  then have pb: "prefix (pre @ [b]) (full key)" using pk by (simp add: prefix_nth)
  note find = inner_find_holds [OF ok h, of b]
  show ?thesis
  proof (cases "ch b")
    case None
    then show ?thesis using Some find kb by (simp add: er_outcome_def erase_hits_def erase_at_inner_step_def alookup_AInner)
  next
    case c: (Some t)
    define cont where "cont = (\<lambda>r. case r of
                  EraseCrossing g d o' \<Rightarrow> ret r
                | EraseDone Unchanged mutated \<Rightarrow> ret (EraseDone Unchanged mutated)
                | EraseDone (Replaced new_child_off) mutated \<Rightarrow>
                    sbind (inner_update_child off nt b new_child_off) (\<lambda>_. ret (EraseDone Unchanged mutated))
                | EraseDone SubtreeGone mutated \<Rightarrow>
                    sbind (inner_remove_child_and_collapse off nt b) (\<lambda>sig. ret (EraseDone sig mutated)))"
    have step: "erase_at_inner_step call off nt key (length pre) f = obind (call (aoff t) (length pre + 1) f) cont"
      using Some find c by (simp add: erase_at_inner_step_def cont_def)
    show ?thesis
      unfolding step
    proof (rule er_outcome_parent [OF child [OF pb c]])
      show "alookup ?u (full key) (length pre) = alookup t (full key) (length (pre @ [b]))"
        "across ?u (full key) (length pre) = across t (full key) (length (pre @ [b]))"
        using kb c by (simp_all add: alookup_AInner across_AInner)
      fix f' t' assume p: "er_post f t f' t' (pre @ [b]) (full key)"
      let ?u' = "AInner off nt (ch(b \<mapsto> t'))"
      have i: "holds f' t'" "frame_step (footprint t) f f'" "aoff t' = aoff t" "footprint t' = footprint t"
          "apath t' (pre @ [b])" "er_lookup t t' (pre @ [b]) (full key)" "atombs t' = atombs t + 1" "tombs f' = tombs f + 1" "aguids t' = aguids t"
        using p by (simp_all add: er_post_def)
      have "footprint t \<subseteq> footprint ?u" using c by (force simp: footprint_AInner)
      then have "frame_step (footprint ?u) f f'" using i(2) by (rule_tac frame_step_mono)
      moreover have "er_lookup ?u ?u' pre (full key)"
        unfolding er_lookup_def
      proof (intro allI impI)
        fix k' assume pre: "prefix pre k'"
        have "prefix (pre @ [b]) k' \<longleftrightarrow> length pre < length k' \<and> k' ! length pre = b" using pre by (auto simp: prefix_nth)
        then show "alookup ?u' k' (length pre) = (if k' = full key then LookupNotFound else alookup ?u k' (length pre))"
          using i(6) c kb by (auto simp: er_lookup_def alookup_AInner)
      qed
      moreover have "atombs ?u' = atombs ?u + 1" using atombs_upd [of ch b t off nt t' off nt] c i(7) by simp
      ultimately have "er_post f ?u f' ?u' pre (full key)"
        unfolding er_post_def
        using holds_inner_same [OF h c i(2,1,3,4)] footprint_inner_same [of ch b t t', OF c i(4)] apath_inner_upd [OF path i(5)] i(8)
          aguids_upd [of ch b t t' off nt off nt, OF c i(9)]
        by simp
      then show "\<exists>u'. er_post f ?u f' u' pre (full key)" by blast
    qed (auto simp: cont_def ret_def)
  qed
qed

lemma erase_dispatch:
  assumes "frame_ok f" "holds f t"
  shows "erase_at_step (Suc n) (aoff t) key d cond allow f =
    (case t of
       AEmpty off \<Rightarrow> Some (ret (EraseDone Unchanged False) f)
     | ALeaf off l lk lv \<Rightarrow> Some (sbind (erase_at_leaf off key cond) (\<lambda>(sig, mutated). ret (EraseDone sig mutated)) f)
     | APrefix off bs t \<Rightarrow> erase_at_prefix_step (\<lambda>o' d' f'. erase_at_step n o' key d' cond allow f') off key d f
     | ABlob off bs guid \<Rightarrow>
         if allow then Some (blob_node_erase_step off key d f)
         else Some (throw (NotYetImplemented ''walker::erase_at: BlobNode crossing requires BufferManager - use erase_multi'') f)
     | AInner off nt ch \<Rightarrow> erase_at_inner_step (\<lambda>o' d' f'. erase_at_step n o' key d' cond allow f') off nt key d f)"
proof -
  have n: "ntype_of f (aoff t) = Inr (antype t)" using holds_ntype [OF assms(2,1)] by (simp add: ntype_of_def)
  show ?thesis
  proof (cases t)
    case (AInner off nt ch)
    then obtain x where "inner_type x = nt" using inner_shape assms(2) by metis
    then show ?thesis using n AInner by (cases x) (auto simp: Let_def)
  qed (use n in \<open>simp_all add: Let_def\<close>)
qed

lemma erase_blob_outcome:
  assumes ok: "frame_ok f" and h: "holds f (ABlob off bs guid)" and pk: "prefix pre (full key)"
  shows "er_outcome cond allow pre (full key) f (ABlob off bs guid) (Some (blob_node_erase_step off key (length pre) f))"
proof -
  have t: "length bs \<le> BLOB_MAX_INLINE" "length guid = 16" "slice f off 128 = blob_img bs guid"
    using h by (auto elim: holds_blobE)
  have rd: "rbind (ok_or (body_at_offset f off) e) (cast blob_node_dec 128) =
      Inr \<lparr> blob_count = 1, blob_node_type = as_u8 Blob, blob_prefix_len = word_of_nat (length bs),
        child_blob_guid = guid, blob_bytes = bs @ replicate (BLOB_MAX_INLINE - length bs) 0 \<rparr>" for e
    using holds_body(1) [OF h ok] t(3) blob_img_dec(1) [OF t(1,2)] by simp
  show ?thesis using rd blob_img_dec(2) [OF t(1,2)] t(1) prefix_length_le [OF pk]
    by (auto simp: er_outcome_def erase_hits_def blob_node_erase_step_def sbind_def reads_def ret_def Let_def range_eq_full)
qed

theorem erase_at_step_outcome:
  assumes "holds f t" "frame_ok f" "apath t pre" "prefix pre (full key)" "tombs f < 2 ^ 32 - 1"
    "allow \<or> aguids t = {}" "length (full key) < n + length pre" "0 < n"
  shows "er_outcome cond allow pre (full key) f t (erase_at_step n (aoff t) key (length pre) cond allow f)"
  using assms
proof (induction arbitrary: n pre rule: holds.induct)
  case (empty off)
  then obtain m where "n = Suc m" by (cases n) auto
  then show ?case
    using empty erase_dispatch [OF _ holds.empty] by (simp add: er_outcome_def erase_hits_def ret_def)
next
  case (leaf off lk lv l)
  then obtain m where "n = Suc m" by (cases n) auto
  then show ?case
    using leaf erase_dispatch [OF _ holds.leaf] erase_leaf_outcome [OF _ holds.leaf] by simp
next
  case (pfx off bs t)
  obtain m where m: "n = Suc m" using pfx.prems by (cases n) auto
  have h: "holds f (APrefix off bs t)" using pfx.hyps pfx.IH by (intro holds.pfx)
  have "er_outcome cond allow (pre @ bs) (full key) f t (erase_at_step m (aoff t) key (length (pre @ bs)) cond allow f)"
    if pk: "prefix (pre @ bs) (full key)"
  proof (rule pfx.IH)
    have "0 < length bs" using pfx.hyps(2) by simp
    moreover have "length pre + length bs \<le> length (full key)" using prefix_length_le [OF pk] by simp
    ultimately show "length (full key) < m + length (pre @ bs)" "0 < m"
      using pfx.prems(6) unfolding m length_append by linarith+
  qed (use pfx.prems pk in auto)
  then show ?case
    using erase_dispatch [OF pfx.prems(1) h, of m] m by (simp add: erase_prefix_outcome [OF pfx.prems(1) h pfx.prems(2,3)])
next
  case (blob off bs guid)
  then obtain m where "n = Suc m" by (cases n) auto
  then show ?case
    using blob erase_dispatch [OF _ holds.blob] erase_blob_outcome [OF _ holds.blob] by simp
next
  case (inner off nt x ch)
  obtain m where m: "n = Suc m" using inner.prems by (cases n) auto
  have h: "holds f (AInner off nt ch)" using inner.hyps inner.IH by (intro holds.inner) auto
  have "er_outcome cond allow (pre @ [b]) (full key) f t (erase_at_step m (aoff t) key (length (pre @ [b])) cond allow f)"
    if pk: "prefix (pre @ [b]) (full key)" and c: "ch b = Some t" for b t
  proof (rule conjunct2 [OF conjunct1 [OF inner.IH [OF c]], rule_format])
    show "allow \<or> aguids t = {}" using inner.prems(5) c by (fastforce simp: aguids_AInner)
  qed (use inner.prems pk m prefix_length_le [OF pk] c in \<open>auto simp: apath_AInner\<close>)
  then show ?case
    using erase_dispatch [OF inner.prems(1) h, of m] m by (simp add: erase_inner_outcome [OF inner.prems(1) h inner.prems(2,3)])
qed

section \<open>Shrinking keeps the child map\<close>

lemma populated_filter: "populated (scan_loop P n) n b = filter P [b ..< n]"
proof (induction "n - b" arbitrary: b rule: less_induct)
  case less
  show ?case
  proof (cases "scan_loop P n b")
    case None
    then have "filter P [b ..< n] = []" by (auto simp: scan_loop_None filter_empty_conv)
    then show ?thesis using None by (subst populated.simps) simp
  next
    case (Some i)
    then have i: "b \<le> i" "i < n" "P i" "\<And>j. b \<le> j \<Longrightarrow> j < i \<Longrightarrow> \<not> P j" by (auto simp: scan_loop_Some)
    have "[b ..< n] = [b ..< i] @ i # [i + 1 ..< n]"
      using i(1,2) upt_add_eq_append [of b i "n - i"] by (simp add: upt_conv_Cons)
    moreover have "filter P [b ..< i] = []" using i(4) by (auto simp: filter_empty_conv)
    moreover have "populated (scan_loop P n) n (i + 1) = filter P [i + 1 ..< n]" using i(1,2) by (intro less) simp
    ultimately show ?thesis using Some i by (subst populated.simps) simp
  qed
qed

lemma populated_index:
  "length idx = 256 \<Longrightarrow> populated (find_next_nonzero_byte tg idx) 256 0 = filter (\<lambda>i. idx ! i \<noteq> 0) [0 ..< 256]"
  "length ch = 256 \<Longrightarrow> populated (find_next_nonzero_u16 tg ch) 256 0 = filter (\<lambda>i. ch ! i \<noteq> 0) [0 ..< 256]"
proof -
  assume "length idx = 256"
  then have "find_next_nonzero_byte tg idx = scan_loop (\<lambda>i. idx ! i \<noteq> 0) 256"
    by (intro ext) (simp add: find_next_nonzero_byte_scan)
  then show "populated (find_next_nonzero_byte tg idx) 256 0 = filter (\<lambda>i. idx ! i \<noteq> 0) [0 ..< 256]"
    by (simp only: populated_filter)
next
  assume "length ch = 256"
  then have "find_next_nonzero_u16 tg ch = scan_loop (\<lambda>i. ch ! i \<noteq> 0) 256"
    by (intro ext) (simp add: find_next_nonzero_u16_scan)
  then show "populated (find_next_nonzero_u16 tg ch) 256 0 = filter (\<lambda>i. ch ! i \<noteq> 0) [0 ..< 256]"
    by (simp only: populated_filter)
qed

lemma shrink_16_4_spec:
  assumes ok: "inner_ok (I16 n)" and c: "unat (n16_count n) \<le> 4"
  shows "inner_ok (I4 (node4_from_node16 n))" "inner_kids (I4 (node4_from_node16 n)) = inner_kids (I16 n)"
  using ok c
  by (simp_all add: node4_from_node16_def Let_def node4_empty_def node16_wf_def node4_wf_def copy_first_def assoc_def)

text \<open>The populated bytes of a wide node, in order, as the keys of a narrower one.\<close>

lemma unat_populated:
  assumes "i < length (filter P [0 ..< 256])"
  shows "unat (word_of_nat (filter P [0 ..< 256] ! i) :: u8) = filter P [0 ..< 256] ! i"
proof -
  have "filter P [0 ..< 256] ! i \<in> set (filter P [0 ..< 256])" using assms by (rule nth_mem)
  then have "filter P [0 ..< 256] ! i < 256" by simp
  then show ?thesis by (simp add: unat_of_nat)
qed

lemma sorted_populated: "sorted_wrt (<) (map word_of_nat (filter P [0 ..< 256]) :: u8 list)"
proof -
  have "sorted_wrt (<) (filter P [0 ..< 256])" by (intro sorted_wrt_filter sorted_wrt_upt)
  moreover have "word_of_nat a < (word_of_nat b :: u8)" if "a \<in> set (filter P [0 ..< 256])" "b \<in> set (filter P [0 ..< 256])" "a < b" for a b
    using that by (simp add: word_less_nat_alt unat_of_nat)
  ultimately show ?thesis unfolding sorted_wrt_map by (rule_tac sorted_wrt_mono_rel)
qed

lemma map_of_populated:
  "map_of (map (\<lambda>j. (word_of_nat j :: u8, g j)) (filter P [0 ..< 256])) b = (if P (unat b) then Some (g (unat b)) else None)"
proof -
  have "map_of (map (\<lambda>j. (word_of_nat j :: u8, g j)) js) b = (if unat b \<in> set js then Some (g (unat b)) else None)"
    if "set js \<subseteq> {..<256}" for js
    using that
  proof (induction js)
    case (Cons j js)
    then have "unat (word_of_nat j :: u8) = j" by (simp add: unat_of_nat)
    then have "b = word_of_nat j \<longleftrightarrow> unat b = j" using u8_unat_inject [of b "word_of_nat j"] by simp
    then show ?case using Cons by auto
  qed simp
  moreover have "set (filter P [0 ..< 256]) \<subseteq> {..<256}" "unat b \<in> set (filter P [0 ..< 256]) \<longleftrightarrow> P (unat b)" by auto
  ultimately show ?thesis by (simp del: set_filter)
qed

lemma card_populated: "length (filter P [0 ..< n]) = card {j. j < n \<and> P j}"
proof -
  have "card (set (filter P [0 ..< n])) = length (filter P [0 ..< n])" by (intro distinct_card) simp
  then show ?thesis by simp
qed

lemma shrink_48_16_spec:
  assumes ok: "inner_ok (I48 n)" and c: "unat (n48_count n) \<le> 16"
  shows "inner_ok (I16 (node16_from_node48 n))" "inner_kids (I16 (node16_from_node48 n)) = inner_kids (I48 n)"
proof -
  let ?P = "\<lambda>i. n48_index n ! i \<noteq> 0"
  let ?bs = "filter ?P [0 ..< 256]"
  let ?g = "\<lambda>b. n48_children n ! (unat (n48_index n ! b) - 1)"
  have len: "length ?bs = unat (n48_count n)" using ok by (simp add: n48_ok_def card_populated)
  have wf: "length (n48_index n) = 256" using ok by (simp add: node48_wf_def)
  let ?m = "node16_from_node48 n"
  have m: "n16_keys ?m = map word_of_nat ?bs @ replicate (16 - length ?bs) 0"
      "n16_children ?m = map ?g ?bs @ replicate (16 - length ?bs) 0" "n16_count ?m = n48_count n"
      "n16_node_type ?m = as_u8 Node16"
    by (simp_all add: node16_from_node48_def populated_index(1) [OF wf] node16_empty_def Let_def)
  have tk: "take (unat (n48_count n)) (n16_keys ?m) = map word_of_nat ?bs"
      "take (unat (n48_count n)) (n16_children ?m) = map ?g ?bs" using m len by simp_all
  show "inner_ok (I16 ?m)" using m(3,4) tk(1) sorted_populated [of ?P] c len by (simp add: node16_wf_def m(1,2))
  show "inner_kids (I16 ?m) = inner_kids (I48 n)"
  proof (rule ext)
    fix b
    have "inner_kids (I16 ?m) b = map_of (map (\<lambda>j. (word_of_nat j, ?g j)) ?bs) b"
      by (simp add: assoc_def m(3) tk zip_map_map zip_same_conv_map comp_def)
    then show "inner_kids (I16 ?m) b = inner_kids (I48 n) b" by (simp add: map_of_populated Let_def)
  qed
qed

lemma shrink_256_48_spec:
  assumes ok: "inner_ok (I256 n)" and c: "unat (n256_count n) = card {b. b < 256 \<and> n256_children n ! b \<noteq> 0}"
    "unat (n256_count n) \<le> 48"
  shows "inner_ok (I48 (node48_from_node256 n))" "inner_kids (I48 (node48_from_node256 n)) = inner_kids (I256 n)"
proof -
  let ?P = "\<lambda>i. n256_children n ! i \<noteq> 0"
  let ?bs = "filter ?P [0 ..< 256]"
  let ?keys = "map word_of_nat ?bs :: u8 list"
  let ?xs = "map (\<lambda>b. n256_children n ! b) ?bs"
  let ?c = "length ?bs"
  let ?m = "node48_from_node256 n"
  have len: "?c = unat (n256_count n)" using c by (simp add: card_populated)
  have wf: "length (n256_children n) = 256" using ok by (simp add: node256_wf_def)
  have d: "distinct (take ?c ?keys)" "?c \<le> length ?keys" "?c \<le> 48" "?c \<le> length ?xs"
    using len c(2) strict_sorted_distinct [OF sorted_populated] by simp_all
  note def = node48_from_node256_def populated_index(2) [OF wf] node48_empty_def Let_def
  have ch: "n48_children ?m ! i = (if i < ?c then ?xs ! i else 0)" if "i < 48" for i
    using that d(3) by (simp add: def nth_append)
  have n: "n48_index ?m = index_keys ?keys ?c (replicate 256 0)" "unat (n48_count ?m) = ?c"
    using len by (simp_all add: def)
  have "node48_wf ?m" "n48_node_type ?m = as_u8 Node48"
    using d index_keys_spec(2) [OF d(1,2), of "replicate 256 0" 0] by (simp_all add: def node48_wf_def)
  then show "inner_ok (I48 ?m)" using packed48_spec(1) [OF d ch n] by simp
  show "inner_kids (I48 ?m) = inner_kids (I256 n)"
  proof (rule ext)
    fix b
    have "inner_kids (I48 ?m) b = map_of (map (\<lambda>j. (word_of_nat j, n256_children n ! j)) ?bs) b"
      by (simp only: packed48_spec(2) [OF d ch n]) (simp add: assoc_def zip_map_map zip_same_conv_map comp_def)
    then show "inner_kids (I48 ?m) b = inner_kids (I256 n) b" by (simp add: map_of_populated Let_def)
  qed
qed

end
