(* ===== verification/Blob_Tree.thy ===== *)
theory Blob_Tree
  imports Erase_Correct
begin

text \<open>A whole blob as a key-value store: the header's root pointer and tombstone counter agree with the
  tree, a fresh frame stores the empty tree, and the single-blob entry points implement a finite map.\<close>

definition stores :: "frame \<Rightarrow> art \<Rightarrow> bool" where
  "stores f t =
    (frame_ok f \<and> holds f t \<and> apath t [] \<and> root_slot (header_of f) = encode_child_off (aoff t) \<and> tombs f = atombs t)"

section \<open>Counting tombstones\<close>

lemma footprint_finite: "holds f t \<Longrightarrow> finite (footprint t)"
  using holds_footprint finite_subset by blast

lemma atombs_footprint: "holds f t \<Longrightarrow> atombs t \<le> card (footprint t)"
proof (induction rule: holds.induct)
  case (leaf off key val l)
  have "0 < leaf_body_size (length key) (length val)"
    using leaf_lengths [OF leaf(2)] leaf_body_size_bounds(1) [of "length key" "length val"] by simp
  then show ?case by (simp add: region_def)
next
  case (pfx off bs t)
  have "card (footprint t) \<le> card (footprint (APrefix off bs t))"
    using footprint_finite [OF pfx.hyps(5)] by (intro card_mono) (auto simp: region_def)
  then show ?case using pfx.IH by simp
next
  case (inner off nt x ch)
  let ?F = "\<lambda>b. \<Union>t \<in> set_option (ch b). footprint t"
  have fin: "finite (?F b)" for b
    using inner.IH [of b] footprint_finite [of f] by (cases "ch b") auto
  have "atombs (AInner off nt ch) \<le> (\<Sum>b\<in>UNIV. card (?F b))"
    unfolding atombs_AInner using inner.IH by (intro sum_mono) (auto split: option.split)
  also have "\<dots> = card (\<Union>b. ?F b)"
    using fin inner.IH inner.hyps by (intro card_UN_disjoint [symmetric]) (auto, blast)
  also have "\<dots> \<le> card (footprint (AInner off nt ch))"
    using fin by (intro card_mono) (auto simp: footprint_AInner region_def)
  finally show ?case .
qed auto

lemma stores_room: "stores f t \<Longrightarrow> tombs f < 2 ^ 32 - 1"
proof -
  assume s: "stores f t"
  have "card (footprint t) \<le> card {DATA_AREA_START ..< cursor f}"
    using s holds_footprint by (intro card_mono) (auto simp: stores_def)
  then have "atombs t \<le> PAGE_SIZE"
    using s atombs_footprint [of f t] by (auto simp: stores_def frame_ok_def)
  then show ?thesis using s by (simp add: stores_def geometry)
qed

section \<open>Entry points on a stored tree\<close>

lemma stores_init:
  assumes "length guid = 16"
  obtains f where "frame_init guid = (Inr (Inr ()), f)" "stores f (AEmpty DATA_AREA_START)" "\<not> crowded f"
proof -
  obtain f where f: "frame_init guid = (Inr (Inr ()), f)" "frame_ok f" "cursor f = DATA_AREA_START + 8"
      "root_slot (header_of f) = encode_child_off DATA_AREA_START" "f (DATA_AREA_START + 1) = as_u8 EmptyRoot"
      "tombstone_leaf_cnt (header_of f) = 0" "num_slots (header_of f) = 1"
    using frame_init_spec [OF assms] by metis
  then have "stores f (AEmpty DATA_AREA_START)"
    by (auto simp: stores_def tombs_def placed_def geometry intro!: holds.empty)
  moreover have "\<not> crowded f" using f by (simp add: crowded_def geometry SPILLOVER_RESERVATION_def)
  ultimately show ?thesis using f(1) that by blast
qed

lemma stores_root: "stores f t \<Longrightarrow> decode_child_off (root_slot (header_of f)) = aoff t"
  using holds_node_off [of f t] by (simp add: stores_def)

lemma lookup_stores:
  assumes "stores f t" "length k < n"
  shows "lookup n f (root_slot (header_of f)) k = Some (Inr (alookup t k 0))"
proof -
  have h: "holds f t" "frame_ok f" using assms(1) by (auto simp: stores_def)
  have "root_slot (header_of f) \<noteq> 0"
    using assms(1) encode_child_off_pos [OF holds_node_off [OF h]] by (simp add: stores_def)
  then have "root_child_offset (root_slot (header_of f)) msg = Inr (aoff t)" for msg
    using stores_root [OF assms(1)] by (simp add: root_child_offset_def)
  then show ?thesis using descend_refines [OF h, of "sk_exact k" n 0] assms(2) by (simp add: lookup_def)
qed

text \<open>Writing the root pointer keeps everything else.\<close>

lemma root_mut:
  fixes e :: u16
  defines "m \<equiv> header_mut (\<lambda>h. h\<lparr> root_slot := e \<rparr>)"
  shows "holds (m f) t = holds f t" "frame_ok (m f) = frame_ok f" "tombs (m f) = tombs f" "cursor (m f) = cursor f"
    "root_slot (header_of (m f)) = e" "blob_guid (header_of (m f)) = blob_guid (header_of f)"
proof -
  show c: "cursor (m f) = cursor f" and "frame_ok (m f) = frame_ok f" "tombs (m f) = tombs f"
      "root_slot (header_of (m f)) = e" "blob_guid (header_of (m f)) = blob_guid (header_of f)"
    by (simp_all add: m_def cursor_def frame_ok_def tombs_def)
  have same: "m f i = f i" if "DATA_AREA_START \<le> i" for i using that by (simp add: m_def geometry)
  show "holds (m f) t = holds f t"
  proof
    assume h: "holds (m f) t"
    show "holds f t" by (rule holds_agree [OF h]) (use same holds_footprint [OF h] c in auto)
  next
    assume h: "holds f t"
    show "holds (m f) t" by (rule holds_agree [OF h]) (use same holds_footprint [OF h] c in auto)
  qed
qed

lemma crossing_guid: "alookup t k d = Crossing g d' \<Longrightarrow> g \<in> aguids t"
proof (induction t arbitrary: d)
  case (AInner off nt ch)
  then obtain t where "d < length k" "ch (k ! d) = Some t" "alookup t k (d + 1) = Crossing g d'"
    by (auto simp: alookup_AInner split: if_splits option.splits)
  then have "g \<in> aguids t" using AInner.IH [of "Some t" t] by (metis rangeI option.set_intros)
  then show ?case using \<open>ch (k ! d) = Some t\<close> by (force simp: aguids_AInner)
qed (auto split: if_splits)

theorem insert_single_stores:
  assumes s: "stores f t" and g: "aguids t = {}" and k: "valid_key k" "length k < 2 ^ 16" and v: "length val < 2 ^ 16"
    and n: "length k < n"
  shows "(\<exists>a f'. insert_single n (root_slot (header_of f)) k val sq f = Some (Inl (Fail (Alloc a)), f') \<and> stores f' t \<and> crowded f')
    \<or> (\<exists>f' t'. insert_single n (root_slot (header_of f)) k val sq f =
           Some (Inr \<lparr> root_dirty = True, outcome_mutated = True \<rparr>, f')
         \<and> stores f' t' \<and> aguids t' = {} \<and> blob_guid (header_of f') = blob_guid (header_of f)
         \<and> (\<forall>k'. alookup t' k' 0 = (if k' = k then Found val sq else alookup t k' 0)))"
proof -
  let ?key = "sk_exact k"
  have st: "holds f t" "frame_ok f" "apath t []" "atombs t = tombs f" using s by (auto simp: stores_def)
  have nc: "alookup t k 0 \<noteq> Crossing g d" for g d using crossing_guid g by blast
  let ?out = "insert_at_step n (aoff t) ?key val 0 sq Always False f"
  have "ins_outcome Always False [] (full ?key) val sq f t (insert_at_step n (aoff t) ?key val (length ([] :: bytes)) sq Always False f)"
    using st k v n by (intro insert_at_step_outcome) auto
  then have w: "ins_writes Always [] k val sq f t ?out"
    using nc by (simp add: ins_outcomeI guard_passes_def)
  have run: "insert_single n (root_slot (header_of f)) k val sq f = obind (obind ?out (\<lambda>r.
        case r of InsertDone off_after mutated \<Rightarrow> ret (off_after, mutated)
        | InsertCrossing g d o' \<Rightarrow> throw (NotYetImplemented ''walker::insert_at: BlobNode crossing requires BufferManager - use insert_multi'')))
      (\<lambda>r f'. (Inr \<lparr> root_dirty = True, outcome_mutated = True \<rparr>, header_mut (\<lambda>h. h\<lparr> root_slot := encode_child_off (fst r) \<rparr>) f'))"
    using k(2) v stores_root [OF s] by (simp add: insert_single_def insert_at_def)
  from w show ?thesis unfolding ins_writes_def
  proof (elim disjE exE conjE)
    fix a f' assume o: "?out = Some (Inl (Fail (Alloc a)), f')" and q: "quiet_step f f'" and cr: "crowded f'"
    have "stores f' t" using s q holds_quiet [OF q st(1)] by (simp add: stores_def quiet_step_def frame_step_def)
    then show ?thesis using run o cr by (simp add: obind_def)
  next
    fix f' t' assume o: "?out = Some (Inr (InsertDone (aoff t') True), f')" and p: "ins_post f t f' t' [] k val sq"
    let ?f'' = "header_mut (\<lambda>h. h\<lparr> root_slot := encode_child_off (aoff t') \<rparr>) f'"
    have "stores ?f'' t'"
      using p st(4) root_mut [of "encode_child_off (aoff t')" f'] by (simp add: stores_def ins_post_def frame_step_def)
    moreover have "\<forall>k'. alookup t' k' 0 = (if k' = k then Found val sq else alookup t k' 0)" "aguids t' = {}"
      using p g by (simp_all add: ins_post_def ins_lookup_def)
    moreover have "blob_guid (header_of ?f'') = blob_guid (header_of f)"
      using p root_mut(6) by (simp add: ins_post_def frame_step_def)
    ultimately show ?thesis using run o by (auto simp: obind_def ret_def)
  qed
qed

text \<open>The first insertion into a blob with room succeeds.\<close>

lemma insert_single_first:
  assumes s: "stores f (AEmpty off)" and room: "\<not> crowded f" and k: "length k < 2 ^ 16" and v: "length val < 2 ^ 16"
  shows "\<exists>f'. insert_single (Suc n) (root_slot (header_of f)) k val sq f =
      Some (Inr \<lparr> root_dirty = True, outcome_mutated = True \<rparr>, f')"
proof -
  have st: "holds f (AEmpty off)" "frame_ok f" using s by (auto simp: stores_def)
  have kf: "length (full (sk_exact k)) < 2 ^ 16" using k by simp
  obtain f1 where w: "write_leaf (sk_exact k) val sq f = (Inr (cursor f), f1)"
    using st(2) kf v by (cases rule: write_leaf_cases [where sq = sq]) (use room in auto)
  show ?thesis
    using insert_dispatch [OF st(2,1)] stores_root [OF s] w k v
    by (simp add: insert_single_def insert_at_def insert_into_empty_root_def obind_def sbind_def ret_def modify_def
        is_if_version_def)
qed

theorem erase_single_stores:
  assumes s: "stores f t" and g: "aguids t = {}" and n: "length k < n"
  shows "\<exists>f' t' b. erase_single n (root_slot (header_of f)) k f =
           Some (Inr \<lparr> erase_root_dirty = b, erase_mutated = b \<rparr>, f')
         \<and> b = (\<exists>v sq. alookup t k 0 = Found v sq)
         \<and> stores f' t' \<and> aguids t' = {} \<and> blob_guid (header_of f') = blob_guid (header_of f)
         \<and> (\<forall>k'. alookup t' k' 0 = (if k' = k then LookupNotFound else alookup t k' 0))"
proof -
  let ?key = "sk_exact k"
  have st: "holds f t" "frame_ok f" "apath t []" "atombs t = tombs f" using s by (auto simp: stores_def)
  have nc: "alookup t k 0 \<noteq> Crossing g d" for g d using crossing_guid g by blast
  let ?out = "erase_at_step n (aoff t) ?key 0 EraseAlways False f"
  let ?fix = "\<lambda>f'. header_mut (\<lambda>h. h\<lparr> root_slot := encode_child_off (aoff t) \<rparr>) f'"
  have o: "er_outcome EraseAlways False [] (full ?key) f t (erase_at_step n (aoff t) ?key (length ([] :: bytes)) EraseAlways False f)"
    using st n g stores_room [OF s] by (intro erase_at_step_outcome) auto
  have run: "erase_single n (root_slot (header_of f)) k f = Some (Inr \<lparr> erase_root_dirty = b, erase_mutated = b \<rparr>, ?fix f')"
    if "?out = Some (Inr (EraseDone Unchanged b), f')" for b f'
    using that stores_root [OF s]
    by (simp add: erase_single_def erase_at_def obind_def ret_def sbind_def resolve_new_root_after_erase_def Let_def)
  from o show ?thesis
  proof (cases rule: er_outcome_cases)
    case (crossing g d p)
    then show ?thesis using nc by simp
  next
    case missed
    have nf: "alookup t k 0 = LookupNotFound"
      using missed(1,2) by (cases "alookup t k 0") (auto simp: erase_hits_def)
    have "stores (?fix f) t" using s root_mut [of "encode_child_off (aoff t)" f] by (simp add: stores_def)
    then show ?thesis using run missed(3) nf g root_mut(6) by (intro exI [of _ "?fix f"] exI [of _ t] exI [of _ False]) auto
  next
    case (erased f' t')
    have hit: "\<exists>v sq. alookup t k 0 = Found v sq"
      using erased(2) by (auto simp: erase_hits_def split: LookupResult.splits)
    have "stores (?fix f') t'"
      using erased(4) st root_mut [of "encode_child_off (aoff t)" f'] by (auto simp: stores_def er_post_def dest: frame_step_ok)
    moreover have "blob_guid (header_of (?fix f')) = blob_guid (header_of f)"
      using erased(4) root_mut(6) by (simp add: er_post_def frame_step_def)
    ultimately show ?thesis using run erased(3,4) g hit
      by (intro exI [of _ "?fix f'"] exI [of _ t'] exI [of _ True]) (auto simp: er_post_def er_lookup_def)
  qed
qed

section \<open>The blob as a map\<close>

text \<open>The contract of a fallible key-value store: a put either installs the pair or, when space runs out,
  changes nothing that a get can see.\<close>

datatype kv_op = PutOp bytes bytes u64 | DelOp bytes

type_synonym kv = "bytes \<Rightarrow> (bytes \<times> u64) option"

primrec op_ok :: "kv_op \<Rightarrow> bool" where
  "op_ok (PutOp k v sq) = (valid_key k \<and> length k < 2 ^ 16 \<and> length v < 2 ^ 16)"
| "op_ok (DelOp k) = (valid_key k \<and> length k < 2 ^ 16)"

text \<open>\<open>run_ops\<close> reports for every operation whether it took effect.\<close>

fun run_ops :: "(bytes \<Rightarrow> bytes \<Rightarrow> u64 \<Rightarrow> 's \<Rightarrow> bool \<times> 's) \<Rightarrow> (bytes \<Rightarrow> 's \<Rightarrow> 's) \<Rightarrow> kv_op list \<Rightarrow> 's \<Rightarrow> bool list \<times> 's" where
  "run_ops put del [] s = ([], s)"
| "run_ops put del (PutOp k v sq # ops) s =
    (let (b, s1) = put k v sq s; (bs, s2) = run_ops put del ops s1 in (b # bs, s2))"
| "run_ops put del (DelOp k # ops) s = (let (bs, s2) = run_ops put del ops (del k s) in (True # bs, s2))"

fun spec_ops :: "kv_op list \<Rightarrow> bool list \<Rightarrow> kv \<Rightarrow> kv" where
  "spec_ops (PutOp k v sq # ops) (b # bs) m = spec_ops ops bs (if b then m(k \<mapsto> (v, sq)) else m)"
| "spec_ops (DelOp k # ops) (b # bs) m = spec_ops ops bs (m(k := None))"
| "spec_ops _ _ m = m"

locale kv_store =
  fixes inv :: "'s \<Rightarrow> bool"
    and get :: "'s \<Rightarrow> kv"
    and put :: "bytes \<Rightarrow> bytes \<Rightarrow> u64 \<Rightarrow> 's \<Rightarrow> bool \<times> 's"
    and del :: "bytes \<Rightarrow> 's \<Rightarrow> 's"
  assumes put_law: "inv s \<Longrightarrow> op_ok (PutOp k v sq) \<Longrightarrow> put k v sq s = (b, s') \<Longrightarrow>
      inv s' \<and> get s' = (if b then (get s)(k \<mapsto> (v, sq)) else get s)"
    and del_law: "inv s \<Longrightarrow> op_ok (DelOp k) \<Longrightarrow> inv (del k s) \<and> get (del k s) = (get s)(k := None)"
begin

lemma run_ops_refines:
  "inv s \<Longrightarrow> list_all op_ok ops \<Longrightarrow> run_ops put del ops s = (bs, s') \<Longrightarrow>
   inv s' \<and> get s' = spec_ops ops bs (get s)"
proof (induction ops arbitrary: s bs)
  case (Cons op ops)
  show ?case
  proof (cases op)
    case (PutOp k v sq)
    obtain b s1 bs1 where p: "put k v sq s = (b, s1)" "run_ops put del ops s1 = (bs1, s')" "bs = b # bs1"
      using Cons.prems(3) PutOp by (auto split: prod.splits)
    then show ?thesis using put_law [OF Cons.prems(1) _ p(1)] Cons.IH [OF _ _ p(2)] Cons.prems(2) PutOp by auto
  next
    case (DelOp k)
    obtain bs1 where p: "run_ops put del ops (del k s) = (bs1, s')" "bs = True # bs1"
      using Cons.prems(3) DelOp by (auto split: prod.splits)
    then show ?thesis using del_law [OF Cons.prems(1), of k] Cons.IH [OF _ _ p(1)] Cons.prems(2) DelOp by (auto simp: fun_upd_def)
  qed
qed simp

end

text \<open>The single-blob entry points, with the fuel the descent needs.\<close>

definition frame_get :: "frame \<Rightarrow> kv" where
  "frame_get f k =
    (case lookup (length k + 1) f (root_slot (header_of f)) k of
       Some (Inr (Found v sq)) \<Rightarrow> Some (v, sq)
     | _ \<Rightarrow> None)"

definition frame_put :: "bytes \<Rightarrow> bytes \<Rightarrow> u64 \<Rightarrow> frame \<Rightarrow> bool \<times> frame" where
  "frame_put k v sq f =
    (case insert_single (length k + 1) (root_slot (header_of f)) k v sq f of
       Some (Inr out, f') \<Rightarrow> (True, f')
     | Some (Inl e, f') \<Rightarrow> (False, f')
     | None \<Rightarrow> (False, f))"

definition frame_del :: "bytes \<Rightarrow> frame \<Rightarrow> frame" where
  "frame_del k f =
    (case erase_single (length k + 1) (root_slot (header_of f)) k f of
       Some (out, f') \<Rightarrow> f'
     | None \<Rightarrow> f)"

definition one_blob :: "frame \<Rightarrow> bool" where
  "one_blob f = (\<exists>t. stores f t \<and> aguids t = {})"

lemma frame_get_stores:
  "stores f t \<Longrightarrow> frame_get f k = (case alookup t k 0 of Found v sq \<Rightarrow> Some (v, sq) | _ \<Rightarrow> None)"
  by (simp add: frame_get_def lookup_stores)

lemma frame_get_changes:
  assumes "stores f t" "stores f' t'"
  shows "\<forall>k'. alookup t' k' 0 = (if k' = k then Found v sq else alookup t k' 0) \<Longrightarrow> frame_get f' = (frame_get f)(k \<mapsto> (v, sq))"
    "\<forall>k'. alookup t' k' 0 = (if k' = k then LookupNotFound else alookup t k' 0) \<Longrightarrow> frame_get f' = (frame_get f)(k := None)"
    "t' = t \<Longrightarrow> frame_get f' = frame_get f"
  using assms by (auto simp: frame_get_stores fun_eq_iff)

interpretation blob_kv: kv_store one_blob frame_get frame_put frame_del
proof
  fix f k v sq b f' assume i: "one_blob f" and ok: "op_ok (PutOp k v sq)" and p: "frame_put k v sq f = (b, f')"
  obtain t where t: "stores f t" "aguids t = {}" using i by (auto simp: one_blob_def)
  have "(b = False \<and> stores f' t)
      \<or> (\<exists>t'. b = True \<and> stores f' t' \<and> aguids t' = {} \<and> (\<forall>k'. alookup t' k' 0 = (if k' = k then Found v sq else alookup t k' 0)))"
    using insert_single_stores [OF t, of k v "length k + 1" sq] ok p by (auto simp: frame_put_def)
  then show "one_blob f' \<and> frame_get f' = (if b then (frame_get f)(k \<mapsto> (v, sq)) else frame_get f)"
    using t by (auto simp: one_blob_def frame_get_stores fun_eq_iff)
next
  fix f k assume i: "one_blob f" and ok: "op_ok (DelOp k)"
  obtain t where t: "stores f t" "aguids t = {}" using i by (auto simp: one_blob_def)
  obtain t' where t': "stores (frame_del k f) t'" "aguids t' = {}"
      "\<forall>k'. alookup t' k' 0 = (if k' = k then LookupNotFound else alookup t k' 0)"
    using erase_single_stores [OF t, of k "length k + 1"] by (auto simp: frame_del_def)
  show "one_blob (frame_del k f) \<and> frame_get (frame_del k f) = (frame_get f)(k := None)"
    using frame_get_changes(2) [OF t(1) t'(1,3)] t'(1,2) by (auto simp: one_blob_def)
qed

end
