(* ===== verification/Journal_Stream.thy ===== *)
theory Journal_Stream
  imports Holt_Errors
begin

text \<open>The attached recovery stream of \<^verbatim>\<open>src/src/api/journal.rs\<close>: anchors, envelopes, the paging of retained
  envelopes, and the process-local stream of a memory database.  Each operation of the latter runs under one
  mutex, so it is one transition of the state.\<close>

section \<open>Anchors and envelopes\<close>

definition JOURNAL_DIGEST_BYTES :: nat where "JOURNAL_DIGEST_BYTES = 32"

definition MAX_JOURNAL_RECORD_BYTES :: nat where "MAX_JOURNAL_RECORD_BYTES = 16 * 1024 * 1024"

record JournalAnchor =
  anchor_seq :: u64
  anchor_digest :: bytes

datatype JournalEnvelopeError =
  NonContiguousSequence u64 u64
| EmptyPayload
| PayloadTooLarge nat

record JournalEnvelope =
  env_previous :: JournalAnchor
  env_current :: JournalAnchor
  env_payload :: bytes

record JournalState =
  js_checkpoint :: JournalAnchor
  js_tail :: JournalAnchor

record JournalEnvelopePage =
  page_envelopes :: "JournalEnvelope list"
  page_next :: JournalAnchor
  page_has_more :: bool

definition u64_checked_add :: "u64 \<Rightarrow> u64 \<Rightarrow> u64 option" where
  "u64_checked_add a b = (if unat a + unat b < 2 ^ 64 then Some (a + b) else None)"

definition envelope_new :: "JournalAnchor \<Rightarrow> JournalAnchor \<Rightarrow> bytes \<Rightarrow> JournalEnvelopeError + JournalEnvelope" where
  "envelope_new previous current payload =
    (if u64_checked_add (anchor_seq previous) 1 \<noteq> Some (anchor_seq current) then
       Inl (NonContiguousSequence (anchor_seq previous) (anchor_seq current))
     else if payload = [] then Inl EmptyPayload
     else if length payload \<ge> 2 ^ 32 then Inl (PayloadTooLarge (length payload))
     else Inr \<lparr> env_previous = previous, env_current = current, env_payload = payload \<rparr>)"

section \<open>Pages\<close>

definition usize_saturating_add :: "nat \<Rightarrow> nat \<Rightarrow> nat" where
  "usize_saturating_add a b = min (a + b) (2 ^ 64 - 1)"

text \<open>The loop of \<^verbatim>\<open>bounded_envelope_page\<close>: \<open>envelopes\<close> and \<open>payload_bytes\<close> are its accumulators.\<close>

fun page_loop :: "nat \<Rightarrow> nat \<Rightarrow> JournalEnvelope list \<Rightarrow> JournalEnvelope list \<Rightarrow> nat \<Rightarrow> JournalEnvelope list" where
  "page_loop row_limit payload_byte_limit [] envelopes payload_bytes = envelopes"
| "page_loop row_limit payload_byte_limit (e # rest) envelopes payload_bytes =
    (if length envelopes = row_limit then envelopes
     else
       let next_bytes = usize_saturating_add payload_bytes (length (env_payload e)) in
       if envelopes \<noteq> [] \<and> next_bytes > payload_byte_limit then envelopes
       else page_loop row_limit payload_byte_limit rest (envelopes @ [e]) next_bytes)"

definition bounded_envelope_page ::
  "JournalEnvelope list \<Rightarrow> nat \<Rightarrow> JournalAnchor \<Rightarrow> nat \<Rightarrow> nat \<Rightarrow> JournalEnvelopePage" where
  "bounded_envelope_page retained start cursor row_limit payload_byte_limit =
    (let envelopes = page_loop row_limit payload_byte_limit (drop start retained) [] 0;
         consumed = length envelopes;
         nxt = (if envelopes = [] then cursor else env_current (last envelopes));
         has_more = start + consumed < length retained
     in \<lparr> page_envelopes = envelopes, page_next = nxt, page_has_more = has_more \<rparr>)"

section \<open>The process-local stream\<close>

record VolatileJournal =
  ordinary_fenced :: bool
  vj_checkpoint :: "JournalAnchor option"
  vj_tail :: "JournalAnchor option"
  vj_envelopes :: "JournalEnvelope list"

definition vj_new :: VolatileJournal where
  "vj_new = \<lparr> ordinary_fenced = False, vj_checkpoint = None, vj_tail = None, vj_envelopes = [] \<rparr>"

definition anchor_mismatch :: "JournalAnchor \<Rightarrow> JournalAnchor \<Rightarrow> error" where
  "anchor_mismatch requested expected = JournalAnchorMismatch (unat (anchor_seq requested)) (unat (anchor_seq expected))"

definition vj_initialize :: "JournalAnchor \<Rightarrow> VolatileJournal \<Rightarrow> unit result \<times> VolatileJournal" where
  "vj_initialize genesis s =
    (case vj_checkpoint s of
       Some existing \<Rightarrow>
         if existing = genesis then (Inr (), s) else (Inl (Fail (anchor_mismatch genesis existing)), s)
     | None \<Rightarrow> (Inr (), s\<lparr> ordinary_fenced := True, vj_checkpoint := Some genesis, vj_tail := Some genesis \<rparr>))"

definition vj_state :: "VolatileJournal \<Rightarrow> JournalState option" where
  "vj_state s =
    (case (vj_checkpoint s, vj_tail s) of
       (Some c, Some t) \<Rightarrow> Some \<lparr> js_checkpoint = c, js_tail = t \<rparr>
     | _ \<Rightarrow> None)"

definition vj_ensure_ordinary_writes_allowed :: "VolatileJournal \<Rightarrow> unit result" where
  "vj_ensure_ordinary_writes_allowed s =
    (if ordinary_fenced s then
       Inl (Fail (JournalStreamUnavailable ''ordinary writes are disabled after attached stream initialization''))
     else Inr ())"

definition vj_begin_attached :: "JournalAnchor \<Rightarrow> nat \<Rightarrow> VolatileJournal \<Rightarrow> unit result" where
  "vj_begin_attached expected_previous record_len s =
    (if record_len = 0 then Inl (Fail (Internal ''journal record must not be empty''))
     else if record_len > MAX_JOURNAL_RECORD_BYTES then
       Inl (Fail (WalRecordTooLarge record_len MAX_JOURNAL_RECORD_BYTES))
     else
       case vj_tail s of
         None \<Rightarrow> Inl (Fail (JournalStreamUnavailable ''stream has not been initialized''))
       | Some expected \<Rightarrow>
           if expected_previous \<noteq> expected then Inl (Fail (anchor_mismatch expected_previous expected)) else Inr ())"

definition vj_submit :: "JournalEnvelope \<Rightarrow> VolatileJournal \<Rightarrow> unit result \<times> VolatileJournal" where
  "vj_submit envelope s =
    (case vj_tail s of
       None \<Rightarrow> (Inl (Panic ''begin_attached initialized volatile tail''), s)
     | Some expected \<Rightarrow>
         if env_previous envelope \<noteq> expected then (Inl (Fail (anchor_mismatch (env_previous envelope) expected)), s)
         else (Inr (), s\<lparr> vj_tail := Some (env_current envelope), vj_envelopes := vj_envelopes s @ [envelope] \<rparr>))"

definition vj_do_checkpoint :: "VolatileJournal \<Rightarrow> VolatileJournal" where
  "vj_do_checkpoint s =
    (case vj_tail s of
       Some t \<Rightarrow> s\<lparr> vj_checkpoint := Some t, vj_envelopes := [] \<rparr>
     | None \<Rightarrow> s)"

text \<open>\<open>position\<close> of the first retained envelope whose current sequence is the cursor's.\<close>

definition envelope_position :: "u64 \<Rightarrow> JournalEnvelope list \<Rightarrow> nat option" where
  "envelope_position sq es = find (\<lambda>i. anchor_seq (env_current (es ! i)) = sq) [0 ..< length es]"

definition vj_envelopes_after ::
  "JournalAnchor \<Rightarrow> nat \<Rightarrow> nat \<Rightarrow> VolatileJournal \<Rightarrow> JournalEnvelopePage result" where
  "vj_envelopes_after cursor row_limit payload_byte_limit s =
    (if row_limit = 0 then Inl (Fail (InvalidJournalScanLimit ''row limit must be non-zero''))
     else
       case vj_checkpoint s of
         None \<Rightarrow> Inl (Fail (JournalStreamUnavailable ''stream has not been initialized''))
       | Some checkpoint \<Rightarrow>
           if anchor_seq cursor < anchor_seq checkpoint then
             Inl (Fail (JournalPositionExpired (unat (anchor_seq cursor)) (unat (anchor_seq checkpoint))))
           else
             rbind
               (if cursor = checkpoint then Inr 0
                else if anchor_seq cursor = anchor_seq checkpoint then Inl (Fail (anchor_mismatch cursor cursor))
                else
                  case envelope_position (anchor_seq cursor) (vj_envelopes s) of
                    Some index \<Rightarrow>
                      if env_current (vj_envelopes s ! index) \<noteq> cursor then Inl (Fail (anchor_mismatch cursor cursor))
                      else Inr (index + 1)
                  | None \<Rightarrow>
                      Inl (Fail (anchor_mismatch cursor
                        (case vj_tail s of Some t \<Rightarrow> t | None \<Rightarrow> checkpoint))))
               (\<lambda>start. Inr (bounded_envelope_page (vj_envelopes s) start cursor row_limit payload_byte_limit)))"

section \<open>Chains of envelopes\<close>

definition contiguous :: "JournalEnvelope \<Rightarrow> bool" where
  "contiguous e = (unat (anchor_seq (env_current e)) = unat (anchor_seq (env_previous e)) + 1)"

fun chain :: "JournalAnchor \<Rightarrow> JournalEnvelope list \<Rightarrow> JournalAnchor \<Rightarrow> bool" where
  "chain a [] b = (a = b)"
| "chain a (e # es) b = (env_previous e = a \<and> contiguous e \<and> chain (env_current e) es b)"

lemma u64_checked_add_Some: "u64_checked_add a b = Some c \<longleftrightarrow> unat a + unat b = unat c"
proof (cases "unat a + unat b < 2 ^ 64")
  case True
  then have "unat (a + b) = unat a + unat b" by (simp add: unat_word_ariths)
  then show ?thesis using True word_unat_eq_iff [of "a + b" c] by (simp add: u64_checked_add_def)
next
  case False
  then show ?thesis using unsigned_less [of c, where ?'a = nat] by (simp add: u64_checked_add_def)
qed

lemma envelope_new_Inr:
  "envelope_new p c pl = Inr e \<longleftrightarrow>
   e = \<lparr> env_previous = p, env_current = c, env_payload = pl \<rparr> \<and> contiguous e \<and> pl \<noteq> [] \<and> length pl < 2 ^ 32"
  by (auto simp: envelope_new_def contiguous_def u64_checked_add_Some)

lemma chain_append: "chain a (es @ [e]) b \<longleftrightarrow> (\<exists>m. chain a es m \<and> env_previous e = m \<and> contiguous e \<and> env_current e = b)"
  by (induction es arbitrary: a) auto

lemma chain_last: "chain a es b \<Longrightarrow> es \<noteq> [] \<Longrightarrow> env_current (last es) = b"
  by (induction es arbitrary: a) (auto split: if_splits)

lemma chain_seq:
  assumes "chain a es b" "i < length es"
  shows "unat (anchor_seq (env_current (es ! i))) = unat (anchor_seq a) + i + 1"
  using assms
proof (induction es arbitrary: a i)
  case (Cons e es)
  then show ?case by (cases i) (auto simp: contiguous_def)
qed simp

lemma chain_drop: "chain a es b \<Longrightarrow> i < length es \<Longrightarrow> chain (env_current (es ! i)) (drop (Suc i) es) b"
proof (induction es arbitrary: a i)
  case (Cons e es)
  then show ?case by (cases i) auto
qed simp

lemma chain_tail_seq: "chain a es b \<Longrightarrow> unat (anchor_seq b) = unat (anchor_seq a) + length es"
  using chain_seq [of a es b "length es - 1"] chain_last [of a es b] by (cases "es = []") (auto simp: last_conv_nth)

lemma find_upt_unique:
  assumes "i < n" "P i" "\<And>j. j < n \<Longrightarrow> P j \<Longrightarrow> j = i"
  shows "find P [0 ..< n] = Some i"
proof -
  have "\<not> P j" if "j < i" for j using assms(3) [of j] that assms(1) by auto
  with assms(1,2) show ?thesis unfolding find_Some_iff by (intro exI [of _ i]) simp
qed

lemma envelope_position_chain:
  assumes "chain a es b" "i < length es"
  shows "envelope_position (anchor_seq (env_current (es ! i))) es = Some i"
  unfolding envelope_position_def
proof (rule find_upt_unique [OF assms(2) refl])
  fix j assume "j < length es" "anchor_seq (env_current (es ! j)) = anchor_seq (env_current (es ! i))"
  then show "j = i" using chain_seq [OF assms] chain_seq [OF assms(1), of j] by simp
qed

lemma envelope_position_Some:
  "envelope_position sq es = Some i \<Longrightarrow> i < length es \<and> anchor_seq (env_current (es ! i)) = sq"
  by (auto simp: envelope_position_def find_Some_iff)

section \<open>The stream invariant\<close>

definition vj_inv :: "VolatileJournal \<Rightarrow> bool" where
  "vj_inv s =
    (case vj_checkpoint s of
       None \<Rightarrow> vj_tail s = None \<and> vj_envelopes s = [] \<and> \<not> ordinary_fenced s
     | Some c \<Rightarrow> ordinary_fenced s \<and> (\<exists>t. vj_tail s = Some t \<and> chain c (vj_envelopes s) t))"

inductive vj_step :: "VolatileJournal \<Rightarrow> VolatileJournal \<Rightarrow> bool" where
  initialize: "vj_initialize genesis s = (r, s') \<Longrightarrow> vj_step s s'"
| attach: "vj_begin_attached p n s = Inr () \<Longrightarrow> envelope_new q c pl = Inr e \<Longrightarrow> vj_submit e s = (r, s') \<Longrightarrow> vj_step s s'"
| checkpoint: "vj_step s (vj_do_checkpoint s)"

lemma vj_inv_new: "vj_inv vj_new"
  by (simp add: vj_inv_def vj_new_def)

lemma vj_submit_inv:
  assumes "vj_inv s" "contiguous e" "vj_submit e s = (r, s')"
  shows "vj_inv s'"
  using assms by (auto simp: vj_inv_def vj_submit_def chain_append split: option.splits if_splits)

lemma vj_step_inv: "vj_step s s' \<Longrightarrow> vj_inv s \<Longrightarrow> vj_inv s'"
proof (induction rule: vj_step.induct)
  case (initialize genesis s r s')
  then show ?case by (auto simp: vj_initialize_def vj_inv_def split: option.splits if_splits)
next
  case (attach p n s q c pl e r s')
  then have "contiguous e" unfolding envelope_new_Inr by blast
  then show ?case using attach vj_submit_inv by blast
next
  case (checkpoint s)
  then show ?case by (auto simp: vj_do_checkpoint_def vj_inv_def split: option.splits)
qed

theorem vj_reachable_inv: "vj_step\<^sup>*\<^sup>* vj_new s \<Longrightarrow> vj_inv s"
  by (induction rule: rtranclp_induct) (auto intro: vj_inv_new vj_step_inv)

text \<open>The tail never moves backwards and the fence is never lifted.\<close>

lemma vj_fence_kept: "vj_step s s' \<Longrightarrow> ordinary_fenced s \<Longrightarrow> ordinary_fenced s'"
proof (induction rule: vj_step.induct)
  case (initialize genesis s r s')
  then show ?case by (auto simp: vj_initialize_def split: option.splits if_splits)
next
  case (attach p n s q c pl e r s')
  then show ?case by (auto simp: vj_submit_def split: option.splits if_splits)
next
  case (checkpoint s)
  then show ?case by (simp add: vj_do_checkpoint_def split: option.splits)
qed

lemma vj_tail_forward:
  "vj_step s s' \<Longrightarrow> vj_inv s \<Longrightarrow> vj_tail s = Some t \<Longrightarrow>
   \<exists>t'. vj_tail s' = Some t' \<and> unat (anchor_seq t) \<le> unat (anchor_seq t')"
proof (induction rule: vj_step.induct)
  case (initialize genesis s r s')
  then show ?case by (auto simp: vj_initialize_def vj_inv_def split: option.splits if_splits)
next
  case (attach p n s q c pl e r s')
  then have "contiguous e" unfolding envelope_new_Inr by blast
  then show ?case using attach by (auto simp: vj_submit_def contiguous_def split: option.splits if_splits)
next
  case (checkpoint s)
  then show ?case by (simp add: vj_do_checkpoint_def)
qed

section \<open>Paging\<close>

lemma page_loop_take:
  "\<exists>k. page_loop r l rest acc n = acc @ take k rest \<and> (acc = [] \<and> rest \<noteq> [] \<and> 0 < r \<longrightarrow> 0 < k)
     \<and> (length acc \<le> r \<longrightarrow> length acc + k \<le> r \<or> k = 0)"
proof (induction r l rest acc n rule: page_loop.induct)
  case (1 r l acc n)
  show ?case by (intro exI [of _ 0]) simp
next
  case (2 r l e rest acc n)
  let ?nb = "usize_saturating_add n (length (env_payload e))"
  show ?case
  proof (cases "length acc = r \<or> acc \<noteq> [] \<and> ?nb > l")
    case True
    then show ?thesis by (intro exI [of _ 0]) (auto simp: Let_def)
  next
    case False
    then obtain k where "page_loop r l rest (acc @ [e]) ?nb = (acc @ [e]) @ take k rest"
        "length (acc @ [e]) \<le> r \<longrightarrow> length (acc @ [e]) + k \<le> r \<or> k = 0"
      using 2 by auto
    then show ?thesis using False by (intro exI [of _ "Suc k"]) (auto simp: Let_def)
  qed
qed

text \<open>The cursor after the first \<open>i\<close> retained envelopes.\<close>

definition cursor_at :: "JournalAnchor \<Rightarrow> JournalEnvelope list \<Rightarrow> nat \<Rightarrow> JournalAnchor" where
  "cursor_at c es i = (if i = 0 then c else env_current (es ! (i - 1)))"

lemma bounded_page_spec:
  assumes "start < length es" "0 < r"
  obtains k where "0 < k" "start + k \<le> length es" "k \<le> r"
    "bounded_envelope_page es start cursor r l =
      \<lparr> page_envelopes = take k (drop start es), page_next = cursor_at c es (start + k), page_has_more = (start + k < length es) \<rparr>"
proof -
  obtain k where k: "page_loop r l (drop start es) [] 0 = take k (drop start es)" "0 < k" "k \<le> r"
    using page_loop_take [of r l "drop start es" "[]" 0] assms by auto
  define m where "m = min k (length es - start)"
  have m: "page_loop r l (drop start es) [] 0 = take m (drop start es)" "0 < m" "start + m \<le> length es" "m \<le> r"
    using k assms by (auto simp: m_def min_def)
  have "last (take m (drop start es)) = es ! (start + m - 1)"
    using m assms(1) by (subst last_conv_nth) auto
  with m show ?thesis
    by (intro that [of m]) (auto simp: bounded_envelope_page_def Let_def cursor_at_def)
qed

lemma bounded_page_end:
  assumes "length es \<le> start"
  shows "bounded_envelope_page es start cursor r l = \<lparr> page_envelopes = [], page_next = cursor, page_has_more = False \<rparr>"
  using assms by (simp add: bounded_envelope_page_def Let_def)

lemma envelopes_after_at:
  assumes "vj_inv s" "vj_checkpoint s = Some c" "i \<le> length (vj_envelopes s)" "0 < r"
  shows "vj_envelopes_after (cursor_at c (vj_envelopes s) i) r l s =
    Inr (bounded_envelope_page (vj_envelopes s) i (cursor_at c (vj_envelopes s) i) r l)"
proof (cases "i = 0")
  case True
  then show ?thesis using assms(2,4) by (simp add: vj_envelopes_after_def cursor_at_def)
next
  case False
  let ?es = "vj_envelopes s" and ?a = "env_current (vj_envelopes s ! (i - 1))"
  obtain t where ch: "chain c ?es t" using assms(1,2) by (auto simp: vj_inv_def)
  have lt: "i - 1 < length ?es" using False assms(3) by simp
  have sq: "unat (anchor_seq ?a) = unat (anchor_seq c) + i" using chain_seq [OF ch lt] False by simp
  then have "\<not> anchor_seq ?a < anchor_seq c" "anchor_seq ?a \<noteq> anchor_seq c"
    using False by (auto simp: word_less_nat_alt)
  then show ?thesis
    using False assms(2,4) envelope_position_chain [OF ch lt] by (auto simp: vj_envelopes_after_def cursor_at_def)
qed

text \<open>A reader that follows the cursors until no page is left.\<close>

fun read_pages :: "nat \<Rightarrow> nat \<Rightarrow> nat \<Rightarrow> JournalAnchor \<Rightarrow> VolatileJournal \<Rightarrow> JournalEnvelope list result option" where
  "read_pages 0 r l cursor s = None"
| "read_pages (Suc fuel) r l cursor s =
    (case vj_envelopes_after cursor r l s of
       Inl e \<Rightarrow> Some (Inl e)
     | Inr page \<Rightarrow>
         if page_has_more page
         then map_option (map_sum id ((@) (page_envelopes page))) (read_pages fuel r l (page_next page) s)
         else Some (Inr (page_envelopes page)))"

lemma read_pages_from:
  assumes "vj_inv s" "vj_checkpoint s = Some c" "0 < r"
  shows "i \<le> length (vj_envelopes s) \<Longrightarrow> length (vj_envelopes s) - i < n \<Longrightarrow>
    read_pages n r l (cursor_at c (vj_envelopes s) i) s = Some (Inr (drop i (vj_envelopes s)))"
proof (induction n arbitrary: i)
  case (Suc n)
  let ?es = "vj_envelopes s"
  note at = envelopes_after_at [OF assms(1,2) Suc.prems(1) assms(3), of l]
  show ?case
  proof (cases "i = length ?es")
    case True
    then show ?thesis using at by (simp add: bounded_page_end)
  next
    case False
    with Suc.prems(1) have lt: "i < length ?es" by simp
    obtain k where k: "0 < k" "i + k \<le> length ?es"
        "bounded_envelope_page ?es i (cursor_at c ?es i) r l =
          \<lparr> page_envelopes = take k (drop i ?es), page_next = cursor_at c ?es (i + k), page_has_more = (i + k < length ?es) \<rparr>"
      by (rule bounded_page_spec [OF lt assms(3)])
    have "drop i ?es = take k (drop i ?es) @ drop (i + k) ?es"
      using append_take_drop_id [of k "drop i ?es"] by (simp add: add.commute)
    moreover have "read_pages n r l (cursor_at c ?es (i + k)) s = Some (Inr (drop (i + k) ?es))"
      if "i + k < length ?es" using that k Suc.prems(2) by (intro Suc.IH) auto
    ultimately show ?thesis using at k by (auto split: if_splits)
  qed
qed simp

theorem read_pages_complete:
  assumes "vj_inv s" "vj_checkpoint s = Some c" "0 < r"
  shows "read_pages (Suc (length (vj_envelopes s))) r l c s = Some (Inr (vj_envelopes s))"
  using read_pages_from [OF assms, of 0 "Suc (length (vj_envelopes s))" l] by (simp add: cursor_at_def del: read_pages.simps)

end
