(* ===== verification/Wal_Codec.thy ===== *)
theory Wal_Codec
  imports Journal_Stream
begin

text \<open>The write-ahead log codec (\<^verbatim>\<open>src/src/journal/codec.rs\<close>, \<^verbatim>\<open>src/src/journal/wal_op.rs\<close>): file header, record
  encoders, the streaming batch encoder and the record decoder.  The checksum \<^verbatim>\<open>crc32fast::hash\<close> is the
  parameter \<open>crc\<close> of every definition that uses it.  Encoders return the bytes they append; a failed
  \<^verbatim>\<open>expect\<close> or \<^verbatim>\<open>assert!\<close> is a panic value.\<close>

section \<open>Constants\<close>

definition RECORD_MAGIC :: u32 where "RECORD_MAGIC = 0x52434552"
definition RECORD_HEADER_SIZE :: nat where "RECORD_HEADER_SIZE = 4 + 4 + 8 + 1"
definition RECORD_FOOTER_SIZE :: nat where "RECORD_FOOTER_SIZE = 4"
definition FILE_MAGIC :: u32 where "FILE_MAGIC = 0x414C4157"
definition LEGACY_FORMAT_VERSION :: u32 where "LEGACY_FORMAT_VERSION = 3"
definition FORMAT_VERSION :: u32 where "FORMAT_VERSION = 4"
definition LEGACY_FILE_HEADER_SIZE :: nat where "LEGACY_FILE_HEADER_SIZE = 32"
definition FILE_HEADER_SIZE :: nat where "FILE_HEADER_SIZE = 4096"
definition ANCHOR_SLOT_MAGIC :: u32 where "ANCHOR_SLOT_MAGIC = 0x52484341"
definition ANCHOR_SLOT_VERSION :: u32 where "ANCHOR_SLOT_VERSION = 1"
definition ANCHOR_SLOT_SIZE :: nat where "ANCHOR_SLOT_SIZE = 128"
definition ANCHOR_SLOT_OFFSETS :: "nat list" where "ANCHOR_SLOT_OFFSETS = [64, 64 + ANCHOR_SLOT_SIZE]"
definition ANCHOR_SLOT_CHECKSUM_OFFSET :: nat where "ANCHOR_SLOT_CHECKSUM_OFFSET = 64"
definition ANCHOR_SLOT_FLAG_INITIALIZED :: u64 where "ANCHOR_SLOT_FLAG_INITIALIZED = 1"
definition TY_INSERT :: u8 where "TY_INSERT = 0"
definition TY_ERASE :: u8 where "TY_ERASE = 1"
definition TY_RENAME_OBJECT :: u8 where "TY_RENAME_OBJECT = 5"
definition TY_BATCH :: u8 where "TY_BATCH = 10"
definition TY_BATCH_INSERT_RUN :: u8 where "TY_BATCH_INSERT_RUN = 11"
definition TY_BATCH_INSERT_PREFIX_RUN :: u8 where "TY_BATCH_INSERT_PREFIX_RUN = 12"
definition TY_DB_BATCH_WITH_ENVELOPE :: u8 where "TY_DB_BATCH_WITH_ENVELOPE = 13"
definition JOURNAL_ENVELOPE_WIRE_VERSION :: u8 where "JOURNAL_ENVELOPE_WIRE_VERSION = 1"

lemmas ty_defs = TY_INSERT_def TY_ERASE_def TY_RENAME_OBJECT_def TY_BATCH_def TY_BATCH_INSERT_RUN_def
  TY_BATCH_INSERT_PREFIX_RUN_def TY_DB_BATCH_WITH_ENVELOPE_def

lemmas record_sizes = RECORD_HEADER_SIZE_def RECORD_FOOTER_SIZE_def

lemmas header_sizes = LEGACY_FILE_HEADER_SIZE_def FILE_HEADER_SIZE_def ANCHOR_SLOT_SIZE_def
  ANCHOR_SLOT_OFFSETS_def ANCHOR_SLOT_CHECKSUM_OFFSET_def

type_synonym crc = "bytes \<Rightarrow> u32"

definition sanity :: "string \<Rightarrow> fault" where
  "sanity context = Fail (ReplaySanityFailed context 0)"

section \<open>Operations\<close>

datatype WalOp =
  WalInsert u64 bytes bytes
| WalErase u64 bytes
| RenameObject u64 bytes bytes bool
| Batch "WalOp list"
| DbBatchWithEnvelope JournalEnvelope "WalOp list"

fun wal_tree_id :: "WalOp \<Rightarrow> u64 option" where
  "wal_tree_id (WalInsert tree_id key val) = Some tree_id"
| "wal_tree_id (WalErase tree_id key) = Some tree_id"
| "wal_tree_id (RenameObject tree_id src_key dst_key force) = Some tree_id"
| "wal_tree_id (Batch ops) = None"
| "wal_tree_id (DbBatchWithEnvelope envelope ops) = None"

section \<open>File header\<close>

record FileHeader =
  fh_version :: u32
  fh_tree_id :: u64
  fh_created_at :: u64
  fh_checkpoint_anchor :: "JournalAnchor option"
  fh_anchor_generation :: u64

text \<open>\<open>now\<close> takes the wall clock's seconds as an argument.\<close>

definition file_header_now :: "u64 \<Rightarrow> u64 \<Rightarrow> FileHeader" where
  "file_header_now secs tree_id =
    \<lparr> fh_version = FORMAT_VERSION, fh_tree_id = tree_id, fh_created_at = secs,
      fh_checkpoint_anchor = None, fh_anchor_generation = 0 \<rparr>"

definition record_offset :: "FileHeader \<Rightarrow> nat" where
  "record_offset h = (if fh_version h = LEGACY_FORMAT_VERSION then LEGACY_FILE_HEADER_SIZE else FILE_HEADER_SIZE)"

text \<open>Overwrite a run of bytes of a buffer, as \<^verbatim>\<open>copy_from_slice\<close> on a sub-slice does.\<close>

definition patch_at :: "bytes \<Rightarrow> nat \<Rightarrow> bytes \<Rightarrow> bytes" where
  "patch_at out pos bs = take pos out @ bs @ drop (pos + length bs) out"

definition encode_anchor_slot :: "crc \<Rightarrow> JournalAnchor \<Rightarrow> u64 \<Rightarrow> bytes" where
  "encode_anchor_slot crc anchor generation =
    (let slot = u32_bytes ANCHOR_SLOT_MAGIC @ u32_bytes ANCHOR_SLOT_VERSION @ u64_bytes generation
                  @ u64_bytes ANCHOR_SLOT_FLAG_INITIALIZED @ u64_bytes (anchor_seq anchor) @ anchor_digest anchor
                  @ replicate (ANCHOR_SLOT_SIZE - ANCHOR_SLOT_CHECKSUM_OFFSET) 0
     in patch_at slot ANCHOR_SLOT_CHECKSUM_OFFSET (u32_bytes (crc (take ANCHOR_SLOT_CHECKSUM_OFFSET slot))))"

definition anchor_slot_index :: "u64 \<Rightarrow> nat" where
  "anchor_slot_index generation = unat (Bit_Operations.and (generation - 1) 1)"

definition encode_file_header :: "crc \<Rightarrow> FileHeader \<Rightarrow> bytes" where
  "encode_file_header crc h =
    (let base = u32_bytes FILE_MAGIC @ u32_bytes (fh_version h) @ u64_bytes (fh_tree_id h) @ u64_bytes (fh_created_at h)
     in if fh_version h = LEGACY_FORMAT_VERSION then base @ u64_bytes 0
        else
          let out = base @ u64_bytes (word_of_nat FILE_HEADER_SIZE) @ replicate (FILE_HEADER_SIZE - 32) 0
          in case fh_checkpoint_anchor h of
               None \<Rightarrow> out
             | Some anchor \<Rightarrow>
                 patch_at out (ANCHOR_SLOT_OFFSETS ! anchor_slot_index (fh_anchor_generation h))
                   (encode_anchor_slot crc anchor (fh_anchor_generation h)))"

definition sub :: "bytes \<Rightarrow> nat \<Rightarrow> nat \<Rightarrow> bytes" where
  "sub buf a b = take (b - a) (drop a buf)"

definition decode_anchor_slot :: "crc \<Rightarrow> bytes \<Rightarrow> (JournalAnchor \<times> u64) option" where
  "decode_anchor_slot crc slot =
    (if length slot \<noteq> ANCHOR_SLOT_SIZE then None
     else
       let magic = u32_of_bytes (sub slot 0 4); version = u32_of_bytes (sub slot 4 8);
           generation = u64_of_bytes (sub slot 8 16); flags = u64_of_bytes (sub slot 16 24) in
       if magic \<noteq> ANCHOR_SLOT_MAGIC \<or> version \<noteq> ANCHOR_SLOT_VERSION \<or> generation = 0
          \<or> flags \<noteq> ANCHOR_SLOT_FLAG_INITIALIZED then None
       else
         let expected = u32_of_bytes (sub slot ANCHOR_SLOT_CHECKSUM_OFFSET (ANCHOR_SLOT_CHECKSUM_OFFSET + 4)) in
         if crc (take ANCHOR_SLOT_CHECKSUM_OFFSET slot) \<noteq> expected then None
         else Some (\<lparr> anchor_seq = u64_of_bytes (sub slot 24 32), anchor_digest = sub slot 32 64 \<rparr>, generation))"

definition anchor_slot_of :: "bytes \<Rightarrow> nat \<Rightarrow> bytes" where
  "anchor_slot_of buf offset = sub buf offset (offset + ANCHOR_SLOT_SIZE)"

definition decode_checkpoint_anchor :: "crc \<Rightarrow> bytes \<Rightarrow> (JournalAnchor option \<times> u64) result" where
  "decode_checkpoint_anchor crc buf =
    (let slots = map (anchor_slot_of buf) ANCHOR_SLOT_OFFSETS;
         nonzero_slots = length (filter (list_ex (\<lambda>b. b \<noteq> 0)) slots);
         valid = List.map_filter (decode_anchor_slot crc) slots in
     if valid = [] then
       (if nonzero_slots > 1 then Inl (sanity ''WAL checkpoint anchor slots corrupt'') else Inr (None, 0))
     else
       let sorted = sort_key snd valid in
       if length sorted = 2 \<and> snd (sorted ! 0) = snd (sorted ! 1) \<and> fst (sorted ! 0) \<noteq> fst (sorted ! 1) then
         Inl (sanity ''WAL checkpoint anchor generations conflict'')
       else Inr (Some (fst (last sorted)), snd (last sorted)))"

definition decode_file_header :: "crc \<Rightarrow> bytes \<Rightarrow> FileHeader result" where
  "decode_file_header crc buf =
    (if length buf < LEGACY_FILE_HEADER_SIZE then Inl (sanity ''WAL file header truncated'')
     else if u32_of_bytes (sub buf 0 4) \<noteq> FILE_MAGIC then Inl (sanity ''WAL file magic mismatch'')
     else
       let version = u32_of_bytes (sub buf 4 8) in
       if version \<noteq> LEGACY_FORMAT_VERSION \<and> version \<noteq> FORMAT_VERSION then
         Inl (sanity ''WAL file format version unsupported'')
       else if length buf < (if version = LEGACY_FORMAT_VERSION then LEGACY_FILE_HEADER_SIZE else FILE_HEADER_SIZE) then
         Inl (sanity ''WAL file header truncated'')
       else if version = FORMAT_VERSION \<and> u64_of_bytes (sub buf 24 32) \<noteq> word_of_nat FILE_HEADER_SIZE then
         Inl (sanity ''WAL format-4 header size mismatch'')
       else
         rbind (if version = FORMAT_VERSION then decode_checkpoint_anchor crc buf else Inr (None, 0))
           (\<lambda>(checkpoint_anchor, anchor_generation).
              Inr \<lparr> fh_version = version, fh_tree_id = u64_of_bytes (sub buf 8 16),
                    fh_created_at = u64_of_bytes (sub buf 16 24),
                    fh_checkpoint_anchor = checkpoint_anchor, fh_anchor_generation = anchor_generation \<rparr>))"

definition file_header_size_from_prefix :: "bytes \<Rightarrow> nat result" where
  "file_header_size_from_prefix pfx =
    (if length pfx < 8 then Inl (sanity ''WAL file header truncated'')
     else if u32_of_bytes (sub pfx 0 4) \<noteq> FILE_MAGIC then Inl (sanity ''WAL file magic mismatch'')
     else
       let v = u32_of_bytes (sub pfx 4 8) in
       if v = LEGACY_FORMAT_VERSION then Inr LEGACY_FILE_HEADER_SIZE
       else if v = FORMAT_VERSION then Inr FILE_HEADER_SIZE
       else Inl (sanity ''WAL file format version unsupported''))"

section \<open>Encoders\<close>

definition write_bytes :: "bytes \<Rightarrow> bytes result" where
  "write_bytes b =
    (if length b \<ge> 2 ^ 32 then Inl (Panic ''byte string fits in u32'')
     else Inr (u32_bytes (word_of_nat (length b)) @ b))"

definition record_header :: "u32 \<Rightarrow> u64 \<Rightarrow> u8 \<Rightarrow> bytes" where
  "record_header body_len sq ty = u32_bytes RECORD_MAGIC @ u32_bytes body_len @ u64_bytes sq @ [ty]"

text \<open>\<open>body\<close> is what the \<^verbatim>\<open>write_body\<close> closure appends.\<close>

definition write_record :: "crc \<Rightarrow> bytes \<Rightarrow> u64 \<Rightarrow> u8 \<Rightarrow> bytes result \<Rightarrow> bytes result" where
  "write_record crc out sq ty body =
    rbind body (\<lambda>b.
      if length b \<ge> 2 ^ 32 then Inl (Panic ''body fits in u32'')
      else
        let rec = record_header (word_of_nat (length b)) sq ty @ b
        in Inr (out @ rec @ u32_bytes (crc rec)))"

definition encode_insert_record :: "crc \<Rightarrow> bytes \<Rightarrow> u64 \<Rightarrow> u64 \<Rightarrow> bytes \<Rightarrow> bytes \<Rightarrow> bytes result" where
  "encode_insert_record crc out sq tree_id key val =
    write_record crc out sq TY_INSERT
      (rbind (write_bytes key) (\<lambda>k. rbind (write_bytes val) (\<lambda>v. Inr (u64_bytes tree_id @ k @ v))))"

definition encoded_insert_record_len :: "nat \<Rightarrow> nat \<Rightarrow> nat" where
  "encoded_insert_record_len key_len value_len = RECORD_HEADER_SIZE + 8 + 4 + key_len + 4 + value_len + RECORD_FOOTER_SIZE"

definition encode_erase_record :: "crc \<Rightarrow> bytes \<Rightarrow> u64 \<Rightarrow> u64 \<Rightarrow> bytes \<Rightarrow> bytes result" where
  "encode_erase_record crc out sq tree_id key =
    write_record crc out sq TY_ERASE (rbind (write_bytes key) (\<lambda>k. Inr (u64_bytes tree_id @ k)))"

definition encoded_erase_record_len :: "nat \<Rightarrow> nat" where
  "encoded_erase_record_len key_len = RECORD_HEADER_SIZE + 8 + 4 + key_len + RECORD_FOOTER_SIZE"

definition encode_rename_object_record ::
  "crc \<Rightarrow> bytes \<Rightarrow> u64 \<Rightarrow> u64 \<Rightarrow> bytes \<Rightarrow> bytes \<Rightarrow> bool \<Rightarrow> bytes result" where
  "encode_rename_object_record crc out sq tree_id src_key dst_key force =
    write_record crc out sq TY_RENAME_OBJECT
      (rbind (write_bytes src_key) (\<lambda>s. rbind (write_bytes dst_key) (\<lambda>d.
         Inr (u64_bytes tree_id @ s @ d @ [of_bool force]))))"

definition encoded_rename_object_record_len :: "nat \<Rightarrow> nat \<Rightarrow> nat" where
  "encoded_rename_object_record_len src_key_len dst_key_len =
    RECORD_HEADER_SIZE + 8 + 4 + src_key_len + 4 + dst_key_len + 1 + RECORD_FOOTER_SIZE"

fun variant_tag :: "WalOp \<Rightarrow> u8" where
  "variant_tag (WalInsert tree_id key val) = TY_INSERT"
| "variant_tag (WalErase tree_id key) = TY_ERASE"
| "variant_tag (RenameObject tree_id src_key dst_key force) = TY_RENAME_OBJECT"
| "variant_tag (Batch ops) = TY_BATCH"
| "variant_tag (DbBatchWithEnvelope envelope ops) = TY_DB_BATCH_WITH_ENVELOPE"

definition encoded_journal_envelope_len :: "bytes \<Rightarrow> nat" where
  "encoded_journal_envelope_len payload = 1 + 8 + JOURNAL_DIGEST_BYTES + 8 + JOURNAL_DIGEST_BYTES + 4 + length payload"

definition encode_journal_envelope :: "JournalEnvelope \<Rightarrow> bytes result" where
  "encode_journal_envelope e =
    rbind (write_bytes (env_payload e)) (\<lambda>p.
      Inr (JOURNAL_ENVELOPE_WIRE_VERSION # u64_bytes (anchor_seq (env_previous e)) @ anchor_digest (env_previous e)
             @ u64_bytes (anchor_seq (env_current e)) @ anchor_digest (env_current e) @ p))"

text \<open>\<open>encode_ops\<close> is the loop over the inner operations of a batch.\<close>

fun encode_body :: "WalOp \<Rightarrow> bytes result" and encode_ops :: "WalOp list \<Rightarrow> bytes result" where
  "encode_body (WalInsert tree_id key val) =
    rbind (write_bytes key) (\<lambda>k. rbind (write_bytes val) (\<lambda>v. Inr (u64_bytes tree_id @ k @ v)))"
| "encode_body (WalErase tree_id key) = rbind (write_bytes key) (\<lambda>k. Inr (u64_bytes tree_id @ k))"
| "encode_body (RenameObject tree_id src_key dst_key force) =
    rbind (write_bytes src_key) (\<lambda>s. rbind (write_bytes dst_key) (\<lambda>d. Inr (u64_bytes tree_id @ s @ d @ [of_bool force])))"
| "encode_body (Batch ops) =
    (if length ops \<ge> 2 ^ 32 then Inl (Panic ''batch ops fit in u32'')
     else rbind (encode_ops ops) (\<lambda>b. Inr (u64_bytes 0 @ u32_bytes (word_of_nat (length ops)) @ b)))"
| "encode_body (DbBatchWithEnvelope envelope ops) =
    (if length ops \<ge> 2 ^ 32 then Inl (Panic ''batch ops fit in u32'')
     else
       rbind (encode_journal_envelope envelope) (\<lambda>e.
       rbind (encode_ops ops) (\<lambda>b. Inr (u64_bytes 0 @ u32_bytes (word_of_nat (length ops)) @ e @ b))))"
| "encode_ops [] = Inr []"
| "encode_ops (inner # rest) =
    (if variant_tag inner = TY_BATCH \<or> variant_tag inner = TY_DB_BATCH_WITH_ENVELOPE then
       Inl (Panic ''nested Batch is rejected'')
     else rbind (encode_body inner) (\<lambda>b. rbind (encode_ops rest) (\<lambda>r. Inr (variant_tag inner # b @ r))))"

definition encode_record :: "crc \<Rightarrow> WalOp \<Rightarrow> u64 \<Rightarrow> bytes \<Rightarrow> bytes result" where
  "encode_record crc op sq out = write_record crc out sq (variant_tag op) (encode_body op)"

section \<open>The streaming batch encoder\<close>

record BatchEncoder =
  be_out :: bytes
  be_start :: nat
  be_len_pos :: nat
  be_body_start :: nat
  be_count_pos :: nat
  be_inner_count :: u32

definition begin_record :: "bytes \<Rightarrow> u64 \<Rightarrow> u64 \<Rightarrow> u8 \<Rightarrow> JournalEnvelope option \<Rightarrow> BatchEncoder result" where
  "begin_record out sq tree_id ty envelope =
    (let start = length out;
         len_pos = start + 4;
         body_start = start + RECORD_HEADER_SIZE;
         count_pos = body_start + 8 in
     rbind (case envelope of None \<Rightarrow> Inr [] | Some e \<Rightarrow> encode_journal_envelope e) (\<lambda>env.
       Inr \<lparr> be_out = out @ u32_bytes RECORD_MAGIC @ replicate 4 0 @ u64_bytes sq @ [ty]
                      @ u64_bytes tree_id @ replicate 4 0 @ env,
             be_start = start, be_len_pos = len_pos, be_body_start = body_start, be_count_pos = count_pos,
             be_inner_count = 0 \<rparr>))"

definition batch_begin :: "bytes \<Rightarrow> u64 \<Rightarrow> u64 \<Rightarrow> BatchEncoder result" where
  "batch_begin out sq tree_id = begin_record out sq tree_id TY_BATCH None"

definition begin_with_envelope :: "bytes \<Rightarrow> u64 \<Rightarrow> u64 \<Rightarrow> JournalEnvelope \<Rightarrow> BatchEncoder result" where
  "begin_with_envelope out sq tree_id envelope = begin_record out sq tree_id TY_DB_BATCH_WITH_ENVELOPE (Some envelope)"

definition be_push :: "BatchEncoder \<Rightarrow> u32 \<Rightarrow> bytes \<Rightarrow> BatchEncoder" where
  "be_push be n bs = be\<lparr> be_out := be_out be @ bs, be_inner_count := be_inner_count be + n \<rparr>"

definition push_insert :: "u64 \<Rightarrow> bytes \<Rightarrow> bytes \<Rightarrow> BatchEncoder \<Rightarrow> BatchEncoder result" where
  "push_insert tree_id key val be =
    rbind (write_bytes key) (\<lambda>k. rbind (write_bytes val) (\<lambda>v. Inr (be_push be 1 (TY_INSERT # u64_bytes tree_id @ k @ v))))"

definition push_insert_run ::
  "u64 \<Rightarrow> nat \<Rightarrow> nat \<Rightarrow> nat \<Rightarrow> (bytes \<times> bytes) list \<Rightarrow> BatchEncoder \<Rightarrow> BatchEncoder result" where
  "push_insert_run tree_id cnt key_len value_len items be =
    (if cnt = 1 then
       (case items of
          [] \<Rightarrow> Inl (Panic ''single insert run has one item'')
        | (key, val) # rest \<Rightarrow> push_insert tree_id key val be)
     else if cnt \<ge> 2 ^ 32 then Inl (Panic ''insert run count fits in u32'')
     else if key_len \<ge> 2 ^ 32 then Inl (Panic ''key length fits in u32'')
     else if value_len \<ge> 2 ^ 32 then Inl (Panic ''value length fits in u32'')
     else if length items \<noteq> cnt then Inl (Panic ''insert run item count mismatch'')
     else
       Inr (be_push be (word_of_nat cnt)
         (TY_BATCH_INSERT_RUN # u64_bytes tree_id @ u32_bytes (word_of_nat cnt) @ u32_bytes (word_of_nat key_len)
           @ u32_bytes (word_of_nat value_len) @ concat (map (\<lambda>(key, val). key @ val) items))))"

text \<open>The items of a prefix run: each key without the shared prefix (\<^verbatim>\<open>&key[prefix.len()..]\<close> panics on a
  shorter key), then its value.\<close>

fun write_suffixes :: "nat \<Rightarrow> (bytes \<times> bytes) list \<Rightarrow> bytes result" where
  "write_suffixes plen [] = Inr []"
| "write_suffixes plen ((key, val) # items) =
    (if length key < plen then Inl (Panic ''slice'')
     else
       rbind (write_bytes (drop plen key)) (\<lambda>s. rbind (write_bytes val) (\<lambda>v.
       rbind (write_suffixes plen items) (\<lambda>r. Inr (s @ v @ r)))))"

definition push_insert_prefix_run ::
  "u64 \<Rightarrow> bytes \<Rightarrow> nat \<Rightarrow> (bytes \<times> bytes) list \<Rightarrow> BatchEncoder \<Rightarrow> BatchEncoder result" where
  "push_insert_prefix_run tree_id pfx cnt items be =
    (if cnt = 1 then
       (case items of
          [] \<Rightarrow> Inl (Panic ''single prefix run has one item'')
        | (key, val) # rest \<Rightarrow> push_insert tree_id key val be)
     else if cnt \<ge> 2 ^ 32 then Inl (Panic ''insert prefix run count fits in u32'')
     else
       rbind (write_bytes pfx) (\<lambda>p.
       rbind (write_suffixes (length pfx) items) (\<lambda>r.
         if length items \<noteq> cnt then Inl (Panic ''insert prefix run item count mismatch'')
         else
           Inr (be_push be (word_of_nat cnt)
             (TY_BATCH_INSERT_PREFIX_RUN # u64_bytes tree_id @ u32_bytes (word_of_nat cnt) @ p @ r)))))"

definition push_erase :: "u64 \<Rightarrow> bytes \<Rightarrow> BatchEncoder \<Rightarrow> BatchEncoder result" where
  "push_erase tree_id key be = rbind (write_bytes key) (\<lambda>k. Inr (be_push be 1 (TY_ERASE # u64_bytes tree_id @ k)))"

definition push_rename_object :: "u64 \<Rightarrow> bytes \<Rightarrow> bytes \<Rightarrow> bool \<Rightarrow> BatchEncoder \<Rightarrow> BatchEncoder result" where
  "push_rename_object tree_id src dst force be =
    rbind (write_bytes src) (\<lambda>s. rbind (write_bytes dst) (\<lambda>d.
      Inr (be_push be 1 (TY_RENAME_OBJECT # u64_bytes tree_id @ s @ d @ [of_bool force]))))"

text \<open>\<open>be_finish\<close> returns the inner count and the buffer.  \<open>be_drop\<close> is the \<^verbatim>\<open>Drop\<close> of an unfinished encoder.\<close>

definition be_finish :: "crc \<Rightarrow> BatchEncoder \<Rightarrow> (u32 \<times> bytes) result" where
  "be_finish crc be =
    (let body_end = length (be_out be) in
     if body_end - be_body_start be \<ge> 2 ^ 32 then Inl (Panic ''batch body fits in u32'')
     else
       let body_len = word_of_nat (body_end - be_body_start be) :: u32;
           out1 = patch_at (be_out be) (be_count_pos be) (u32_bytes (be_inner_count be));
           out2 = patch_at out1 (be_len_pos be) (u32_bytes body_len)
       in Inr (be_inner_count be, out2 @ u32_bytes (crc (sub out2 (be_start be) body_end))))"

definition be_drop :: "BatchEncoder \<Rightarrow> bytes" where
  "be_drop be = take (be_start be) (be_out be)"

record EncodedAttachedRecord =
  ear_bytes :: bytes
  ear_envelope :: JournalEnvelope

definition encode_attached_batch_record ::
  "crc \<Rightarrow> bytes \<Rightarrow> u64 \<Rightarrow> u64 \<Rightarrow> JournalEnvelope \<Rightarrow> (BatchEncoder \<Rightarrow> BatchEncoder result) \<Rightarrow> EncodedAttachedRecord result" where
  "encode_attached_batch_record crc buf sq tree_id envelope encode_inner =
    (if buf \<noteq> [] then Inl (Fail (Internal ''attached record buffer must be empty before encoding''))
     else
       rbind (begin_with_envelope buf sq tree_id envelope) (\<lambda>be.
       rbind (encode_inner be) (\<lambda>be'.
       rbind (be_finish crc be') (\<lambda>(n, out). Inr \<lparr> ear_bytes = out, ear_envelope = envelope \<rparr>))))"

section \<open>Decoders\<close>

text \<open>A reader consumes a front part of the cursor and returns the rest.\<close>

type_synonym 'a reader = "bytes \<Rightarrow> ('a \<times> bytes) result"

definition take_bytes :: "nat \<Rightarrow> bytes reader" where
  "take_bytes n buf = (if length buf < n then Inl (sanity ''body truncated'') else Inr (take n buf, drop n buf))"

definition rdo :: "'a reader \<Rightarrow> ('a \<Rightarrow> 'b reader) \<Rightarrow> 'b reader" where
  "rdo m k body = rbind (m body) (\<lambda>(a, rest). k a rest)"

definition give :: "'a \<Rightarrow> 'a reader" where
  "give a body = Inr (a, body)"

definition refuse :: "string \<Rightarrow> 'a reader" where
  "refuse context body = Inl (sanity context)"

definition read_u8 :: "u8 reader" where
  "read_u8 = rdo (take_bytes 1) (\<lambda>front. give (front ! 0))"

definition read_u32 :: "u32 reader" where
  "read_u32 = rdo (take_bytes 4) (\<lambda>front. give (u32_of_bytes front))"

definition read_u64 :: "u64 reader" where
  "read_u64 = rdo (take_bytes 8) (\<lambda>front. give (u64_of_bytes front))"

definition read_digest :: "bytes reader" where
  "read_digest = take_bytes JOURNAL_DIGEST_BYTES"

definition read_bytes :: "bytes reader" where
  "read_bytes = rdo read_u32 (\<lambda>len. take_bytes (unat len))"

definition decode_journal_envelope :: "JournalEnvelope reader" where
  "decode_journal_envelope =
    rdo read_u8 (\<lambda>wire_version.
      if wire_version \<noteq> JOURNAL_ENVELOPE_WIRE_VERSION then refuse ''journal envelope wire version unsupported''
      else
        rdo read_u64 (\<lambda>previous_sequence.
        rdo read_digest (\<lambda>previous_digest.
        rdo read_u64 (\<lambda>current_sequence.
        rdo read_digest (\<lambda>current_digest.
        rdo read_bytes (\<lambda>payload.
          case envelope_new \<lparr> anchor_seq = previous_sequence, anchor_digest = previous_digest \<rparr>
                 \<lparr> anchor_seq = current_sequence, anchor_digest = current_digest \<rparr> payload of
            Inr e \<Rightarrow> give e
          | Inl (NonContiguousSequence a b) \<Rightarrow> refuse ''journal envelope sequence is not contiguous''
          | Inl EmptyPayload \<Rightarrow> refuse ''journal envelope payload is empty''
          | Inl (PayloadTooLarge n) \<Rightarrow> refuse ''journal envelope payload is too large''))))))"

text \<open>The \<^verbatim>\<open>for _ in 0..count\<close> loops of the two run decoders.\<close>

primrec read_run_items :: "nat \<Rightarrow> u64 \<Rightarrow> nat \<Rightarrow> nat \<Rightarrow> WalOp list reader" where
  "read_run_items 0 tree_id key_len value_len = give []"
| "read_run_items (Suc n) tree_id key_len value_len =
    rdo (take_bytes key_len) (\<lambda>key.
    rdo (take_bytes value_len) (\<lambda>val.
    rdo (read_run_items n tree_id key_len value_len) (\<lambda>ops. give (WalInsert tree_id key val # ops))))"

definition decode_insert_run :: "nat \<Rightarrow> WalOp list \<Rightarrow> WalOp list reader" where
  "decode_insert_run batch_count ops =
    rdo read_u64 (\<lambda>tree_id.
    rdo read_u32 (\<lambda>cnt32.
      let cnt = unat cnt32 in
      if cnt = 0 then refuse ''empty BatchInsertRun is rejected''
      else if usize_saturating_add (length ops) cnt > batch_count then refuse ''BatchInsertRun exceeds batch inner count''
      else
        rdo read_u32 (\<lambda>key_len.
        rdo read_u32 (\<lambda>value_len.
        rdo (read_run_items cnt tree_id (unat key_len) (unat value_len)) (\<lambda>items. give (ops @ items))))))"

primrec read_prefix_run_items :: "nat \<Rightarrow> u64 \<Rightarrow> bytes \<Rightarrow> WalOp list reader" where
  "read_prefix_run_items 0 tree_id pfx = give []"
| "read_prefix_run_items (Suc n) tree_id pfx =
    rdo read_bytes (\<lambda>suffix.
    rdo read_bytes (\<lambda>val.
    rdo (read_prefix_run_items n tree_id pfx) (\<lambda>ops. give (WalInsert tree_id (pfx @ suffix) val # ops))))"

definition decode_insert_prefix_run :: "nat \<Rightarrow> WalOp list \<Rightarrow> WalOp list reader" where
  "decode_insert_prefix_run batch_count ops =
    rdo read_u64 (\<lambda>tree_id.
    rdo read_u32 (\<lambda>cnt32.
      let cnt = unat cnt32 in
      if cnt = 0 then refuse ''empty BatchInsertPrefixRun is rejected''
      else if usize_saturating_add (length ops) cnt > batch_count then refuse ''BatchInsertPrefixRun exceeds batch inner count''
      else
        rdo read_bytes (\<lambda>pfx.
        rdo (read_prefix_run_items cnt tree_id pfx) (\<lambda>items. give (ops @ items)))))"

text \<open>The arms of \<^verbatim>\<open>decode_body_into\<close> that do not open a batch; inside a batch only these are re-entered.\<close>

definition decode_primitive :: "u8 \<Rightarrow> WalOp reader" where
  "decode_primitive ty =
    (if ty = TY_INSERT then
       rdo read_u64 (\<lambda>tree_id. rdo read_bytes (\<lambda>key. rdo read_bytes (\<lambda>val. give (WalInsert tree_id key val))))
     else if ty = TY_ERASE then
       rdo read_u64 (\<lambda>tree_id. rdo read_bytes (\<lambda>key. give (WalErase tree_id key)))
     else if ty = TY_RENAME_OBJECT then
       rdo read_u64 (\<lambda>tree_id. rdo read_bytes (\<lambda>src_key. rdo read_bytes (\<lambda>dst_key. rdo read_u8 (\<lambda>force.
         give (RenameObject tree_id src_key dst_key (force \<noteq> 0))))))
     else refuse ''unknown WalOp variant tag'')"

text \<open>One iteration of the \<^verbatim>\<open>while ops.len() < count\<close> loop.\<close>

definition decode_inner :: "nat \<Rightarrow> WalOp list \<Rightarrow> WalOp list reader" where
  "decode_inner cnt ops =
    rdo read_u8 (\<lambda>inner_ty.
      if inner_ty = TY_BATCH \<or> inner_ty = TY_DB_BATCH_WITH_ENVELOPE then refuse ''nested Batch is rejected''
      else if inner_ty = TY_BATCH_INSERT_RUN then decode_insert_run cnt ops
      else if inner_ty = TY_BATCH_INSERT_PREFIX_RUN then decode_insert_prefix_run cnt ops
      else rdo (decode_primitive inner_ty) (\<lambda>op. give (ops @ [op])))"

text \<open>How much a successful reader consumes at least; the batch loop ends because its body consumes a byte.\<close>

definition consumes :: "nat \<Rightarrow> 'a reader \<Rightarrow> bool" where
  "consumes n r = (\<forall>body a rest. r body = Inr (a, rest) \<longrightarrow> length rest + n \<le> length body)"

lemma consumes_rdo:
  assumes "consumes n r" "\<And>a. consumes 0 (k a)"
  shows "consumes n (rdo r k)"
  unfolding consumes_def
proof (intro allI impI)
  fix body a rest assume "rdo r k body = Inr (a, rest)"
  then obtain b r1 where "r body = Inr (b, r1)" "k b r1 = Inr (a, rest)" by (auto simp: rdo_def rbind_eq_Inr)
  then have "length r1 + n \<le> length body" "length rest + 0 \<le> length r1"
    using assms unfolding consumes_def by blast+
  then show "length rest + n \<le> length body" by simp
qed

lemma consumes_basic [intro, simp]:
  "consumes 0 (give a)" "consumes n (refuse c)" "consumes n (take_bytes n)" "consumes 0 (take_bytes n)"
  by (auto simp: consumes_def give_def refuse_def take_bytes_def split: if_splits)

lemma consumes_fields [intro, simp]:
  "consumes (Suc 0) read_u8" "consumes 0 read_u8" "consumes 0 read_u32" "consumes 0 read_u64" "consumes 0 read_bytes"
  unfolding read_u8_def read_u32_def read_u64_def read_bytes_def by (auto intro!: consumes_rdo)

lemma consumes_items [intro, simp]:
  "consumes 0 (read_run_items m t a b)" "consumes 0 (read_prefix_run_items m t p)"
  by (induction m) (auto intro!: consumes_rdo)

lemma consumes_runs [intro, simp]:
  "consumes 0 (decode_insert_run cnt ops)" "consumes 0 (decode_insert_prefix_run cnt ops)" "consumes 0 (decode_primitive ty)"
  unfolding decode_insert_run_def decode_insert_prefix_run_def decode_primitive_def Let_def
  by (auto intro!: consumes_rdo)

lemma consumes_inner: "consumes (Suc 0) (decode_inner cnt ops)"
  unfolding decode_inner_def by (auto intro!: consumes_rdo)

function decode_ops :: "nat \<Rightarrow> WalOp list \<Rightarrow> WalOp list reader" where
  "decode_ops cnt ops body =
    (if length ops < cnt then
       (case decode_inner cnt ops body of
          Inl e \<Rightarrow> Inl e
        | Inr (ops', rest) \<Rightarrow> decode_ops cnt ops' rest)
     else Inr (ops, body))"
  by pat_completeness auto
termination
proof (relation "measure (\<lambda>(cnt, ops, body). length body)")
  fix cnt body and ops ops' :: "WalOp list" and x rest
  assume "decode_inner cnt ops body = Inr x" "(ops', rest) = x"
  then show "((cnt, ops', rest), cnt, ops, body) \<in> measure (\<lambda>(cnt, ops, body). length body)"
    using consumes_inner [of cnt ops] by (auto simp: consumes_def Suc_le_eq)
qed simp

declare decode_ops.simps [simp del]

definition decode_body_into :: "u8 \<Rightarrow> WalOp reader" where
  "decode_body_into ty =
    (if ty = TY_BATCH \<or> ty = TY_DB_BATCH_WITH_ENVELOPE then
       rdo read_u64 (\<lambda>tree_id.
       rdo read_u32 (\<lambda>cnt.
         if ty = TY_DB_BATCH_WITH_ENVELOPE then
           rdo decode_journal_envelope (\<lambda>envelope.
           rdo (decode_ops (unat cnt) []) (\<lambda>ops. give (DbBatchWithEnvelope envelope ops)))
         else rdo (decode_ops (unat cnt) []) (\<lambda>ops. give (Batch ops))))
     else decode_primitive ty)"

definition decode_body :: "u8 \<Rightarrow> bytes \<Rightarrow> WalOp result" where
  "decode_body ty body =
    rbind (decode_body_into ty body) (\<lambda>(op, rest).
      if rest \<noteq> [] then Inl (sanity ''trailing bytes after variant body'') else Inr op)"

record DecodedRecord =
  dec_op :: WalOp
  dec_seq :: u64
  bytes_consumed :: nat

definition decode_record :: "crc \<Rightarrow> bytes \<Rightarrow> DecodedRecord result" where
  "decode_record crc buf =
    (if length buf < RECORD_HEADER_SIZE then Inl (sanity ''record header truncated'')
     else if u32_of_bytes (sub buf 0 4) \<noteq> RECORD_MAGIC then Inl (sanity ''record magic mismatch'')
     else
       let body_len = unat (u32_of_bytes (sub buf 4 8));
           sq = u64_of_bytes (sub buf 8 16);
           ty = buf ! 16;
           total = RECORD_HEADER_SIZE + body_len + RECORD_FOOTER_SIZE in
       if length buf < total then Inl (sanity ''record body truncated'')
       else
         let body_end = RECORD_HEADER_SIZE + body_len;
             crc_expected = u32_of_bytes (sub buf body_end (body_end + 4)) in
         if crc (take body_end buf) \<noteq> crc_expected then Inl (sanity ''record CRC mismatch'')
         else
           rbind (decode_body ty (sub buf RECORD_HEADER_SIZE body_end)) (\<lambda>op.
             Inr \<lparr> dec_op = op, dec_seq = sq, bytes_consumed = total \<rparr>))"

end
