(* ===== verification/Wal_Ring.thy ===== *)
theory Wal_Ring
  imports Wal_Codec "HOL-Library.AList"
begin

text \<open>The shared append ring of \<^verbatim>\<open>src/src/journal/ring.rs\<close>.  Each operation on the shared state is one transition
  of the model (an atomic read-modify-write, a critical section of the \<^verbatim>\<open>advance\<close> lock, a copy of bytes that no
  other thread may touch), and writers and flusher interleave freely.  Addresses are the monotone logical byte
  addresses of the source, which never wrap.\<close>

section \<open>Operations\<close>

record ReserveTicket =
  t_start :: nat
  t_end :: nat

record Advancer =
  adv_pending :: "(nat \<times> nat) list"
  adv_count :: nat

record WalRing =
  r_buf :: bytes
  r_mask :: nat
  r_capacity :: nat
  r_tail :: nat
  committed_addr :: nat
  committed_records :: nat
  flush_cursor :: nat
  r_advance :: Advancer

fun next_power_of_two :: "nat \<Rightarrow> nat" where
  "next_power_of_two n = (if n \<le> 1 then 1 else 2 * next_power_of_two ((n + 1) div 2))"

declare next_power_of_two.simps [simp del]

definition ring_with_capacity :: "nat \<Rightarrow> WalRing" where
  "ring_with_capacity capacity_bytes =
    (let cap = next_power_of_two (max capacity_bytes 64) in
     \<lparr> r_buf = replicate cap 0, r_mask = cap - 1, r_capacity = cap, r_tail = 0, committed_addr = 0,
       committed_records = 0, flush_cursor = 0, r_advance = \<lparr> adv_pending = [], adv_count = 0 \<rparr> \<rparr>)"

definition ring_reserve :: "nat \<Rightarrow> WalRing \<Rightarrow> ReserveTicket \<times> WalRing" where
  "ring_reserve total_len r =
    (\<lparr> t_start = r_tail r, t_end = r_tail r + total_len \<rparr>, r\<lparr> r_tail := r_tail r + total_len \<rparr>)"

definition reserve_space_ready :: "ReserveTicket \<Rightarrow> WalRing \<Rightarrow> bool" where
  "reserve_space_ready t r = (t_end t \<le> flush_cursor r + r_capacity r)"

definition ring_fill :: "ReserveTicket \<Rightarrow> bytes \<Rightarrow> WalRing \<Rightarrow> WalRing" where
  "ring_fill t bs r =
    (let cap = length (r_buf r);
         off = Bit_Operations.and (t_start t) (r_mask r);
         first = min (length bs) (cap - off);
         buf = patch_at (r_buf r) off (take first bs) in
     r\<lparr> r_buf := (if first < length bs then patch_at buf 0 (drop first bs) else buf) \<rparr>)"

text \<open>The loop of \<^verbatim>\<open>publish\<close>: take published intervals out of the map while one starts at \<open>addr\<close>.\<close>

lemma length_delete_less: "map_of al k = Some v \<Longrightarrow> length (AList.delete k al) < length al"
  by (induction al) (auto simp: AList.delete_eq split: if_splits intro: le_imp_less_Suc)

function fold_pending :: "nat \<Rightarrow> (nat \<times> nat) list \<Rightarrow> nat \<Rightarrow> nat \<times> (nat \<times> nat) list \<times> nat" where
  "fold_pending addr pending folded =
    (case map_of pending addr of
       Some e \<Rightarrow> fold_pending e (AList.delete addr pending) (folded + 1)
     | None \<Rightarrow> (addr, pending, folded))"
  by pat_completeness auto

termination
  by (relation "measure (\<lambda>(addr, pending, folded). length pending)") (auto dest: length_delete_less)

declare fold_pending.simps [simp del]

definition ring_publish :: "ReserveTicket \<Rightarrow> WalRing \<Rightarrow> WalRing" where
  "ring_publish t r =
    (let pending = AList.update (t_start t) (t_end t) (adv_pending (r_advance r));
         (addr, pending', folded) = fold_pending (committed_addr r) pending 0;
         adv = (r_advance r)\<lparr> adv_pending := pending' \<rparr> in
     if addr \<noteq> committed_addr r then
       let cnt = adv_count adv + folded in
       r\<lparr> r_advance := adv\<lparr> adv_count := cnt \<rparr>, committed_addr := addr, committed_records := cnt \<rparr>
     else r\<lparr> r_advance := adv \<rparr>)"

text \<open>The slices given to the sink, and the ring afterwards.\<close>

definition copy_committed_prefix :: "WalRing \<Rightarrow> bytes list \<times> WalRing" where
  "copy_committed_prefix r =
    (let committed = committed_addr r; start = flush_cursor r in
     if committed \<le> start then ([], r)
     else
       let total = committed - start; cap = length (r_buf r);
           off = Bit_Operations.and start (r_mask r); first = min total (cap - off) in
       (sub (r_buf r) off (off + first) # (if first < total then [sub (r_buf r) 0 (total - first)] else []),
        r\<lparr> flush_cursor := committed \<rparr>))"

definition reset_after_drain :: "WalRing \<Rightarrow> WalRing" where
  "reset_after_drain r = r\<lparr> flush_cursor := 0, committed_addr := 0, r_tail := 0 \<rparr>"

definition ring_append :: "bytes \<Rightarrow> WalRing \<Rightarrow> ReserveTicket \<times> WalRing" where
  "ring_append bs r = (let (t, r1) = ring_reserve (length bs) r in (t, ring_publish t (ring_fill t bs r1)))"

section \<open>Geometry\<close>

definition ring_shape :: "WalRing \<Rightarrow> bool" where
  "ring_shape r = ((\<exists>k. r_capacity r = 2 ^ k) \<and> r_mask r = r_capacity r - 1 \<and> length (r_buf r) = r_capacity r)"

lemma next_power_of_two_pow: "\<exists>k. next_power_of_two n = 2 ^ k"
proof (induction n rule: next_power_of_two.induct)
  case (1 n)
  show ?case
  proof (cases "n \<le> 1")
    case True
    then show ?thesis by (intro exI [of _ 0]) (simp add: next_power_of_two.simps)
  next
    case False
    then obtain k where "next_power_of_two ((n + 1) div 2) = 2 ^ k" using 1 by blast
    then show ?thesis using False by (intro exI [of _ "Suc k"]) (simp add: next_power_of_two.simps [of n])
  qed
qed

lemma next_power_of_two_ge: "n \<le> next_power_of_two n"
proof (induction n rule: next_power_of_two.induct)
  case (1 n)
  show ?case
  proof (cases "n \<le> 1")
    case False
    then have "(n + 1) div 2 \<le> next_power_of_two ((n + 1) div 2)" using 1 by blast
    then show ?thesis using False by (simp add: next_power_of_two.simps [of n])
  qed (simp add: next_power_of_two.simps)
qed

lemma ring_shape_new: "ring_shape (ring_with_capacity n)"
  using next_power_of_two_pow [of "max n 64"] by (simp add: ring_shape_def ring_with_capacity_def Let_def)

lemma ring_shape_pos: "ring_shape r \<Longrightarrow> 0 < r_capacity r"
  by (auto simp: ring_shape_def)

lemma and_ring_mask:
  assumes "ring_shape r"
  shows "Bit_Operations.and a (r_mask r) = a mod r_capacity r"
proof -
  obtain k where k: "r_capacity r = 2 ^ k" "r_mask r = 2 ^ k - 1" using assms by (auto simp: ring_shape_def)
  have "r_mask r = mask k" unfolding k mask_eq_exp_minus_1 by simp
  then show ?thesis unfolding k(1) by (simp flip: take_bit_eq_mask take_bit_eq_mod)
qed

lemma wrapped_offset:
  "d < (c :: nat) \<Longrightarrow> (s + d) mod c = (if s mod c + d < c then s mod c + d else s mod c + d - c)"
proof -
  assume d: "d < c"
  have "(s + d) mod c = (s mod c + d) mod c" by (simp add: mod_add_left_eq)
  moreover have "s mod c < c" using d by simp
  ultimately show ?thesis using d by (cases "s mod c + d < c") (simp_all add: le_mod_geq)
qed

lemma nth_patch_at:
  "pos + length bs \<le> length out \<Longrightarrow> i < length out \<Longrightarrow>
   patch_at out pos bs ! i = (if pos \<le> i \<and> i < pos + length bs then bs ! (i - pos) else out ! i)"
  by (auto simp: patch_at_def nth_append)

lemma length_patch_at [simp]: "pos + length bs \<le> length out \<Longrightarrow> length (patch_at out pos bs) = length out"
  by (simp add: patch_at_def)

text \<open>Byte \<open>d\<close> of the reserved range lands at physical offset \<open>(start + d) mod capacity\<close>.\<close>

lemma fill_at:
  assumes "ring_shape r" "length bs \<le> r_capacity r" "d < r_capacity r"
  shows "r_buf (ring_fill t bs r) ! ((t_start t + d) mod r_capacity r) =
    (if d < length bs then bs ! d else r_buf r ! ((t_start t + d) mod r_capacity r))"
proof -
  define c where "c = r_capacity r"
  define off where "off = t_start t mod c"
  define fst_n where "fst_n = min (length bs) (c - off)"
  have c: "0 < c" "off < c" "length (r_buf r) = c" "d < c" "length bs \<le> c"
    using assms ring_shape_pos by (auto simp: c_def off_def ring_shape_def)
  have p: "(t_start t + d) mod c = (if off + d < c then off + d else off + d - c)"
    unfolding off_def by (rule wrapped_offset) (rule c)
  have buf: "r_buf (ring_fill t bs r) =
      (let buf = patch_at (r_buf r) off (take fst_n bs) in if fst_n < length bs then patch_at buf 0 (drop fst_n bs) else buf)"
    using assms(1) c(3) by (simp add: ring_fill_def Let_def and_ring_mask fst_n_def off_def c_def)
  show ?thesis
    unfolding buf c_def [symmetric] p using c
    by (auto simp: Let_def nth_patch_at fst_n_def min_def not_less)
qed

text \<open>Inside a window of one capacity, filling changes exactly the reserved addresses.\<close>

lemma fill_window:
  assumes "ring_shape r" "t_end t = t_start t + length bs" "length bs \<le> r_capacity r"
    "lo \<le> t_start t" "t_end t \<le> lo + r_capacity r" "lo \<le> a" "a < lo + r_capacity r"
  shows "r_buf (ring_fill t bs r) ! (a mod r_capacity r) =
    (if t_start t \<le> a \<and> a < t_end t then bs ! (a - t_start t) else r_buf r ! (a mod r_capacity r))"
proof (cases "t_start t \<le> a")
  case True
  then have "a = t_start t + (a - t_start t)" "a - t_start t < r_capacity r" using assms by auto
  then show ?thesis using fill_at [OF assms(1,3), of "a - t_start t" t] True assms(2) by auto
next
  case False
  define d where "d = a + r_capacity r - t_start t"
  have d: "d < r_capacity r" "length bs \<le> d" "t_start t + d = a + r_capacity r" using False assms by (auto simp: d_def)
  then show ?thesis using fill_at [OF assms(1,3) d(1), of t] False by simp
qed

lemma ring_shape_fill:
  assumes "ring_shape r" "length bs \<le> r_capacity r"
  shows "ring_shape (ring_fill t bs r)"
proof -
  have "Bit_Operations.and (t_start t) (r_mask r) < r_capacity r"
    using assms(1) ring_shape_pos by (simp add: and_ring_mask)
  then show ?thesis using assms by (auto simp: ring_shape_def ring_fill_def Let_def min_def)
qed

text \<open>The flusher's slices, concatenated, are the logical bytes between the two cursors.\<close>

lemma copy_bytes:
  assumes "ring_shape r" "flush_cursor r \<le> committed_addr r" "committed_addr r \<le> flush_cursor r + r_capacity r"
  shows "concat (fst (copy_committed_prefix r)) =
    map (\<lambda>a. r_buf r ! (a mod r_capacity r)) [flush_cursor r ..< committed_addr r]"
proof -
  define c where "c = r_capacity r"
  define s where "s = flush_cursor r"
  define n where "n = committed_addr r - s"
  define off where "off = s mod c"
  have c: "0 < c" "off < c" "length (r_buf r) = c" "n \<le> c"
    using assms ring_shape_pos by (auto simp: c_def off_def n_def s_def ring_shape_def)
  have p: "(s + d) mod c = (if off + d < c then off + d else off + d - c)" if "d < c" for d
    unfolding off_def by (rule wrapped_offset) (rule that)
  define m where "m = min n (c - off)"
  have m: "m \<le> n" "m \<le> c - off" "m < n \<Longrightarrow> m = c - off" by (auto simp: m_def)
  have e: "concat (fst (copy_committed_prefix r)) = take m (drop off (r_buf r)) @ take (n - m) (r_buf r)"
  proof (cases "n = 0")
    case True
    then show ?thesis using m by (simp add: copy_committed_prefix_def Let_def n_def s_def)
  next
    case False
    then have "\<not> committed_addr r \<le> flush_cursor r" by (simp add: n_def s_def)
    moreover have "Bit_Operations.and (flush_cursor r) (r_mask r) = off" by (simp add: and_ring_mask [OF assms(1)] off_def s_def c_def)
    moreover have "committed_addr r - flush_cursor r = n" by (simp add: n_def s_def)
    ultimately show ?thesis
      using m by (simp add: copy_committed_prefix_def Let_def c(3) m_def [symmetric] sub_def)
  qed
  show ?thesis
    unfolding e
  proof (rule nth_equalityI)
    show "length (take m (drop off (r_buf r)) @ take (n - m) (r_buf r)) =
        length (map (\<lambda>a. r_buf r ! (a mod r_capacity r)) [flush_cursor r ..< committed_addr r])"
      using c m by (simp add: n_def s_def)
    fix d assume "d < length (take m (drop off (r_buf r)) @ take (n - m) (r_buf r))"
    then have d: "d < n" "d < c" using c m by auto
    show "(take m (drop off (r_buf r)) @ take (n - m) (r_buf r)) ! d =
        map (\<lambda>a. r_buf r ! (a mod r_capacity r)) [flush_cursor r ..< committed_addr r] ! d"
    proof (cases "d < m")
      case True
      then have "off + d < c" using m c by simp
      then show ?thesis using True p [OF d(2)] d m c by (simp add: nth_append n_def s_def c_def)
    next
      case False
      then have "m = c - off" "\<not> off + d < c" using d m by auto
      then show ?thesis using p [OF d(2)] d m c False by (simp add: nth_append n_def s_def c_def add.commute)
    qed
  qed
qed

end
