(* ===== verification/Ring_Safety.thy ===== *)
theory Ring_Safety
  imports Wal_Ring
begin

text \<open>Every interleaving of appends and drains on the ring of \<^verbatim>\<open>src/src/journal/ring.rs\<close>: the flusher's output
  is always a prefix, made of whole published records, of the records in reservation order.\<close>

section \<open>Interleavings\<close>

text \<open>An append in flight: its ticket, its record, and how far it is.\<close>

datatype phase = Reserved | Filled | Published

type_synonym append = "ReserveTicket \<times> bytes \<times> phase"

record ring_run =
  rr_ring :: WalRing
  rr_appends :: "append list"
  rr_out :: bytes
  rr_base :: nat

definition rr_start :: "nat \<Rightarrow> ring_run" where
  "rr_start n = \<lparr> rr_ring = ring_with_capacity n, rr_appends = [], rr_out = [], rr_base = 0 \<rparr>"

text \<open>A writer reserves, fills once its range is free, publishes; the flusher copies the committed prefix; the
  checkpoint resets a ring that is published and drained.\<close>

inductive ring_step :: "ring_run \<Rightarrow> ring_run \<Rightarrow> bool" where
  reserve: "0 < length bs \<Longrightarrow> length bs \<le> r_capacity (rr_ring s) \<Longrightarrow> ring_reserve (length bs) (rr_ring s) = (t, r) \<Longrightarrow>
    ring_step s (s\<lparr> rr_ring := r, rr_appends := rr_appends s @ [(t, bs, Reserved)] \<rparr>)"
| fill: "i < length (rr_appends s) \<Longrightarrow> rr_appends s ! i = (t, bs, Reserved) \<Longrightarrow> reserve_space_ready t (rr_ring s) \<Longrightarrow>
    ring_step s (s\<lparr> rr_ring := ring_fill t bs (rr_ring s), rr_appends := (rr_appends s)[i := (t, bs, Filled)] \<rparr>)"
| publish: "i < length (rr_appends s) \<Longrightarrow> rr_appends s ! i = (t, bs, Filled) \<Longrightarrow>
    ring_step s (s\<lparr> rr_ring := ring_publish t (rr_ring s), rr_appends := (rr_appends s)[i := (t, bs, Published)] \<rparr>)"
| drain: "copy_committed_prefix (rr_ring s) = (chunks, r) \<Longrightarrow>
    ring_step s (s\<lparr> rr_ring := r, rr_out := rr_out s @ concat chunks \<rparr>)"
| reset: "r_tail (rr_ring s) = committed_addr (rr_ring s) \<Longrightarrow> flush_cursor (rr_ring s) = committed_addr (rr_ring s) \<Longrightarrow>
    ring_step s (s\<lparr> rr_ring := reset_after_drain (rr_ring s), rr_appends := [], rr_out := [],
      rr_base := rr_base s + length (rr_appends s) \<rparr>)"

inductive_cases ring_stepE: "ring_step s s'"

definition recs :: "append list \<Rightarrow> bytes list" where
  "recs as = map (\<lambda>(t, bs, p). bs) as"

definition ph :: "append list \<Rightarrow> nat \<Rightarrow> phase" where
  "ph as i = snd (snd (as ! i))"

section \<open>Tiling\<close>

definition pos :: "bytes list \<Rightarrow> nat \<Rightarrow> nat" where
  "pos rs i = length (concat (take i rs))"

lemma pos_0 [simp]: "pos rs 0 = 0"
  by (simp add: pos_def)

lemma pos_Suc: "i < length rs \<Longrightarrow> pos rs (Suc i) = pos rs i + length (rs ! i)"
  by (simp add: pos_def take_Suc_conv_app_nth)

lemma pos_length: "pos rs (length rs) = length (concat rs)"
  by (simp add: pos_def)

lemma pos_mono: "i \<le> j \<Longrightarrow> pos rs i \<le> pos rs j"
  by (metis concat_append le_add1 le_add_diff_inverse length_append pos_def take_add)

lemma pos_append: "i \<le> length rs \<Longrightarrow> pos (rs @ rs') i = pos rs i"
  by (simp add: pos_def)

lemma pos_less:
  assumes "\<forall>bs \<in> set rs. bs \<noteq> []" "i < j" "i < length rs"
  shows "pos rs i < pos rs j"
proof -
  have "pos rs i < pos rs (Suc i)" using assms(1,3) by (simp add: pos_Suc)
  also have "\<dots> \<le> pos rs j" using assms(2) by (simp add: pos_mono)
  finally show ?thesis .
qed

lemma pos_inj:
  assumes "\<forall>bs \<in> set rs. bs \<noteq> []" "pos rs i = pos rs j" "i \<le> length rs" "j \<le> length rs"
  shows "i = j"
  using pos_less [OF assms(1), of i j] pos_less [OF assms(1), of j i] assms(2-4)
  by (metis le_neq_implies_less less_irrefl linorder_less_linear order_less_le_trans)

lemma take_pos: "i \<le> length rs \<Longrightarrow> take (pos rs i) (concat rs) = concat (take i rs)"
  by (metis append_eq_conv_conj append_take_drop_id concat_append pos_def)

lemma concat_at:
  assumes "i < length rs" "d < length (rs ! i)"
  shows "concat rs ! (pos rs i + d) = rs ! i ! d"
proof -
  have "concat rs = concat (take i rs) @ rs ! i @ concat (drop (Suc i) rs)"
    using assms(1) by (metis concat.simps(2) concat_append id_take_nth_drop)
  then show ?thesis using assms(2) by (simp add: pos_def nth_append)
qed

lemma tile_of:
  assumes "a < pos rs n" "n \<le> length rs"
  obtains i where "i < n" "pos rs i \<le> a" "a < pos rs (Suc i)"
proof -
  have "\<exists>i<n. pos rs i \<le> a \<and> a < pos rs (Suc i)" using assms
  proof (induction n)
    case (Suc n)
    then show ?case by (cases "a < pos rs n") (auto simp: not_less less_Suc_eq)
  qed simp
  then show ?thesis using that by blast
qed

lemma tiles_apart:
  assumes "pos rs i \<le> a" "a < pos rs (Suc i)" "pos rs j \<le> a" "a < pos rs (Suc j)"
  shows "i = j"
  using assms pos_mono [of "Suc i" j rs] pos_mono [of "Suc j" i rs] by (cases i j rule: linorder_cases) auto

section \<open>The invariant\<close>

text \<open>The published intervals not folded yet, from tile \<open>c\<close> on.\<close>

definition pending_is :: "(nat \<times> nat) list \<Rightarrow> bytes list \<Rightarrow> (nat \<Rightarrow> bool) \<Rightarrow> nat \<Rightarrow> bool" where
  "pending_is pend rs published c =
    (\<forall>a e. map_of pend a = Some e \<longleftrightarrow> (\<exists>i. c \<le> i \<and> i < length rs \<and> published i \<and> a = pos rs i \<and> e = pos rs (Suc i)))"

text \<open>Bytes of filled records that are not drained yet are in the buffer, inside the window of one capacity.\<close>

definition contents :: "WalRing \<Rightarrow> append list \<Rightarrow> bool" where
  "contents r as =
    (\<forall>i < length as. ph as i \<noteq> Reserved \<longrightarrow>
       pos (recs as) (Suc i) \<le> flush_cursor r + r_capacity r
       \<and> (\<forall>a. pos (recs as) i \<le> a \<and> a < pos (recs as) (Suc i) \<and> flush_cursor r \<le> a \<longrightarrow>
            r_buf r ! (a mod r_capacity r) = concat (recs as) ! a))"

definition ring_rel :: "ring_run \<Rightarrow> nat \<Rightarrow> nat \<Rightarrow> bool" where
  "ring_rel s f c =
    (let r = rr_ring s; as = rr_appends s; rs = recs as; n = length as in
     ring_shape r
     \<and> (\<forall>i<n. fst (as ! i) = \<lparr> t_start = pos rs i, t_end = pos rs (Suc i) \<rparr>)
     \<and> (\<forall>bs \<in> set rs. bs \<noteq> [] \<and> length bs \<le> r_capacity r)
     \<and> r_tail r = pos rs n
     \<and> f \<le> c \<and> c \<le> n \<and> flush_cursor r = pos rs f \<and> committed_addr r = pos rs c
     \<and> rr_out s = concat (take f rs)
     \<and> committed_records r = rr_base s + c \<and> adv_count (r_advance r) = rr_base s + c
     \<and> (\<forall>i<c. ph as i = Published) \<and> (c < n \<longrightarrow> ph as c \<noteq> Published)
     \<and> pending_is (adv_pending (r_advance r)) rs (\<lambda>i. ph as i = Published) c
     \<and> contents r as)"

definition ring_inv :: "ring_run \<Rightarrow> bool" where
  "ring_inv s = (\<exists>f c. ring_rel s f c)"

lemma length_recs [simp]: "length (recs as) = length as"
  by (simp add: recs_def)

lemma recs_nth: "i < length as \<Longrightarrow> recs as ! i = fst (snd (as ! i))"
  by (simp add: recs_def case_prod_beta)

lemma recs_update: "as ! i = (t, bs, p) \<Longrightarrow> recs (as[i := (t, bs, p')]) = recs as"
proof (cases "i < length as")
  case True
  assume "as ! i = (t, bs, p)"
  then show ?thesis using True by (simp add: recs_def map_update list_update_same_conv)
qed (simp add: list_update_beyond)

lemma ring_rel_facts:
  assumes "ring_rel s f c"
  shows "ring_shape (rr_ring s)"
    and "i < length (rr_appends s) \<Longrightarrow>
      fst (rr_appends s ! i) = \<lparr> t_start = pos (recs (rr_appends s)) i, t_end = pos (recs (rr_appends s)) (Suc i) \<rparr>"
    and "bs \<in> set (recs (rr_appends s)) \<Longrightarrow> bs \<noteq> [] \<and> length bs \<le> r_capacity (rr_ring s)"
    and "f \<le> c" "c \<le> length (rr_appends s)"
    and "flush_cursor (rr_ring s) = pos (recs (rr_appends s)) f"
    and "committed_addr (rr_ring s) = pos (recs (rr_appends s)) c"
    and "i < c \<Longrightarrow> ph (rr_appends s) i = Published"
    and "contents (rr_ring s) (rr_appends s)"
    and "pending_is (adv_pending (r_advance (rr_ring s))) (recs (rr_appends s)) (\<lambda>i. ph (rr_appends s) i = Published) c"
    and "c < length (rr_appends s) \<Longrightarrow> ph (rr_appends s) c \<noteq> Published"
    and "rr_out s = concat (take f (recs (rr_appends s)))"
    and "r_tail (rr_ring s) = pos (recs (rr_appends s)) (length (rr_appends s))"
    and "committed_records (rr_ring s) = rr_base s + c" "adv_count (r_advance (rr_ring s)) = rr_base s + c"
  using assms unfolding ring_rel_def Let_def by blast+

lemma ring_relI:
  assumes "ring_shape (rr_ring s)"
    and "\<And>i. i < length (rr_appends s) \<Longrightarrow>
      fst (rr_appends s ! i) = \<lparr> t_start = pos (recs (rr_appends s)) i, t_end = pos (recs (rr_appends s)) (Suc i) \<rparr>"
    and "\<And>bs. bs \<in> set (recs (rr_appends s)) \<Longrightarrow> bs \<noteq> [] \<and> length bs \<le> r_capacity (rr_ring s)"
    and "f \<le> c" "c \<le> length (rr_appends s)"
    and "flush_cursor (rr_ring s) = pos (recs (rr_appends s)) f"
    and "committed_addr (rr_ring s) = pos (recs (rr_appends s)) c"
    and "\<And>i. i < c \<Longrightarrow> ph (rr_appends s) i = Published"
    and "contents (rr_ring s) (rr_appends s)"
    and "pending_is (adv_pending (r_advance (rr_ring s))) (recs (rr_appends s)) (\<lambda>i. ph (rr_appends s) i = Published) c"
    and "c < length (rr_appends s) \<Longrightarrow> ph (rr_appends s) c \<noteq> Published"
    and "rr_out s = concat (take f (recs (rr_appends s)))"
    and "r_tail (rr_ring s) = pos (recs (rr_appends s)) (length (rr_appends s))"
    and "committed_records (rr_ring s) = rr_base s + c" "adv_count (r_advance (rr_ring s)) = rr_base s + c"
  shows "ring_rel s f c"
  unfolding ring_rel_def Let_def using assms by blast

lemma ring_rel_start: "ring_rel (rr_start n) 0 0"
  using ring_shape_new by (auto simp: ring_rel_def rr_start_def Let_def contents_def pending_is_def recs_def ring_with_capacity_def)

lemma contents_window:
  "contents r as \<Longrightarrow> i < length as \<Longrightarrow> ph as i \<noteq> Reserved \<Longrightarrow> pos (recs as) (Suc i) \<le> flush_cursor r + r_capacity r"
  by (simp add: contents_def)

lemma contents_byte:
  "contents r as \<Longrightarrow> i < length as \<Longrightarrow> ph as i \<noteq> Reserved \<Longrightarrow> pos (recs as) i \<le> a \<Longrightarrow> a < pos (recs as) (Suc i) \<Longrightarrow>
   flush_cursor r \<le> a \<Longrightarrow> r_buf r ! (a mod r_capacity r) = concat (recs as) ! a"
  by (simp add: contents_def)

lemma ring_rel_reserve:
  assumes "ring_rel s f c" "0 < length bs" "length bs \<le> r_capacity (rr_ring s)" "ring_reserve (length bs) (rr_ring s) = (t, r)"
  shows "ring_rel (s\<lparr> rr_ring := r, rr_appends := rr_appends s @ [(t, bs, Reserved)] \<rparr>) f c"
proof -
  let ?as = "rr_appends s"
  have rs: "recs (?as @ [(t, bs, Reserved)]) = recs ?as @ [bs]" by (simp add: recs_def)
  have p: "pos (recs ?as @ [bs]) i = pos (recs ?as) i" if "i \<le> length ?as" for i using that by (simp add: pos_append)
  have q: "pos (recs ?as @ [bs]) (Suc (length ?as)) = pos (recs ?as) (length ?as) + length bs"
    using pos_Suc [of "length ?as" "recs ?as @ [bs]"] p [of "length ?as"] by (simp add: nth_append)
  have h: "ph (?as @ [(t, bs, Reserved)]) i = (if i < length ?as then ph ?as i else Reserved)" if "i \<le> length ?as" for i
    using that by (simp add: ph_def nth_append)
  have pe: "pending_is pend (recs ?as @ [bs]) (\<lambda>i. ph (?as @ [(t, bs, Reserved)]) i = Published) c \<longleftrightarrow>
      pending_is pend (recs ?as) (\<lambda>i. ph ?as i = Published) c" for pend
  proof -
    have "(c \<le> i \<and> i < length (recs ?as @ [bs]) \<and> ph (?as @ [(t, bs, Reserved)]) i = Published
          \<and> a = pos (recs ?as @ [bs]) i \<and> e = pos (recs ?as @ [bs]) (Suc i)) \<longleftrightarrow>
        (c \<le> i \<and> i < length (recs ?as) \<and> ph ?as i = Published \<and> a = pos (recs ?as) i \<and> e = pos (recs ?as) (Suc i))" for i a e
      using p h by (cases "i = length ?as") auto
    then show ?thesis by (simp add: pending_is_def)
  qed
  have n: "concat (recs ?as @ [bs]) ! a = concat (recs ?as) ! a" if "a < pos (recs ?as) (Suc i)" "i < length ?as" for a i
    using that pos_mono [of "Suc i" "length (recs ?as)" "recs ?as"] pos_length [of "recs ?as"] by (simp add: nth_append)
  note R = ring_rel_facts [OF assms(1)]
  have r: "r = (rr_ring s)\<lparr> r_tail := r_tail (rr_ring s) + length bs \<rparr>"
    and t: "t = \<lparr> t_start = r_tail (rr_ring s), t_end = r_tail (rr_ring s) + length bs \<rparr>"
    using assms(4) by (auto simp: ring_reserve_def)
  have flds: "r_tail r = r_tail (rr_ring s) + length bs" "flush_cursor r = flush_cursor (rr_ring s)"
    "committed_addr r = committed_addr (rr_ring s)" "committed_records r = committed_records (rr_ring s)"
    "r_advance r = r_advance (rr_ring s)" by (simp_all add: r)
  have con: "contents r (?as @ [(t, bs, Reserved)])"
    unfolding contents_def rs
  proof (intro allI impI)
    fix i assume i: "i < length (?as @ [(t, bs, Reserved)])" "ph (?as @ [(t, bs, Reserved)]) i \<noteq> Reserved"
    then have "i < length ?as" "ph ?as i \<noteq> Reserved" using h [of i] by (auto split: if_splits)
    then show "pos (recs ?as @ [bs]) (Suc i) \<le> flush_cursor r + r_capacity r
        \<and> (\<forall>a. pos (recs ?as @ [bs]) i \<le> a \<and> a < pos (recs ?as @ [bs]) (Suc i) \<and> flush_cursor r \<le> a \<longrightarrow>
             r_buf r ! (a mod r_capacity r) = concat (recs ?as @ [bs]) ! a)"
      using contents_window [OF R(9)] contents_byte [OF R(9)] n [of _ i] p [of i] p [of "Suc i"] by (simp add: r)
  qed
  have tick: "fst ((?as @ [(t, bs, Reserved)]) ! i) = \<lparr> t_start = pos (recs ?as @ [bs]) i, t_end = pos (recs ?as @ [bs]) (Suc i) \<rparr>"
    if "i < length (?as @ [(t, bs, Reserved)])" for i
    using that R(2) [of i] p [of i] p [of "Suc i"] q R(13) by (cases "i = length ?as") (auto simp: nth_append t)
  have sh: "ring_shape r" using R(1) by (simp add: r ring_shape_def)
  have hc: "ph (?as @ [(t, bs, Reserved)]) c \<noteq> Published" using R(11) h [OF R(5)] by simp
  have hi: "ph (?as @ [(t, bs, Reserved)]) i = Published" if "i < c" for i using R(8) [OF that] h [of i] that R(5) by simp
  have len: "b \<noteq> [] \<and> length b \<le> r_capacity r" if "b \<in> set (recs ?as @ [bs])" for b
    using that R(3) [of b] assms(2,3) by (auto simp: r)
  show ?thesis
    by (rule ring_relI) (use R(4-7) R(10) R(12-15) p q in \<open>auto simp: rs con tick sh hc hi len pe flds\<close>)
qed

lemma ph_update: "i < length as \<Longrightarrow> ph (as[i := (t, bs, p)]) j = (if j = i then p else ph as j)"
  by (simp add: ph_def nth_list_update)

lemma fst_update: "as ! i = (t, bs, p) \<Longrightarrow> fst (as[i := (t, bs, p')] ! j) = fst (as ! j)"
  by (cases "i < length as") (auto simp: nth_list_update list_update_beyond)

lemma ring_rel_fill:
  assumes "ring_rel s f c" "i < length (rr_appends s)" "rr_appends s ! i = (t, bs, Reserved)" "reserve_space_ready t (rr_ring s)"
  shows "ring_rel (s\<lparr> rr_ring := ring_fill t bs (rr_ring s), rr_appends := (rr_appends s)[i := (t, bs, Filled)] \<rparr>) f c"
proof -
  let ?as = "rr_appends s" and ?r = "rr_ring s"
  let ?rs = "recs ?as"
  note R = ring_rel_facts [OF assms(1)]
  have b: "?rs ! i = bs" "bs \<in> set ?rs" using assms(2,3) by (auto simp: recs_nth in_set_conv_nth)
  have len: "length bs \<le> r_capacity ?r" "t = \<lparr> t_start = pos ?rs i, t_end = pos ?rs (Suc i) \<rparr>"
    using R(3) [OF b(2)] R(2) [OF assms(2)] assms(3) by auto
  have phi: "ph ?as i = Reserved" using assms(3) by (simp add: ph_def)
  have ci: "c \<le> i" using R(8) [of i] phi by (cases "c \<le> i") auto
  have lo: "flush_cursor ?r \<le> pos ?rs i" using R(4) ci pos_mono [of f i ?rs] by (simp add: R(6))
  have sz: "pos ?rs (Suc i) = pos ?rs i + length bs" using pos_Suc [of i ?rs] assms(2) b(1) by simp
  have up: "pos ?rs (Suc i) \<le> flush_cursor ?r + r_capacity ?r" using assms(4) len(2) by (simp add: reserve_space_ready_def)
  have ends: "pos ?rs (Suc j) \<le> flush_cursor ?r + r_capacity ?r" if "j < length ?as" "j = i \<or> ph ?as j \<noteq> Reserved" for j
    using contents_window [OF R(9), of j] up that by auto
  have win: "r_buf (ring_fill t bs ?r) ! (a mod r_capacity ?r) = concat ?rs ! a"
    if j: "j < length ?as" "j = i \<or> ph ?as j \<noteq> Reserved" "pos ?rs j \<le> a" "a < pos ?rs (Suc j)" "flush_cursor ?r \<le> a" for j a
  proof -
    have hi: "a < flush_cursor ?r + r_capacity ?r" using ends [OF j(1,2)] j(4) by simp
    have w: "r_buf (ring_fill t bs ?r) ! (a mod r_capacity ?r) =
        (if pos ?rs i \<le> a \<and> a < pos ?rs (Suc i) then bs ! (a - pos ?rs i) else r_buf ?r ! (a mod r_capacity ?r))"
      using fill_window [OF R(1), of t bs "flush_cursor ?r" a] len lo up sz hi j(5) by simp
    show ?thesis
    proof (cases "j = i")
      case True
      then show ?thesis using w j sz concat_at [of i ?rs "a - pos ?rs i"] b(1) assms(2) by simp
    next
      case False
      then have np: "\<not> (pos ?rs i \<le> a \<and> a < pos ?rs (Suc i))" using tiles_apart [of ?rs i a j] j by auto
      show ?thesis using w [unfolded if_not_P [OF np]] contents_byte [OF R(9) j(1) _ j(3-5)] j(2) False by simp
    qed
  qed
  have same: "r_capacity (ring_fill t bs ?r) = r_capacity ?r" "r_tail (ring_fill t bs ?r) = r_tail ?r"
    "flush_cursor (ring_fill t bs ?r) = flush_cursor ?r" "committed_addr (ring_fill t bs ?r) = committed_addr ?r"
    "committed_records (ring_fill t bs ?r) = committed_records ?r" "r_advance (ring_fill t bs ?r) = r_advance ?r"
    by (simp_all add: ring_fill_def Let_def)
  have pub: "ph (?as[i := (t, bs, Filled)]) j = Published \<longleftrightarrow> ph ?as j = Published" for j
    using assms(2) phi by (auto simp: ph_update)
  have nr: "ph (?as[i := (t, bs, Filled)]) j \<noteq> Reserved \<longleftrightarrow> j = i \<or> ph ?as j \<noteq> Reserved" for j
    using assms(2) by (auto simp: ph_update)
  have con: "contents (ring_fill t bs ?r) (?as[i := (t, bs, Filled)])"
    unfolding contents_def recs_update [OF assms(3)] nr same length_list_update using ends win by blast
  show ?thesis
    by (rule ring_relI)
       (simp_all add: same recs_update [OF assms(3)] fst_update [OF assms(3)] pub con ring_shape_fill [OF R(1) len(1)] R)
qed

lemma fold_pending_spec:
  assumes "pending_is pend rs P c" "\<forall>bs \<in> set rs. bs \<noteq> []" "c \<le> length rs"
  shows "\<exists>c' pend'. fold_pending (pos rs c) pend k = (pos rs c', pend', k + (c' - c)) \<and> pending_is pend' rs P c'
    \<and> c \<le> c' \<and> c' \<le> length rs \<and> (\<forall>i. c \<le> i \<and> i < c' \<longrightarrow> P i) \<and> (c' < length rs \<longrightarrow> \<not> P c')"
  using assms(1,3)
proof (induction "length rs - c" arbitrary: c pend k)
  case 0
  then have "map_of pend (pos rs c) \<noteq> Some e" for e by (auto simp: pending_is_def)
  then have "map_of pend (pos rs c) = None" by (cases "map_of pend (pos rs c)") auto
  then show ?case using 0 by (intro exI [of _ c] exI [of _ pend]) (auto simp: fold_pending.simps)
next
  case (Suc m)
  have inj: "i = j" if "pos rs i = pos rs j" "i < length rs" "j < length rs" for i j
    using pos_inj [OF assms(2)] that by auto
  show ?case
  proof (cases "P c")
    case False
    have "map_of pend (pos rs c) \<noteq> Some e" for e
    proof
      assume "map_of pend (pos rs c) = Some e"
      then obtain i where i: "i < length rs" "P i" "pos rs c = pos rs i" using Suc.prems(1) unfolding pending_is_def by blast
      have "c = i" by (rule inj) (use i Suc.hyps(2) in auto)
      then show False using i False by simp
    qed
    then have "map_of pend (pos rs c) = None" by (cases "map_of pend (pos rs c)") auto
    then show ?thesis using Suc.prems False by (intro exI [of _ c] exI [of _ pend]) (auto simp: fold_pending.simps)
  next
    case True
    then have at: "map_of pend (pos rs c) = Some (pos rs (Suc c))"
      using Suc.prems(1) Suc.hyps(2) by (auto simp: pending_is_def)
    have p': "pending_is (AList.delete (pos rs c) pend) rs P (Suc c)"
      unfolding pending_is_def
    proof (intro allI)
      fix a e
      note old = Suc.prems(1) [unfolded pending_is_def, rule_format, of a e]
      show "map_of (AList.delete (pos rs c) pend) a = Some e \<longleftrightarrow>
          (\<exists>i. Suc c \<le> i \<and> i < length rs \<and> P i \<and> a = pos rs i \<and> e = pos rs (Suc i))" (is "?l \<longleftrightarrow> ?r")
      proof (cases "a = pos rs c")
        case True
        have "\<not> ?r"
        proof
          assume ?r
          then obtain i where i: "Suc c \<le> i" "i < length rs" "pos rs c = pos rs i" using True by auto
          have "c = i" by (rule inj) (use i Suc.hyps(2) in auto)
          then show False using i by simp
        qed
        then show ?thesis using True by (simp add: delete_conv')
      next
        case False
        then have "(\<exists>i. c \<le> i \<and> i < length rs \<and> P i \<and> a = pos rs i \<and> e = pos rs (Suc i)) \<longleftrightarrow> ?r"
          using Suc_le_eq le_neq_implies_less by (metis Suc_leD)
        then show ?thesis using old False by (simp add: delete_conv')
      qed
    qed
    have "m = length rs - Suc c" "Suc c \<le> length rs" using Suc.hyps(2) by auto
    from Suc.hyps(1) [OF this(1) p' this(2), of "k + 1"] obtain c' pend' where c':
      "fold_pending (pos rs (Suc c)) (AList.delete (pos rs c) pend) (k + 1) = (pos rs c', pend', k + 1 + (c' - Suc c))"
      "pending_is pend' rs P c'" "Suc c \<le> c'" "c' \<le> length rs" "\<forall>i. Suc c \<le> i \<and> i < c' \<longrightarrow> P i" "c' < length rs \<longrightarrow> \<not> P c'"
      by blast
    have "fold_pending (pos rs c) pend k = (pos rs c', pend', k + (c' - c))"
      using at c'(1,3) by (subst fold_pending.simps) simp
    moreover have "P i" if "c \<le> i" "i < c'" for i using that True c'(5) by (cases "i = c") auto
    ultimately show ?thesis using c' by (intro exI [of _ c'] exI [of _ pend']) auto
  qed
qed

lemma ring_rel_publish:
  assumes "ring_rel s f c" "i < length (rr_appends s)" "rr_appends s ! i = (t, bs, Filled)"
  shows "\<exists>c'. ring_rel (s\<lparr> rr_ring := ring_publish t (rr_ring s), rr_appends := (rr_appends s)[i := (t, bs, Published)] \<rparr>) f c'"
proof -
  let ?as = "rr_appends s" and ?r = "rr_ring s"
  let ?rs = "recs ?as" and ?as' = "?as[i := (t, bs, Published)]"
  note R = ring_rel_facts [OF assms(1)]
  have phi: "ph ?as i = Filled" using assms(3) by (simp add: ph_def)
  have ci: "c \<le> i" using R(8) [of i] phi by (cases "c \<le> i") auto
  have t: "t = \<lparr> t_start = pos ?rs i, t_end = pos ?rs (Suc i) \<rparr>" using R(2) [OF assms(2)] assms(3) by simp
  have ne: "\<forall>bs \<in> set ?rs. bs \<noteq> []" using R(3) by blast
  have ph': "ph ?as' j = (if j = i then Published else ph ?as j)" for j using assms(2) by (rule ph_update)
  define pend where "pend = AList.update (pos ?rs i) (pos ?rs (Suc i)) (adv_pending (r_advance ?r))"
  have up: "pending_is pend ?rs (\<lambda>j. ph ?as' j = Published) c"
    unfolding pending_is_def
  proof (intro allI)
    fix a e
    note old = R(10) [unfolded pending_is_def, rule_format, of a e]
    show "map_of pend a = Some e \<longleftrightarrow>
        (\<exists>j. c \<le> j \<and> j < length ?rs \<and> ph ?as' j = Published \<and> a = pos ?rs j \<and> e = pos ?rs (Suc j))" (is "?l \<longleftrightarrow> ?r")
    proof (cases "a = pos ?rs i")
      case True
      have "j = i" if "pos ?rs i = pos ?rs j" "j < length ?rs" for j
        using pos_inj [OF ne, of i j] that assms(2) by simp
      then have "?r \<longleftrightarrow> e = pos ?rs (Suc i)" using True ci assms(2) by (auto simp: ph')
      then show ?thesis using True by (auto simp: pend_def update_conv')
    next
      case False
      then have "?r \<longleftrightarrow> (\<exists>j. c \<le> j \<and> j < length ?rs \<and> ph ?as j = Published \<and> a = pos ?rs j \<and> e = pos ?rs (Suc j))"
        by (auto simp: ph')
      then show ?thesis using old False by (simp add: pend_def update_conv')
    qed
  qed
  obtain c' pend' where c': "fold_pending (pos ?rs c) pend 0 = (pos ?rs c', pend', 0 + (c' - c))"
      "pending_is pend' ?rs (\<lambda>j. ph ?as' j = Published) c'" "c \<le> c'" "c' \<le> length ?rs"
      "\<forall>j. c \<le> j \<and> j < c' \<longrightarrow> ph ?as' j = Published" "c' < length ?rs \<longrightarrow> ph ?as' c' \<noteq> Published"
    using fold_pending_spec [OF up ne, of 0] R(5) by auto
  have eq: "pos ?rs c' = pos ?rs c \<longleftrightarrow> c' = c" using pos_inj [OF ne, of c' c] c'(3,4) by auto
  let ?q = "ring_publish t ?r"
  have flds: "r_buf ?q = r_buf ?r" "r_mask ?q = r_mask ?r" "r_capacity ?q = r_capacity ?r" "r_tail ?q = r_tail ?r"
    "flush_cursor ?q = flush_cursor ?r" "committed_addr ?q = pos ?rs c'" "committed_records ?q = rr_base s + c'"
    "adv_count (r_advance ?q) = rr_base s + c'" "adv_pending (r_advance ?q) = pend'"
    using c'(1,3) R(7,14,15) eq by (auto simp: ring_publish_def Let_def t pend_def [symmetric])
  have con: "contents ?q ?as'"
    using R(9) assms(2) phi unfolding contents_def recs_update [OF assms(3)] flds length_list_update ph' by auto
  have sh: "ring_shape ?q" using R(1) by (simp add: ring_shape_def flds)
  have pub: "ph ?as' j = Published" if "j < c'" for j
    using R(8) [of j] c'(5) that by (cases "j < c") (auto simp: ph')
  have "ring_rel (s\<lparr> rr_ring := ?q, rr_appends := ?as' \<rparr>) f c'"
    by (rule ring_relI)
       (use R(2-6) R(12,13) c' in \<open>simp_all add: flds recs_update [OF assms(3)] fst_update [OF assms(3)] con sh pub\<close>)
  then show ?thesis by blast
qed

lemma drained_bytes:
  assumes "ring_rel s f c"
  shows "rr_out s @ concat (fst (copy_committed_prefix (rr_ring s))) = concat (take c (recs (rr_appends s)))"
proof -
  let ?as = "rr_appends s" and ?r = "rr_ring s"
  let ?rs = "recs ?as"
  note R = ring_rel_facts [OF assms]
  have le: "pos ?rs f \<le> pos ?rs c" using R(4) by (rule pos_mono)
  have up: "pos ?rs c \<le> flush_cursor ?r + r_capacity ?r"
  proof (cases c)
    case (Suc m)
    then show ?thesis using contents_window [OF R(9), of m] R(5) R(8) [of m] by simp
  qed simp
  have "map (\<lambda>a. r_buf ?r ! (a mod r_capacity ?r)) [pos ?rs f ..< pos ?rs c] = map (\<lambda>a. concat ?rs ! a) [pos ?rs f ..< pos ?rs c]"
  proof (rule map_cong [OF refl])
    fix a assume a: "a \<in> set [pos ?rs f ..< pos ?rs c]"
    then obtain i where i: "i < c" "pos ?rs i \<le> a" "a < pos ?rs (Suc i)" using tile_of [of a ?rs c] R(5) by auto
    then show "r_buf ?r ! (a mod r_capacity ?r) = concat ?rs ! a"
      using contents_byte [OF R(9), of i a] R(5) R(8) [of i] a by (simp add: R(6))
  qed
  also have "\<dots> = drop (pos ?rs f) (take (pos ?rs c) (concat ?rs))"
  proof -
    have "pos ?rs c \<le> length (concat ?rs)" using R(5) pos_mono [of c "length ?rs" ?rs] pos_length [of ?rs] by simp
    then show ?thesis by (intro nth_equalityI) auto
  qed
  finally have b: "concat (fst (copy_committed_prefix ?r)) = drop (pos ?rs f) (take (pos ?rs c) (concat ?rs))"
    using copy_bytes [OF R(1)] le up by (simp add: R(6,7))
  have "rr_out s = take (pos ?rs f) (take (pos ?rs c) (concat ?rs))"
    using R(12) take_pos [of f ?rs] R(4,5) le by (simp add: min_absorb1)
  then have "rr_out s @ concat (fst (copy_committed_prefix ?r)) = take (pos ?rs c) (concat ?rs)"
    unfolding b by (simp only: append_take_drop_id)
  then show ?thesis using take_pos [of c ?rs] R(5) by simp
qed

lemma ring_rel_drain:
  assumes "ring_rel s f c" "copy_committed_prefix (rr_ring s) = (chunks, r)"
  shows "ring_rel (s\<lparr> rr_ring := r, rr_out := rr_out s @ concat chunks \<rparr>) c c"
proof -
  note R = ring_rel_facts [OF assms(1)]
  have le: "flush_cursor (rr_ring s) \<le> committed_addr (rr_ring s)" using R(4) by (simp add: R(6,7) pos_mono)
  have r: "r = (rr_ring s)\<lparr> flush_cursor := committed_addr (rr_ring s) \<rparr>"
    using assms(2) le by (auto simp: copy_committed_prefix_def Let_def split: if_splits)
  have flds: "r_tail r = r_tail (rr_ring s)" "flush_cursor r = committed_addr (rr_ring s)"
    "committed_addr r = committed_addr (rr_ring s)" "committed_records r = committed_records (rr_ring s)"
    "r_advance r = r_advance (rr_ring s)" "r_capacity r = r_capacity (rr_ring s)" "r_buf r = r_buf (rr_ring s)" by (simp_all add: r)
  have con: "contents r (rr_appends s)"
    using R(9) le unfolding contents_def flds by (meson add_le_mono1 order_trans)
  have sh: "ring_shape r" using R(1) by (simp add: r ring_shape_def)
  show ?thesis
    by (rule ring_relI) (use R drained_bytes [OF assms(1)] assms(2) in \<open>simp_all add: flds con sh\<close>)
qed

lemma ring_rel_reset:
  assumes "ring_rel s f c" "r_tail (rr_ring s) = committed_addr (rr_ring s)" "flush_cursor (rr_ring s) = committed_addr (rr_ring s)"
  shows "ring_rel (s\<lparr> rr_ring := reset_after_drain (rr_ring s), rr_appends := [], rr_out := [],
    rr_base := rr_base s + length (rr_appends s) \<rparr>) 0 0"
proof -
  note R = ring_rel_facts [OF assms(1)]
  have "\<forall>bs \<in> set (recs (rr_appends s)). bs \<noteq> []" using R(3) by blast
  from pos_inj [OF this, of c "length (rr_appends s)"] have c: "c = length (rr_appends s)"
    using assms(2) R(5) by (simp add: R(7,13))
  have "map_of (adv_pending (r_advance (rr_ring s))) a \<noteq> Some e" for a e
    using R(10) c by (auto simp: pending_is_def)
  then have "map_of (adv_pending (r_advance (rr_ring s))) a = None" for a by (meson not_Some_eq)
  then show ?thesis
    using R(1,14,15) c by (auto simp: ring_rel_def Let_def reset_after_drain_def ring_shape_def pending_is_def recs_def contents_def)
qed

lemma ring_step_inv: "ring_step s s' \<Longrightarrow> ring_inv s \<Longrightarrow> ring_inv s'"
proof (induction rule: ring_step.induct)
  case (reserve bs s t r)
  then show ?case using ring_rel_reserve unfolding ring_inv_def by blast
next
  case (fill i s t bs)
  then show ?case using ring_rel_fill unfolding ring_inv_def by blast
next
  case (publish i s t bs)
  then show ?case using ring_rel_publish unfolding ring_inv_def by blast
next
  case (drain s chunks r)
  then show ?case using ring_rel_drain unfolding ring_inv_def by blast
next
  case (reset s)
  then show ?case using ring_rel_reset unfolding ring_inv_def by blast
qed

theorem ring_reachable_inv: "ring_step\<^sup>*\<^sup>* (rr_start n) s \<Longrightarrow> ring_inv s"
proof (induction rule: rtranclp_induct)
  case base
  then show ?case using ring_rel_start unfolding ring_inv_def by blast
qed (rule ring_step_inv)

text \<open>What the flusher has written is the first records in reservation order, all of them published; and when no
  append is in flight, one more drain writes everything.\<close>

theorem ring_output_prefix:
  assumes "ring_step\<^sup>*\<^sup>* (rr_start n) s"
  shows "\<exists>k \<le> length (rr_appends s). rr_out s = concat (take k (recs (rr_appends s)))
    \<and> (\<forall>i < k. ph (rr_appends s) i = Published)"
proof -
  obtain f c where "ring_rel s f c" using ring_reachable_inv [OF assms] by (auto simp: ring_inv_def)
  note R = ring_rel_facts [OF this]
  show ?thesis using R(4,5,8,12) by (intro exI [of _ f]) auto
qed

theorem ring_quiescent_drain:
  assumes "ring_step\<^sup>*\<^sup>* (rr_start n) s" "\<forall>i < length (rr_appends s). ph (rr_appends s) i = Published"
  shows "rr_out s @ concat (fst (copy_committed_prefix (rr_ring s))) = concat (recs (rr_appends s))"
proof -
  obtain f c where rel: "ring_rel s f c" using ring_reachable_inv [OF assms(1)] by (auto simp: ring_inv_def)
  note R = ring_rel_facts [OF rel]
  have "c = length (rr_appends s)" using R(5,11) assms(2) by (cases "c < length (rr_appends s)") auto
  then show ?thesis using drained_bytes [OF rel] by simp
qed

end
