(* ===== verification/Wal_Correct.thy ===== *)
theory Wal_Correct
  imports Wal_Codec
begin

text \<open>Correctness of the write-ahead log codec: whatever an encoder wrote, the decoder reads back, one record at
  a time; a cut record is recognised as a torn tail.\<close>

section \<open>Readers against encoders\<close>

text \<open>\<open>reads r bs a\<close>: the reader \<open>r\<close> consumes exactly \<open>bs\<close> and returns \<open>a\<close>, whatever follows.\<close>

definition reads_back :: "'a reader \<Rightarrow> bytes \<Rightarrow> 'a \<Rightarrow> bool" where
  "reads_back r bs a = (\<forall>rest. r (bs @ rest) = Inr (a, rest))"

lemma reads_back_rdo:
  assumes "reads_back r bs a" "reads_back (k a) bs' b"
  shows "reads_back (rdo r k) (bs @ bs') b"
  using assms by (simp add: reads_back_def rdo_def)

lemma reads_back_rdo_give: "reads_back r bs a \<Longrightarrow> reads_back (rdo r (\<lambda>x. give (g x))) bs (g a)"
  by (simp add: reads_back_def rdo_def give_def)

lemma reads_back_give [simp]: "reads_back (give a) [] b \<longleftrightarrow> a = b"
  by (auto simp: reads_back_def give_def)

lemma reads_back_take [simp]: "reads_back (take_bytes (length bs)) bs bs"
  by (simp add: reads_back_def take_bytes_def)

lemma reads_back_u8: "reads_back read_u8 [x] x"
  by (simp add: reads_back_def read_u8_def rdo_def give_def take_bytes_def)

lemma reads_back_u32: "reads_back read_u32 (u32_bytes w) w"
  using reads_back_rdo_give [OF reads_back_take [of "u32_bytes w"], of u32_of_bytes] by (simp add: read_u32_def)

lemma reads_back_u64: "reads_back read_u64 (u64_bytes w) w"
  using reads_back_rdo_give [OF reads_back_take [of "u64_bytes w"], of u64_of_bytes] by (simp add: read_u64_def)

lemma reads_back_digest: "length d = 32 \<Longrightarrow> reads_back read_digest d d"
  using reads_back_take [of d] by (simp add: read_digest_def JOURNAL_DIGEST_BYTES_def)

lemma unat_len32: "n < 2 ^ 32 \<Longrightarrow> unat (word_of_nat n :: u32) = n"
  by (simp add: unat_of_nat)

lemma write_bytes_Inr: "write_bytes b = Inr bs \<longleftrightarrow> length b < 2 ^ 32 \<and> bs = u32_bytes (word_of_nat (length b)) @ b"
  by (auto simp: write_bytes_def)

lemma reads_back_bytes: "write_bytes b = Inr bs \<Longrightarrow> reads_back read_bytes bs b"
  unfolding read_bytes_def write_bytes_Inr
  by (auto intro!: reads_back_rdo reads_back_u32 simp: unat_len32)

lemmas reads_back_fields = reads_back_u8 reads_back_u32 reads_back_u64 reads_back_bytes reads_back_digest

section \<open>Primitive operations\<close>

primrec primitive :: "WalOp \<Rightarrow> bool" where
  "primitive (WalInsert tree_id key val) = True"
| "primitive (WalErase tree_id key) = True"
| "primitive (RenameObject tree_id src_key dst_key force) = True"
| "primitive (Batch ops) = False"
| "primitive (DbBatchWithEnvelope envelope ops) = False"

lemma primitive_tag: "primitive op \<longleftrightarrow> \<not> (variant_tag op = TY_BATCH \<or> variant_tag op = TY_DB_BATCH_WITH_ENVELOPE)"
  by (cases op) (simp_all add: ty_defs)

lemma reads_back_Cons: "reads_back r (x # bs) a = reads_back r ([x] @ bs) a"
  by simp

lemma decode_primitive_simps:
  "decode_primitive TY_INSERT =
    rdo read_u64 (\<lambda>tree_id. rdo read_bytes (\<lambda>key. rdo read_bytes (\<lambda>val. give (WalInsert tree_id key val))))"
  "decode_primitive TY_ERASE = rdo read_u64 (\<lambda>tree_id. rdo read_bytes (\<lambda>key. give (WalErase tree_id key)))"
  "decode_primitive TY_RENAME_OBJECT =
    rdo read_u64 (\<lambda>tree_id. rdo read_bytes (\<lambda>src_key. rdo read_bytes (\<lambda>dst_key. rdo read_u8 (\<lambda>force.
      give (RenameObject tree_id src_key dst_key (force \<noteq> 0))))))"
  by (simp_all add: decode_primitive_def ty_defs)

lemma decode_primitive_reads:
  assumes "primitive op" "encode_body op = Inr b"
  shows "reads_back (decode_primitive (variant_tag op)) b op"
proof (cases op)
  case (WalInsert t k v)
  then obtain kb vb where w: "write_bytes k = Inr kb" "write_bytes v = Inr vb" and b: "b = u64_bytes t @ kb @ vb"
    using assms(2) by (auto simp: rbind_eq_Inr)
  note r = reads_back_rdo [OF reads_back_bytes [OF w(1)]] reads_back_rdo_give [OF reads_back_bytes [OF w(2)]]
  show ?thesis unfolding WalInsert b variant_tag.simps decode_primitive_simps
    by (intro reads_back_rdo [OF reads_back_u64] r)
next
  case (WalErase t k)
  then obtain kb where w: "write_bytes k = Inr kb" and b: "b = u64_bytes t @ kb"
    using assms(2) by (auto simp: rbind_eq_Inr)
  show ?thesis unfolding WalErase b variant_tag.simps decode_primitive_simps
    by (intro reads_back_rdo [OF reads_back_u64] reads_back_rdo_give [OF reads_back_bytes [OF w]])
next
  case (RenameObject t s d force)
  then obtain sb db where w: "write_bytes s = Inr sb" "write_bytes d = Inr db" and b: "b = u64_bytes t @ sb @ db @ [of_bool force]"
    using assms(2) by (auto simp: rbind_eq_Inr)
  note r = reads_back_bytes [OF w(1)] reads_back_bytes [OF w(2)]
  have "reads_back (rdo read_u8 (\<lambda>f. give (RenameObject t s d (f \<noteq> 0)))) [of_bool force] (RenameObject t s d force)"
    using reads_back_rdo_give [OF reads_back_u8 [of "of_bool force"], of "\<lambda>f. RenameObject t s d (f \<noteq> 0)"] by simp
  then show ?thesis unfolding RenameObject b variant_tag.simps decode_primitive_simps
    by (intro reads_back_rdo [OF reads_back_u64] reads_back_rdo [OF r(1)] reads_back_rdo [OF r(2)])
qed (use assms(1) in simp_all)

section \<open>Batches\<close>

text \<open>The bytes \<open>bs\<close> that one iteration of the batch loop turns into \<open>new\<close>.\<close>

definition inner_frame :: "nat \<Rightarrow> bytes \<Rightarrow> WalOp list \<Rightarrow> bool" where
  "inner_frame cnt bs new =
    (\<forall>ops. length ops + length new \<le> cnt \<longrightarrow> new \<noteq> [] \<and> reads_back (decode_inner cnt ops) bs (ops @ new))"

lemma decode_ops_done: "cnt \<le> length ops \<Longrightarrow> reads_back (decode_ops cnt ops) [] ops"
  by (subst reads_back_def) (simp add: decode_ops.simps)

lemma decode_ops_step:
  assumes "inner_frame cnt bs new" "length ops + length new \<le> cnt" "reads_back (decode_ops cnt (ops @ new)) bs' res"
  shows "reads_back (decode_ops cnt ops) (bs @ bs') res"
proof -
  have n: "new \<noteq> []" and "reads_back (decode_inner cnt ops) bs (ops @ new)"
    using assms(1,2) by (auto simp: inner_frame_def)
  then have r: "decode_inner cnt ops (bs @ r) = Inr (ops @ new, r)" for r by (simp add: reads_back_def)
  have "length ops < cnt" using n assms(2) by (cases new) auto
  then show ?thesis using assms(3) r unfolding reads_back_def by (subst decode_ops.simps) simp
qed

lemma inner_frame_primitive:
  assumes "primitive op" "encode_body op = Inr b"
  shows "inner_frame cnt (variant_tag op # b) [op]"
proof -
  have t: "variant_tag op \<noteq> TY_BATCH_INSERT_RUN" "variant_tag op \<noteq> TY_BATCH_INSERT_PREFIX_RUN"
    using assms(1) by (cases op; simp add: ty_defs)+
  have "reads_back (rdo (decode_primitive (variant_tag op)) (\<lambda>op. give (ops @ [op]))) b (ops @ [op])" for ops
    by (rule reads_back_rdo_give [OF decode_primitive_reads [OF assms]])
  then have "reads_back (decode_inner cnt ops) ([variant_tag op] @ b) (ops @ [op])" for ops
    unfolding decode_inner_def using t assms(1)
    by (intro reads_back_rdo [OF reads_back_u8]) (simp add: primitive_tag)
  then show ?thesis by (simp add: inner_frame_def)
qed

lemma decode_ops_encoded:
  assumes "encode_ops ops = Inr b" "length acc + length ops \<le> cnt" "cnt \<le> length acc + length ops"
  shows "reads_back (decode_ops cnt acc) b (acc @ ops)"
  using assms
proof (induction ops arbitrary: b acc)
  case (Cons op ops)
  then obtain b1 b2 where b: "primitive op" "encode_body op = Inr b1" "encode_ops ops = Inr b2" "b = (variant_tag op # b1) @ b2"
    by (auto simp: rbind_eq_Inr primitive_tag split: if_splits)
  have "reads_back (decode_ops cnt (acc @ [op])) b2 ((acc @ [op]) @ ops)"
    using Cons.prems b(3) by (intro Cons.IH) auto
  then show ?case unfolding b(4) using Cons.prems(2)
    by (intro decode_ops_step [OF inner_frame_primitive [OF b(1,2)]]) auto
qed (simp add: decode_ops_done)

section \<open>Envelopes\<close>

definition envelope_ok :: "JournalEnvelope \<Rightarrow> bool" where
  "envelope_ok e = (contiguous e \<and> env_payload e \<noteq> [] \<and> length (env_payload e) < 2 ^ 32
    \<and> length (anchor_digest (env_previous e)) = 32 \<and> length (anchor_digest (env_current e)) = 32)"

lemma anchor_eta [simp]: "\<lparr> anchor_seq = anchor_seq a, anchor_digest = anchor_digest a \<rparr> = a"
  by (cases a) simp

lemma decode_envelope_reads:
  assumes "envelope_ok e" "encode_journal_envelope e = Inr b"
  shows "reads_back decode_journal_envelope b e"
proof -
  obtain pb where pb: "write_bytes (env_payload e) = Inr pb"
      "b = JOURNAL_ENVELOPE_WIRE_VERSION # u64_bytes (anchor_seq (env_previous e)) @ anchor_digest (env_previous e)
             @ u64_bytes (anchor_seq (env_current e)) @ anchor_digest (env_current e) @ pb"
    using assms(2) by (auto simp: encode_journal_envelope_def rbind_eq_Inr)
  have new: "envelope_new (env_previous e) (env_current e) (env_payload e) = Inr e"
    using assms(1) by (simp add: envelope_new_Inr envelope_ok_def)
  have d: "length (anchor_digest (env_previous e)) = 32" "length (anchor_digest (env_current e)) = 32"
    using assms(1) by (simp_all add: envelope_ok_def)
  have "reads_back decode_journal_envelope ([JOURNAL_ENVELOPE_WIRE_VERSION] @ u64_bytes (anchor_seq (env_previous e))
      @ anchor_digest (env_previous e) @ u64_bytes (anchor_seq (env_current e)) @ anchor_digest (env_current e) @ pb @ []) e"
    unfolding decode_journal_envelope_def
    apply (rule reads_back_rdo [OF reads_back_u8])
    apply (simp only: not_True_eq_False if_False simp_thms)
    apply (intro reads_back_rdo [OF reads_back_u64] reads_back_rdo [OF reads_back_digest [OF d(1)]]
        reads_back_rdo [OF reads_back_digest [OF d(2)]] reads_back_rdo [OF reads_back_bytes [OF pb(1)]])
    using new by simp
  then show ?thesis using pb(2) by simp
qed

section \<open>Records\<close>

text \<open>The operations the log carries: the envelope of an attached batch was built by its constructor.\<close>

primrec wal_op_ok :: "WalOp \<Rightarrow> bool" where
  "wal_op_ok (WalInsert tree_id key val) = True"
| "wal_op_ok (WalErase tree_id key) = True"
| "wal_op_ok (RenameObject tree_id src_key dst_key force) = True"
| "wal_op_ok (Batch ops) = True"
| "wal_op_ok (DbBatchWithEnvelope envelope ops) = envelope_ok envelope"

lemma decode_batch_reads:
  assumes "reads_back (decode_ops (unat n) []) ob ops"
  shows "reads_back (decode_body_into TY_BATCH) (u64_bytes t @ u32_bytes n @ ob) (Batch ops)"
  unfolding decode_body_into_def using assms
  by (auto intro!: reads_back_rdo [OF reads_back_u64] reads_back_rdo [OF reads_back_u32] reads_back_rdo_give simp: ty_defs)

lemma decode_db_batch_reads:
  assumes "reads_back (decode_ops (unat n) []) ob ops" "reads_back decode_journal_envelope eb e"
  shows "reads_back (decode_body_into TY_DB_BATCH_WITH_ENVELOPE) (u64_bytes t @ u32_bytes n @ eb @ ob) (DbBatchWithEnvelope e ops)"
  unfolding decode_body_into_def using assms
  by (auto intro!: reads_back_rdo [OF reads_back_u64] reads_back_rdo [OF reads_back_u32]
      reads_back_rdo [where r = decode_journal_envelope] reads_back_rdo_give)

lemma decode_body_into_reads:
  assumes "wal_op_ok op" "encode_body op = Inr b"
  shows "reads_back (decode_body_into (variant_tag op)) b op"
proof -
  have ops: "reads_back (decode_ops (unat (word_of_nat (length ops) :: u32)) []) ob ops"
    if "encode_ops ops = Inr ob" "length ops < 2 ^ 32" for ops ob
    using decode_ops_encoded [OF that(1), of "[]" "length ops"] that(2) by (simp add: unat_len32)
  show ?thesis
  proof (cases op)
    case (Batch ops)
    then obtain ob where "length ops < 2 ^ 32" "encode_ops ops = Inr ob" "b = u64_bytes 0 @ u32_bytes (word_of_nat (length ops)) @ ob"
      using assms(2) by (auto simp: rbind_eq_Inr split: if_splits)
    then show ?thesis using Batch ops decode_batch_reads by simp
  next
    case (DbBatchWithEnvelope e ops)
    then obtain eb ob where ob: "length ops < 2 ^ 32" "encode_ops ops = Inr ob" "encode_journal_envelope e = Inr eb"
        "b = u64_bytes 0 @ u32_bytes (word_of_nat (length ops)) @ eb @ ob"
      using assms(2) by (auto simp: rbind_eq_Inr split: if_splits)
    have "reads_back decode_journal_envelope eb e"
      using assms(1) DbBatchWithEnvelope ob(3) by (intro decode_envelope_reads) simp_all
    then show ?thesis using DbBatchWithEnvelope ob ops decode_db_batch_reads by simp
  qed (use assms decode_primitive_reads [of op b] in \<open>auto simp: decode_body_into_def ty_defs\<close>)
qed

lemma decode_body_encoded: "wal_op_ok op \<Longrightarrow> encode_body op = Inr b \<Longrightarrow> decode_body (variant_tag op) b = Inr op"
  using decode_body_into_reads [of op b] unfolding reads_back_def decode_body_def
  by (auto dest!: spec [of _ "[]"])

lemma length_record_header [simp]: "length (record_header n sq ty) = 17"
  by (simp add: record_header_def)

lemma record_header_fields:
  "sub (record_header n sq ty @ r) 0 4 = u32_bytes RECORD_MAGIC" "sub (record_header n sq ty @ r) 4 8 = u32_bytes n"
  "sub (record_header n sq ty @ r) 8 16 = u64_bytes sq" "(record_header n sq ty @ r) ! 16 = ty"
  by (simp_all add: sub_def record_header_def nth_append)

text \<open>A framed record: header, body and checksum.\<close>

definition framed :: "crc \<Rightarrow> u64 \<Rightarrow> u8 \<Rightarrow> bytes \<Rightarrow> bytes" where
  "framed crc sq ty b =
    (let rec = record_header (word_of_nat (length b)) sq ty @ b in rec @ u32_bytes (crc rec))"

lemma length_framed [simp]: "length (framed crc sq ty b) = length b + 21"
  by (simp add: framed_def Let_def)

lemma decode_framed:
  assumes "length b < 2 ^ 32"
  shows "decode_record crc (framed crc sq ty b @ rest) =
    rbind (decode_body ty b) (\<lambda>op. Inr \<lparr> dec_op = op, dec_seq = sq, bytes_consumed = length b + 21 \<rparr>)"
proof -
  let ?h = "record_header (word_of_nat (length b)) sq ty"
  let ?buf = "framed crc sq ty b @ rest"
  have buf: "?buf = ?h @ (b @ u32_bytes (crc (?h @ b)) @ rest)" by (simp add: framed_def Let_def)
  have e: "sub ?buf 17 (17 + length b) = b" "take (17 + length b) ?buf = ?h @ b"
      "sub ?buf (17 + length b) (17 + length b + 4) = u32_bytes (crc (?h @ b))"
    unfolding buf by (simp_all add: sub_def)
  have n: "unat (word_of_nat (length b) :: u32) = length b" using assms by (rule unat_len32)
  have f: "u32_of_bytes (sub ?buf 0 4) = RECORD_MAGIC" "u32_of_bytes (sub ?buf 4 8) = word_of_nat (length b)"
    "u64_of_bytes (sub ?buf 8 16) = sq" "?buf ! 16 = ty"
    unfolding buf record_header_fields by simp_all
  show ?thesis
    unfolding decode_record_def record_sizes f Let_def n
    using e by (simp add: add.commute add.left_commute numeral_eq_Suc)
qed

theorem record_round_trip:
  assumes "wal_op_ok op" "encode_record crc op sq out = Inr bs"
  shows "\<exists>rec. bs = out @ rec \<and> decode_record crc (rec @ rest) =
    Inr \<lparr> dec_op = op, dec_seq = sq, bytes_consumed = length rec \<rparr>"
proof -
  obtain b where b: "encode_body op = Inr b" "length b < 2 ^ 32" "bs = out @ framed crc sq (variant_tag op) b"
    using assms(2) by (auto simp: encode_record_def write_record_def rbind_eq_Inr framed_def Let_def split: if_splits)
  show ?thesis
    using b(3) decode_framed [OF b(2)] decode_body_encoded [OF assms(1) b(1)]
    by (intro exI [of _ "framed crc sq (variant_tag op) b"]) simp
qed

text \<open>Every proper prefix of a record is recognised as truncated.\<close>

lemma decode_cut_record:
  assumes "length b < 2 ^ 32" "n < length (framed crc sq ty b)"
  shows "decode_record crc (take n (framed crc sq ty b)) =
    Inl (sanity (if n < 17 then ''record header truncated'' else ''record body truncated''))"
proof (cases "n < 17")
  case True
  then show ?thesis using assms(2) by (simp add: decode_record_def record_sizes)
next
  case False
  let ?h = "record_header (word_of_nat (length b)) sq ty"
  obtain r where r: "take n (framed crc sq ty b) = ?h @ r"
    using False by (simp add: framed_def Let_def take_append)
  have "length (take n (framed crc sq ty b)) = n" using assms(2) by simp
  then have l: "length r + 17 = n" unfolding r by simp
  show ?thesis
    unfolding r decode_record_def record_header_fields
    using l assms False by (simp add: record_sizes unat_len32)
qed

section \<open>The streaming encoder\<close>

text \<open>What a caller pushes into an open batch, and the logical operations it stands for.\<close>

datatype batch_push =
  PushInsert u64 bytes bytes
| PushRun u64 nat nat "(bytes \<times> bytes) list"
| PushPrefixRun u64 bytes "(bytes \<times> bytes) list"
| PushErase u64 bytes
| PushRename u64 bytes bytes bool

fun do_push :: "batch_push \<Rightarrow> BatchEncoder \<Rightarrow> BatchEncoder result" where
  "do_push (PushInsert t k v) be = push_insert t k v be"
| "do_push (PushRun t kl vl items) be = push_insert_run t (length items) kl vl items be"
| "do_push (PushPrefixRun t p items) be = push_insert_prefix_run t p (length items) items be"
| "do_push (PushErase t k) be = push_erase t k be"
| "do_push (PushRename t s d f) be = push_rename_object t s d f be"

fun push_ops :: "batch_push \<Rightarrow> WalOp list" where
  "push_ops (PushInsert t k v) = [WalInsert t k v]"
| "push_ops (PushRun t kl vl items) = map (\<lambda>(k, v). WalInsert t k v) items"
| "push_ops (PushPrefixRun t p items) = map (\<lambda>(k, v). WalInsert t k v) items"
| "push_ops (PushErase t k) = [WalErase t k]"
| "push_ops (PushRename t s d f) = [RenameObject t s d f]"

text \<open>The conditions the encoder checks only in debug builds.\<close>

fun push_wf :: "batch_push \<Rightarrow> bool" where
  "push_wf (PushRun t kl vl items) = (items \<noteq> [] \<and> (\<forall>(k, v) \<in> set items. length k = kl \<and> length v = vl))"
| "push_wf (PushPrefixRun t p items) = (items \<noteq> [] \<and> (\<forall>(k, v) \<in> set items. prefix p k))"
| "push_wf _ = True"

fun run_pushes :: "batch_push list \<Rightarrow> BatchEncoder \<Rightarrow> BatchEncoder result" where
  "run_pushes [] be = Inr be"
| "run_pushes (p # ps) be = rbind (do_push p be) (run_pushes ps)"

lemma read_run_items_reads:
  assumes "\<forall>(k, v) \<in> set items. length k = kl \<and> length v = vl"
  shows "reads_back (read_run_items (length items) t kl vl) (concat (map (\<lambda>(k, v). k @ v) items))
    (map (\<lambda>(k, v). WalInsert t k v) items)"
  using assms
proof (induction items)
  case (Cons kv items)
  obtain k v where kv: "kv = (k, v)" by (cases kv)
  have l: "length k = kl" "length v = vl" using Cons.prems kv by auto
  have k: "reads_back (take_bytes kl) k k" "reads_back (take_bytes vl) v v"
    using reads_back_take [of k] reads_back_take [of v] l by simp_all
  have "reads_back (read_run_items (length items) t kl vl) (concat (map (\<lambda>(k, v). k @ v) items)) (map (\<lambda>(k, v). WalInsert t k v) items)"
    using Cons by auto
  then show ?case unfolding kv
    by (auto intro!: reads_back_rdo [OF k(1)] reads_back_rdo [OF k(2)] reads_back_rdo_give)
qed simp

lemma read_prefix_run_items_reads:
  assumes "\<forall>(k, v) \<in> set items. prefix p k" "write_suffixes (length p) items = Inr bs"
  shows "reads_back (read_prefix_run_items (length items) t p) bs (map (\<lambda>(k, v). WalInsert t k v) items)"
  using assms
proof (induction items arbitrary: bs)
  case (Cons kv items)
  obtain k v where kv: "kv = (k, v)" by (cases kv)
  obtain sb vb r where w: "write_bytes (drop (length p) k) = Inr sb" "write_bytes v = Inr vb"
      "write_suffixes (length p) items = Inr r" "bs = sb @ vb @ r"
    using Cons.prems(2) kv by (auto simp: rbind_eq_Inr split: if_splits)
  have "p @ drop (length p) k = k" using Cons.prems(1) kv by (auto elim: prefixE)
  moreover have "reads_back (read_prefix_run_items (length items) t p) r (map (\<lambda>(k, v). WalInsert t k v) items)"
    using Cons w(3) by auto
  then have "reads_back (read_prefix_run_items (length (kv # items)) t p) (sb @ vb @ r)
      (WalInsert t (p @ drop (length p) k) v # map (\<lambda>(k, v). WalInsert t k v) items)"
    unfolding length_Cons read_prefix_run_items.simps
    by (intro reads_back_rdo [OF reads_back_bytes [OF w(1)]] reads_back_rdo [OF reads_back_bytes [OF w(2)]] reads_back_rdo_give)
  ultimately show ?case unfolding kv w(4) by simp
qed simp

lemma saturating_le: "usize_saturating_add a b > c \<Longrightarrow> a + b > c"
  by (simp add: usize_saturating_add_def)

lemma inner_frame_run:
  assumes "items \<noteq> []" "length items < 2 ^ 32" "kl < 2 ^ 32" "vl < 2 ^ 32"
    "\<forall>(k, v) \<in> set items. length k = kl \<and> length v = vl"
  shows "inner_frame cnt (TY_BATCH_INSERT_RUN # u64_bytes t @ u32_bytes (word_of_nat (length items))
    @ u32_bytes (word_of_nat kl) @ u32_bytes (word_of_nat vl) @ concat (map (\<lambda>(k, v). k @ v) items))
    (map (\<lambda>(k, v). WalInsert t k v) items)"
  unfolding inner_frame_def
proof (intro allI impI conjI)
  fix ops :: "WalOp list"
  let ?new = "map (\<lambda>(k, v). WalInsert t k v) items"
  assume le: "length ops + length ?new \<le> cnt"
  have r: "reads_back (read_run_items (unat (word_of_nat (length items) :: u32)) t (unat (word_of_nat kl :: u32)) (unat (word_of_nat vl :: u32)))
      (concat (map (\<lambda>(k, v). k @ v) items)) ?new"
    using read_run_items_reads [OF assms(5)] assms(2-4) by (simp add: unat_len32)
  have "reads_back (decode_insert_run cnt ops) (u64_bytes t @ u32_bytes (word_of_nat (length items))
      @ u32_bytes (word_of_nat kl) @ u32_bytes (word_of_nat vl) @ concat (map (\<lambda>(k, v). k @ v) items)) (ops @ ?new)"
    unfolding decode_insert_run_def
    apply (intro reads_back_rdo [OF reads_back_u64] reads_back_rdo [OF reads_back_u32])
    using r assms(1,2) le by (auto simp: Let_def unat_len32 dest!: saturating_le
        intro!: reads_back_rdo [OF reads_back_u32] reads_back_rdo_give)
  then show "reads_back (decode_inner cnt ops) (TY_BATCH_INSERT_RUN # u64_bytes t @ u32_bytes (word_of_nat (length items))
      @ u32_bytes (word_of_nat kl) @ u32_bytes (word_of_nat vl) @ concat (map (\<lambda>(k, v). k @ v) items)) (ops @ ?new)"
    unfolding decode_inner_def reads_back_Cons [of _ TY_BATCH_INSERT_RUN]
    by (intro reads_back_rdo [OF reads_back_u8]) (simp add: ty_defs)
qed (use assms(1) in simp)

lemma inner_frame_prefix_run:
  assumes "items \<noteq> []" "length items < 2 ^ 32" "\<forall>(k, v) \<in> set items. prefix p k"
    "write_bytes p = Inr pb" "write_suffixes (length p) items = Inr bs"
  shows "inner_frame cnt (TY_BATCH_INSERT_PREFIX_RUN # u64_bytes t @ u32_bytes (word_of_nat (length items)) @ pb @ bs)
    (map (\<lambda>(k, v). WalInsert t k v) items)"
  unfolding inner_frame_def
proof (intro allI impI conjI)
  fix ops :: "WalOp list"
  let ?new = "map (\<lambda>(k, v). WalInsert t k v) items"
  assume le: "length ops + length ?new \<le> cnt"
  have r: "reads_back (read_prefix_run_items (unat (word_of_nat (length items) :: u32)) t p) bs ?new"
    using read_prefix_run_items_reads [OF assms(3,5)] assms(2) by (simp add: unat_len32)
  have "reads_back (decode_insert_prefix_run cnt ops) (u64_bytes t @ u32_bytes (word_of_nat (length items)) @ pb @ bs) (ops @ ?new)"
    unfolding decode_insert_prefix_run_def
    apply (intro reads_back_rdo [OF reads_back_u64] reads_back_rdo [OF reads_back_u32])
    using r assms(1,2) le by (auto simp: Let_def unat_len32 dest!: saturating_le
        intro!: reads_back_rdo [OF reads_back_bytes [OF assms(4)]] reads_back_rdo_give)
  then show "reads_back (decode_inner cnt ops) (TY_BATCH_INSERT_PREFIX_RUN # u64_bytes t @ u32_bytes (word_of_nat (length items)) @ pb @ bs) (ops @ ?new)"
    unfolding decode_inner_def reads_back_Cons [of _ TY_BATCH_INSERT_PREFIX_RUN]
    by (intro reads_back_rdo [OF reads_back_u8]) (simp add: ty_defs)
qed (use assms(1) in simp)

lemma push_insert_frame:
  assumes "push_insert t k v be = Inr be'"
  obtains bs where "be' = be_push be 1 bs" "\<And>cnt. inner_frame cnt bs [WalInsert t k v]"
proof -
  obtain b where b: "encode_body (WalInsert t k v) = Inr b" "be' = be_push be 1 (TY_INSERT # b)"
    using assms by (auto simp: push_insert_def rbind_eq_Inr)
  then show ?thesis using inner_frame_primitive [OF _ b(1)] by (intro that [of "TY_INSERT # b"]) auto
qed

lemma do_push_frame:
  assumes "push_wf p" "do_push p be = Inr be'"
  obtains bs where "be' = be_push be (word_of_nat (length (push_ops p))) bs" "\<And>cnt. inner_frame cnt bs (push_ops p)"
proof (cases p)
  case (PushInsert t k v)
  then show ?thesis using assms(2) push_insert_frame [of t k v be be'] that by auto
next
  case (PushErase t k)
  then obtain b where b: "encode_body (WalErase t k) = Inr b" "be' = be_push be 1 (TY_ERASE # b)"
    using assms(2) by (auto simp: push_erase_def rbind_eq_Inr)
  then show ?thesis using inner_frame_primitive [OF _ b(1)] PushErase by (intro that [of "TY_ERASE # b"]) auto
next
  case (PushRename t s d f)
  then obtain b where b: "encode_body (RenameObject t s d f) = Inr b" "be' = be_push be 1 (TY_RENAME_OBJECT # b)"
    using assms(2) by (auto simp: push_rename_object_def rbind_eq_Inr)
  then show ?thesis using inner_frame_primitive [OF _ b(1)] PushRename by (intro that [of "TY_RENAME_OBJECT # b"]) auto
next
  case (PushRun t kl vl items)
  show ?thesis
  proof (cases "length items = 1")
    case True
    then obtain k v where kv: "items = [(k, v)]" by (cases items; cases "hd items") auto
    then have "push_insert t k v be = Inr be'" using assms(2) PushRun by (simp add: push_insert_run_def)
    then show ?thesis using push_insert_frame [of t k v be be'] PushRun kv that by auto
  next
    case False
    then show ?thesis using assms PushRun inner_frame_run [of items kl vl _ t] that
      by (auto simp: push_insert_run_def split: if_splits)
  qed
next
  case (PushPrefixRun t pf items)
  show ?thesis
  proof (cases "length items = 1")
    case True
    then obtain k v where kv: "items = [(k, v)]" by (cases items; cases "hd items") auto
    then have "push_insert t k v be = Inr be'" using assms(2) PushPrefixRun by (simp add: push_insert_prefix_run_def)
    then show ?thesis using push_insert_frame [of t k v be be'] PushPrefixRun kv that by auto
  next
    case False
    then obtain pb bs where "write_bytes pf = Inr pb" "write_suffixes (length pf) items = Inr bs" "length items < 2 ^ 32"
        "be' = be_push be (word_of_nat (length items)) (TY_BATCH_INSERT_PREFIX_RUN # u64_bytes t @ u32_bytes (word_of_nat (length items)) @ pb @ bs)"
      using assms(2) PushPrefixRun by (auto simp: push_insert_prefix_run_def rbind_eq_Inr split: if_splits)
    then show ?thesis using assms(1) PushPrefixRun inner_frame_prefix_run [of items pf pb bs _ t] that by auto
  qed
qed

lemma run_pushes_frames:
  assumes "list_all push_wf ps" "run_pushes ps be = Inr be'"
  obtains bs where "be' = be_push be (word_of_nat (length (concat (map push_ops ps)))) bs"
    "\<forall>acc cnt. length acc + length (concat (map push_ops ps)) = cnt \<longrightarrow>
       reads_back (decode_ops cnt acc) bs (acc @ concat (map push_ops ps))"
  using assms
proof (induction ps arbitrary: be thesis)
  case Nil
  then show ?case by (intro Nil(1) [of "[]"]) (auto simp: be_push_def intro: decode_ops_done)
next
  case (Cons p ps)
  obtain be1 where be1: "do_push p be = Inr be1" "run_pushes ps be1 = Inr be'"
    using Cons.prems(3) by (auto simp: rbind_eq_Inr)
  obtain b1 where b1: "be1 = be_push be (word_of_nat (length (push_ops p))) b1" "\<And>cnt. inner_frame cnt b1 (push_ops p)"
    using do_push_frame [OF _ be1(1)] Cons.prems(2) by auto
  obtain b2 where b2: "be' = be_push be1 (word_of_nat (length (concat (map push_ops ps)))) b2"
      "\<forall>acc cnt. length acc + length (concat (map push_ops ps)) = cnt \<longrightarrow>
         reads_back (decode_ops cnt acc) b2 (acc @ concat (map push_ops ps))"
    using Cons.IH [OF _ _ be1(2)] Cons.prems(2) by auto
  show ?case
  proof (rule Cons.prems(1) [of "b1 @ b2"])
    show "be' = be_push be (word_of_nat (length (concat (map push_ops (p # ps))))) (b1 @ b2)"
      using b1(1) b2(1) by (simp add: be_push_def add.assoc)
    show "\<forall>acc cnt. length acc + length (concat (map push_ops (p # ps))) = cnt \<longrightarrow>
        reads_back (decode_ops cnt acc) (b1 @ b2) (acc @ concat (map push_ops (p # ps)))"
    proof (intro allI impI)
      fix acc :: "WalOp list" and cnt assume l: "length acc + length (concat (map push_ops (p # ps))) = cnt"
      have "reads_back (decode_ops cnt (acc @ push_ops p)) b2 ((acc @ push_ops p) @ concat (map push_ops ps))"
        using l by (intro b2(2) [rule_format]) simp
      then show "reads_back (decode_ops cnt acc) (b1 @ b2) (acc @ concat (map push_ops (p # ps)))"
        using l by (intro decode_ops_step [OF b1(2)]) simp_all
    qed
  qed
qed

lemma patch_at_mid: "length x = length y \<Longrightarrow> n = length a \<Longrightarrow> patch_at (a @ x @ b) n y = a @ y @ b"
  by (simp add: patch_at_def)

lemma be_finish_framed:
  assumes "be_out be = out @ u32_bytes RECORD_MAGIC @ replicate 4 0 @ u64_bytes sq @ [ty] @ u64_bytes t @ replicate 4 0 @ r"
    "be_start be = length out" "be_len_pos be = length out + 4" "be_body_start be = length out + 17"
    "be_count_pos be = length out + 25" "be_inner_count be = n" "length r + 12 < 2 ^ 32"
  shows "be_finish crc be = Inr (n, out @ framed crc sq ty (u64_bytes t @ u32_bytes n @ r))"
proof -
  let ?len = "word_of_nat (length r + 12) :: u32"
  have o1: "patch_at (be_out be) (be_count_pos be) (u32_bytes n) =
      out @ u32_bytes RECORD_MAGIC @ replicate 4 0 @ u64_bytes sq @ [ty] @ u64_bytes t @ u32_bytes n @ r"
    unfolding assms(1,5) using patch_at_mid [of "replicate 4 0" "u32_bytes n" _
        "out @ u32_bytes RECORD_MAGIC @ replicate 4 0 @ u64_bytes sq @ [ty] @ u64_bytes t" r] by simp
  have o2: "patch_at (patch_at (be_out be) (be_count_pos be) (u32_bytes n)) (be_len_pos be) (u32_bytes ?len) =
      out @ record_header ?len sq ty @ u64_bytes t @ u32_bytes n @ r"
    unfolding o1 assms(3) using patch_at_mid [of "replicate 4 0" "u32_bytes ?len" _ "out @ u32_bytes RECORD_MAGIC"]
    by (simp add: record_header_def)
  have l: "length (be_out be) = length out + 17 + 12 + length r" unfolding assms(1) by simp
  have d: "length (be_out be) - be_body_start be = length r + 12" using l assms(4) by simp
  have s: "sub (out @ record_header ?len sq ty @ u64_bytes t @ u32_bytes n @ r) (length out) (length (be_out be))
      = record_header ?len sq ty @ u64_bytes t @ u32_bytes n @ r" unfolding l by (simp add: sub_def)
  have len: "length (u64_bytes t @ u32_bytes n @ r) = length r + 12" by simp
  show ?thesis
    unfolding be_finish_def Let_def d o2 assms(2,6) s framed_def len using assms(7) by simp
qed

text \<open>Everything an encoder does between \<open>begin\<close> and \<open>finish\<close>.\<close>

lemma begin_record_run:
  assumes "begin_record out sq t ty env = Inr be" "list_all push_wf ps" "run_pushes ps be = Inr be'"
  obtains eb bs where "(case env of None \<Rightarrow> Inr [] | Some e \<Rightarrow> encode_journal_envelope e) = Inr eb"
    "\<forall>crc n out'. be_finish crc be' = Inr (n, out') \<longrightarrow>
       n = word_of_nat (length (concat (map push_ops ps))) \<and> length (u64_bytes t @ u32_bytes n @ eb @ bs) < 2 ^ 32
       \<and> out' = out @ framed crc sq ty (u64_bytes t @ u32_bytes n @ eb @ bs)"
    "reads_back (decode_ops (length (concat (map push_ops ps))) []) bs (concat (map push_ops ps))"
    "be_drop be' = out"
proof -
  obtain eb where eb: "(case env of None \<Rightarrow> Inr [] | Some e \<Rightarrow> encode_journal_envelope e) = Inr eb"
      "be = \<lparr> be_out = out @ u32_bytes RECORD_MAGIC @ replicate 4 0 @ u64_bytes sq @ [ty] @ u64_bytes t @ replicate 4 0 @ eb,
             be_start = length out, be_len_pos = length out + 4, be_body_start = length out + RECORD_HEADER_SIZE,
             be_count_pos = length out + RECORD_HEADER_SIZE + 8, be_inner_count = 0 \<rparr>"
    using assms(1) by (auto simp: begin_record_def Let_def rbind_eq_Inr)
  obtain bs where bs: "be' = be_push be (word_of_nat (length (concat (map push_ops ps)))) bs"
      "\<forall>acc cnt. length acc + length (concat (map push_ops ps)) = cnt \<longrightarrow>
         reads_back (decode_ops cnt acc) bs (acc @ concat (map push_ops ps))"
    by (rule run_pushes_frames [OF assms(2,3)])
  let ?n = "word_of_nat (length (concat (map push_ops ps))) :: u32"
  have be': "be_out be' = out @ u32_bytes RECORD_MAGIC @ replicate 4 0 @ u64_bytes sq @ [ty] @ u64_bytes t @ replicate 4 0 @ (eb @ bs)"
      "be_start be' = length out" "be_len_pos be' = length out + 4" "be_body_start be' = length out + 17"
      "be_count_pos be' = length out + 25" "be_inner_count be' = ?n"
    unfolding bs(1) eb(2) by (simp_all add: be_push_def RECORD_HEADER_SIZE_def)
  show ?thesis
  proof (rule that [OF eb(1), of bs])
    show "reads_back (decode_ops (length (concat (map push_ops ps))) []) bs (concat (map push_ops ps))"
      using bs(2) [rule_format, of "[]"] by simp
    show "be_drop be' = out" using be' by (simp add: be_drop_def)
    show "\<forall>crc n out'. be_finish crc be' = Inr (n, out') \<longrightarrow> n = ?n \<and> length (u64_bytes t @ u32_bytes n @ eb @ bs) < 2 ^ 32
        \<and> out' = out @ framed crc sq ty (u64_bytes t @ u32_bytes n @ eb @ bs)"
    proof (intro allI impI)
      fix crc n out' assume f: "be_finish crc be' = Inr (n, out')"
      have "length (be_out be') - be_body_start be' = length (eb @ bs) + 12" unfolding be'(1,4) by simp
      then have l: "length (eb @ bs) + 12 < 2 ^ 32" using f by (simp add: be_finish_def Let_def split: if_splits)
      then show "n = ?n \<and> length (u64_bytes t @ u32_bytes n @ eb @ bs) < 2 ^ 32
          \<and> out' = out @ framed crc sq ty (u64_bytes t @ u32_bytes n @ eb @ bs)"
        using f be_finish_framed [OF be' l, of crc] by auto
    qed
  qed
qed

lemma decode_body_reads: "reads_back (decode_body_into ty) b op \<Longrightarrow> decode_body ty b = Inr op"
  unfolding reads_back_def decode_body_def by (auto dest!: spec [of _ "[]"])

theorem batch_encoder_round_trip:
  assumes "batch_begin out sq t = Inr be" "list_all push_wf ps" "run_pushes ps be = Inr be'"
    "be_finish crc be' = Inr (n, bs)" "length (concat (map push_ops ps)) < 2 ^ 32"
  shows "unat n = length (concat (map push_ops ps)) \<and> (\<exists>rec. bs = out @ rec \<and> decode_record crc (rec @ rest) =
    Inr \<lparr> dec_op = Batch (concat (map push_ops ps)), dec_seq = sq, bytes_consumed = length rec \<rparr>)"
proof -
  let ?ops = "concat (map push_ops ps)"
  obtain eb b where e: "(case None of None \<Rightarrow> Inr [] | Some e \<Rightarrow> encode_journal_envelope e) = Inr eb"
    and b: "\<forall>crc n out'. be_finish crc be' = Inr (n, out') \<longrightarrow>
       n = word_of_nat (length ?ops) \<and> length (u64_bytes t @ u32_bytes n @ eb @ b) < 2 ^ 32
       \<and> out' = out @ framed crc sq TY_BATCH (u64_bytes t @ u32_bytes n @ eb @ b)"
    "reads_back (decode_ops (length ?ops) []) b ?ops" "be_drop be' = out"
    by (rule begin_record_run [OF assms(1) [unfolded batch_begin_def] assms(2,3)])
  note f = b(1) [rule_format, OF assms(4)]
  have n: "unat n = length ?ops" using f assms(5) by (simp add: unat_len32)
  have "decode_body TY_BATCH (u64_bytes t @ u32_bytes n @ b) = Inr (Batch ?ops)"
    using b(2) n by (intro decode_body_reads decode_batch_reads) simp
  then show ?thesis using n f e decode_framed [of "u64_bytes t @ u32_bytes n @ b"] by simp
qed

theorem attached_batch_round_trip:
  assumes "encode_attached_batch_record crc buf sq t e (run_pushes ps) = Inr rec" "envelope_ok e" "list_all push_wf ps"
    "length (concat (map push_ops ps)) < 2 ^ 32"
  shows "ear_envelope rec = e \<and> decode_record crc (ear_bytes rec @ rest) =
    Inr \<lparr> dec_op = DbBatchWithEnvelope e (concat (map push_ops ps)), dec_seq = sq, bytes_consumed = length (ear_bytes rec) \<rparr>"
proof -
  let ?ops = "concat (map push_ops ps)"
  obtain be be' n out where r: "buf = []" "begin_with_envelope [] sq t e = Inr be" "run_pushes ps be = Inr be'"
      "be_finish crc be' = Inr (n, out)" "rec = \<lparr> ear_bytes = out, ear_envelope = e \<rparr>"
    using assms(1) by (auto simp: encode_attached_batch_record_def rbind_eq_Inr split: if_splits)
  obtain eb b where e: "(case Some e of None \<Rightarrow> Inr [] | Some e \<Rightarrow> encode_journal_envelope e) = Inr eb"
    and b: "\<forall>crc n out'. be_finish crc be' = Inr (n, out') \<longrightarrow>
       n = word_of_nat (length ?ops) \<and> length (u64_bytes t @ u32_bytes n @ eb @ b) < 2 ^ 32
       \<and> out' = [] @ framed crc sq TY_DB_BATCH_WITH_ENVELOPE (u64_bytes t @ u32_bytes n @ eb @ b)"
    "reads_back (decode_ops (length ?ops) []) b ?ops" "be_drop be' = []"
    by (rule begin_record_run [OF r(2) [unfolded begin_with_envelope_def] assms(3) r(3)])
  note f = b(1) [rule_format, OF r(4)]
  have n: "unat n = length ?ops" using f assms(4) by (simp add: unat_len32)
  have "decode_body TY_DB_BATCH_WITH_ENVELOPE (u64_bytes t @ u32_bytes n @ eb @ b) = Inr (DbBatchWithEnvelope e ?ops)"
    using b(2) n decode_envelope_reads [OF assms(2)] e by (intro decode_body_reads decode_db_batch_reads) simp_all
  then show ?thesis using r(5) f decode_framed [of "u64_bytes t @ u32_bytes n @ eb @ b"] by simp
qed

section \<open>File header\<close>

definition anchor_ok :: "JournalAnchor \<Rightarrow> bool" where
  "anchor_ok a = (length (anchor_digest a) = 32)"

definition header_ok :: "FileHeader \<Rightarrow> bool" where
  "header_ok h =
    ((fh_version h = LEGACY_FORMAT_VERSION \<and> fh_checkpoint_anchor h = None \<and> fh_anchor_generation h = 0)
     \<or> (fh_version h = FORMAT_VERSION
        \<and> (case fh_checkpoint_anchor h of None \<Rightarrow> fh_anchor_generation h = 0
            | Some a \<Rightarrow> anchor_ok a \<and> fh_anchor_generation h \<noteq> 0)))"

lemma encode_anchor_slot_eq:
  assumes "anchor_ok a"
  shows "encode_anchor_slot crc a g =
    (let pre = u32_bytes ANCHOR_SLOT_MAGIC @ u32_bytes ANCHOR_SLOT_VERSION @ u64_bytes g
                  @ u64_bytes ANCHOR_SLOT_FLAG_INITIALIZED @ u64_bytes (anchor_seq a) @ anchor_digest a
     in pre @ u32_bytes (crc pre) @ replicate 60 0)"
proof -
  have "replicate 64 (0 :: u8) = replicate 4 0 @ replicate 60 0" by (simp flip: replicate_add)
  then show ?thesis using assms
    by (simp add: encode_anchor_slot_def Let_def patch_at_def header_sizes anchor_ok_def)
qed

lemma length_anchor_slot [simp]: "anchor_ok a \<Longrightarrow> length (encode_anchor_slot crc a g) = 128"
  by (simp add: encode_anchor_slot_eq Let_def anchor_ok_def)

lemma anchor_slot_round_trip:
  assumes "anchor_ok a" "g \<noteq> 0"
  shows "decode_anchor_slot crc (encode_anchor_slot crc a g) = Some (a, g)"
proof -
  let ?s = "encode_anchor_slot crc a g"
  let ?pre = "u32_bytes ANCHOR_SLOT_MAGIC @ u32_bytes ANCHOR_SLOT_VERSION @ u64_bytes g
                  @ u64_bytes ANCHOR_SLOT_FLAG_INITIALIZED @ u64_bytes (anchor_seq a) @ anchor_digest a"
  have d: "length (anchor_digest a) = 32" using assms(1) by (simp add: anchor_ok_def)
  have f: "sub ?s 0 4 = u32_bytes ANCHOR_SLOT_MAGIC" "sub ?s 4 8 = u32_bytes ANCHOR_SLOT_VERSION"
    "sub ?s 8 16 = u64_bytes g" "sub ?s 16 24 = u64_bytes ANCHOR_SLOT_FLAG_INITIALIZED"
    "sub ?s 24 32 = u64_bytes (anchor_seq a)" "sub ?s 32 64 = anchor_digest a" "sub ?s 64 68 = u32_bytes (crc ?pre)"
    "take 64 ?s = ?pre"
    unfolding encode_anchor_slot_eq [OF assms(1)] using d by (simp_all add: sub_def Let_def)
  show ?thesis
    unfolding decode_anchor_slot_def header_sizes length_anchor_slot [OF assms(1)] Let_def
    using f assms(2) by simp
qed

lemma decode_zero_slot [simp]: "decode_anchor_slot crc (replicate n 0) = None"
proof -
  have "u32_of_bytes (replicate 4 0) = 0" by (simp add: u32_of_bytes_def numeral_eq_Suc)
  then show ?thesis
    by (auto simp: decode_anchor_slot_def header_sizes sub_def Let_def ANCHOR_SLOT_MAGIC_def min_def)
qed

text \<open>The newest valid anchor of two decoded slots, as the decoder selects it.\<close>

fun newest_anchor :: "(JournalAnchor \<times> u64) option \<Rightarrow> (JournalAnchor \<times> u64) option \<Rightarrow> (JournalAnchor \<times> u64) option" where
  "newest_anchor None y = y"
| "newest_anchor x None = x"
| "newest_anchor (Some (a, g)) (Some (b, h)) = (if h < g then Some (a, g) else Some (b, h))"

definition slots_conflict :: "(JournalAnchor \<times> u64) option \<Rightarrow> (JournalAnchor \<times> u64) option \<Rightarrow> bool" where
  "slots_conflict x y = (case (x, y) of (Some (a, g), Some (b, h)) \<Rightarrow> g = h \<and> a \<noteq> b | _ \<Rightarrow> False)"

lemma sort_key_pair: "sort_key f [x, y] = (if f y < f x then [y, x] else [x, y])"
  by auto

lemma decode_checkpoint_slots:
  fixes crc :: crc and buf :: bytes
  defines "x \<equiv> decode_anchor_slot crc (anchor_slot_of buf 64)" and "y \<equiv> decode_anchor_slot crc (anchor_slot_of buf 192)"
  shows "decode_checkpoint_anchor crc buf =
    (if slots_conflict x y then Inl (sanity ''WAL checkpoint anchor generations conflict'')
     else case newest_anchor x y of
       Some (a, g) \<Rightarrow> Inr (Some a, g)
     | None \<Rightarrow>
         if list_ex (\<lambda>b. b \<noteq> 0) (anchor_slot_of buf 64) \<and> list_ex (\<lambda>b. b \<noteq> 0) (anchor_slot_of buf 192)
         then Inl (sanity ''WAL checkpoint anchor slots corrupt'') else Inr (None, 0))"
proof -
  have slots: "map (anchor_slot_of buf) ANCHOR_SLOT_OFFSETS = [anchor_slot_of buf 64, anchor_slot_of buf 192]"
    by (simp add: header_sizes)
  show ?thesis
    unfolding decode_checkpoint_anchor_def slots
    by (cases x; cases y)
      (auto simp: x_def [symmetric] y_def [symmetric] Let_def List.map_filter_simps sort_key_pair slots_conflict_def
        split: if_splits)
qed

text \<open>A format-4 header page as base, padding and two slots.\<close>

definition header_page :: "bytes \<Rightarrow> bytes \<Rightarrow> bytes \<Rightarrow> bytes" where
  "header_page base A B = base @ replicate 32 0 @ A @ B @ replicate 3776 0"

lemma header_page_slots:
  assumes "length base = 32" "length A = 128" "length B = 128"
  shows "length (header_page base A B) = 4096"
    "anchor_slot_of (header_page base A B @ rest) 64 = A" "anchor_slot_of (header_page base A B @ rest) 192 = B"
    "b \<le> 32 \<Longrightarrow> sub (header_page base A B @ rest) a b = sub base a b"
  using assms by (simp_all add: header_page_def anchor_slot_of_def sub_def header_sizes)

lemma header_page_patch:
  assumes "length base = 32" "length A = 128" "length B = 128" "length S = 128"
  shows "patch_at (header_page base A B) 64 S = header_page base S B"
    "patch_at (header_page base A B) 192 S = header_page base A S"
  using assms patch_at_mid [of A S 64 "base @ replicate 32 0"] patch_at_mid [of B S 192 "base @ replicate 32 0 @ A"]
  by (simp_all add: header_page_def)

lemma anchor_slot_index_cases: "anchor_slot_index g = (if odd (unat g) then 0 else 1)"
proof -
  have "anchor_slot_index g = unat (g - 1) mod 2" by (simp add: anchor_slot_index_def and_one_eq unat_mod)
  also have "\<dots> = (if odd (unat g) then 0 else 1)"
  proof (cases "g = 0")
    case True
    then show ?thesis by (simp add: unsigned_minus_1_eq_mask mask_eq_exp_minus_1)
  next
    case False
    then have "unat (g - 1) = unat g - 1" "0 < unat g" by (simp_all add: unat_minus_one unat_gt_0)
    then show ?thesis by (auto simp: odd_iff_mod_2_eq_one mod2_eq_if)
  qed
  finally show ?thesis .
qed

definition header_base :: "FileHeader \<Rightarrow> bytes" where
  "header_base h = u32_bytes FILE_MAGIC @ u32_bytes (fh_version h) @ u64_bytes (fh_tree_id h) @ u64_bytes (fh_created_at h)
     @ u64_bytes (word_of_nat FILE_HEADER_SIZE)"

lemma length_header_base [simp]: "length (header_base h) = 32"
  by (simp add: header_base_def)

lemma decode_header_page:
  assumes "fh_version h = FORMAT_VERSION" "length A = 128" "length B = 128"
  shows "decode_file_header crc (header_page (header_base h) A B @ rest) =
    rbind (decode_checkpoint_anchor crc (header_page (header_base h) A B @ rest)) (\<lambda>(a, g).
      Inr (h\<lparr> fh_checkpoint_anchor := a, fh_anchor_generation := g \<rparr>))"
proof -
  let ?p = "header_page (header_base h) A B @ rest"
  note hp = header_page_slots [OF length_header_base [of h] assms(2,3)]
  have g: "sub (header_base h) 0 4 = u32_bytes FILE_MAGIC" "sub (header_base h) 4 8 = u32_bytes FORMAT_VERSION"
    "sub (header_base h) 8 16 = u64_bytes (fh_tree_id h)" "sub (header_base h) 16 24 = u64_bytes (fh_created_at h)"
    "sub (header_base h) 24 32 = u64_bytes (word_of_nat FILE_HEADER_SIZE)"
    using assms(1) by (simp_all add: header_base_def sub_def)
  have f: "sub ?p 0 4 = u32_bytes FILE_MAGIC" "sub ?p 4 8 = u32_bytes FORMAT_VERSION" "sub ?p 8 16 = u64_bytes (fh_tree_id h)"
    "sub ?p 16 24 = u64_bytes (fh_created_at h)" "sub ?p 24 32 = u64_bytes (word_of_nat FILE_HEADER_SIZE)"
    by (simp_all add: hp(4) g)
  have l: "length ?p = 4096 + length rest" using hp(1) by simp
  have v: "FORMAT_VERSION \<noteq> LEGACY_FORMAT_VERSION" by (simp add: FORMAT_VERSION_def LEGACY_FORMAT_VERSION_def)
  show ?thesis
    unfolding decode_file_header_def f l using v assms(1)
    by (auto simp: header_sizes Let_def split: prod.splits intro!: arg_cong [where f = "rbind _"])
qed

lemma empty_header_page:
  assumes "fh_version h = FORMAT_VERSION" "fh_checkpoint_anchor h = None"
  shows "encode_file_header crc h = header_page (header_base h) (replicate 128 0) (replicate 128 0)"
proof -
  have v: "FORMAT_VERSION \<noteq> LEGACY_FORMAT_VERSION" by (simp add: FORMAT_VERSION_def LEGACY_FORMAT_VERSION_def)
  have "replicate 4064 (0 :: u8) = replicate 32 0 @ replicate 128 0 @ replicate 128 0 @ replicate 3776 0"
    by (simp flip: replicate_add)
  then show ?thesis
    using assms v by (simp add: encode_file_header_def header_page_def header_base_def Let_def header_sizes)
qed

lemma encode_header_page:
  assumes "fh_version h = FORMAT_VERSION" "fh_checkpoint_anchor h = Some a" "anchor_ok a"
  shows "encode_file_header crc h =
    (let S = encode_anchor_slot crc a (fh_anchor_generation h); Z = replicate 128 0 in
     if odd (unat (fh_anchor_generation h)) then header_page (header_base h) S Z else header_page (header_base h) Z S)"
proof -
  let ?h0 = "h\<lparr> fh_checkpoint_anchor := None \<rparr>"
  let ?S = "encode_anchor_slot crc a (fh_anchor_generation h)"
  have v: "fh_version h \<noteq> LEGACY_FORMAT_VERSION" using assms(1) by (simp add: FORMAT_VERSION_def LEGACY_FORMAT_VERSION_def)
  have b: "header_base ?h0 = header_base h" by (simp add: header_base_def)
  have "encode_file_header crc h = patch_at (encode_file_header crc ?h0)
      (ANCHOR_SLOT_OFFSETS ! anchor_slot_index (fh_anchor_generation h)) ?S"
    using assms v by (simp add: encode_file_header_def Let_def)
  also have "\<dots> = patch_at (header_page (header_base h) (replicate 128 0) (replicate 128 0))
      (if odd (unat (fh_anchor_generation h)) then 64 else 192) ?S"
    using empty_header_page [of ?h0 crc] assms(1) b by (simp add: anchor_slot_index_cases header_sizes)
  finally show ?thesis
    using header_page_patch [OF length_header_base, of "replicate 128 0" "replicate 128 0" ?S h] assms(3)
    by (simp add: Let_def)
qed

theorem file_header_round_trip:
  assumes "header_ok h"
  shows "decode_file_header crc (encode_file_header crc h @ rest) = Inr h"
proof (cases "fh_version h = LEGACY_FORMAT_VERSION")
  case True
  then have n: "fh_checkpoint_anchor h = None" "fh_anchor_generation h = 0"
    using assms by (auto simp: header_ok_def FORMAT_VERSION_def LEGACY_FORMAT_VERSION_def)
  have e: "encode_file_header crc h = u32_bytes FILE_MAGIC @ u32_bytes LEGACY_FORMAT_VERSION @ u64_bytes (fh_tree_id h)
      @ u64_bytes (fh_created_at h) @ u64_bytes 0" using True by (simp add: encode_file_header_def)
  show ?thesis
    unfolding e using True n
    by (cases h) (simp add: decode_file_header_def sub_def Let_def header_sizes FORMAT_VERSION_def LEGACY_FORMAT_VERSION_def)
next
  case False
  then have v: "fh_version h = FORMAT_VERSION" using assms by (auto simp: header_ok_def)
  let ?Z = "replicate 128 0 :: bytes"
  have z: "length ?Z = 128" by simp
  show ?thesis
  proof (cases "fh_checkpoint_anchor h")
    case None
    then have "fh_anchor_generation h = 0" using assms v by (auto simp: header_ok_def FORMAT_VERSION_def LEGACY_FORMAT_VERSION_def)
    then show ?thesis
      using None decode_header_page [OF v z z] header_page_slots [OF length_header_base z z]
      by (simp add: empty_header_page [OF v None] decode_checkpoint_slots slots_conflict_def list_ex_iff)
  next
    case (Some a)
    let ?S = "encode_anchor_slot crc a (fh_anchor_generation h)"
    have ok: "anchor_ok a" "fh_anchor_generation h \<noteq> 0"
      using Some assms v by (auto simp: header_ok_def FORMAT_VERSION_def LEGACY_FORMAT_VERSION_def)
    have l: "length ?S = 128" using ok(1) by simp
    note rt = anchor_slot_round_trip [OF ok]
    show ?thesis
      unfolding encode_header_page [OF v Some ok(1)] Let_def
      using Some rt decode_header_page [OF v l z] decode_header_page [OF v z l]
        header_page_slots [OF length_header_base l z] header_page_slots [OF length_header_base z l]
      by (simp add: decode_checkpoint_slots slots_conflict_def)
  qed
qed

end
