(* ===== verification/Wal_Reader.thy ===== *)
theory Wal_Reader
  imports Wal_Correct
begin

text \<open>The forward scanners of \<^verbatim>\<open>src/src/journal/reader.rs\<close>: the replay of a whole log through a callback, and
  the streaming reader behind the attached recovery stream.  A file is its list of bytes; the operating
  system's own read errors are not modelled.  The replay callback is a function on a caller state.\<close>

section \<open>Replay\<close>

record ReplayStats =
  records_seen :: u64
  highest_seq :: "u64 option"
  torn_tail_at :: "nat option"

fun patch_error :: "error \<Rightarrow> nat \<Rightarrow> error" where
  "patch_error (ReplaySanityFailed context _) offset = ReplaySanityFailed context offset"
| "patch_error e offset = e"

fun patch_offset :: "fault \<Rightarrow> nat \<Rightarrow> fault" where
  "patch_offset (Fail e) offset = Fail (patch_error e offset)"
| "patch_offset (Panic m) offset = Panic m"

definition sanity_at :: "string \<Rightarrow> nat \<Rightarrow> fault" where
  "sanity_at context offset = Fail (ReplaySanityFailed context offset)"

definition is_torn_tail :: "string \<Rightarrow> bool" where
  "is_torn_tail context = (context = ''record header truncated'' \<or> context = ''record body truncated'')"

fun torn_fault :: "fault \<Rightarrow> bool" where
  "torn_fault (Fail (ReplaySanityFailed context _)) = is_torn_tail context"
| "torn_fault _ = False"

fun attached_op :: "WalOp \<Rightarrow> bool" where
  "attached_op (DbBatchWithEnvelope envelope ops) = True"
| "attached_op _ = False"

definition validate_record_mode :: "FileHeader \<Rightarrow> WalOp \<Rightarrow> nat \<Rightarrow> unit result" where
  "validate_record_mode header op offset =
    (if fh_checkpoint_anchor header \<noteq> None \<and> \<not> attached_op op
     then Inl (sanity_at ''initialized attached WAL contains an ordinary record'' offset)
     else Inr ())"

text \<open>Both batch variants are flattened: the callback sees the inner operations with derived sequence numbers,
  which wrap.\<close>

definition derived :: "u64 \<Rightarrow> WalOp list \<Rightarrow> (WalOp \<times> u64) list" where
  "derived sq ops = map (\<lambda>i. (ops ! i, sq + word_of_nat i)) [0 ..< length ops]"

fun record_ops :: "WalOp \<Rightarrow> u64 \<Rightarrow> (WalOp \<times> u64) list" where
  "record_ops (Batch ops) sq = derived sq ops"
| "record_ops (DbBatchWithEnvelope envelope ops) sq = derived sq ops"
| "record_ops op sq = [(op, sq)]"

type_synonym 's callback = "'s \<Rightarrow> WalOp \<Rightarrow> u64 \<Rightarrow> nat \<Rightarrow> unit result \<times> 's"

definition max_seq :: "u64 option \<Rightarrow> u64 \<Rightarrow> u64" where
  "max_seq hi sq = (case hi of None \<Rightarrow> sq | Some s \<Rightarrow> max s sq)"

text \<open>The callback loop over the operations of a record, each with the record's offset.\<close>

fun deliver :: "'s callback \<Rightarrow> (WalOp \<times> u64 \<times> nat) list \<Rightarrow> 's \<Rightarrow> u64 option \<Rightarrow> u64 option result \<times> 's" where
  "deliver cb [] s hi = (Inr hi, s)"
| "deliver cb ((op, sq, offset) # rest) s hi =
    (case cb s op sq offset of
       (Inl e, s') \<Rightarrow> (Inl (patch_offset e offset), s')
     | (Inr _, s') \<Rightarrow> deliver cb rest s' (Some (max_seq hi sq)))"

definition events :: "nat \<Rightarrow> WalOp \<Rightarrow> u64 \<Rightarrow> (WalOp \<times> u64 \<times> nat) list" where
  "events offset op sq = map (\<lambda>(o', q). (o', q, offset)) (record_ops op sq)"

lemma decode_record_consumes: "decode_record crc buf = Inr r \<Longrightarrow> 21 \<le> bytes_consumed r \<and> bytes_consumed r \<le> length buf"
  by (auto simp: decode_record_def Let_def rbind_eq_Inr record_sizes split: if_splits)

function replay_loop ::
  "crc \<Rightarrow> FileHeader \<Rightarrow> 's callback \<Rightarrow> bytes \<Rightarrow> nat \<Rightarrow> 's \<Rightarrow> u64 \<Rightarrow> u64 option \<Rightarrow> ReplayStats result \<times> 's" where
  "replay_loop crc header cb bytes offset s seen hi =
    (if offset < length bytes then
       case decode_record crc (drop offset bytes) of
         Inr r \<Rightarrow>
           if fh_version header = LEGACY_FORMAT_VERSION \<and> attached_op (dec_op r)
           then (Inl (sanity_at ''attached batch requires WAL format version 4'' offset), s)
           else
             (case validate_record_mode header (dec_op r) offset of
                Inl e \<Rightarrow> (Inl e, s)
              | Inr _ \<Rightarrow>
                  (case deliver cb (events offset (dec_op r) (dec_seq r)) s hi of
                     (Inl e, s') \<Rightarrow> (Inl e, s')
                   | (Inr hi', s') \<Rightarrow> replay_loop crc header cb bytes (offset + bytes_consumed r) s' (seen + 1) hi'))
       | Inl e \<Rightarrow>
           if torn_fault e then (Inr \<lparr> records_seen = seen, highest_seq = hi, torn_tail_at = Some offset \<rparr>, s)
           else (Inl (patch_offset e offset), s)
     else (Inr \<lparr> records_seen = seen, highest_seq = hi, torn_tail_at = None \<rparr>, s))"
  by pat_completeness auto

termination
  by (relation "measure (\<lambda>(crc, header, cb, bytes, offset, s, seen, hi). length bytes - offset)")
     (auto dest: decode_record_consumes)

declare replay_loop.simps [simp del]

definition replay_bytes :: "crc \<Rightarrow> bytes \<Rightarrow> 's callback \<Rightarrow> 's \<Rightarrow> (FileHeader \<times> ReplayStats) result \<times> 's" where
  "replay_bytes crc bytes cb s =
    (if length bytes < LEGACY_FILE_HEADER_SIZE then (Inl (sanity ''WAL too short - missing file header''), s)
     else
       case decode_file_header crc bytes of
         Inl e \<Rightarrow> (Inl e, s)
       | Inr header \<Rightarrow>
           (case replay_loop crc header cb bytes (record_offset header) s 0 None of
              (Inl e, s') \<Rightarrow> (Inl e, s')
            | (Inr stats, s') \<Rightarrow> (Inr (header, stats), s')))"

section \<open>The chain of attached envelopes\<close>

record AttachedChain =
  ac_checkpoint :: "JournalAnchor option"
  ac_tail :: "JournalAnchor option"
  previous_record :: "JournalAnchor option"

definition ac_new :: "JournalAnchor option \<Rightarrow> AttachedChain" where
  "ac_new checkpoint = \<lparr> ac_checkpoint = checkpoint, ac_tail = checkpoint, previous_record = None \<rparr>"

definition ac_resume :: "JournalAnchor \<Rightarrow> JournalAnchor \<Rightarrow> AttachedChain" where
  "ac_resume checkpoint cursor =
    \<lparr> ac_checkpoint = Some checkpoint, ac_tail = Some cursor, previous_record = Some cursor \<rparr>"

definition ac_observe :: "u32 \<Rightarrow> JournalEnvelope \<Rightarrow> nat \<Rightarrow> AttachedChain \<Rightarrow> (bool \<times> AttachedChain) result" where
  "ac_observe format_version envelope offset c =
    (if format_version = LEGACY_FORMAT_VERSION then
       Inl (sanity_at ''attached batch requires WAL format version 4'' offset)
     else
       case ac_checkpoint c of
         None \<Rightarrow> Inl (Fail (JournalStreamUnavailable
           ''WAL contains attached envelopes but its stream anchor is uninitialized''))
       | Some checkpoint \<Rightarrow>
           if (case previous_record c of Some previous \<Rightarrow> env_previous envelope \<noteq> previous | None \<Rightarrow> False) then
             Inl (sanity_at ''attached journal records do not form a contiguous chain'' offset)
           else
             let c = c\<lparr> previous_record := Some (env_current envelope) \<rparr>;
                 sq = anchor_seq (env_current envelope) in
             if sq < anchor_seq checkpoint then Inr (False, c)
             else if sq = anchor_seq checkpoint then
               (if env_current envelope \<noteq> checkpoint then
                  Inl (sanity_at ''attached journal record conflicts with checkpoint anchor'' offset)
                else Inr (False, c))
             else
               case ac_tail c of
                 None \<Rightarrow> Inl (Panic ''checkpoint exists'')
               | Some expected \<Rightarrow>
                   if env_previous envelope \<noteq> expected then
                     Inl (sanity_at ''attached journal suffix does not continue checkpoint anchor'' offset)
                   else Inr (True, c\<lparr> ac_tail := Some (env_current envelope) \<rparr>))"

definition ac_state :: "AttachedChain \<Rightarrow> JournalState option" where
  "ac_state c =
    (case ac_checkpoint c of
       None \<Rightarrow> None
     | Some cp \<Rightarrow> map_option (\<lambda>t. \<lparr> js_checkpoint = cp, js_tail = t \<rparr>) (ac_tail c))"

section \<open>The streaming reader\<close>

record RecordAt =
  at_op :: WalOp
  at_offset :: nat

text \<open>The reader's file position is the \<open>offset\<close> field: every successful call leaves them equal.\<close>

record StreamingRecords =
  sr_reader :: bytes
  sr_header :: FileHeader
  sr_file_len :: nat
  sr_offset :: nat

definition sr_open :: "crc \<Rightarrow> bytes \<Rightarrow> StreamingRecords result" where
  "sr_open crc file =
    (if length file < LEGACY_FILE_HEADER_SIZE then Inl (sanity ''WAL too short - missing file header'')
     else
       rbind (file_header_size_from_prefix (take LEGACY_FILE_HEADER_SIZE file)) (\<lambda>header_size.
         if header_size > LEGACY_FILE_HEADER_SIZE \<and> length file < header_size
         then Inl (sanity ''WAL file header truncated'')
         else
           rbind (decode_file_header crc (take header_size file)) (\<lambda>header.
             Inr \<lparr> sr_reader = file, sr_header = header, sr_file_len = length file, sr_offset = header_size \<rparr>)))"

definition sr_seek_to :: "nat \<Rightarrow> StreamingRecords \<Rightarrow> StreamingRecords" where
  "sr_seek_to offset r = r\<lparr> sr_offset := offset \<rparr>"

definition next_record :: "crc \<Rightarrow> StreamingRecords \<Rightarrow> (RecordAt option \<times> StreamingRecords) result" where
  "next_record crc r =
    (if sr_offset r \<ge> sr_file_len r then Inr (None, r)
     else
       let offset = sr_offset r; remaining = sr_file_len r - offset in
       if remaining < RECORD_HEADER_SIZE then Inr (None, r)
       else
         let header = sub (sr_reader r) offset (offset + RECORD_HEADER_SIZE);
             body_len = unat (u32_of_bytes (sub header 4 8));
             total = RECORD_HEADER_SIZE + body_len + RECORD_FOOTER_SIZE in
         if u32_of_bytes (sub header 0 4) \<noteq> RECORD_MAGIC then Inl (sanity_at ''record magic mismatch'' offset)
         else if total \<ge> 2 ^ 64 then Inl (sanity_at ''record size overflow'' offset)
         else if total > remaining then Inr (None, r)
         else if total > MAX_JOURNAL_RECORD_BYTES then
           Inl (sanity_at ''record exceeds journal size limit'' offset)
         else
           let bytes = header @ sub (sr_reader r) (offset + RECORD_HEADER_SIZE) (offset + total) in
           case decode_record crc bytes of
             Inl e \<Rightarrow> Inl (patch_offset e offset)
           | Inr decoded \<Rightarrow>
               rbind (validate_record_mode (sr_header r) (dec_op decoded) offset) (\<lambda>_.
                 if offset + bytes_consumed decoded \<ge> 2 ^ 64 then Inl (Panic ''WAL offset fits in u64'')
                 else Inr (Some \<lparr> at_op = dec_op decoded, at_offset = offset \<rparr>,
                           r\<lparr> sr_offset := offset + bytes_consumed decoded \<rparr>)))"

lemma next_record_progress:
  assumes "next_record crc r = Inr (Some at, r')"
  shows "sr_file_len r - sr_offset r' < sr_file_len r - sr_offset r \<and> sr_file_len r' = sr_file_len r"
  using assms decode_record_consumes
  by (fastforce simp: next_record_def Let_def rbind_eq_Inr split: if_splits sum.splits)

text \<open>\<open>while let Some(record) = records.next_record()? { body }\<close>: the body updates the loop variables
  (\<open>Inr\<close>) or returns from the function (\<open>Inl\<close>).\<close>

function for_records ::
  "crc \<Rightarrow> (StreamingRecords \<Rightarrow> RecordAt \<Rightarrow> 's \<Rightarrow> ('r + 's) result) \<Rightarrow> StreamingRecords \<Rightarrow> 's
     \<Rightarrow> ('r + 's \<times> StreamingRecords) result" where
  "for_records crc body r s =
    (case next_record crc r of
       Inl e \<Rightarrow> Inl e
     | Inr (None, r') \<Rightarrow> Inr (Inr (s, r'))
     | Inr (Some at, r') \<Rightarrow>
         (case body r' at s of
            Inl e \<Rightarrow> Inl e
          | Inr (Inl ret) \<Rightarrow> Inr (Inl ret)
          | Inr (Inr s') \<Rightarrow> for_records crc body r' s'))"
  by pat_completeness auto

termination
  by (relation "measure (\<lambda>(crc, body, r, s). sr_file_len r - sr_offset r)") (auto dest!: next_record_progress)

declare for_records.simps [simp del]

definition preflight_writable_wal :: "crc \<Rightarrow> bytes \<Rightarrow> unit result" where
  "preflight_writable_wal crc file =
    rbind (sr_open crc file) (\<lambda>records.
      if fh_version (sr_header records) = LEGACY_FORMAT_VERSION \<and> sr_file_len records \<noteq> LEGACY_FILE_HEADER_SIZE then
        Inl (sanity ''nonempty WAL format 3 is replay-only; checkpoint it with a format-3 Holt binary before v4 writes'')
      else if fh_checkpoint_anchor (sr_header records) \<noteq> None then
        rbind (for_records crc (\<lambda>r at u. Inr (Inr () :: unit + unit)) records ()) (\<lambda>_. Inr ())
      else Inr ())"

text \<open>The loop body of \<^verbatim>\<open>validate_attached_journal\<close>, also run over an uninitialised stream.\<close>

definition observe_body :: "StreamingRecords \<Rightarrow> RecordAt \<Rightarrow> AttachedChain \<Rightarrow> ('r + AttachedChain) result" where
  "observe_body r at c =
    (case at_op at of
       DbBatchWithEnvelope envelope ops \<Rightarrow>
         rbind (ac_observe (fh_version (sr_header r)) envelope (at_offset at) c) (\<lambda>(_, c'). Inr (Inr c'))
     | _ \<Rightarrow> Inr (Inr c))"

fun finished :: "unit + 's \<times> StreamingRecords \<Rightarrow> 's result" where
  "finished (Inl _) = Inl (Panic ''unreachable'')"
| "finished (Inr (s, r)) = Inr s"

definition validate_attached_journal :: "crc \<Rightarrow> bytes \<Rightarrow> JournalState option result" where
  "validate_attached_journal crc file =
    rbind (sr_open crc file) (\<lambda>records.
    rbind (for_records crc observe_body records (ac_new (fh_checkpoint_anchor (sr_header records)))) (\<lambda>out.
    rbind (finished out) (\<lambda>c. Inr (ac_state c))))"

definition attached_journal_state :: "crc \<Rightarrow> bytes \<Rightarrow> JournalState result" where
  "attached_journal_state crc file =
    rbind (validate_attached_journal crc file) (\<lambda>s.
      ok_or s (JournalStreamUnavailable ''stream has not been initialized''))"

section \<open>Paging from the file\<close>

record AttachedEnvelopeResume =
  res_checkpoint :: JournalAnchor
  res_cursor :: JournalAnchor
  res_record_offset :: nat

type_synonym scanned_page = "JournalEnvelopePage \<times> AttachedEnvelopeResume"

record PageScan =
  ps_chain :: AttachedChain
  ps_cursor_found :: bool
  ps_envelopes :: "JournalEnvelope list"
  ps_payload_bytes :: nat

definition last_current :: "JournalAnchor \<Rightarrow> JournalEnvelope list \<Rightarrow> JournalAnchor" where
  "last_current cursor envelopes = (if envelopes = [] then cursor else env_current (last envelopes))"

definition page_of ::
  "JournalAnchor \<Rightarrow> JournalAnchor \<Rightarrow> JournalEnvelope list \<Rightarrow> bool \<Rightarrow> nat \<Rightarrow> scanned_page" where
  "page_of checkpoint cursor envelopes has_more offset =
    (let nxt = last_current cursor envelopes in
     (\<lparr> page_envelopes = envelopes, page_next = nxt, page_has_more = has_more \<rparr>,
      \<lparr> res_checkpoint = checkpoint, res_cursor = nxt, res_record_offset = offset \<rparr>))"

definition push_page ::
  "JournalAnchor \<Rightarrow> JournalAnchor \<Rightarrow> nat \<Rightarrow> nat \<Rightarrow> nat \<Rightarrow> JournalEnvelope \<Rightarrow> PageScan \<Rightarrow> (scanned_page + PageScan) result" where
  "push_page checkpoint cursor row_limit payload_byte_limit offset envelope ps =
    (let next_bytes = usize_saturating_add (ps_payload_bytes ps) (length (env_payload envelope));
         envelopes = ps_envelopes ps;
         page_full = length envelopes = row_limit \<or> envelopes \<noteq> [] \<and> next_bytes > payload_byte_limit in
     if page_full then Inr (Inl (page_of checkpoint cursor envelopes True offset))
     else Inr (Inr (ps\<lparr> ps_payload_bytes := next_bytes, ps_envelopes := envelopes @ [envelope] \<rparr>)))"

definition page_body ::
  "JournalAnchor \<Rightarrow> JournalAnchor \<Rightarrow> nat \<Rightarrow> nat \<Rightarrow> StreamingRecords \<Rightarrow> RecordAt \<Rightarrow> PageScan \<Rightarrow> (scanned_page + PageScan) result" where
  "page_body checkpoint cursor row_limit payload_byte_limit r at ps =
    (case at_op at of
       DbBatchWithEnvelope envelope ops \<Rightarrow>
         rbind (ac_observe (fh_version (sr_header r)) envelope (at_offset at) (ps_chain ps)) (\<lambda>(retained, c).
           let ps = ps\<lparr> ps_chain := c \<rparr>; current = env_current envelope in
           if \<not> retained then Inr (Inr ps)
           else if \<not> ps_cursor_found ps then
             (if anchor_seq current < anchor_seq cursor then Inr (Inr ps)
              else if anchor_seq current = anchor_seq cursor then
                (if current \<noteq> cursor then Inl (Fail (anchor_mismatch cursor current))
                 else Inr (Inr (ps\<lparr> ps_cursor_found := True \<rparr>)))
              else Inl (Fail (anchor_mismatch cursor current)))
           else push_page checkpoint cursor row_limit payload_byte_limit (at_offset at) envelope ps)
     | _ \<Rightarrow> Inr (Inr ps))"

definition scan_initialized_envelope_page ::
  "crc \<Rightarrow> StreamingRecords \<Rightarrow> JournalAnchor \<Rightarrow> JournalAnchor \<Rightarrow> nat \<Rightarrow> nat \<Rightarrow> AttachedEnvelopeResume option
     \<Rightarrow> scanned_page result" where
  "scan_initialized_envelope_page crc records checkpoint cursor row_limit payload_byte_limit resume =
    (let usable =
           (case resume of
              None \<Rightarrow> None
            | Some v \<Rightarrow>
                if res_checkpoint v = checkpoint \<and> res_cursor v = cursor
                   \<and> res_record_offset v \<ge> record_offset (sr_header records) \<and> res_record_offset v \<le> sr_file_len records
                then Some v else None);
         (records, c) =
           (case usable of
              Some v \<Rightarrow> (sr_seek_to (res_record_offset v) records, ac_resume checkpoint cursor)
            | None \<Rightarrow> (records, ac_new (Some checkpoint)));
         ps = \<lparr> ps_chain = c, ps_cursor_found = (usable \<noteq> None \<or> cursor = checkpoint),
                ps_envelopes = [], ps_payload_bytes = 0 \<rparr> in
     rbind (for_records crc (page_body checkpoint cursor row_limit payload_byte_limit) records ps) (\<lambda>out.
       case out of
         Inl page \<Rightarrow> Inr page
       | Inr (ps', records') \<Rightarrow>
           if \<not> ps_cursor_found ps' then
             (case ac_tail (ps_chain ps') of
                None \<Rightarrow> Inl (Panic ''initialized chain has a tail'')
              | Some t \<Rightarrow> Inl (Fail (anchor_mismatch cursor t)))
           else Inr (page_of checkpoint cursor (ps_envelopes ps') False (sr_offset records'))))"

definition scan_attached_envelope_page_from ::
  "crc \<Rightarrow> bytes \<Rightarrow> JournalAnchor \<Rightarrow> nat \<Rightarrow> nat \<Rightarrow> AttachedEnvelopeResume option \<Rightarrow> scanned_page result" where
  "scan_attached_envelope_page_from crc file cursor row_limit payload_byte_limit resume =
    (if row_limit = 0 then Inl (Fail (InvalidJournalScanLimit ''row limit must be non-zero''))
     else
       rbind (sr_open crc file) (\<lambda>records.
         case fh_checkpoint_anchor (sr_header records) of
           None \<Rightarrow>
             rbind (for_records crc observe_body records (ac_new None)) (\<lambda>out :: unit + AttachedChain \<times> StreamingRecords.
               Inl (Fail (JournalStreamUnavailable ''stream has not been initialized'')))
         | Some checkpoint \<Rightarrow>
             if anchor_seq cursor < anchor_seq checkpoint then
               Inl (Fail (JournalPositionExpired (unat (anchor_seq cursor)) (unat (anchor_seq checkpoint))))
             else if anchor_seq cursor = anchor_seq checkpoint \<and> cursor \<noteq> checkpoint then
               Inl (Fail (anchor_mismatch cursor checkpoint))
             else scan_initialized_envelope_page crc records checkpoint cursor row_limit payload_byte_limit resume))"

definition scan_attached_envelope_page ::
  "crc \<Rightarrow> bytes \<Rightarrow> JournalAnchor \<Rightarrow> nat \<Rightarrow> nat \<Rightarrow> JournalEnvelopePage result" where
  "scan_attached_envelope_page crc file cursor row_limit payload_byte_limit =
    rbind (scan_attached_envelope_page_from crc file cursor row_limit payload_byte_limit None) (\<lambda>(page, _). Inr page)"

section \<open>Logs\<close>

text \<open>A complete record of a log, with what it decodes to; a torn tail is a proper prefix of a record.\<close>

type_synonym log_entry = "bytes \<times> WalOp \<times> u64"

fun wal_rec :: "crc \<Rightarrow> log_entry \<Rightarrow> bool" where
  "wal_rec crc (bs, op, sq) =
    (\<exists>ty b. length b < 2 ^ 32 \<and> bs = framed crc sq ty b \<and> decode_body ty b = Inr op)"

definition torn :: "crc \<Rightarrow> bytes \<Rightarrow> bool" where
  "torn crc t = (\<exists>sq ty b n. length b < 2 ^ 32 \<and> n < length (framed crc sq ty b) \<and> t = take n (framed crc sq ty b))"

definition log_bytes :: "log_entry list \<Rightarrow> bytes" where
  "log_bytes recs = concat (map fst recs)"

fun log_events :: "nat \<Rightarrow> log_entry list \<Rightarrow> (WalOp \<times> u64 \<times> nat) list" where
  "log_events offset [] = []"
| "log_events offset ((bs, op, sq) # recs) = events offset op sq @ log_events (offset + length bs) recs"

definition mode_ok :: "FileHeader \<Rightarrow> log_entry list \<Rightarrow> bool" where
  "mode_ok h recs = (\<forall>(bs, op, sq) \<in> set recs.
    (fh_checkpoint_anchor h \<noteq> None \<longrightarrow> attached_op op) \<and> (fh_version h = LEGACY_FORMAT_VERSION \<longrightarrow> \<not> attached_op op))"

lemma log_bytes_simps [simp]: "log_bytes [] = []" "log_bytes (r # recs) = fst r @ log_bytes recs"
  "log_bytes (recs @ recs') = log_bytes recs @ log_bytes recs'"
  by (simp_all add: log_bytes_def)

lemma torn_Nil: "torn crc []"
  unfolding torn_def by (rule exI [of _ 0], rule exI [of _ 0], rule exI [of _ "[]"], rule exI [of _ 0]) simp

lemma decode_wal_rec:
  "wal_rec crc (bs, op, sq) \<Longrightarrow> decode_record crc (bs @ rest) = Inr \<lparr> dec_op = op, dec_seq = sq, bytes_consumed = length bs \<rparr>"
  by (auto simp: decode_framed)

lemma wal_rec_length: "wal_rec crc (bs, op, sq) \<Longrightarrow> 21 \<le> length bs"
  by auto

lemma decode_torn:
  assumes "torn crc t"
  obtains e where "decode_record crc t = Inl e" "torn_fault e"
proof -
  obtain sq ty b n where t: "length b < 2 ^ 32" "n < length (framed crc sq ty b)" "t = take n (framed crc sq ty b)"
    using assms unfolding torn_def by blast
  show ?thesis
    using decode_cut_record [OF t(1,2)] t(3)
    by (intro that [of "sanity (if n < 17 then ''record header truncated'' else ''record body truncated'')"])
       (simp_all add: sanity_def is_torn_tail_def)
qed

lemma deliver_append:
  "deliver cb (xs @ ys) s hi = (case deliver cb xs s hi of (Inl e, s') \<Rightarrow> (Inl e, s') | (Inr hi', s') \<Rightarrow> deliver cb ys s' hi')"
  by (induction cb xs s hi rule: deliver.induct) (auto split: prod.splits sum.splits)

lemma replay_loop_step:
  assumes "wal_rec crc (bs, op, sq)" "mode_ok h [(bs, op, sq)]"
  shows "replay_loop crc h cb (pre @ bs @ rest) (length pre) s seen hi =
    (case deliver cb (events (length pre) op sq) s hi of
       (Inl e, s') \<Rightarrow> (Inl e, s')
     | (Inr hi', s') \<Rightarrow> replay_loop crc h cb ((pre @ bs) @ rest) (length (pre @ bs)) s' (seen + 1) hi')"
proof -
  have d: "decode_record crc (bs @ rest) = Inr \<lparr> dec_op = op, dec_seq = sq, bytes_consumed = length bs \<rparr>"
    by (rule decode_wal_rec [OF assms(1)])
  have m: "validate_record_mode h op (length pre) = Inr ()" "\<not> (fh_version h = LEGACY_FORMAT_VERSION \<and> attached_op op)"
    using assms(2) by (auto simp: mode_ok_def validate_record_mode_def)
  have ne: "bs \<noteq> []" using wal_rec_length [OF assms(1)] by (cases bs) auto
  show ?thesis by (subst replay_loop.simps) (simp add: d m ne split: prod.split sum.split)
qed

lemma mode_ok_Cons: "mode_ok h (r # recs) \<longleftrightarrow> mode_ok h [r] \<and> mode_ok h recs"
  by (auto simp: mode_ok_def)

lemma replay_loop_log:
  assumes "\<forall>r \<in> set recs. wal_rec crc r" "mode_ok h recs" "torn crc t"
  shows "replay_loop crc h cb (pre @ log_bytes recs @ t) (length pre) s seen hi =
    (case deliver cb (log_events (length pre) recs) s hi of
       (Inl e, s') \<Rightarrow> (Inl e, s')
     | (Inr hi', s') \<Rightarrow> (Inr \<lparr> records_seen = seen + word_of_nat (length recs), highest_seq = hi',
         torn_tail_at = (if t = [] then None else Some (length pre + length (log_bytes recs))) \<rparr>, s'))"
  using assms(1,2)
proof (induction recs arbitrary: pre s seen hi)
  case Nil
  obtain e where "decode_record crc t = Inl e" "torn_fault e" using decode_torn [OF assms(3)] .
  then show ?case by (subst replay_loop.simps) simp
next
  case (Cons r recs)
  obtain bs op sq where r: "r = (bs, op, sq)" by (cases r)
  note step = replay_loop_step [of crc bs op sq h cb pre "log_bytes recs @ t" s seen hi]
  note IH = Cons.IH [of "pre @ bs"]
  obtain res s' where d: "deliver cb (events (length pre) op sq) s hi = (res, s')" by (cases "deliver cb (events (length pre) op sq) s hi")
  have p: "wal_rec crc (bs, op, sq)" "mode_ok h [(bs, op, sq)]" "\<forall>r \<in> set recs. wal_rec crc r" "mode_ok h recs"
    using Cons.prems r mode_ok_Cons [of h r recs] by simp_all
  have e: "pre @ log_bytes (r # recs) @ t = pre @ bs @ (log_bytes recs @ t)" using r by simp
  show ?case
  proof (cases res)
    case (Inl x)
    then show ?thesis unfolding e step [OF p(1,2)] using d r by (simp add: deliver_append)
  next
    case (Inr hi')
    show ?thesis
      unfolding e step [OF p(1,2)] d Inr using IH [OF p(3,4), of s' "seen + 1" hi'] d Inr r
      by (simp add: deliver_append add.commute add.left_commute split: prod.split sum.split)
  qed
qed

lemma length_file_header:
  assumes "header_ok h"
  shows "length (encode_file_header crc h) = record_offset h"
proof -
  have v: "FORMAT_VERSION \<noteq> LEGACY_FORMAT_VERSION" by (simp add: FORMAT_VERSION_def LEGACY_FORMAT_VERSION_def)
  consider "fh_version h = LEGACY_FORMAT_VERSION" | "fh_version h = FORMAT_VERSION" "fh_checkpoint_anchor h = None"
    | a where "fh_version h = FORMAT_VERSION" "fh_checkpoint_anchor h = Some a" "anchor_ok a"
    using assms by (cases "fh_checkpoint_anchor h") (auto simp: header_ok_def)
  then show ?thesis
  proof cases
    case 1
    then show ?thesis by (simp add: encode_file_header_def record_offset_def header_sizes)
  next
    case 2
    then show ?thesis using v by (simp add: empty_header_page header_page_def record_offset_def header_sizes)
  next
    case (3 a)
    then show ?thesis using v by (simp add: encode_header_page header_page_def record_offset_def header_sizes Let_def)
  qed
qed

lemma record_offset_bound: "LEGACY_FILE_HEADER_SIZE \<le> record_offset h"
  by (simp add: record_offset_def header_sizes)

text \<open>The bytes of a header: what the encoder writes, or a page with both slots in use.\<close>

definition header_image :: "crc \<Rightarrow> FileHeader \<Rightarrow> bytes \<Rightarrow> bool" where
  "header_image crc h H = (length H = record_offset h \<and> (\<forall>rest. decode_file_header crc (H @ rest) = Inr h))"

lemma encoded_header_image: "header_ok h \<Longrightarrow> header_image crc h (encode_file_header crc h)"
  by (simp add: header_image_def length_file_header file_header_round_trip)

theorem replay_log:
  assumes "header_image crc h H" "\<forall>r \<in> set recs. wal_rec crc r" "mode_ok h recs" "torn crc t"
  shows "replay_bytes crc (H @ log_bytes recs @ t) cb s =
    (case deliver cb (log_events (record_offset h) recs) s None of
       (Inl e, s') \<Rightarrow> (Inl e, s')
     | (Inr hi, s') \<Rightarrow> (Inr (h, \<lparr> records_seen = word_of_nat (length recs), highest_seq = hi,
         torn_tail_at = (if t = [] then None else Some (record_offset h + length (log_bytes recs))) \<rparr>), s'))"
proof -
  have len: "length H = record_offset h" and dec: "decode_file_header crc (H @ log_bytes recs @ t) = Inr h"
    using assms(1) by (simp_all add: header_image_def)
  note lp = replay_loop_log [OF assms(2-4), of cb H s 0 None]
  have "\<not> length (H @ log_bytes recs @ t) < LEGACY_FILE_HEADER_SIZE"
    using record_offset_bound [of h] len by simp
  then show ?thesis
    unfolding replay_bytes_def dec using lp len by (simp split: prod.split sum.split)
qed

section \<open>Crashes\<close>

text \<open>Appending records one after the other to a buffer, as the writer does.\<close>

fun append_records :: "crc \<Rightarrow> (WalOp \<times> u64) list \<Rightarrow> bytes \<Rightarrow> bytes result" where
  "append_records crc [] out = Inr out"
| "append_records crc ((op, sq) # rest) out = rbind (encode_record crc op sq out) (append_records crc rest)"

text \<open>How many records of a log lie within its first \<open>n\<close> bytes.\<close>

fun complete :: "nat \<Rightarrow> log_entry list \<Rightarrow> nat" where
  "complete n [] = 0"
| "complete n (r # recs) = (if length (fst r) \<le> n then Suc (complete (n - length (fst r)) recs) else 0)"

lemma encode_record_wal_rec:
  assumes "wal_op_ok op" "encode_record crc op sq out = Inr out'"
  obtains bs where "out' = out @ bs" "wal_rec crc (bs, op, sq)"
proof -
  obtain b where b: "encode_body op = Inr b" "length b < 2 ^ 32" "out' = out @ framed crc sq (variant_tag op) b"
    using assms(2) by (auto simp: encode_record_def write_record_def rbind_eq_Inr framed_def Let_def split: if_splits)
  then show ?thesis using decode_body_encoded [OF assms(1) b(1)] by (intro that [OF b(3)]) auto
qed

lemma append_records_log:
  assumes "\<forall>(op, sq) \<in> set ops. wal_op_ok op" "append_records crc ops out = Inr file"
  shows "\<exists>recs. file = out @ log_bytes recs \<and> (\<forall>r \<in> set recs. wal_rec crc r) \<and> map snd recs = ops"
  using assms
proof (induction ops arbitrary: out)
  case Nil
  then show ?case by (intro exI [of _ "[]"]) simp
next
  case (Cons x ops)
  obtain op sq where x: "x = (op, sq)" by (cases x)
  obtain out' where o: "encode_record crc op sq out = Inr out'" "append_records crc ops out' = Inr file"
    using Cons.prems(2) x by (auto simp: rbind_eq_Inr)
  obtain bs where bs: "out' = out @ bs" "wal_rec crc (bs, op, sq)"
    using encode_record_wal_rec [OF _ o(1)] Cons.prems(1) x by auto
  obtain recs where "file = out' @ log_bytes recs" "\<forall>r \<in> set recs. wal_rec crc r" "map snd recs = ops"
    using Cons.IH [OF _ o(2)] Cons.prems(1) by auto
  then show ?case using bs x by (intro exI [of _ "(bs, op, sq) # recs"]) simp
qed

lemma complete_le: "complete n recs \<le> length recs"
  by (induction n recs rule: complete.induct) auto

lemma cut_log:
  assumes "\<forall>r \<in> set recs. wal_rec crc r"
  shows "\<exists>t. torn crc t \<and> take n (log_bytes recs) = log_bytes (take (complete n recs) recs) @ t"
  using assms
proof (induction n recs rule: complete.induct)
  case (1 n)
  then show ?case using torn_Nil by auto
next
  case (2 n r recs)
  show ?case
  proof (cases "length (fst r) \<le> n")
    case True
    then show ?thesis using 2 by auto
  next
    case False
    obtain bs op sq where r: "r = (bs, op, sq)" by (cases r)
    obtain ty b where "length b < 2 ^ 32" "bs = framed crc sq ty b" using 2(2) r by auto
    then have "torn crc (take n bs)" using False r unfolding torn_def by (metis fst_conv linorder_not_le)
    then show ?thesis using False r by (intro exI [of _ "take n bs"]) simp
  qed
qed

text \<open>A callback that records what it is given.\<close>

fun collect :: "(WalOp \<times> u64) list callback" where
  "collect s op sq offset = (Inr (), s @ [(op, sq)])"

lemma deliver_collect:
  "\<exists>hi'. deliver collect evs s hi = (Inr hi', s @ map (\<lambda>(op, sq, offset). (op, sq)) evs)"
  by (induction collect evs s hi rule: deliver.induct) auto

declare collect.simps [simp del]

lemma log_events_ops:
  "map (\<lambda>(op, sq, offset). (op, sq)) (log_events offset recs) = concat (map (\<lambda>(bs, op, sq). record_ops op sq) recs)"
proof (induction offset recs rule: log_events.induct)
  case (2 offset bs op sq recs)
  have "map (\<lambda>(op, sq, offset). (op, sq)) (events offset op sq) = record_ops op sq"
    by (simp add: events_def comp_def case_prod_beta)
  with 2 show ?case by simp
qed simp

lemma mode_ok_mono: "mode_ok h rs \<Longrightarrow> set rs' \<subseteq> set rs \<Longrightarrow> mode_ok h rs'"
  unfolding mode_ok_def by blast

lemma mode_ok_take: "mode_ok h recs \<Longrightarrow> mode_ok h (take k recs)"
  by (auto simp: mode_ok_def dest!: in_set_takeD)

theorem replay_cut_log:
  assumes "header_image crc h H" "\<forall>r \<in> set recs. wal_rec crc r" "mode_ok h recs" "record_offset h \<le> n"
  defines "k \<equiv> complete (n - record_offset h) recs"
  shows "\<exists>stats. replay_bytes crc (take n (H @ log_bytes recs)) collect [] =
      (Inr (h, stats), concat (map (\<lambda>(bs, op, sq). record_ops op sq) (take k recs)))
    \<and> records_seen stats = word_of_nat k"
proof -
  obtain t where t: "torn crc t" "take (n - record_offset h) (log_bytes recs) = log_bytes (take k recs) @ t"
    using cut_log [OF assms(2)] unfolding k_def by blast
  have f: "take n (H @ log_bytes recs) = H @ log_bytes (take k recs) @ t"
    using assms(1,4) t(2) by (simp add: header_image_def)
  have w: "\<forall>r \<in> set (take k recs). wal_rec crc r" using assms(2) by (auto dest: in_set_takeD)
  obtain hi where d: "deliver collect (log_events (record_offset h) (take k recs)) [] None =
      (Inr hi, concat (map (\<lambda>(bs, op, sq). record_ops op sq) (take k recs)))"
    using deliver_collect [of "log_events (record_offset h) (take k recs)" "[]" None] by (auto simp: log_events_ops)
  have "length (take k recs) = k" using complete_le [of "n - record_offset h" recs] by (simp add: k_def)
  then show ?thesis
    unfolding f replay_log [OF assms(1) w mode_ok_take [OF assms(3)] t(1)] d by simp
qed

section \<open>Recovery\<close>

text \<open>The recovery step of an open (\<^verbatim>\<open>replay_wal\<close> of \<^verbatim>\<open>src/src/api/tree.rs\<close>): replay, drop a torn tail from the file
  when recovery writes are allowed, and hand out the next sequence number.  The callback, which applies an
  operation to the buffer manager, is an argument.\<close>

definition replay_wal ::
  "crc \<Rightarrow> bool \<Rightarrow> 's callback \<Rightarrow> bytes \<Rightarrow> 's \<Rightarrow> (u64 \<times> ReplayStats) result \<times> bytes \<times> 's" where
  "replay_wal crc allow_recovery_writes cb file s =
    (case replay_bytes crc file cb s of
       (Inl e, s') \<Rightarrow> (Inl e, file, s')
     | (Inr (header, stats), s') \<Rightarrow>
         let file' = (if allow_recovery_writes
                      then (case torn_tail_at stats of Some off \<Rightarrow> take off file | None \<Rightarrow> file) else file) in
         (Inr ((case highest_seq stats of None \<Rightarrow> 0 | Some q \<Rightarrow> q) + 1, stats), file', s'))"

lemma replay_collect:
  assumes "header_image crc h H" "\<forall>r \<in> set recs. wal_rec crc r" "mode_ok h recs" "torn crc t"
  shows "\<exists>stats. replay_bytes crc (H @ log_bytes recs @ t) collect [] =
      (Inr (h, stats), concat (map (\<lambda>(bs, op, sq). record_ops op sq) recs))
    \<and> records_seen stats = word_of_nat (length recs)
    \<and> torn_tail_at stats = (if t = [] then None else Some (record_offset h + length (log_bytes recs)))"
proof -
  obtain hi where "deliver collect (log_events (record_offset h) recs) [] None =
      (Inr hi, concat (map (\<lambda>(bs, op, sq). record_ops op sq) recs))"
    using deliver_collect [of "log_events (record_offset h) recs" "[]" None] by (auto simp: log_events_ops)
  then show ?thesis unfolding replay_log [OF assms] by simp
qed

text \<open>A crash, a recovery and later appends: the next replay sees the surviving records and then the new ones.\<close>

theorem recovery_keeps_appends:
  assumes "header_image crc h H" "\<forall>r \<in> set (recs @ later). wal_rec crc r" "mode_ok h (recs @ later)" "record_offset h \<le> n"
  defines "k \<equiv> complete (n - record_offset h) recs"
  shows "\<exists>res file'. replay_wal crc True collect (take n (H @ log_bytes recs)) [] =
      (Inr res, file', concat (map (\<lambda>(bs, op, sq). record_ops op sq) (take k recs)))
    \<and> file' = H @ log_bytes (take k recs)
    \<and> (\<exists>stats. replay_bytes crc (file' @ log_bytes later) collect [] =
         (Inr (h, stats), concat (map (\<lambda>(bs, op, sq). record_ops op sq) (take k recs @ later))))"
proof -
  obtain t where t: "torn crc t" "take (n - record_offset h) (log_bytes recs) = log_bytes (take k recs) @ t"
    using cut_log [of recs crc] assms(2) unfolding k_def by auto
  have len: "length H = record_offset h" using assms(1) by (simp add: header_image_def)
  have f: "take n (H @ log_bytes recs) = H @ log_bytes (take k recs) @ t" using len assms(4) t(2) by simp
  have sb: "set (take k recs) \<subseteq> set (recs @ later)" "set (take k recs @ later) \<subseteq> set (recs @ later)"
    by (auto dest: in_set_takeD)
  have w: "\<forall>r \<in> set (take k recs). wal_rec crc r" "mode_ok h (take k recs)"
      "\<forall>r \<in> set (take k recs @ later). wal_rec crc r" "mode_ok h (take k recs @ later)"
    using assms(2) sb mode_ok_mono [OF assms(3)] by blast+
  obtain st where st: "replay_bytes crc (H @ log_bytes (take k recs) @ t) collect [] =
      (Inr (h, st), concat (map (\<lambda>(bs, op, sq). record_ops op sq) (take k recs)))"
      "torn_tail_at st = (if t = [] then None else Some (record_offset h + length (log_bytes (take k recs))))"
    using replay_collect [OF assms(1) w(1,2) t(1)] by blast
  have c: "(case torn_tail_at st of Some off \<Rightarrow> take off (H @ log_bytes (take k recs) @ t) | None \<Rightarrow> H @ log_bytes (take k recs) @ t)
      = H @ log_bytes (take k recs)" using st(2) len by auto
  have "\<exists>stats. replay_bytes crc (H @ log_bytes (take k recs @ later) @ []) collect [] =
      (Inr (h, stats), concat (map (\<lambda>(bs, op, sq). record_ops op sq) (take k recs @ later)))"
    using replay_collect [OF assms(1) w(3,4) torn_Nil] by blast
  then show ?thesis unfolding f using st(1) c by (simp add: replay_wal_def Let_def)
qed

text \<open>A record whose length field claims more bytes than are left ends the replay as a torn tail, wherever it is in the
  file: the records after it are not read and no error is reported.\<close>

lemma long_record_is_torn:
  assumes "header_image crc h H" "\<forall>r \<in> set recs. wal_rec crc r" "mode_ok h recs"
    and "length bad + length rest < unat n + 21" "length bad \<ge> 17" "take 17 bad = record_header n sq ty"
  shows "\<exists>stats. replay_bytes crc (H @ log_bytes recs @ bad @ rest) collect [] =
      (Inr (h, stats), concat (map (\<lambda>(bs, op, sq). record_ops op sq) recs))
    \<and> torn_tail_at stats = Some (record_offset h + length (log_bytes recs))"
proof -
  define r where "r = drop 17 bad @ rest"
  have "bad = record_header n sq ty @ drop 17 bad" using assms(6) by (metis append_take_drop_id)
  then have e: "bad @ rest = record_header n sq ty @ r" unfolding r_def by (metis append.assoc)
  have f: "sub (bad @ rest) 0 4 = u32_bytes RECORD_MAGIC" "sub (bad @ rest) 4 8 = u32_bytes n"
    unfolding e by (rule record_header_fields)+
  have d: "decode_record crc (bad @ rest) = Inl (sanity ''record body truncated'')"
    using assms(4,5) by (simp add: decode_record_def record_sizes Let_def f)
  have "replay_loop crc h collect (pre @ bad @ rest) (length pre) s seen hi =
      (Inr \<lparr> records_seen = seen, highest_seq = hi, torn_tail_at = Some (length pre) \<rparr>, s)" for pre s seen hi
    using d assms(5) by (subst replay_loop.simps) (auto simp: sanity_def is_torn_tail_def)
  note stop = this
  have "\<exists>stats. replay_loop crc h collect (pre @ log_bytes recs @ bad @ rest) (length pre) s seen hi =
      (Inr stats, s @ concat (map (\<lambda>(bs, op, sq). record_ops op sq) recs))
      \<and> torn_tail_at stats = Some (length pre + length (log_bytes recs))" for pre s seen hi
    using assms(2,3)
  proof (induction recs arbitrary: pre s seen hi)
    case Nil
    then show ?case using stop by simp
  next
    case (Cons r recs)
    obtain bs op q where r: "r = (bs, op, q)" by (cases r)
    have p: "wal_rec crc (bs, op, q)" "mode_ok h [(bs, op, q)]" "\<forall>r \<in> set recs. wal_rec crc r" "mode_ok h recs"
      using Cons.prems r mode_ok_Cons [of h r recs] by simp_all
    obtain hi' where d: "deliver collect (events (length pre) op q) s hi = (Inr hi', s @ record_ops op q)"
      using deliver_collect [of "events (length pre) op q" s hi] log_events_ops [of "length pre" "[(bs, op, q)]"] by auto
    show ?case
      using Cons.IH [OF p(3,4), of "pre @ bs" "s @ record_ops op q" "seen + 1" hi'] d r
        replay_loop_step [OF p(1,2), of collect pre "log_bytes recs @ bad @ rest" s seen hi] by (auto simp: add.assoc)
  qed
  from this [of H "[]" 0 None] obtain stats where "replay_loop crc h collect (H @ log_bytes recs @ bad @ rest) (length H) [] 0 None =
      (Inr stats, concat (map (\<lambda>(bs, op, sq). record_ops op sq) recs))" "torn_tail_at stats = Some (length H + length (log_bytes recs))"
    by auto
  then show ?thesis
    using assms(1) record_offset_bound [of h] by (auto simp: replay_bytes_def header_image_def)
qed

end
