(* ===== verification/Wal_Writer.thy ===== *)
theory Wal_Writer
  imports Wal_Reader
begin

text \<open>The append-only writer of \<^verbatim>\<open>src/src/journal/writer.rs\<close> over a disk whose requests may fail, with the
  durability and crash properties of the record stream and of the two checkpoint-anchor slots.\<close>

section \<open>The disk\<close>

text \<open>A file as the operating system shows it, and as it is after a power loss.  The outcome of each request is
  given in advance: it succeeds, or it fails after \<open>k\<close> of its bytes were transferred.\<close>

datatype io_outcome = IoDone | IoFailed nat

record wal_disk =
  d_exists :: bool
  d_os :: bytes
  d_synced :: bytes
  d_plan :: "io_outcome list"

fun io_next :: "wal_disk \<Rightarrow> io_outcome \<times> wal_disk" where
  "io_next d = (case d_plan d of [] \<Rightarrow> (IoDone, d) | x # xs \<Rightarrow> (x, d\<lparr> d_plan := xs \<rparr>))"

definition io_error :: fault where
  "io_error = Fail (BlobStoreIo (IoOther ''request failed''))"

definition write_at :: "nat \<Rightarrow> bytes \<Rightarrow> wal_disk \<Rightarrow> unit result \<times> wal_disk" where
  "write_at off bs d =
    (case io_next d of
       (IoDone, d') \<Rightarrow> (Inr (), d'\<lparr> d_os := patch_at (d_os d') off bs \<rparr>)
     | (IoFailed k, d') \<Rightarrow> (Inl io_error, d'\<lparr> d_os := patch_at (d_os d') off (take k bs) \<rparr>))"

definition write_end :: "bytes \<Rightarrow> wal_disk \<Rightarrow> unit result \<times> wal_disk" where
  "write_end bs d = write_at (length (d_os d)) bs d"

definition sync_data :: "wal_disk \<Rightarrow> unit result \<times> wal_disk" where
  "sync_data d =
    (case io_next d of
       (IoDone, d') \<Rightarrow> (Inr (), d'\<lparr> d_synced := d_os d' \<rparr>)
     | (IoFailed k, d') \<Rightarrow> (Inl io_error, d'))"

definition set_len :: "nat \<Rightarrow> wal_disk \<Rightarrow> unit result \<times> wal_disk" where
  "set_len n d =
    (case io_next d of
       (IoDone, d') \<Rightarrow> (Inr (), d'\<lparr> d_os := take n (d_os d') @ replicate (n - length (d_os d')) 0 \<rparr>)
     | (IoFailed k, d') \<Rightarrow> (Inl io_error, d'))"

section \<open>The writer\<close>

definition AUTO_FLUSH_THRESHOLD :: nat where "AUTO_FLUSH_THRESHOLD = 64 * 1024"

record WalWriter =
  w_disk :: wal_disk
  w_pending :: bytes
  w_bytes_written :: nat
  w_header :: FileHeader

type_synonym wop = "WalWriter \<Rightarrow> unit result \<times> WalWriter"

definition on_disk :: "(wal_disk \<Rightarrow> unit result \<times> wal_disk) \<Rightarrow> wop" where
  "on_disk g w = (case g (w_disk w) of (r, d) \<Rightarrow> (r, w\<lparr> w_disk := d \<rparr>))"

definition wseq :: "wop \<Rightarrow> wop \<Rightarrow> wop" where
  "wseq m k w = (case m w of (Inl e, w') \<Rightarrow> (Inl e, w') | (Inr _, w') \<Rightarrow> k w')"

definition wset :: "(WalWriter \<Rightarrow> WalWriter) \<Rightarrow> wop" where
  "wset g w = (Inr (), g w)"

definition wfail :: "fault \<Rightarrow> wop" where
  "wfail e w = (Inl e, w)"

definition dseq :: "(wal_disk \<Rightarrow> unit result \<times> wal_disk) \<Rightarrow> (wal_disk \<Rightarrow> 'a result \<times> wal_disk) \<Rightarrow> wal_disk \<Rightarrow> 'a result \<times> wal_disk" where
  "dseq m k d = (case m d of (Inl e, d') \<Rightarrow> (Inl e, d') | (Inr _, d') \<Rightarrow> k d')"

text \<open>\<open>create\<close> refuses an existing path; \<open>secs\<close> is the wall clock.\<close>

definition wal_create :: "crc \<Rightarrow> u64 \<Rightarrow> u64 \<Rightarrow> wal_disk \<Rightarrow> WalWriter result \<times> wal_disk" where
  "wal_create crc secs tree_id d =
    (if d_exists d then (Inl (Fail (BlobStoreIo (IoOther ''already exists''))), d)
     else
       let header = file_header_now secs tree_id;
           d0 = d\<lparr> d_exists := True, d_os := [], d_synced := [] \<rparr> in
       dseq (write_at 0 (encode_file_header crc header)) (dseq sync_data (\<lambda>d'.
         (Inr \<lparr> w_disk = d', w_pending = [], w_bytes_written = FILE_HEADER_SIZE, w_header = header \<rparr>, d'))) d0)"

definition wal_open_existing :: "crc \<Rightarrow> wal_disk \<Rightarrow> WalWriter result \<times> wal_disk" where
  "wal_open_existing crc d =
    (if \<not> d_exists d then (Inl (Fail (BlobStoreIo IoNotFound)), d)
     else if length (d_os d) < LEGACY_FILE_HEADER_SIZE then (Inl (Fail (BlobStoreIo (IoOther ''unexpected end of file''))), d)
     else
       case file_header_size_from_prefix (take LEGACY_FILE_HEADER_SIZE (d_os d)) of
         Inl e \<Rightarrow> (Inl e, d)
       | Inr n \<Rightarrow>
           if n > LEGACY_FILE_HEADER_SIZE \<and> length (d_os d) < n then
             (Inl (Fail (BlobStoreIo (IoOther ''unexpected end of file''))), d)
           else
             (case decode_file_header crc (take n (d_os d)) of
                Inl e \<Rightarrow> (Inl e, d)
              | Inr header \<Rightarrow>
                  if fh_version header \<noteq> FORMAT_VERSION then
                    (if length (d_os d) \<noteq> LEGACY_FILE_HEADER_SIZE then
                       (Inl (sanity ''nonempty WAL format 3 is replay-only; checkpoint it with a format-3 Holt binary before v4 writes''), d)
                     else
                       let header = header\<lparr> fh_version := FORMAT_VERSION, fh_checkpoint_anchor := None,
                                           fh_anchor_generation := 0 \<rparr> in
                       dseq (write_at 0 (encode_file_header crc header)) (dseq sync_data (\<lambda>d'.
                         (Inr \<lparr> w_disk = d', w_pending = [], w_bytes_written = length (d_os d'), w_header = header \<rparr>, d'))) d)
                  else (Inr \<lparr> w_disk = d, w_pending = [], w_bytes_written = length (d_os d), w_header = header \<rparr>, d)))"

definition wal_open_or_create :: "crc \<Rightarrow> u64 \<Rightarrow> u64 \<Rightarrow> wal_disk \<Rightarrow> WalWriter result \<times> wal_disk" where
  "wal_open_or_create crc secs tree_id d =
    (if d_exists d then
       case wal_open_existing crc d of
         (Inl e, d') \<Rightarrow> (Inl e, d')
       | (Inr w, d') \<Rightarrow>
           if fh_tree_id (w_header w) \<noteq> tree_id then (Inl (sanity ''WAL file tree_id mismatch on open''), d') else (Inr w, d')
     else wal_create crc secs tree_id d)"

definition has_records :: "WalWriter \<Rightarrow> bool" where
  "has_records w = (w_bytes_written w + length (w_pending w) > FILE_HEADER_SIZE)"

definition drain_to_os :: wop where
  "drain_to_os w =
    (if w_pending w = [] then (Inr (), w)
     else
       wseq (on_disk (write_end (w_pending w)))
         (wset (\<lambda>w. w\<lparr> w_bytes_written := w_bytes_written w + length (w_pending w), w_pending := [] \<rparr>)) w)"

definition maybe_drain :: wop where
  "maybe_drain w = (if length (w_pending w) \<ge> AUTO_FLUSH_THRESHOLD then drain_to_os w else (Inr (), w))"

definition append_encoded :: "bytes \<Rightarrow> wop" where
  "append_encoded rec w = maybe_drain (w\<lparr> w_pending := w_pending w @ rec \<rparr>)"

definition wal_flush :: wop where
  "wal_flush = wseq drain_to_os (on_disk sync_data)"

definition wal_truncate :: wop where
  "wal_truncate w =
    (let n = record_offset (w_header w) in
     wseq (on_disk (set_len n)) (wseq (on_disk sync_data) (wset (\<lambda>w. w\<lparr> w_bytes_written := n \<rparr>))) (w\<lparr> w_pending := [] \<rparr>))"

definition persist_anchor_generation :: "crc \<Rightarrow> JournalAnchor \<Rightarrow> wop" where
  "persist_anchor_generation crc anchor w =
    (case u64_checked_add (fh_anchor_generation (w_header w)) 1 of
       None \<Rightarrow> (Inl (Fail (JournalStreamUnavailable ''checkpoint anchor generation exhausted'')), w)
     | Some generation \<Rightarrow>
         let slot_index = unat (Bit_Operations.and (generation - 1) 1);
             slot = encode_anchor_slot crc anchor generation in
         wseq (on_disk (write_at (ANCHOR_SLOT_OFFSETS ! slot_index) (take ANCHOR_SLOT_SIZE slot)))
           (wseq (on_disk sync_data)
             (wset (\<lambda>w. w\<lparr> w_header := (w_header w)\<lparr> fh_checkpoint_anchor := Some anchor, fh_anchor_generation := generation \<rparr> \<rparr>))) w)"

primrec repeat_generation :: "nat \<Rightarrow> crc \<Rightarrow> JournalAnchor \<Rightarrow> wop" where
  "repeat_generation 0 crc anchor = wset id"
| "repeat_generation (Suc n) crc anchor = wseq (persist_anchor_generation crc anchor) (repeat_generation n crc anchor)"

definition persist_checkpoint_anchor :: "crc \<Rightarrow> JournalAnchor \<Rightarrow> wop" where
  "persist_checkpoint_anchor crc anchor w =
    (if fh_version (w_header w) \<noteq> FORMAT_VERSION then
       (Inl (Fail (JournalStreamUnavailable ''checkpoint anchors require WAL format 4'')), w)
     else
       let generations = (if fh_checkpoint_anchor (w_header w) = Some anchor then 1 else 2) in
       if u64_checked_add (fh_anchor_generation (w_header w)) (word_of_nat generations) = None then
         (Inl (Fail (JournalStreamUnavailable ''checkpoint anchor generation exhausted'')), w)
       else repeat_generation generations crc anchor w)"

definition checkpoint_and_truncate :: "crc \<Rightarrow> JournalAnchor option \<Rightarrow> wop" where
  "checkpoint_and_truncate crc anchor =
    wseq wal_flush (wseq (case anchor of None \<Rightarrow> wset id | Some a \<Rightarrow> persist_checkpoint_anchor crc a) wal_truncate)"

lemmas wop_defs = on_disk_def wseq_def wset_def wfail_def write_end_def write_at_def sync_data_def set_len_def

section \<open>The two anchor slots\<close>

text \<open>The slots of a format-4 page whose header is \<open>h\<close>: the newest generation is in the slot of its parity, the
  other slot is older or was never completed.\<close>

definition older_slot :: "crc \<Rightarrow> u64 \<Rightarrow> bytes \<Rightarrow> bool" where
  "older_slot crc g S = (case decode_anchor_slot crc S of None \<Rightarrow> True | Some (a, g') \<Rightarrow> g' < g)"

definition slots_ok :: "crc \<Rightarrow> FileHeader \<Rightarrow> bytes \<Rightarrow> bytes \<Rightarrow> bool" where
  "slots_ok crc h A B =
    (fh_version h = FORMAT_VERSION \<and> length A = 128 \<and> length B = 128
     \<and> (case fh_checkpoint_anchor h of
          None \<Rightarrow> fh_anchor_generation h = 0 \<and> decode_anchor_slot crc A = None \<and> B = replicate 128 0
        | Some a \<Rightarrow> anchor_ok a \<and> fh_anchor_generation h \<noteq> 0
            \<and> (if odd (unat (fh_anchor_generation h))
               then A = encode_anchor_slot crc a (fh_anchor_generation h) \<and> older_slot crc (fh_anchor_generation h) B
               else B = encode_anchor_slot crc a (fh_anchor_generation h) \<and> older_slot crc (fh_anchor_generation h) A)))"

lemma newest_older:
  assumes "older_slot crc g S"
  shows "newest_anchor (Some (a, g)) (decode_anchor_slot crc S) = Some (a, g)"
    "newest_anchor (decode_anchor_slot crc S) (Some (a, g)) = Some (a, g)"
    "\<not> slots_conflict (Some (a, g)) (decode_anchor_slot crc S)" "\<not> slots_conflict (decode_anchor_slot crc S) (Some (a, g))"
  using assms by (cases "decode_anchor_slot crc S"; auto simp: older_slot_def slots_conflict_def)+

lemma slots_ok_image:
  assumes "slots_ok crc h A B"
  shows "header_image crc h (header_page (header_base h) A B)"
proof -
  have l: "fh_version h = FORMAT_VERSION" "length A = 128" "length B = 128" using assms by (auto simp: slots_ok_def)
  note hp = header_page_slots [OF length_header_base [of h] l(2,3)]
  have ro: "record_offset h = 4096"
    using l(1) by (simp add: record_offset_def FORMAT_VERSION_def LEGACY_FORMAT_VERSION_def FILE_HEADER_SIZE_def)
  have "decode_checkpoint_anchor crc (header_page (header_base h) A B @ rest) =
      Inr (fh_checkpoint_anchor h, fh_anchor_generation h)" for rest
  proof (cases "fh_checkpoint_anchor h")
    case None
    then have "decode_anchor_slot crc A = None" "B = replicate 128 0" "fh_anchor_generation h = 0"
      using assms by (auto simp: slots_ok_def)
    then show ?thesis using hp None by (simp add: decode_checkpoint_slots slots_conflict_def list_ex_iff)
  next
    case (Some a)
    let ?g = "fh_anchor_generation h"
    have a: "anchor_ok a" "?g \<noteq> 0" using assms Some by (auto simp: slots_ok_def)
    note rt = anchor_slot_round_trip [OF a, of crc]
    show ?thesis
    proof (cases "odd (unat ?g)")
      case True
      then have "A = encode_anchor_slot crc a ?g" "older_slot crc ?g B" using assms Some by (auto simp: slots_ok_def)
      then show ?thesis using hp Some rt by (simp add: decode_checkpoint_slots newest_older)
    next
      case False
      then have "B = encode_anchor_slot crc a ?g" "older_slot crc ?g A" using assms Some by (auto simp: slots_ok_def)
      then show ?thesis using hp Some rt by (simp add: decode_checkpoint_slots newest_older)
    qed
  qed
  then show ?thesis
    using hp(1) ro by (simp add: header_image_def decode_header_page [OF l])
qed

text \<open>Writing generation \<open>g + 1\<close> touches the older slot only.  Whatever the interrupted write left there, if its
  checksum does not hold the page still decodes to the old header.\<close>

definition with_anchor :: "FileHeader \<Rightarrow> JournalAnchor \<Rightarrow> FileHeader" where
  "with_anchor h a = h\<lparr> fh_checkpoint_anchor := Some a, fh_anchor_generation := fh_anchor_generation h + 1 \<rparr>"

lemma next_generation:
  assumes "u64_checked_add g 1 = Some g'"
  shows "g' = g + 1" "unat g' = unat g + 1" "g' \<noteq> 0" "g < g'"
proof -
  have u: "unat g' = unat g + 1" using assms by (simp add: u64_checked_add_Some)
  then show "unat g' = unat g + 1" "g' \<noteq> 0" "g < g'" by (auto simp: word_less_nat_alt)
  show "g' = g + 1" using assms by (simp add: u64_checked_add_def split: if_splits)
qed

theorem slot_write_safe:
  assumes "slots_ok crc h A B" "anchor_ok a" "u64_checked_add (fh_anchor_generation h) 1 = Some g"
  shows "slots_ok crc (with_anchor h a)
      (if odd (unat g) then encode_anchor_slot crc a g else A) (if odd (unat g) then B else encode_anchor_slot crc a g)"
    and "length T = 128 \<Longrightarrow> decode_anchor_slot crc T = None \<Longrightarrow>
      slots_ok crc h (if odd (unat g) then T else A) (if odd (unat g) then B else T)"
proof -
  note g = next_generation [OF assms(3)]
  have par: "odd (unat g) \<longleftrightarrow> even (unat (fh_anchor_generation h))" using g(2) by simp
  have old: "older_slot crc g S" if "older_slot crc (fh_anchor_generation h) S" for S
    using that g(4) by (auto simp: older_slot_def split: option.splits)
  have cur: "older_slot crc g (encode_anchor_slot crc b (fh_anchor_generation h))" if "anchor_ok b" "fh_anchor_generation h \<noteq> 0" for b
    using anchor_slot_round_trip [OF that] g(4) by (simp add: older_slot_def)
  have z: "older_slot crc g (replicate 128 0)" by (simp add: older_slot_def)
  show "slots_ok crc (with_anchor h a)
      (if odd (unat g) then encode_anchor_slot crc a g else A) (if odd (unat g) then B else encode_anchor_slot crc a g)"
    using assms(1,2) g(1,3) par old cur z
    by (cases "fh_checkpoint_anchor h"; cases "odd (unat g)") (auto simp: slots_ok_def with_anchor_def)
  show "slots_ok crc h (if odd (unat g) then T else A) (if odd (unat g) then B else T)"
    if "length T = 128" "decode_anchor_slot crc T = None"
    using assms(1) that g(1,2) par
    by (cases "fh_checkpoint_anchor h"; cases "odd (unat g)") (auto simp: slots_ok_def older_slot_def)
qed

lemma patch_slot:
  assumes "length base = 32" "length A = 128" "length B = 128" "length S \<le> 128"
  shows "patch_at (header_page base A B @ body) 64 S = header_page base (S @ drop (length S) A) B @ body"
    "patch_at (header_page base A B @ body) 192 S = header_page base A (S @ drop (length S) B) @ body"
  using assms by (simp_all add: patch_at_def header_page_def)

text \<open>A slot cut after \<open>k\<close> of its bytes.  Where the result agrees with neither the old nor the new slot on the bytes
  the decoder reads, the checksum is relied on to tell.\<close>

definition torn_slot :: "nat \<Rightarrow> bytes \<Rightarrow> bytes \<Rightarrow> bytes" where
  "torn_slot k S old = take k S @ drop k old"

definition tear_detected :: "crc \<Rightarrow> nat \<Rightarrow> bytes \<Rightarrow> bytes \<Rightarrow> bool" where
  "tear_detected crc k S old =
    (let T = torn_slot k S old in
     take 68 T = take 68 old \<or> take 68 T = take 68 S \<or> crc (take 64 T) \<noteq> u32_of_bytes (sub T 64 68))"

lemma decode_slot_prefix:
  assumes "length S = 128" "length T = 128" "take 68 S = take 68 T"
  shows "decode_anchor_slot crc S = decode_anchor_slot crc T"
proof -
  have "sub S i j = sub T i j" if "j \<le> 68" for i j
    using that arg_cong [OF assms(3), of "\<lambda>xs. drop i (take j xs)"] by (simp add: sub_def drop_take min_absorb1)
  moreover have "take 64 S = take 64 T" using arg_cong [OF assms(3), of "take 64"] by (simp add: min_def)
  ultimately show ?thesis using assms(1,2) by (simp add: decode_anchor_slot_def header_sizes Let_def)
qed

lemma torn_slot_decodes:
  assumes "length S = 128" "length old = 128" "decode_anchor_slot crc S = Some (a, g)"
    and "k < 68 \<Longrightarrow> tear_detected crc k S old"
  shows "decode_anchor_slot crc (torn_slot k S old) \<in> {None, decode_anchor_slot crc old, Some (a, g)}"
proof (cases "k < 68")
  case True
  let ?T = "torn_slot k S old"
  have l: "length ?T = 128" using assms(1,2) True by (simp add: torn_slot_def)
  consider "take 68 ?T = take 68 old" | "take 68 ?T = take 68 S" | "crc (take 64 ?T) \<noteq> u32_of_bytes (sub ?T 64 68)"
    using assms(4) [OF True] by (auto simp: tear_detected_def Let_def)
  then show ?thesis
  proof cases
    case 3
    then have "decode_anchor_slot crc ?T = None" by (simp add: decode_anchor_slot_def header_sizes Let_def)
    then show ?thesis by simp
  qed (use decode_slot_prefix [OF l assms(2)] decode_slot_prefix [OF l assms(1)] assms(3) in auto)
next
  case False
  then have "take 68 (torn_slot k S old) = take 68 S" "length (torn_slot k S old) = 128"
    using assms(1,2) by (auto simp: torn_slot_def min_def)
  then show ?thesis using decode_slot_prefix [of "torn_slot k S old" S crc] assms(1,3) by simp
qed

lemma slot_replaced:
  assumes "slots_ok crc h A B" "anchor_ok a" "u64_checked_add (fh_anchor_generation h) 1 = Some g" "length T = 128"
    and "decode_anchor_slot crc T \<in> {None, decode_anchor_slot crc (if odd (unat g) then A else B), Some (a, g)}"
  shows "decode_file_header crc (header_page (header_base h) (if odd (unat g) then T else A) (if odd (unat g) then B else T) @ body)
    \<in> {Inr h, Inr (with_anchor h a)}"
proof -
  note g = next_generation [OF assms(3)]
  have par: "odd (unat g) \<longleftrightarrow> even (unat (fh_anchor_generation h))" using g(2) by simp
  have l: "fh_version h = FORMAT_VERSION" "length A = 128" "length B = 128" using assms(1) by (auto simp: slots_ok_def)
  consider "slots_ok crc h (if odd (unat g) then T else A) (if odd (unat g) then B else T)" | "decode_anchor_slot crc T = Some (a, g)"
    using assms(1,4,5) g(1,2) par
    by (cases "fh_checkpoint_anchor h"; cases "odd (unat g)") (auto simp: slots_ok_def older_slot_def)
  then show ?thesis
  proof cases
    case 1
    then show ?thesis using slots_ok_image [OF 1] by (simp add: header_image_def)
  next
    case 2
    let ?o = "if odd (unat g) then B else A"
    have o: "older_slot crc g ?o"
      using assms(1) g(4) par anchor_slot_round_trip [of _ "fh_anchor_generation h" crc]
      by (cases "fh_checkpoint_anchor h"; cases "odd (unat g)") (auto simp: slots_ok_def older_slot_def)
    have "decode_checkpoint_anchor crc (header_page (header_base h) (if odd (unat g) then T else A) (if odd (unat g) then B else T) @ body)
        = Inr (Some a, g)"
      using header_page_slots(2,3) [OF length_header_base [of h]] l(2,3) assms(4) 2 newest_older [OF o, of a]
      by (cases "odd (unat g)") (simp_all add: decode_checkpoint_slots)
    then show ?thesis
      using l assms(4) g(1) by (cases "odd (unat g)") (simp_all add: decode_header_page with_anchor_def)
  qed
qed

section \<open>The record stream\<close>

text \<open>The file behind a writer: a header page, then the bytes the operating system has.\<close>

definition writer_rel :: "crc \<Rightarrow> WalWriter \<Rightarrow> bytes \<Rightarrow> bytes \<Rightarrow> bytes \<Rightarrow> bool" where
  "writer_rel crc w A B body =
    (slots_ok crc (w_header w) A B \<and> d_os (w_disk w) = header_page (header_base (w_header w)) A B @ body)"

lemma patch_at_end: "patch_at (a @ b) (length a + length b) bs = a @ b @ bs"
  by (simp add: patch_at_def)

lemma drain_outcome:
  assumes "writer_rel crc w A B body" "drain_to_os w = (r, w')"
  shows "w_header w' = w_header w \<and>
    (case r of
       Inr _ \<Rightarrow> writer_rel crc w' A B (body @ w_pending w) \<and> w_pending w' = []
     | Inl e \<Rightarrow> e = io_error \<and> w_pending w' = w_pending w \<and> (\<exists>k. writer_rel crc w' A B (body @ take k (w_pending w))))"
  using assms
  by (auto simp: drain_to_os_def wop_defs writer_rel_def patch_at_end split: if_splits list.splits io_outcome.splits prod.splits)

lemma append_outcome:
  assumes "writer_rel crc w A B body" "append_encoded rec w = (r, w')"
  shows "w_header w' = w_header w \<and>
    (case r of
       Inr _ \<Rightarrow> \<exists>body'. writer_rel crc w' A B body' \<and> body' @ w_pending w' = body @ w_pending w @ rec
     | Inl e \<Rightarrow> e = io_error \<and> w_pending w' = w_pending w @ rec \<and> (\<exists>k. writer_rel crc w' A B (body @ take k (w_pending w @ rec))))"
proof -
  let ?w = "w\<lparr> w_pending := w_pending w @ rec \<rparr>"
  have rel: "writer_rel crc ?w A B body" using assms(1) by (simp add: writer_rel_def)
  show ?thesis
  proof (cases "length (w_pending ?w) \<ge> AUTO_FLUSH_THRESHOLD")
    case True
    then have "drain_to_os ?w = (r, w')" using assms(2) by (simp add: append_encoded_def maybe_drain_def)
    from drain_outcome [OF rel this] show ?thesis by (auto split: sum.splits)
  next
    case False
    then have "r = Inr ()" "w' = ?w" using assms(2) by (auto simp: append_encoded_def maybe_drain_def)
    then show ?thesis using rel by auto
  qed
qed

lemma flush_outcome:
  assumes "writer_rel crc w A B body" "wal_flush w = (Inr u, w')"
  shows "writer_rel crc w' A B (body @ w_pending w) \<and> w_pending w' = [] \<and> w_header w' = w_header w
    \<and> d_synced (w_disk w') = d_os (w_disk w')"
proof -
  obtain w1 where w1: "drain_to_os w = (Inr (), w1)" "on_disk sync_data w1 = (Inr u, w')"
    using assms(2) by (auto simp: wal_flush_def wseq_def split: prod.splits sum.splits)
  note d = drain_outcome [OF assms(1) w1(1)]
  have "w_header w' = w_header w1 \<and> w_pending w' = w_pending w1 \<and> d_os (w_disk w') = d_os (w_disk w1)
      \<and> d_synced (w_disk w') = d_os (w_disk w')"
    using w1(2) by (auto simp: wop_defs split: list.splits io_outcome.splits prod.splits)
  then show ?thesis using d by (auto simp: writer_rel_def)
qed

lemma truncate_outcome:
  assumes "writer_rel crc w A B body" "wal_truncate w = (Inr u, w')"
  shows "writer_rel crc w' A B [] \<and> w_pending w' = [] \<and> w_header w' = w_header w
    \<and> d_synced (w_disk w') = d_os (w_disk w')"
proof -
  have v: "fh_version (w_header w) = FORMAT_VERSION" "length A = 128" "length B = 128"
    using assms(1) by (auto simp: writer_rel_def slots_ok_def)
  have ro: "record_offset (w_header w) = 4096"
    using v(1) by (simp add: record_offset_def FORMAT_VERSION_def LEGACY_FORMAT_VERSION_def FILE_HEADER_SIZE_def)
  have len: "length (header_page (header_base (w_header w)) A B) = 4096"
    using header_page_slots(1) [OF length_header_base v(2,3)] .
  show ?thesis
    using assms ro len
    by (auto simp: wal_truncate_def wop_defs writer_rel_def Let_def split: list.splits io_outcome.splits prod.splits)
qed

lemma persist_generation_outcome:
  assumes "writer_rel crc w A B body" "anchor_ok a" "persist_anchor_generation crc a w = (Inr u, w')"
  shows "\<exists>A' B'. writer_rel crc w' A' B' body \<and> w_header w' = with_anchor (w_header w) a \<and> w_pending w' = w_pending w
    \<and> d_synced (w_disk w') = d_os (w_disk w')"
proof -
  let ?h = "w_header w"
  obtain g where g: "u64_checked_add (fh_anchor_generation ?h) 1 = Some g"
    using assms(3) by (auto simp: persist_anchor_generation_def split: option.splits)
  let ?S = "encode_anchor_slot crc a g"
  have s: "slots_ok crc ?h A B" "d_os (w_disk w) = header_page (header_base ?h) A B @ body" "length A = 128" "length B = 128"
    using assms(1) by (auto simp: writer_rel_def slots_ok_def)
  have l: "length ?S = 128" using assms(2) by simp
  note n = next_generation [OF g] and w = slot_write_safe(1) [OF s(1) assms(2) g]
  have p: "patch_at (d_os (w_disk w)) (ANCHOR_SLOT_OFFSETS ! anchor_slot_index g) ?S =
      header_page (header_base ?h) (if odd (unat g) then ?S else A) (if odd (unat g) then B else ?S) @ body"
    using patch_slot [OF length_header_base [of ?h] s(3,4), of ?S body] l s(3,4)
    by (simp add: s(2) anchor_slot_index_cases header_sizes)
  have hb: "header_base (with_anchor ?h a) = header_base ?h" by (simp add: header_base_def with_anchor_def)
  have d: "d_os (w_disk w') = patch_at (d_os (w_disk w)) (ANCHOR_SLOT_OFFSETS ! anchor_slot_index g) ?S
      \<and> d_synced (w_disk w') = d_os (w_disk w') \<and> w_pending w' = w_pending w \<and> w_header w' = with_anchor ?h a"
    using assms(3) l n(1)
    by (auto simp: persist_anchor_generation_def g anchor_slot_index_def Let_def wop_defs with_anchor_def ANCHOR_SLOT_SIZE_def
        split: list.splits io_outcome.splits prod.splits)
  then show ?thesis using w hb p unfolding writer_rel_def by metis
qed

text \<open>What a request for one more generation leaves, whatever becomes of its write and its sync.\<close>

theorem anchor_write_crash:
  assumes "writer_rel crc w A B body" "anchor_ok a" "persist_anchor_generation crc a w = (r, w')"
  defines "g \<equiv> fh_anchor_generation (w_header w) + 1"
  assumes tear: "\<And>k p. d_plan (w_disk w) = IoFailed k # p \<Longrightarrow> k < 68 \<Longrightarrow>
      tear_detected crc k (encode_anchor_slot crc a g) (if odd (unat g) then A else B)"
  shows "decode_file_header crc (d_os (w_disk w')) \<in> {Inr (w_header w), Inr (with_anchor (w_header w) a)}
    \<and> drop FILE_HEADER_SIZE (d_os (w_disk w')) = body
    \<and> (case r of Inr _ \<Rightarrow> decode_file_header crc (d_synced (w_disk w')) = Inr (with_anchor (w_header w) a)
       | Inl _ \<Rightarrow> d_synced (w_disk w') = d_synced (w_disk w))"
proof (cases "u64_checked_add (fh_anchor_generation (w_header w)) 1")
  case None
  then have "r \<noteq> Inr ()" "w' = w" using assms(3) by (auto simp: persist_anchor_generation_def)
  moreover have "decode_file_header crc (d_os (w_disk w)) = Inr (w_header w)" "drop FILE_HEADER_SIZE (d_os (w_disk w)) = body"
    using assms(1) slots_ok_image [of crc "w_header w" A B]
    by (auto simp: writer_rel_def header_image_def slots_ok_def FILE_HEADER_SIZE_def header_page_def)
  ultimately show ?thesis by (auto split: sum.splits)
next
  case (Some g')
  let ?h = "w_header w" and ?S = "encode_anchor_slot crc a g" and ?old = "if odd (unat g) then A else B"
  have g: "g' = g" using next_generation(1) [OF Some] by (simp add: g_def)
  note Some = Some [unfolded g] and n = next_generation [OF Some [unfolded g]]
  have s: "slots_ok crc ?h A B" "d_os (w_disk w) = header_page (header_base ?h) A B @ body" "length A = 128" "length B = 128"
    using assms(1) by (auto simp: writer_rel_def slots_ok_def)
  have l: "length ?S = 128" using assms(2) by simp
  note rt = anchor_slot_round_trip [OF assms(2) n(3), of crc]
  define k where "k = (case d_plan (w_disk w) of IoFailed k # p \<Rightarrow> k | _ \<Rightarrow> 128)"
  let ?T = "torn_slot k ?S ?old"
  have lT: "length ?T = 128" using l s(3,4) by (auto simp: torn_slot_def)
  have "decode_anchor_slot crc ?T \<in> {None, decode_anchor_slot crc ?old, Some (a, g)}"
    by (rule torn_slot_decodes [OF l _ rt]) (use s(3,4) tear in \<open>auto simp: k_def split: list.splits io_outcome.splits\<close>)
  note rep = slot_replaced [OF s(1) assms(2) Some lT this]
  have p: "patch_at (d_os (w_disk w)) (ANCHOR_SLOT_OFFSETS ! anchor_slot_index g) (take k ?S) =
      header_page (header_base ?h) (if odd (unat g) then ?T else A) (if odd (unat g) then B else ?T) @ body"
    using patch_slot [OF length_header_base [of ?h] s(3,4), of "take k ?S" body] l s(3,4)
    by (cases "k \<le> 128") (auto simp: s(2) anchor_slot_index_cases header_sizes torn_slot_def)
  have d: "d_os (w_disk w') = patch_at (d_os (w_disk w)) (ANCHOR_SLOT_OFFSETS ! anchor_slot_index g) (take k ?S)
      \<and> (case r of Inr _ \<Rightarrow> True | Inl _ \<Rightarrow> d_synced (w_disk w') = d_synced (w_disk w))"
    using assms(3) l n(1)
    by (auto simp: persist_anchor_generation_def Some anchor_slot_index_def Let_def wop_defs ANCHOR_SLOT_SIZE_def k_def
        split: list.splits io_outcome.splits prod.splits)
  have body: "drop FILE_HEADER_SIZE (header_page (header_base ?h) X Y @ body) = body" if "length X = 128" "length Y = 128" for X Y
    using that by (simp add: FILE_HEADER_SIZE_def header_page_def)
  have "decode_file_header crc (d_synced (w_disk w')) = Inr (with_anchor ?h a)" if ok: "r = Inr u" for u
  proof -
    obtain A' B' where "writer_rel crc w' A' B' body" "w_header w' = with_anchor ?h a" "d_synced (w_disk w') = d_os (w_disk w')"
      using persist_generation_outcome [OF assms(1,2)] assms(3) ok by blast
    then show ?thesis using slots_ok_image by (auto simp: writer_rel_def header_image_def)
  qed
  moreover have "drop FILE_HEADER_SIZE (d_os (w_disk w')) = body"
    unfolding conjunct1 [OF d] p by (rule body) (use s(3,4) lT in \<open>auto split: if_splits\<close>)
  moreover have "decode_file_header crc (d_os (w_disk w')) \<in> {Inr ?h, Inr (with_anchor ?h a)}"
    unfolding conjunct1 [OF d] p by (rule rep)
  ultimately show ?thesis using conjunct2 [OF d] by (cases r) simp_all
qed

theorem persist_anchor_outcome:
  assumes "writer_rel crc w A B body" "anchor_ok a" "persist_checkpoint_anchor crc a w = (Inr u, w')"
  shows "\<exists>A' B'. writer_rel crc w' A' B' body \<and> fh_checkpoint_anchor (w_header w') = Some a \<and> w_pending w' = w_pending w
    \<and> d_synced (w_disk w') = d_os (w_disk w')"
proof -
  define n where "n = (if fh_checkpoint_anchor (w_header w) = Some a then 1 else 2 :: nat)"
  have r: "repeat_generation n crc a w = (Inr u, w')"
    using assms(3) by (auto simp: persist_checkpoint_anchor_def n_def Let_def split: if_splits)
  have "0 < n" by (simp add: n_def)
  then show ?thesis using r assms(1)
  proof (induction n arbitrary: w A B)
    case (Suc n)
    obtain w1 where w1: "persist_anchor_generation crc a w = (Inr (), w1)" "repeat_generation n crc a w1 = (Inr u, w')"
      using Suc.prems(2) by (auto simp: wseq_def split: prod.splits sum.splits)
    obtain A' B' where r1: "writer_rel crc w1 A' B' body" "w_header w1 = with_anchor (w_header w) a" "w_pending w1 = w_pending w"
        "d_synced (w_disk w1) = d_os (w_disk w1)"
      using persist_generation_outcome [OF Suc.prems(3) assms(2) w1(1)] by blast
    show ?case
    proof (cases n)
      case 0
      then have "w' = w1" using w1(2) by (simp add: wset_def)
      then show ?thesis using r1 by (auto simp: with_anchor_def)
    next
      case (Suc m)
      then show ?thesis using Suc.IH [OF _ w1(2) r1(1)] r1(3) by auto
    qed
  qed simp
qed

text \<open>A checkpoint leaves an empty, synced log whose header names the anchor.\<close>

theorem checkpoint_outcome:
  assumes "writer_rel crc w A B body" "\<forall>a. anchor = Some a \<longrightarrow> anchor_ok a" "checkpoint_and_truncate crc anchor w = (Inr u, w')"
  shows "\<exists>A' B'. writer_rel crc w' A' B' [] \<and> w_pending w' = [] \<and> d_synced (w_disk w') = d_os (w_disk w')
    \<and> fh_checkpoint_anchor (w_header w') = (if anchor = None then fh_checkpoint_anchor (w_header w) else anchor)"
proof -
  let ?p = "case anchor of None \<Rightarrow> wset id | Some a \<Rightarrow> persist_checkpoint_anchor crc a"
  obtain w1 w2 where w: "wal_flush w = (Inr (), w1)" "?p w1 = (Inr (), w2)" "wal_truncate w2 = (Inr u, w')"
    using assms(3) by (auto simp: checkpoint_and_truncate_def wseq_def split: prod.splits sum.splits)
  note f = flush_outcome [OF assms(1) w(1)]
  have "\<exists>A' B'. writer_rel crc w2 A' B' (body @ w_pending w)
      \<and> fh_checkpoint_anchor (w_header w2) = (if anchor = None then fh_checkpoint_anchor (w_header w) else anchor)"
  proof (cases anchor)
    case None
    then show ?thesis using w(2) f by (auto simp: wset_def)
  next
    case (Some a)
    then show ?thesis using persist_anchor_outcome [of crc w1 A B _ a] w(2) f assms(2) by fastforce
  qed
  then obtain A' B' where r: "writer_rel crc w2 A' B' (body @ w_pending w)"
    "fh_checkpoint_anchor (w_header w2) = (if anchor = None then fh_checkpoint_anchor (w_header w) else anchor)" by blast
  show ?thesis using truncate_outcome [OF r(1) w(3)] r(2) by auto
qed

section \<open>Durability\<close>

fun append_all :: "bytes list \<Rightarrow> wop" where
  "append_all [] = wset id"
| "append_all (rec # rest) = wseq (append_encoded rec) (append_all rest)"

lemma append_all_outcome:
  assumes "writer_rel crc w A B body" "append_all rs w = (Inr u, w')"
  shows "\<exists>body'. writer_rel crc w' A B body' \<and> body' @ w_pending w' = body @ w_pending w @ concat rs \<and> w_header w' = w_header w"
  using assms
proof (induction rs arbitrary: w body)
  case Nil
  then show ?case by (auto simp: wset_def)
next
  case (Cons r rs)
  obtain w1 where w1: "append_encoded r w = (Inr (), w1)" "append_all rs w1 = (Inr u, w')"
    using Cons.prems(2) by (auto simp: wseq_def split: prod.splits sum.splits)
  obtain b1 where b1: "writer_rel crc w1 A B b1" "b1 @ w_pending w1 = body @ w_pending w @ r" "w_header w1 = w_header w"
    using append_outcome [OF Cons.prems(1) w1(1)] by auto
  from Cons.IH [OF b1(1) w1(2)] obtain b2 where b2: "writer_rel crc w' A B b2"
    "b2 @ w_pending w' = b1 @ w_pending w1 @ concat rs" "w_header w' = w_header w1" by blast
  have "b2 @ w_pending w' = body @ w_pending w @ concat (r # rs)" using b2(2) b1(2) by (metis append.assoc concat.simps(2))
  then show ?case using b2(1,3) b1(3) by auto
qed

text \<open>Whatever was appended before a successful flush is on disk and is replayed in order.\<close>

theorem flushed_records_replay:
  assumes "writer_rel crc w A B []" "w_pending w = []" "append_all (map fst recs) w = (Inr u, w1)" "wal_flush w1 = (Inr u', w2)"
    and "\<forall>r \<in> set recs. wal_rec crc r" "mode_ok (w_header w) recs"
  shows "\<exists>stats. replay_bytes crc (d_synced (w_disk w2)) collect [] =
      (Inr (w_header w, stats), concat (map (\<lambda>(bs, op, sq). record_ops op sq) recs)) \<and> torn_tail_at stats = None"
proof -
  let ?H = "header_page (header_base (w_header w)) A B"
  obtain b where b: "writer_rel crc w1 A B b" "b @ w_pending w1 = log_bytes recs" "w_header w1 = w_header w"
    using append_all_outcome [OF assms(1,3)] assms(2) by (auto simp: log_bytes_def)
  have d: "d_synced (w_disk w2) = ?H @ log_bytes recs @ []"
    using flush_outcome [OF b(1) assms(4)] b(2,3) by (auto simp: writer_rel_def)
  have im: "header_image crc (w_header w) ?H" using assms(1) slots_ok_image by (auto simp: writer_rel_def)
  obtain hi where "deliver collect (log_events (record_offset (w_header w)) recs) [] None =
      (Inr hi, concat (map (\<lambda>(bs, op, sq). record_ops op sq) recs))"
    using deliver_collect [of "log_events (record_offset (w_header w)) recs" "[]" None] by (auto simp: log_events_ops)
  then show ?thesis unfolding d replay_log [OF im assms(5,6) torn_Nil] by simp
qed

lemma created_writer:
  assumes "wal_create crc secs tree_id d = (Inr w, d')"
  shows "writer_rel crc w (replicate 128 0) (replicate 128 0) [] \<and> w_pending w = [] \<and> w_header w = file_header_now secs tree_id
    \<and> d_synced (w_disk w) = d_os (w_disk w)"
proof -
  let ?h = "file_header_now secs tree_id"
  have h: "fh_version ?h = FORMAT_VERSION" "fh_checkpoint_anchor ?h = None" "fh_anchor_generation ?h = 0"
    by (simp_all add: file_header_now_def)
  have s: "slots_ok crc ?h (replicate 128 0) (replicate 128 0)" using h by (simp add: slots_ok_def)
  have "w_header w = ?h \<and> w_pending w = [] \<and> d_os (w_disk w) = encode_file_header crc ?h \<and> d_synced (w_disk w) = d_os (w_disk w)"
    using assms
    by (auto simp: wal_create_def dseq_def Let_def write_at_def sync_data_def patch_at_def
        split: if_splits list.splits io_outcome.splits prod.splits)
  then show ?thesis using s empty_header_page [OF h(1,2), of crc] by (simp add: writer_rel_def)
qed

end
