(* ===== verification/Attached_Scan.thy ===== *)
theory Attached_Scan
  imports Wal_Reader
begin

text \<open>What the streaming scanners of \<^verbatim>\<open>src/src/journal/reader.rs\<close> compute on a log of attached records: the
  state of the stream, and pages equal to those of the process-local stream with the same envelopes.\<close>

section \<open>Streaming a log\<close>

text \<open>The loop over a log, with the file out of the picture.\<close>

fun or_return :: "('s \<Rightarrow> ('r + 't) result) \<Rightarrow> 'r + 's \<Rightarrow> ('r + 't) result" where
  "or_return f (Inl ret) = Inr (Inl ret)"
| "or_return f (Inr s) = f s"

fun fold_records :: "(RecordAt \<Rightarrow> 's \<Rightarrow> ('r + 's) result) \<Rightarrow> nat \<Rightarrow> log_entry list \<Rightarrow> 's \<Rightarrow> ('r + 's) result" where
  "fold_records body offset [] s = Inr (Inr s)"
| "fold_records body offset ((bs, op, sq) # recs) s =
    rbind (body \<lparr> at_op = op, at_offset = offset \<rparr> s)
      (or_return (\<lambda>s'. fold_records body (offset + length bs) recs s'))"

definition journal_sized :: "log_entry list \<Rightarrow> bool" where
  "journal_sized recs = (\<forall>r \<in> set recs. length (fst r) \<le> MAX_JOURNAL_RECORD_BYTES)"

text \<open>A reader over a log followed by a torn tail, positioned after \<open>pre\<close>.\<close>

definition reader_at :: "bytes \<Rightarrow> bytes \<Rightarrow> FileHeader \<Rightarrow> nat \<Rightarrow> StreamingRecords" where
  "reader_at pre rest h n = \<lparr> sr_reader = pre @ rest, sr_header = h, sr_file_len = length pre + length rest, sr_offset = n \<rparr>"

lemma reader_at_header [simp]: "sr_header (reader_at pre rest h n) = h" "sr_offset (reader_at pre rest h n) = n"
  by (simp_all add: reader_at_def)

lemma sub_at: "sub (pre @ rest) (length pre + a) (length pre + b) = sub rest a b"
  by (simp add: sub_def)

lemma sub_self: "sub rest 0 n = take n rest"
  by (simp add: sub_def)

lemma framed_split: "\<exists>r. framed crc sq ty b = record_header (word_of_nat (length b)) sq ty @ r"
  by (simp add: framed_def Let_def)

lemma wal_rec_head:
  assumes "wal_rec crc (bs, op, sq)"
  shows "u32_of_bytes (sub (take 17 bs) 0 4) = RECORD_MAGIC"
    and "21 + unat (u32_of_bytes (sub (take 17 bs) 4 8)) = length bs"
proof -
  obtain ty b where b: "length b < 2 ^ 32" "bs = framed crc sq ty b" using assms by auto
  obtain r where "framed crc sq ty b = record_header (word_of_nat (length b)) sq ty @ r" using framed_split by blast
  then have "take 17 bs = record_header (word_of_nat (length b)) sq ty @ []" using b by simp
  then show "u32_of_bytes (sub (take 17 bs) 0 4) = RECORD_MAGIC"
    "21 + unat (u32_of_bytes (sub (take 17 bs) 4 8)) = length bs"
    using record_header_fields [where n = "word_of_nat (length b)" and sq = sq and ty = ty and r = "[]"] b unat_len32 [OF b(1)] by simp_all
qed

lemma next_record_log:
  assumes "wal_rec crc (bs, op, sq)" "mode_ok h [(bs, op, sq)]" "length bs \<le> MAX_JOURNAL_RECORD_BYTES"
    "length pre + length bs + length rest < 2 ^ 64"
  shows "next_record crc (reader_at pre (bs @ rest) h (length pre)) =
    Inr (Some \<lparr> at_op = op, at_offset = length pre \<rparr>, reader_at (pre @ bs) rest h (length (pre @ bs)))"
proof -
  note hd = wal_rec_head [OF assms(1)] wal_rec_length [OF assms(1)]
  have l: "length bs < 2 ^ 64" using assms(4) by simp
  have h: "sub (pre @ bs @ rest) (length pre) (length pre + 17) = take 17 bs"
    using sub_at [of pre "bs @ rest" 0 17] hd(3) by (simp add: sub_self)
  have b: "take 17 bs @ sub (pre @ bs @ rest) (length pre + 17) (length pre + length bs) = bs"
    using hd(3) sub_at [of pre "bs @ rest" 17 "length bs"] by (simp add: sub_def flip: drop_take)
  have m: "validate_record_mode h op (length pre) = Inr ()"
    using assms(2) by (auto simp: mode_ok_def validate_record_mode_def)
  have d: "decode_record crc bs = Inr \<lparr> dec_op = op, dec_seq = sq, bytes_consumed = length bs \<rparr>"
    using decode_wal_rec [OF assms(1), of "[]"] by simp
  have ne: "bs \<noteq> []" using hd(3) by auto
  show ?thesis
    using hd(3) assms(3,4) l m ne
    by (simp add: next_record_def reader_at_def record_sizes Let_def h hd(1,2) b d)
qed

lemma next_record_torn:
  assumes "torn crc t"
  shows "next_record crc (reader_at pre t h (length pre)) = Inr (None, reader_at pre t h (length pre))"
proof -
  obtain sq ty b n where t: "length b < 2 ^ 32" "n < length (framed crc sq ty b)" "t = take n (framed crc sq ty b)"
    using assms unfolding torn_def by blast
  show ?thesis
  proof (cases "n < 17")
    case True
    then show ?thesis using t(2,3) by (simp add: next_record_def reader_at_def record_sizes Let_def)
  next
    case False
    obtain r where r: "framed crc sq ty b = record_header (word_of_nat (length b)) sq ty @ r" using framed_split by blast
    have "take 17 t = record_header (word_of_nat (length b)) sq ty @ []" using False t(3) r by (simp add: min_def)
    then have f: "u32_of_bytes (sub (take 17 t) 0 4) = RECORD_MAGIC" "unat (u32_of_bytes (sub (take 17 t) 4 8)) = length b"
      using record_header_fields [where n = "word_of_nat (length b)" and sq = sq and ty = ty and r = "[]"] unat_len32 [OF t(1)] by simp_all
    have h: "sub (pre @ t) (length pre) (length pre + 17) = take 17 t"
      using sub_at [of pre t 0 17] by (simp add: sub_self)
    have "length t = n" "n < length b + 21" using t(2,3) by simp_all
    then show ?thesis
      using False t(1) by (simp add: next_record_def reader_at_def record_sizes Let_def h f)
  qed
qed

lemma for_records_log:
  assumes "\<forall>r \<in> set recs. wal_rec crc r" "mode_ok h recs" "journal_sized recs" "torn crc t"
    "length pre + length (log_bytes recs) + length t < 2 ^ 64"
    and body: "\<And>r. sr_header r = h \<Longrightarrow> body r = B"
  shows "for_records crc body (reader_at pre (log_bytes recs @ t) h (length pre)) s =
    rbind (fold_records B (length pre) recs s)
      (or_return (\<lambda>s'. Inr (Inr (s', reader_at pre (log_bytes recs @ t) h (length pre + length (log_bytes recs))))))"
  using assms(1-3,5)
proof (induction recs arbitrary: pre s)
  case Nil
  then show ?case by (subst for_records.simps) (simp add: next_record_torn [OF assms(4)])
next
  case (Cons r recs)
  obtain bs op sq where r: "r = (bs, op, sq)" by (cases r)
  have p: "wal_rec crc (bs, op, sq)" "mode_ok h [(bs, op, sq)]" "length bs \<le> MAX_JOURNAL_RECORD_BYTES"
      "mode_ok h recs" "journal_sized recs"
    using Cons.prems r mode_ok_Cons [of h r recs] by (auto simp: journal_sized_def)
  have nr: "next_record crc (reader_at pre (log_bytes (r # recs) @ t) h (length pre)) =
      Inr (Some \<lparr> at_op = op, at_offset = length pre \<rparr>, reader_at (pre @ bs) (log_bytes recs @ t) h (length (pre @ bs)))"
    using next_record_log [OF p(1-3), of pre "log_bytes recs @ t"] Cons.prems(4) r by (simp add: add.assoc)
  have b: "body (reader_at (pre @ bs) (log_bytes recs @ t) h (length (pre @ bs))) = B"
    by (rule body) (simp add: reader_at_def)
  have IH: "for_records crc body (reader_at (pre @ bs) (log_bytes recs @ t) h (length (pre @ bs))) s' =
      rbind (fold_records B (length pre + length bs) recs s')
        (or_return (\<lambda>s'. Inr (Inr (s', reader_at pre (bs @ log_bytes recs @ t) h
          (length pre + (length bs + length (log_bytes recs)))))))" for s'
    using Cons.IH [of "pre @ bs" s'] Cons.prems p r by (simp add: reader_at_def add.assoc)
  show ?case
  proof (cases "B \<lparr> at_op = op, at_offset = length pre \<rparr> s")
    case (Inl e)
    then show ?thesis using nr b r by (subst for_records.simps) simp
  next
    case (Inr out)
    then show ?thesis using nr b r IH by (subst for_records.simps) (cases out; simp)
  qed
qed

lemma sr_open_log:
  assumes "header_image crc h H"
  shows "sr_open crc (H @ rest) = Inr (reader_at H rest h (record_offset h))"
proof -
  have len: "length H = record_offset h" and d: "decode_file_header crc H = Inr h"
    using assms unfolding header_image_def by (auto dest: spec [of _ "[]"])
  have b: "LEGACY_FILE_HEADER_SIZE \<le> length H" using len record_offset_bound by simp
  have "u32_of_bytes (sub H 0 4) = FILE_MAGIC" "u32_of_bytes (sub H 4 8) = fh_version h"
      "fh_version h = LEGACY_FORMAT_VERSION \<or> fh_version h = FORMAT_VERSION"
    using d by (auto simp: decode_file_header_def Let_def rbind_eq_Inr dest: arg_cong [of _ h fh_version] split: if_splits)
  moreover have "sub (take 32 H) 0 4 = sub H 0 4" "sub (take 32 H) 4 8 = sub H 4 8"
    by (simp_all add: sub_def drop_take)
  ultimately have s: "file_header_size_from_prefix (take LEGACY_FILE_HEADER_SIZE H) = Inr (record_offset h)"
    using b by (auto simp: file_header_size_from_prefix_def record_offset_def Let_def header_sizes)
  show ?thesis
    using b s d len by (simp add: sr_open_def reader_at_def)
qed

section \<open>Attached logs\<close>

definition attached_log :: "log_entry list \<Rightarrow> JournalEnvelope list \<Rightarrow> bool" where
  "attached_log recs es = list_all2 (\<lambda>(bs, op, sq) e. \<exists>ops. op = DbBatchWithEnvelope e ops) recs es"

lemma attached_log_Cons:
  "attached_log recs (e # es) \<longleftrightarrow>
   (\<exists>bs sq ops recs'. recs = (bs, DbBatchWithEnvelope e ops, sq) # recs' \<and> attached_log recs' es)"
  by (auto simp: attached_log_def list_all2_Cons2)

lemma attached_log_Nil [simp]: "attached_log recs [] \<longleftrightarrow> recs = []"
  by (simp add: attached_log_def)

lemma attached_log_length: "attached_log recs es \<Longrightarrow> length recs = length es"
  by (auto simp: attached_log_def list_all2_lengthD)

lemma attached_log_append:
  "attached_log recs es \<Longrightarrow> attached_log recs' es' \<Longrightarrow> attached_log (recs @ recs') (es @ es')"
  by (simp add: attached_log_def list_all2_appendI)

lemma attached_log_ops: "attached_log recs es \<Longrightarrow> (bs, op, sq) \<in> set recs \<Longrightarrow> attached_op op"
  by (induction es arbitrary: recs) (auto simp: attached_log_Cons)

lemma attached_mode_ok: "attached_log recs es \<Longrightarrow> fh_version h = FORMAT_VERSION \<Longrightarrow> mode_ok h recs"
  by (auto simp: mode_ok_def FORMAT_VERSION_def LEGACY_FORMAT_VERSION_def dest: attached_log_ops)

lemma fold_records_append:
  "fold_records body offset (xs @ ys) s =
   rbind (fold_records body offset xs s) (or_return (fold_records body (offset + length (log_bytes xs)) ys))"
proof (induction body offset xs s rule: fold_records.induct)
  case (2 body offset bs op sq recs s)
  show ?case
  proof (cases "body \<lparr> at_op = op, at_offset = offset \<rparr> s")
    case (Inr out)
    then show ?thesis using 2 by (cases out) (simp_all add: add.assoc)
  qed simp
qed simp

abbreviation at_chain :: "JournalAnchor \<Rightarrow> JournalAnchor \<Rightarrow> JournalAnchor option \<Rightarrow> AttachedChain" where
  "at_chain cp t p \<equiv> \<lparr> ac_checkpoint = Some cp, ac_tail = Some t, previous_record = p \<rparr>"

text \<open>Records up to the checkpoint are validated and skipped, records after it extend the tail.\<close>

lemma observe_old:
  assumes "v = FORMAT_VERSION" "chain a (e # es) cp" "p = None \<or> p = Some a"
  shows "ac_observe v e off (at_chain cp cp p) = Inr (False, at_chain cp cp (Some (env_current e)))"
proof -
  have sq: "unat (anchor_seq cp) = unat (anchor_seq (env_current e)) + length es"
    using assms(2) chain_tail_seq [of "env_current e" es cp] by simp
  have ne: "v \<noteq> LEGACY_FORMAT_VERSION" using assms(1) by (simp add: FORMAT_VERSION_def LEGACY_FORMAT_VERSION_def)
  show ?thesis
  proof (cases "es = []")
    case True
    then show ?thesis using assms(2,3) ne by (auto simp: ac_observe_def Let_def)
  next
    case False
    then have "anchor_seq (env_current e) < anchor_seq cp" using sq by (simp add: word_less_nat_alt)
    then show ?thesis using assms(2,3) ne by (auto simp: ac_observe_def Let_def)
  qed
qed

lemma observe_new:
  assumes "v = FORMAT_VERSION" "env_previous e = a" "contiguous e" "unat (anchor_seq cp) \<le> unat (anchor_seq a)"
    "p = None \<or> p = Some a"
  shows "ac_observe v e off (at_chain cp a p) = Inr (True, at_chain cp (env_current e) (Some (env_current e)))"
proof -
  have "anchor_seq cp < anchor_seq (env_current e)" using assms(2-4) by (simp add: word_less_nat_alt contiguous_def)
  then have "\<not> anchor_seq (env_current e) < anchor_seq cp" "anchor_seq (env_current e) \<noteq> anchor_seq cp" by auto
  then show ?thesis
    using assms by (auto simp: ac_observe_def Let_def FORMAT_VERSION_def LEGACY_FORMAT_VERSION_def)
qed

text \<open>The state of the stream.\<close>

abbreviation header_reader :: "FileHeader \<Rightarrow> StreamingRecords" where
  "header_reader h \<equiv> reader_at [] [] h 0"

lemma observe_fold_old:
  assumes "fh_version h = FORMAT_VERSION" "attached_log recs es" "chain a es cp" "p = None \<or> p = Some a"
  shows "\<exists>p'. fold_records (observe_body (header_reader h)) off recs (at_chain cp cp p) = Inr (Inr (at_chain cp cp p'))
    \<and> (p' = None \<or> p' = Some cp)"
  using assms(2-4)
proof (induction es arbitrary: recs a p off)
  case (Cons e es)
  then obtain bs sq ops recs' where r: "recs = (bs, DbBatchWithEnvelope e ops, sq) # recs'" "attached_log recs' es"
    by (auto simp: attached_log_Cons)
  show ?case
    using Cons.IH [OF r(2), of "env_current e" "Some (env_current e)"] Cons.prems r(1) observe_old [OF assms(1) Cons.prems(2,3)]
    by (simp add: observe_body_def reader_at_def)
qed auto

lemma observe_fold_new:
  assumes "fh_version h = FORMAT_VERSION" "attached_log recs es" "chain a es t" "p = None \<or> p = Some a"
    "unat (anchor_seq cp) \<le> unat (anchor_seq a)"
  shows "\<exists>p'. fold_records (observe_body (header_reader h)) off recs (at_chain cp a p) = Inr (Inr (at_chain cp t p'))"
  using assms(2-5)
proof (induction es arbitrary: recs a p off)
  case (Cons e es)
  then obtain bs sq ops recs' where r: "recs = (bs, DbBatchWithEnvelope e ops, sq) # recs'" "attached_log recs' es"
    by (auto simp: attached_log_Cons)
  have c: "env_previous e = a" "contiguous e" "chain (env_current e) es t" using Cons.prems(2) by auto
  have "unat (anchor_seq cp) \<le> unat (anchor_seq (env_current e))" using c Cons.prems(4) by (simp add: contiguous_def)
  then show ?case
    using Cons.IH [OF r(2) c(3), of "Some (env_current e)"] r(1) observe_new [OF assms(1) c(1,2) Cons.prems(4,3)]
    by (simp add: observe_body_def reader_at_def)
qed auto

text \<open>An attached file: a header whose checkpoint anchor is \<open>cp\<close>, records before it (left when a crash came
  between the anchor update and the truncation), records after it, and a torn tail.\<close>

record attached_file =
  af_header :: FileHeader
  af_head :: bytes
  af_old :: "log_entry list"
  af_old_envs :: "JournalEnvelope list"
  af_new :: "log_entry list"
  af_envs :: "JournalEnvelope list"
  af_torn :: bytes
  af_base :: JournalAnchor
  af_checkpoint :: JournalAnchor
  af_tail :: JournalAnchor

definition af_bytes :: "crc \<Rightarrow> attached_file \<Rightarrow> bytes" where
  "af_bytes crc F = af_head F @ log_bytes (af_old F @ af_new F) @ af_torn F"

definition af_ok :: "crc \<Rightarrow> attached_file \<Rightarrow> bool" where
  "af_ok crc F =
    (header_image crc (af_header F) (af_head F) \<and> fh_version (af_header F) = FORMAT_VERSION
     \<and> fh_checkpoint_anchor (af_header F) = Some (af_checkpoint F)
     \<and> attached_log (af_old F) (af_old_envs F) \<and> chain (af_base F) (af_old_envs F) (af_checkpoint F)
     \<and> attached_log (af_new F) (af_envs F) \<and> chain (af_checkpoint F) (af_envs F) (af_tail F)
     \<and> (\<forall>r \<in> set (af_old F @ af_new F). wal_rec crc r) \<and> journal_sized (af_old F @ af_new F)
     \<and> torn crc (af_torn F) \<and> length (af_bytes crc F) < 2 ^ 64)"

lemma for_records_file:
  assumes "af_ok crc F" and body: "\<forall>r. sr_header r = af_header F \<longrightarrow> body r = B"
    and "af_old F @ af_new F = pre @ recs"
  shows "for_records crc body
      (reader_at (af_head F) (log_bytes (af_old F @ af_new F) @ af_torn F) (af_header F)
        (record_offset (af_header F) + length (log_bytes pre))) s =
    rbind (fold_records B (record_offset (af_header F) + length (log_bytes pre)) recs s)
      (or_return (\<lambda>s'. Inr (Inr (s', reader_at (af_head F)
        (log_bytes (af_old F @ af_new F) @ af_torn F) (af_header F)
        (record_offset (af_header F) + length (log_bytes (af_old F @ af_new F)))))))"
proof -
  let ?H = "af_head F"
  have len: "length ?H = record_offset (af_header F)"
    using assms(1) by (auto simp: af_ok_def header_image_def)
  have m: "mode_ok (af_header F) (pre @ recs)"
    using assms(1,3) attached_mode_ok [OF attached_log_append] by (fastforce simp: af_ok_def)
  have eq: "reader_at ?H (log_bytes (pre @ recs) @ af_torn F) h n = reader_at (?H @ log_bytes pre) (log_bytes recs @ af_torn F) h n" for h n
    by (simp add: reader_at_def)
  have ok: "\<forall>r \<in> set recs. wal_rec crc r" "mode_ok (af_header F) recs" "journal_sized recs" "torn crc (af_torn F)"
    "length (?H @ log_bytes pre) + length (log_bytes recs) + length (af_torn F) < 2 ^ 64"
    using assms(1,3) m by (auto simp: af_ok_def mode_ok_def journal_sized_def af_bytes_def)
  show ?thesis
    using for_records_log [OF ok, where body = body and B = B and s = s, OF body [rule_format]] unfolding assms(3) eq
    by (simp add: len add.assoc)
qed

theorem validate_attached_file:
  assumes "af_ok crc F"
  shows "validate_attached_journal crc (af_bytes crc F) =
    Inr (Some \<lparr> js_checkpoint = af_checkpoint F, js_tail = af_tail F \<rparr>)"
proof -
  let ?h = "af_header F" and ?cp = "af_checkpoint F"
  let ?obs = "observe_body (header_reader ?h) :: RecordAt \<Rightarrow> AttachedChain \<Rightarrow> (unit + AttachedChain) result"
  have f: "header_image crc ?h (af_head F)" "fh_version ?h = FORMAT_VERSION" "fh_checkpoint_anchor ?h = Some ?cp"
      "attached_log (af_old F) (af_old_envs F)" "chain (af_base F) (af_old_envs F) ?cp"
      "attached_log (af_new F) (af_envs F)" "chain ?cp (af_envs F) (af_tail F)"
    using assms by (auto simp: af_ok_def)
  obtain p where p: "fold_records ?obs (record_offset ?h) (af_old F) (at_chain ?cp ?cp None) =
      Inr (Inr (at_chain ?cp ?cp p))" "p = None \<or> p = Some ?cp"
    using observe_fold_old [OF f(2,4,5), of None] by blast
  obtain p' where p': "fold_records ?obs (record_offset ?h + length (log_bytes (af_old F)))
      (af_new F) (at_chain ?cp ?cp p) = Inr (Inr (at_chain ?cp (af_tail F) p'))"
    using observe_fold_new [OF f(2,6,7) p(2)] by blast
  have b: "\<forall>r. sr_header r = ?h \<longrightarrow> observe_body r = ?obs"
    by (intro allI impI ext) (simp add: observe_body_def split: WalOp.split)
  note run = for_records_file [OF assms, where body = observe_body and B = ?obs and pre = "[]"
    and recs = "af_old F @ af_new F" and s = "at_chain ?cp ?cp None"]
  show ?thesis
    using run [OF b] f(3) p(1) p'
    by (simp add: validate_attached_journal_def af_bytes_def sr_open_log [OF f(1)] fold_records_append ac_new_def ac_state_def)
qed

section \<open>Pages\<close>

abbreviation page_step :: "FileHeader \<Rightarrow> JournalAnchor \<Rightarrow> JournalAnchor \<Rightarrow> nat \<Rightarrow> nat \<Rightarrow> RecordAt \<Rightarrow> PageScan \<Rightarrow> (scanned_page + PageScan) result" where
  "page_step h cp cursor r l \<equiv> page_body cp cursor r l (header_reader h)"

abbreviation scan_state :: "AttachedChain \<Rightarrow> bool \<Rightarrow> JournalEnvelope list \<Rightarrow> nat \<Rightarrow> PageScan" where
  "scan_state c found es n \<equiv> \<lparr> ps_chain = c, ps_cursor_found = found, ps_envelopes = es, ps_payload_bytes = n \<rparr>"

lemma envelope_position_Nil [simp]: "envelope_position sq [] = None"
  by (simp add: envelope_position_def)

lemma envelope_position_Cons:
  "envelope_position sq (e # es) =
   (if anchor_seq (env_current e) = sq then Some 0 else map_option Suc (envelope_position sq es))"
proof -
  have u: "[0 ..< length (e # es)] = 0 # map Suc [0 ..< length es]"
    by (simp add: upt_conv_Cons map_Suc_upt del: upt_Suc)
  have m: "find P (map Suc xs) = map_option Suc (find (P \<circ> Suc) xs)" for P and xs :: "nat list"
    by (induction xs) auto
  show ?thesis unfolding envelope_position_def u by (simp add: m comp_def)
qed

text \<open>Records up to the checkpoint leave the page as it is.\<close>

lemma page_fold_old:
  assumes "fh_version h = FORMAT_VERSION" "attached_log recs es" "chain a es cp" "p = None \<or> p = Some a"
  shows "\<exists>p'. fold_records (page_step h cp cursor r l) off recs (scan_state (at_chain cp cp p) found acc n) =
      Inr (Inr (scan_state (at_chain cp cp p') found acc n)) \<and> (p' = None \<or> p' = Some cp)"
  using assms(2-4)
proof (induction es arbitrary: recs a p off)
  case (Cons e es)
  then obtain bs sq ops recs' where r: "recs = (bs, DbBatchWithEnvelope e ops, sq) # recs'" "attached_log recs' es"
    by (auto simp: attached_log_Cons)
  show ?case
    using Cons.IH [OF r(2), of "env_current e" "Some (env_current e)"] Cons.prems r(1) observe_old [OF assms(1) Cons.prems(2,3)]
    by (simp add: page_body_def Let_def)
qed auto

text \<open>Once the cursor is found, envelopes are collected exactly as \<^verbatim>\<open>bounded_envelope_page\<close> does, and the scan stops
  at the record of the first envelope that does not fit.\<close>

lemma page_loop_extends: "\<exists>k. page_loop r l es acc n = acc @ take k es \<and> k \<le> length es"
proof -
  obtain k where "page_loop r l es acc n = acc @ take k es" using page_loop_take by blast
  then show ?thesis by (intro exI [of _ "min k (length es)"]) (simp add: min_def)
qed

lemma page_fold_collect:
  assumes "fh_version h = FORMAT_VERSION" "attached_log recs es" "chain a es t" "p = None \<or> p = Some a"
    "unat (anchor_seq cp) \<le> unat (anchor_seq a)"
  shows "if length (page_loop r l es acc n) < length acc + length es
    then fold_records (page_step h cp cursor r l) off recs (scan_state (at_chain cp a p) True acc n) =
      Inr (Inl (page_of cp cursor (page_loop r l es acc n) True (off + length (log_bytes (take (length (page_loop r l es acc n) - length acc) recs)))))
    else \<exists>p' n'. fold_records (page_step h cp cursor r l) off recs (scan_state (at_chain cp a p) True acc n) =
      Inr (Inr (scan_state (at_chain cp t p') True (page_loop r l es acc n) n'))"
  using assms(2-5)
proof (induction es arbitrary: recs a p off acc n)
  case (Cons e es)
  then obtain bs sq ops recs' where rec: "recs = (bs, DbBatchWithEnvelope e ops, sq) # recs'" "attached_log recs' es"
    by (auto simp: attached_log_Cons)
  have c: "env_previous e = a" "contiguous e" "chain (env_current e) es t" using Cons.prems(2) by auto
  have le: "unat (anchor_seq cp) \<le> unat (anchor_seq (env_current e))" using c Cons.prems(4) by (simp add: contiguous_def)
  note obs = observe_new [OF assms(1) c(1,2) Cons.prems(4,3)]
  define nb where "nb = usize_saturating_add n (length (env_payload e))"
  show ?case
  proof (cases "length acc = r \<or> acc \<noteq> [] \<and> l < nb")
    case True
    then have "page_loop r l (e # es) acc n = acc" by (auto simp: Let_def nb_def)
    moreover have "page_step h cp cursor r l \<lparr> at_op = DbBatchWithEnvelope e ops, at_offset = off \<rparr>
        (scan_state (at_chain cp a p) True acc n) = Inr (Inl (page_of cp cursor acc True off))"
      using True obs by (auto simp: page_body_def push_page_def Let_def nb_def)
    ultimately show ?thesis using rec(1) by simp
  next
    case False
    then have pl: "page_loop r l (e # es) acc n = page_loop r l es (acc @ [e]) nb" by (auto simp: Let_def nb_def)
    have st: "page_step h cp cursor r l \<lparr> at_op = DbBatchWithEnvelope e ops, at_offset = off \<rparr>
        (scan_state (at_chain cp a p) True acc n) =
        Inr (Inr (scan_state (at_chain cp (env_current e) (Some (env_current e))) True (acc @ [e]) nb))"
      using False obs by (auto simp: page_body_def push_page_def Let_def nb_def)
    obtain k where k: "page_loop r l es (acc @ [e]) nb = (acc @ [e]) @ take k es" "k \<le> length es"
      using page_loop_extends by blast
    show ?thesis
      using Cons.IH [OF rec(2) c(3), of "Some (env_current e)" "acc @ [e]" nb "off + length bs"] le k
      unfolding pl rec(1) by (auto simp: st add.assoc split: if_splits)
  qed
qed auto

text \<open>Before the cursor is found.\<close>

lemma page_fold_skip:
  assumes "fh_version h = FORMAT_VERSION" "attached_log recs es" "chain a es t" "p = None \<or> p = Some a"
    "unat (anchor_seq cp) \<le> unat (anchor_seq a)" "unat (anchor_seq a) < unat (anchor_seq cursor)"
  shows "case envelope_position (anchor_seq cursor) es of
      Some i \<Rightarrow> fold_records (page_step h cp cursor r l) off recs (scan_state (at_chain cp a p) False [] 0) =
        (if env_current (es ! i) \<noteq> cursor then Inl (Fail (anchor_mismatch cursor cursor))
         else fold_records (page_step h cp cursor r l) (off + length (log_bytes (take (Suc i) recs))) (drop (Suc i) recs)
           (scan_state (at_chain cp cursor (Some cursor)) True [] 0))
    | None \<Rightarrow> \<exists>p'. fold_records (page_step h cp cursor r l) off recs (scan_state (at_chain cp a p) False [] 0) =
        Inr (Inr (scan_state (at_chain cp t p') False [] 0))"
  using assms(2-6)
proof (induction es arbitrary: recs a p off)
  case (Cons e es)
  then obtain bs sq ops recs' where rec: "recs = (bs, DbBatchWithEnvelope e ops, sq) # recs'" "attached_log recs' es"
    by (auto simp: attached_log_Cons)
  let ?c = "env_current e"
  have c: "env_previous e = a" "contiguous e" "chain ?c es t" using Cons.prems(2) by auto
  have le: "unat (anchor_seq cp) \<le> unat (anchor_seq ?c)" "unat (anchor_seq ?c) = unat (anchor_seq a) + 1"
    using c Cons.prems(4) by (simp_all add: contiguous_def)
  note obs = observe_new [OF assms(1) c(1,2) Cons.prems(4,3)]
  show ?case
  proof (cases "anchor_seq ?c = anchor_seq cursor")
    case True
    then show ?thesis
      using obs rec(1) by (auto simp: envelope_position_Cons page_body_def Let_def anchor_mismatch_def)
  next
    case False
    then have "unat (anchor_seq ?c) < unat (anchor_seq cursor)"
      using le(2) Cons.prems(5) by (metis Suc_eq_plus1 Suc_leI le_neq_implies_less unsigned_word_eqI)
    then have lt: "unat (anchor_seq ?c) < unat (anchor_seq cursor)" "anchor_seq ?c < anchor_seq cursor" by (simp_all add: word_less_nat_alt)
    have st: "page_step h cp cursor r l \<lparr> at_op = DbBatchWithEnvelope e ops, at_offset = off \<rparr>
        (scan_state (at_chain cp a p) False [] 0) = Inr (Inr (scan_state (at_chain cp ?c (Some ?c)) False [] 0))"
      using obs lt(2) by (simp add: page_body_def Let_def)
    show ?thesis
      using Cons.IH [OF rec(2) c(3) _ le(1) lt(1), of "Some ?c" "off + length bs"] False
      unfolding rec(1) by (simp add: st envelope_position_Cons add.assoc split: option.splits)
  qed
qed auto

text \<open>The resume token that names the position after the first \<open>i\<close> retained envelopes.\<close>

definition af_resume :: "attached_file \<Rightarrow> nat \<Rightarrow> AttachedEnvelopeResume" where
  "af_resume F i =
    \<lparr> res_checkpoint = af_checkpoint F, res_cursor = cursor_at (af_checkpoint F) (af_envs F) i,
      res_record_offset = record_offset (af_header F) + length (log_bytes (af_old F @ take i (af_new F))) \<rparr>"

lemma last_current_at:
  assumes "i + k \<le> length es"
  shows "last_current (cursor_at cp es i) (take k (drop i es)) = cursor_at cp es (i + k)"
proof (cases "k = 0")
  case False
  then have "last (take k (drop i es)) = es ! (i + k - 1)" using assms by (subst last_conv_nth) auto
  then show ?thesis using False assms by (auto simp: last_current_def cursor_at_def)
qed (simp add: last_current_def)

lemma chain_from: "chain cp es t \<Longrightarrow> i \<le> length es \<Longrightarrow> chain (cursor_at cp es i) (drop i es) t"
  using chain_drop [of cp es t "i - 1"] by (cases i) (auto simp: cursor_at_def)

lemma cursor_at_seq: "chain cp es t \<Longrightarrow> i \<le> length es \<Longrightarrow> unat (anchor_seq (cursor_at cp es i)) = unat (anchor_seq cp) + i"
  using chain_seq [of cp es t "i - 1"] by (cases i) (auto simp: cursor_at_def)

lemma page_from:
  fixes F crc r l
  defines "h \<equiv> af_header F" and "cp \<equiv> af_checkpoint F" and "es \<equiv> af_envs F"
  assumes "af_ok crc F" "i \<le> length es" "p = None \<or> p = Some (cursor_at cp es i)"
  defines "cur \<equiv> cursor_at cp es i"
  defines "page \<equiv> bounded_envelope_page es i cur r l"
  defines "run \<equiv> fold_records (page_step h cp cur r l) (record_offset h + length (log_bytes (af_old F @ take i (af_new F))))
    (drop i (af_new F)) (scan_state (at_chain cp cur p) True [] 0)"
  defines "token \<equiv> af_resume F (i + length (page_envelopes page))"
  shows "run = Inr (Inl (page, token)) \<or>
    (\<exists>ps. run = Inr (Inr ps) \<and> ps_cursor_found ps
       \<and> page_of cp cur (ps_envelopes ps) False (record_offset h + length (log_bytes (af_old F @ af_new F))) = (page, token))"
proof -
  have ok: "fh_version h = FORMAT_VERSION" "attached_log (af_new F) es" "chain cp es (af_tail F)"
    using assms(4) by (auto simp: af_ok_def h_def cp_def es_def)
  have al: "attached_log (drop i (af_new F)) (drop i es)" using ok(2) by (simp add: attached_log_def list_all2_dropI)
  note ch = chain_from [OF ok(3) assms(5), folded cur_def]
  have le: "unat (anchor_seq cp) \<le> unat (anchor_seq cur)" using cursor_at_seq [OF ok(3) assms(5)] by (simp add: cur_def)
  obtain k where k: "page_loop r l (drop i es) [] 0 = take k (drop i es)" "k \<le> length (drop i es)"
    using page_loop_extends [of r l "drop i es" "[]" 0] by auto
  have n: "length (take k (drop i es)) = k" "i + k \<le> length es" using k(2) assms(5) by auto
  have pg: "page = \<lparr> page_envelopes = take k (drop i es), page_next = cursor_at cp es (i + k), page_has_more = (i + k < length es) \<rparr>"
    using last_current_at [OF n(2), of cp] n(1) unfolding page_def bounded_envelope_page_def Let_def k(1)
    by (auto simp: last_current_def cur_def split: if_splits)
  have tk: "token = \<lparr> res_checkpoint = cp, res_cursor = cursor_at cp es (i + k),
      res_record_offset = record_offset h + length (log_bytes (af_old F @ take (i + k) (af_new F))) \<rparr>"
    using n(1) by (simp add: token_def pg af_resume_def cp_def es_def h_def)
  have po: "page_of cp cur (take k (drop i es)) (i + k < length es)
      (record_offset h + length (log_bytes (af_old F @ take (i + k) (af_new F)))) = (page, token)"
    using last_current_at [OF n(2), of cp] by (simp add: page_of_def pg tk cur_def Let_def)
  have ln: "length (af_new F) = length es" by (rule attached_log_length [OF ok(2)])
  note fold = page_fold_collect [OF ok(1) al ch assms(6) [folded cur_def] le, of r l "[]" 0 cur
    "record_offset h + length (log_bytes (af_old F @ take i (af_new F)))", folded run_def, unfolded k(1)]
  show ?thesis
  proof (cases "i + k < length es")
    case True
    then have "run = Inr (Inl (page_of cp cur (take k (drop i es)) True
        (record_offset h + length (log_bytes (af_old F @ take i (af_new F))) + length (log_bytes (take k (drop i (af_new F)))))))"
      using fold n by simp
    moreover have o: "record_offset h + length (log_bytes (af_old F @ take i (af_new F))) + length (log_bytes (take k (drop i (af_new F))))
        = record_offset h + length (log_bytes (af_old F @ take (i + k) (af_new F)))" by (simp add: take_add)
    ultimately have "run = Inr (Inl (page, token))" unfolding o using po True by (simp only: simp_thms)
    then show ?thesis by (rule disjI1)
  next
    case False
    then obtain p' n' where "run = Inr (Inr (scan_state (at_chain cp (af_tail F) p') True (take k (drop i es)) n'))"
      using fold n by auto
    moreover have "take (i + k) (af_new F) = af_new F" using False n(2) ln by simp
    ultimately show ?thesis using po False by (intro disjI2) simp
  qed
qed

lemma scan_initialized_page:
  fixes F crc r l
  assumes "af_ok crc F" "i \<le> length (af_envs F)" "v = None \<or> v = Some (af_resume F i)"
  defines "cur \<equiv> cursor_at (af_checkpoint F) (af_envs F) i"
  defines "page \<equiv> bounded_envelope_page (af_envs F) i cur r l"
  shows "scan_initialized_envelope_page crc
      (reader_at (af_head F) (log_bytes (af_old F @ af_new F) @ af_torn F) (af_header F)
        (record_offset (af_header F))) (af_checkpoint F) cur r l v = Inr (page, af_resume F (i + length (page_envelopes page)))"
proof -
  let ?h = "af_header F" and ?cp = "af_checkpoint F" and ?es = "af_envs F"
  let ?B = "page_step ?h ?cp cur r l"
  have ok: "header_image crc ?h (af_head F)" "fh_version ?h = FORMAT_VERSION" "attached_log (af_old F) (af_old_envs F)"
      "chain (af_base F) (af_old_envs F) ?cp" "attached_log (af_new F) ?es" "chain ?cp ?es (af_tail F)"
    using assms(1) by (auto simp: af_ok_def)
  have b: "\<forall>rd. sr_header rd = ?h \<longrightarrow> page_body ?cp cur r l rd = ?B"
    by (intro allI impI ext) (simp add: page_body_def split: WalOp.split)
  have len: "length (af_head F) = record_offset ?h" using ok(1) by (simp add: header_image_def)
  note run = for_records_file [OF assms(1), where body = "page_body ?cp cur r l" and B = ?B]
  note pf = page_from [OF assms(1,2), where r = r and l = l, folded cur_def, folded page_def]
  show ?thesis
  proof (cases v)
    case (Some w)
    then have w: "w = af_resume F i" using assms(3) by simp
    have "log_bytes (af_old F @ af_new F) = log_bytes (af_old F @ take i (af_new F)) @ log_bytes (drop i (af_new F))"
      by (metis append_assoc append_take_drop_id log_bytes_simps(3))
    then have us: "res_record_offset w \<le> sr_file_len (reader_at (af_head F) (log_bytes (af_old F @ af_new F) @ af_torn F) ?h n)"
      "res_checkpoint w = ?cp" "res_cursor w = cur" "record_offset ?h \<le> res_record_offset w" for n
      using len by (simp_all add: w af_resume_def cur_def reader_at_def)
    have sk: "sr_seek_to (res_record_offset w) (reader_at a c ?h n) =
        reader_at a c ?h (record_offset ?h + length (log_bytes (af_old F @ take i (af_new F))))" for a c n
      by (simp add: sr_seek_to_def reader_at_def w af_resume_def)
    have sp: "af_old F @ af_new F = (af_old F @ take i (af_new F)) @ drop i (af_new F)" by simp
    from pf [OF disjI2 [OF refl]] show ?thesis
      using us run [OF b sp, where s = "scan_state (at_chain ?cp cur (Some cur)) True [] 0"]
      by (elim disjE exE conjE) (simp_all add: scan_initialized_envelope_page_def Some Let_def sk ac_resume_def)
  next
    case None
    have sp: "af_old F @ af_new F = [] @ (af_old F @ af_new F)" by simp
    obtain q where q: "fold_records ?B (record_offset ?h) (af_old F) (scan_state (at_chain ?cp ?cp None) (cur = ?cp) [] 0) =
        Inr (Inr (scan_state (at_chain ?cp ?cp q) (cur = ?cp) [] 0))" "q = None \<or> q = Some ?cp"
      using page_fold_old [OF ok(2-4), of None] by blast
    have "\<exists>p. fold_records ?B (record_offset ?h) (af_old F @ af_new F) (scan_state (at_chain ?cp ?cp None) (cur = ?cp) [] 0) =
        fold_records ?B (record_offset ?h + length (log_bytes (af_old F @ take i (af_new F)))) (drop i (af_new F))
          (scan_state (at_chain ?cp cur p) True [] 0) \<and> (p = None \<or> p = Some cur)"
    proof (cases i)
      case 0
      then show ?thesis using q by (auto simp: cur_def cursor_at_def fold_records_append)
    next
      case (Suc j)
      then have j: "j < length ?es" "cur = env_current (?es ! j)" using assms(2) by (auto simp: cur_def cursor_at_def)
      have sq: "unat (anchor_seq ?cp) < unat (anchor_seq cur)" using cursor_at_seq [OF ok(6) assms(2)] Suc by (simp add: cur_def)
      then have ne: "cur \<noteq> ?cp" by auto
      have pos: "envelope_position (anchor_seq cur) ?es = Some j" using envelope_position_chain [OF ok(6) j(1)] j(2) by simp
      show ?thesis
        using page_fold_skip [OF ok(2,5,6) q(2) order_refl sq, of r l "record_offset ?h + length (log_bytes (af_old F))"] q(1) ne
        by (intro exI [of _ "Some cur"]) (simp add: pos j(2) [symmetric] fold_records_append Suc add.assoc)
    qed
    then obtain p where p: "fold_records ?B (record_offset ?h) (af_old F @ af_new F) (scan_state (at_chain ?cp ?cp None) (cur = ?cp) [] 0) =
        fold_records ?B (record_offset ?h + length (log_bytes (af_old F @ take i (af_new F)))) (drop i (af_new F))
          (scan_state (at_chain ?cp cur p) True [] 0)" "p = None \<or> p = Some cur" by blast
    from pf [OF p(2)] show ?thesis
      using p(1) run [OF b sp, where s = "scan_state (at_chain ?cp ?cp None) (cur = ?cp) [] 0"]
      by (elim disjE exE conjE) (simp_all add: scan_initialized_envelope_page_def None Let_def ac_new_def)
  qed
qed

theorem scan_page_at:
  fixes F crc r l
  assumes "af_ok crc F" "i \<le> length (af_envs F)" "v = None \<or> v = Some (af_resume F i)" "0 < r"
  defines "cur \<equiv> cursor_at (af_checkpoint F) (af_envs F) i"
  defines "page \<equiv> bounded_envelope_page (af_envs F) i cur r l"
  shows "scan_attached_envelope_page_from crc (af_bytes crc F) cur r l v =
    Inr (page, af_resume F (i + length (page_envelopes page)))"
proof -
  have ok: "header_image crc (af_header F) (af_head F)" "fh_checkpoint_anchor (af_header F) = Some (af_checkpoint F)"
      "chain (af_checkpoint F) (af_envs F) (af_tail F)"
    using assms(1) by (auto simp: af_ok_def)
  have sq: "unat (anchor_seq cur) = unat (anchor_seq (af_checkpoint F)) + i"
    using cursor_at_seq [OF ok(3) assms(2)] by (simp add: cur_def)
  have lt: "\<not> anchor_seq cur < anchor_seq (af_checkpoint F)" using sq by (simp add: word_less_nat_alt)
  have eq: "\<not> (anchor_seq cur = anchor_seq (af_checkpoint F) \<and> cur \<noteq> af_checkpoint F)"
    using sq by (cases i) (auto simp: cur_def cursor_at_def)
  show ?thesis
    unfolding scan_attached_envelope_page_from_def af_bytes_def
    using scan_initialized_page [OF assms(1-3), of r l, folded cur_def] ok(2) lt eq assms(4)
    by (simp add: sr_open_log [OF ok(1)] page_def del: log_bytes_simps)
qed

text \<open>The process-local stream that holds what the file holds.\<close>

definition af_volatile :: "attached_file \<Rightarrow> VolatileJournal" where
  "af_volatile F = \<lparr> ordinary_fenced = True, vj_checkpoint = Some (af_checkpoint F), vj_tail = Some (af_tail F), vj_envelopes = af_envs F \<rparr>"

lemma af_volatile_inv: "af_ok crc F \<Longrightarrow> vj_inv (af_volatile F)"
  by (auto simp: af_ok_def vj_inv_def af_volatile_def)

text \<open>A cursor past the checkpoint that names no retained envelope is refused.\<close>

lemma scan_unknown_cursor:
  assumes "af_ok crc F" "0 < r" "anchor_seq (af_checkpoint F) < anchor_seq cursor"
    and "\<forall>i. envelope_position (anchor_seq cursor) (af_envs F) = Some i \<longrightarrow> env_current (af_envs F ! i) \<noteq> cursor"
  shows "scan_attached_envelope_page_from crc (af_bytes crc F) cursor r l None =
    Inl (Fail (anchor_mismatch cursor
      (case envelope_position (anchor_seq cursor) (af_envs F) of Some i \<Rightarrow> cursor | None \<Rightarrow> af_tail F)))"
proof -
  let ?h = "af_header F" and ?cp = "af_checkpoint F" and ?es = "af_envs F"
  let ?B = "page_step ?h ?cp cursor r l"
  have ok: "header_image crc ?h (af_head F)" "fh_version ?h = FORMAT_VERSION" "attached_log (af_old F) (af_old_envs F)"
      "chain (af_base F) (af_old_envs F) ?cp" "attached_log (af_new F) ?es" "chain ?cp ?es (af_tail F)"
      "fh_checkpoint_anchor ?h = Some ?cp"
    using assms(1) by (auto simp: af_ok_def)
  have b: "\<forall>rd. sr_header rd = ?h \<longrightarrow> page_body ?cp cursor r l rd = ?B"
    by (intro allI impI ext) (simp add: page_body_def split: WalOp.split)
  have sp: "af_old F @ af_new F = [] @ (af_old F @ af_new F)" by simp
  note run = for_records_file [OF assms(1) b sp, where s = "scan_state (at_chain ?cp ?cp None) False [] 0"]
  have ne: "cursor \<noteq> ?cp" "\<not> anchor_seq cursor < anchor_seq ?cp" "anchor_seq cursor \<noteq> anchor_seq ?cp"
    "unat (anchor_seq ?cp) < unat (anchor_seq cursor)"
    using assms(3) by (auto simp: word_less_nat_alt)
  obtain q where q: "fold_records ?B (record_offset ?h) (af_old F) (scan_state (at_chain ?cp ?cp None) False [] 0) =
      Inr (Inr (scan_state (at_chain ?cp ?cp q) False [] 0))" "q = None \<or> q = Some ?cp"
    using page_fold_old [OF ok(2-4), of None] by blast
  note sk = page_fold_skip [OF ok(2,5,6) q(2) order_refl ne(4), of r l "record_offset ?h + length (log_bytes (af_old F))"]
  have sc: "scan_initialized_envelope_page crc
      (reader_at (af_head F) (log_bytes (af_old F @ af_new F) @ af_torn F) ?h (record_offset ?h)) ?cp cursor r l None =
    Inl (Fail (anchor_mismatch cursor (case envelope_position (anchor_seq cursor) ?es of Some i \<Rightarrow> cursor | None \<Rightarrow> af_tail F)))"
  proof (cases "envelope_position (anchor_seq cursor) ?es")
    case None
    then show ?thesis using run q(1) sk ne(1) by (auto simp: scan_initialized_envelope_page_def Let_def ac_new_def fold_records_append)
  next
    case (Some i)
    then show ?thesis
      using run q(1) sk ne(1) assms(4) by (simp add: scan_initialized_envelope_page_def Let_def ac_new_def fold_records_append)
  qed
  then show ?thesis
    unfolding scan_attached_envelope_page_from_def af_bytes_def
    using ok(7) ne assms(2) by (simp add: sr_open_log [OF ok(1)] del: log_bytes_simps)
qed

theorem scan_refines_volatile:
  assumes "af_ok crc F"
  shows "scan_attached_envelope_page crc (af_bytes crc F) cursor r l = vj_envelopes_after cursor r l (af_volatile F)"
proof -
  let ?cp = "af_checkpoint F" and ?es = "af_envs F"
  have ok: "header_image crc (af_header F) (af_head F)" "fh_checkpoint_anchor (af_header F) = Some ?cp" "chain ?cp ?es (af_tail F)"
    using assms by (auto simp: af_ok_def)
  have at: "scan_attached_envelope_page crc (af_bytes crc F) (cursor_at ?cp ?es i) r l =
      vj_envelopes_after (cursor_at ?cp ?es i) r l (af_volatile F)" if "i \<le> length ?es" "0 < r" for i
    using scan_page_at [OF assms that(1) disjI1 [OF refl] that(2)]
      envelopes_after_at [OF af_volatile_inv [OF assms], of ?cp i r l] that
    by (simp add: scan_attached_envelope_page_def af_volatile_def)
  consider "r = 0" | "0 < r" "anchor_seq cursor < anchor_seq ?cp" | "0 < r" "anchor_seq cursor = anchor_seq ?cp" "cursor \<noteq> ?cp"
    | i where "0 < r" "i \<le> length ?es" "cursor = cursor_at ?cp ?es i"
    | "0 < r" "anchor_seq ?cp < anchor_seq cursor"
      "\<forall>i. envelope_position (anchor_seq cursor) ?es = Some i \<longrightarrow> env_current (?es ! i) \<noteq> cursor"
  proof -
    have "cursor = ?cp \<Longrightarrow> cursor = cursor_at ?cp ?es 0" by (simp add: cursor_at_def)
    moreover have "Suc i \<le> length ?es \<and> cursor = cursor_at ?cp ?es (Suc i)"
      if "envelope_position (anchor_seq cursor) ?es = Some i" "env_current (?es ! i) = cursor" for i
      using that envelope_position_Some [OF that(1)] by (simp add: cursor_at_def)
    ultimately show ?thesis using that by (metis bot_nat_0.extremum gr0I linorder_less_linear)
  qed
  then show ?thesis
  proof cases
    case 1
    then show ?thesis by (simp add: scan_attached_envelope_page_def scan_attached_envelope_page_from_def vj_envelopes_after_def)
  next
    case 2
    then show ?thesis
      using ok(2) by (simp add: scan_attached_envelope_page_def scan_attached_envelope_page_from_def vj_envelopes_after_def
          af_bytes_def sr_open_log [OF ok(1)] af_volatile_def del: log_bytes_simps)
  next
    case 3
    then show ?thesis
      using ok(2) by (simp add: scan_attached_envelope_page_def scan_attached_envelope_page_from_def vj_envelopes_after_def
          af_bytes_def sr_open_log [OF ok(1)] af_volatile_def anchor_mismatch_def del: log_bytes_simps)
  next
    case (4 i)
    then show ?thesis using at by blast
  next
    case 5
    then have "\<not> anchor_seq cursor < anchor_seq ?cp" "cursor \<noteq> ?cp" "anchor_seq cursor \<noteq> anchor_seq ?cp" by auto
    then show ?thesis
      using 5 scan_unknown_cursor [OF assms 5, of l]
      by (auto simp: scan_attached_envelope_page_def vj_envelopes_after_def af_volatile_def split: option.splits)
  qed
qed

end
