(* ===== verification/Group_Commit.thy ===== *)
theory Group_Commit
  imports Ring_Safety Wal_Writer Attached_Scan
begin

text \<open>The append coordinator of \<^verbatim>\<open>src/src/journal/group_commit.rs\<close>: watermarks over the ring and the writer, the sticky
  flusher error, sync acknowledgements, and the attached-stream entry points.  A critical section or an atomic
  operation is one function on the shared state; a blocking wait is a poll that answers \<open>None\<close> while it waits.
  Counters are natural numbers, as their 64-bit originals never wrap.\<close>

section \<open>Shared state\<close>

definition RING_CAPACITY_BYTES :: nat where "RING_CAPACITY_BYTES = MAX_JOURNAL_RECORD_BYTES"

record TailState =
  ts_checkpoint :: "JournalAnchor option"
  ts_tail :: "JournalAnchor option"
  ts_initializing :: "JournalAnchor option"
  ts_scan_resume :: "AttachedEnvelopeResume option"

record Shared =
  sh_ring :: WalRing
  sh_writer :: WalWriter
  record_base :: nat
  queued :: nat
  written :: nat
  flushed :: nat
  checkpointed :: nat
  sync_target :: nat
  appends_n :: nat
  batches_n :: nat
  syncs_n :: nat
  sticky_err :: "string option"
  sh_fenced :: bool
  sh_tail :: TailState

record JournalStats =
  st_appends :: nat
  st_batches :: nat
  st_syncs :: nat
  st_queued :: nat
  st_written :: nat
  st_flushed :: nat
  st_checkpointed :: nat
  st_pending :: nat
  st_debt :: nat

definition set_err :: "string \<Rightarrow> Shared \<Rightarrow> Shared" where
  "set_err msg s = (if sticky_err s = None then s\<lparr> sticky_err := Some msg \<rparr> else s)"

text \<open>The sink handed to the ring: after a failed append the remaining slices are skipped.\<close>

fun sink_all :: "bytes list \<Rightarrow> WalWriter \<Rightarrow> bool \<times> WalWriter" where
  "sink_all [] w = (True, w)"
| "sink_all (c # cs) w =
    (case append_encoded c w of (Inr _, w') \<Rightarrow> sink_all cs w' | (Inl _, w') \<Rightarrow> (False, w'))"

text \<open>\<open>rc\<close> is the record count the flusher read before it copies.\<close>

definition drain_and_maybe_sync :: "nat \<Rightarrow> Shared \<Rightarrow> Shared" where
  "drain_and_maybe_sync rc s =
    (if sticky_err s \<noteq> None then s
     else
       let written_to = record_base s + rc;
           (chunks, r) = copy_committed_prefix (sh_ring s);
           (ok, w) = sink_all chunks (sh_writer s);
           s1 = s\<lparr> sh_ring := r, sh_writer := w \<rparr> in
       if \<not> ok then set_err ''journal flusher append failed'' s1
       else
         let s2 = (if chunks \<noteq> [] then s1\<lparr> written := max (written s1) written_to, batches_n := batches_n s1 + 1 \<rparr> else s1) in
         if sync_target s2 > flushed s2 \<and> written_to \<ge> sync_target s2 then
           (case wal_flush (sh_writer s2) of
              (Inl _, w') \<Rightarrow> set_err ''journal flusher fsync failed'' (s2\<lparr> sh_writer := w' \<rparr>)
            | (Inr _, w') \<Rightarrow> s2\<lparr> sh_writer := w', syncs_n := syncs_n s2 + 1, flushed := max (flushed s2) written_to \<rparr>)
         else s2)"

definition ring_space_poll :: "ReserveTicket \<Rightarrow> Shared \<Rightarrow> unit result option" where
  "ring_space_poll t s =
    (if reserve_space_ready t (sh_ring s) then Some (Inr ())
     else case sticky_err s of Some m \<Rightarrow> Some (Inl (Fail (Internal m))) | None \<Rightarrow> None)"

text \<open>\<open>flush_to\<close>: answer at once, or raise the sync target and wait.\<close>

definition flush_to_request :: "nat \<Rightarrow> Shared \<Rightarrow> Shared" where
  "flush_to_request target s = (if target \<le> flushed s then s else s\<lparr> sync_target := max (sync_target s) target \<rparr>)"

definition flush_to_poll :: "nat \<Rightarrow> Shared \<Rightarrow> unit result option" where
  "flush_to_poll target s =
    (case sticky_err s of
       Some m \<Rightarrow> Some (Inl (Fail (Internal m)))
     | None \<Rightarrow> if flushed s \<ge> target then Some (Inr ()) else None)"

section \<open>The journal\<close>

definition journal_open_or_create :: "crc \<Rightarrow> u64 \<Rightarrow> u64 \<Rightarrow> wal_disk \<Rightarrow> Shared result \<times> wal_disk" where
  "journal_open_or_create crc secs tree_id d =
    (case wal_open_or_create crc secs tree_id d of
       (Inl e, d') \<Rightarrow> (Inl e, d')
     | (Inr w, d') \<Rightarrow>
         (case validate_attached_journal crc (d_os (w_disk w)) of
            Inl e \<Rightarrow> (Inl e, d')
          | Inr attached \<Rightarrow>
              let base = (if has_records w then 1 else 0) in
              (Inr \<lparr> sh_ring = ring_with_capacity RING_CAPACITY_BYTES, sh_writer = w, record_base = base, queued = base,
                 written = base, flushed = base - 1, checkpointed = 0, sync_target = 0, appends_n = 0, batches_n = 0,
                 syncs_n = 0, sticky_err = None, sh_fenced = (attached \<noteq> None),
                 sh_tail = \<lparr> ts_checkpoint = map_option js_checkpoint attached, ts_tail = map_option js_tail attached,
                             ts_initializing = None, ts_scan_resume = None \<rparr> \<rparr>, d')))"

definition ensure_ordinary_writes_allowed :: "Shared \<Rightarrow> unit result" where
  "ensure_ordinary_writes_allowed s =
    (if sh_fenced s then
       Inl (Fail (JournalStreamUnavailable ''ordinary WAL records are disabled after attached stream initialization''))
     else Inr ())"

definition preflight_record_len :: "nat \<Rightarrow> Shared \<Rightarrow> unit result" where
  "preflight_record_len record_len s =
    (case sticky_err s of
       Some m \<Rightarrow> Inl (Fail (Internal m))
     | None \<Rightarrow>
         if record_len = 0 then Inl (Fail (Internal ''journal record must not be empty''))
         else if record_len > r_capacity (sh_ring s) then
           Inl (Fail (WalRecordTooLarge record_len MAX_JOURNAL_RECORD_BYTES))
         else Inr ())"

definition preflight_submit :: "nat \<Rightarrow> Shared \<Rightarrow> unit result" where
  "preflight_submit record_len s = rbind (ensure_ordinary_writes_allowed s) (\<lambda>_. preflight_record_len record_len s)"

text \<open>The parts of \<^verbatim>\<open>publish\<close>: reserve, fill once there is space, publish, count; the count is the target of the
  acknowledgement.\<close>

definition publish_reserve :: "nat \<Rightarrow> Shared \<Rightarrow> ReserveTicket \<times> Shared" where
  "publish_reserve n s = (let (t, r) = ring_reserve n (sh_ring s) in (t, s\<lparr> sh_ring := r \<rparr>))"

definition publish_fill :: "ReserveTicket \<Rightarrow> bytes \<Rightarrow> Shared \<Rightarrow> Shared" where
  "publish_fill t bs s = s\<lparr> sh_ring := ring_fill t bs (sh_ring s) \<rparr>"

definition publish_ring :: "ReserveTicket \<Rightarrow> Shared \<Rightarrow> Shared" where
  "publish_ring t s = s\<lparr> sh_ring := ring_publish t (sh_ring s) \<rparr>"

definition publish_count :: "Shared \<Rightarrow> nat \<times> Shared" where
  "publish_count s = (queued s + 1, s\<lparr> queued := queued s + 1, appends_n := appends_n s + 1 \<rparr>)"

definition on_writer :: "wop \<Rightarrow> Shared \<Rightarrow> unit result \<times> Shared" where
  "on_writer m s = (case m (sh_writer s) of (r, w) \<Rightarrow> (r, s\<lparr> sh_writer := w \<rparr>))"

definition needs_checkpoint :: "Shared \<Rightarrow> bool" where
  "needs_checkpoint s = (queued s \<noteq> checkpointed s)"

definition initialize_anchor :: "crc \<Rightarrow> JournalAnchor \<Rightarrow> Shared \<Rightarrow> unit result \<times> Shared" where
  "initialize_anchor crc genesis s =
    (case ts_checkpoint (sh_tail s) of
       Some existing \<Rightarrow>
         if existing = genesis then on_writer (persist_checkpoint_anchor crc genesis) s
         else (Inl (Fail (anchor_mismatch genesis existing)), s)
     | None \<Rightarrow>
         let persist = (\<lambda>s.
               case on_writer (persist_checkpoint_anchor crc genesis) s of
                 (Inl e, s') \<Rightarrow> (Inl e, s')
               | (Inr _, s') \<Rightarrow>
                   (Inr (), s'\<lparr> sh_tail := \<lparr> ts_checkpoint = Some genesis, ts_tail = Some genesis,
                                            ts_initializing = None, ts_scan_resume = None \<rparr> \<rparr>)) in
         (case ts_initializing (sh_tail s) of
            Some existing \<Rightarrow>
              if existing \<noteq> genesis then (Inl (Fail (anchor_mismatch genesis existing)), s) else persist s
          | None \<Rightarrow>
              if needs_checkpoint s then
                (Inl (Fail (JournalStreamUnavailable ''WAL must be checkpoint-clean before stream initialization'')), s)
              else persist (s\<lparr> sh_tail := (sh_tail s)\<lparr> ts_initializing := Some genesis \<rparr>, sh_fenced := True \<rparr>)))"

definition journal_state :: "Shared \<Rightarrow> JournalState option" where
  "journal_state s =
    (case (ts_checkpoint (sh_tail s), ts_tail (sh_tail s)) of
       (Some c, Some t) \<Rightarrow> Some \<lparr> js_checkpoint = c, js_tail = t \<rparr>
     | _ \<Rightarrow> None)"

definition begin_attached :: "JournalAnchor \<Rightarrow> nat \<Rightarrow> Shared \<Rightarrow> unit result" where
  "begin_attached expected_previous record_len s =
    rbind (preflight_record_len record_len s) (\<lambda>_.
      case ts_tail (sh_tail s) of
        None \<Rightarrow> Inl (Fail (JournalStreamUnavailable ''stream has not been initialized''))
      | Some expected \<Rightarrow>
          if expected_previous \<noteq> expected then Inl (Fail (anchor_mismatch expected_previous expected)) else Inr ())"

text \<open>The checks of \<^verbatim>\<open>JournalAppendGuard::submit\<close> before it publishes, and the tail update after.\<close>

definition guard_check :: "nat \<Rightarrow> EncodedAttachedRecord \<Rightarrow> Shared \<Rightarrow> unit result" where
  "guard_check preflight_len rec s =
    (if length (ear_bytes rec) > preflight_len then Inl (Fail (Internal ''attached record exceeded its preflight length''))
     else
       case ts_tail (sh_tail s) of
         None \<Rightarrow> Inl (Panic ''begin_attached initialized tail'')
       | Some expected \<Rightarrow>
           if env_previous (ear_envelope rec) \<noteq> expected
           then Inl (Fail (anchor_mismatch (env_previous (ear_envelope rec)) expected)) else Inr ())"

definition guard_advance :: "JournalEnvelope \<Rightarrow> Shared \<Rightarrow> Shared" where
  "guard_advance e s = s\<lparr> sh_tail := (sh_tail s)\<lparr> ts_tail := Some (env_current e) \<rparr> \<rparr>"

text \<open>\<^verbatim>\<open>envelopes_after\<close> once its flush barrier has returned.\<close>

definition envelopes_after ::
  "crc \<Rightarrow> JournalAnchor \<Rightarrow> nat \<Rightarrow> nat \<Rightarrow> unit result \<Rightarrow> Shared \<Rightarrow> JournalEnvelopePage result \<times> Shared" where
  "envelopes_after crc cursor row_limit payload_byte_limit barrier s =
    (if ts_checkpoint (sh_tail s) = None \<or> ts_initializing (sh_tail s) \<noteq> None then
       (Inl (Fail (JournalStreamUnavailable ''stream initialization has not completed'')), s)
     else
       case barrier of
         Inl e \<Rightarrow> (Inl e, s)
       | Inr _ \<Rightarrow>
           (case scan_attached_envelope_page_from crc (d_os (w_disk (sh_writer s))) cursor row_limit payload_byte_limit
                   (ts_scan_resume (sh_tail s)) of
              Inr (page, resume) \<Rightarrow> (Inr page, s\<lparr> sh_tail := (sh_tail s)\<lparr> ts_scan_resume := Some resume \<rparr> \<rparr>)
            | Inl e \<Rightarrow> (Inl e, s\<lparr> sh_tail := (sh_tail s)\<lparr> ts_scan_resume := None \<rparr> \<rparr>)))"

definition do_truncate :: "crc \<Rightarrow> Shared \<Rightarrow> unit result \<times> Shared" where
  "do_truncate crc s =
    (case sticky_err s of
       Some m \<Rightarrow> (Inl (Fail (Internal m)), s)
     | None \<Rightarrow>
         let anchor = ts_tail (sh_tail s) in
         (case on_writer (checkpoint_and_truncate crc anchor) s of
            (Inl e, s') \<Rightarrow> (Inl e, s')
          | (Inr _, s') \<Rightarrow>
              (Inr (), s'\<lparr> sh_ring := reset_after_drain (sh_ring s'),
                           sh_tail := (sh_tail s')\<lparr> ts_checkpoint := anchor, ts_scan_resume := None \<rparr> \<rparr>)))"

text \<open>The flusher's handling of \<^verbatim>\<open>Control::Truncate\<close>, and the caller's side.\<close>

definition flusher_truncate :: "crc \<Rightarrow> Shared \<Rightarrow> unit result \<times> Shared" where
  "flusher_truncate crc s = do_truncate crc (drain_and_maybe_sync (committed_records (sh_ring s)) s)"

definition journal_truncate :: "crc \<Rightarrow> Shared \<Rightarrow> unit result \<times> Shared" where
  "journal_truncate crc s =
    (let observed = queued s in
     if observed = checkpointed s then (Inr (), s)
     else
       case flusher_truncate crc s of
         (Inl e, s') \<Rightarrow> (Inl e, s')
       | (Inr _, s') \<Rightarrow> (Inr (), s'\<lparr> checkpointed := max (checkpointed s') observed \<rparr>))"

definition journal_stats :: "Shared \<Rightarrow> JournalStats" where
  "journal_stats s =
    \<lparr> st_appends = appends_n s, st_batches = batches_n s, st_syncs = syncs_n s, st_queued = queued s, st_written = written s,
      st_flushed = flushed s, st_checkpointed = checkpointed s, st_pending = queued s - flushed s,
      st_debt = queued s - checkpointed s \<rparr>"

end
