(* ===== verification/Commit_Safety.thy ===== *)
theory Commit_Safety
  imports Group_Commit
begin

text \<open>Every interleaving of submitting writers, flusher and checkpoint truncation over the shared state of
  \<^verbatim>\<open>src/src/journal/group_commit.rs\<close>: the flushed watermark counts records that are on disk, in reservation order,
  and what an acknowledgement means for the record it belongs to.\<close>

section \<open>Interleavings\<close>

text \<open>Writers are listed in reservation order, with the target of their acknowledgement once they have one.  The
  flusher's local record count is \<open>gc_rc\<close>.  The rest is history: bytes handed to the writer and records since the
  last truncation, what the file held when that epoch began, and the records of earlier epochs; whether a truncation
  has failed on the way without a sticky error (\<open>gc_half\<close>), and whether the flusher went on to work on the file it
  left (\<open>gc_late\<close>).\<close>

record gc =
  gc_sh :: Shared
  gc_apps :: "(append \<times> nat option) list"
  gc_rc :: nat
  gc_out :: bytes
  gc_old :: bytes
  gc_epoch :: nat
  gc_half :: bool
  gc_late :: bool

definition gc_start :: "Shared \<Rightarrow> gc" where
  "gc_start s = \<lparr> gc_sh = s, gc_apps = [], gc_rc = 0, gc_out = [],
     gc_old = drop FILE_HEADER_SIZE (d_os (w_disk (sh_writer s))), gc_epoch = 0, gc_half = False, gc_late = False \<rparr>"

text \<open>The bytes handed to the writer once a flusher pass is over.\<close>

definition drained_out :: "gc \<Rightarrow> bytes" where
  "drained_out g =
    (if sticky_err (gc_sh g) = None then gc_out g @ concat (fst (copy_committed_prefix (sh_ring (gc_sh g)))) else gc_out g)"

inductive gc_step :: "crc \<Rightarrow> gc \<Rightarrow> gc \<Rightarrow> bool" for crc where
  reserve: "preflight_record_len (length bs) (gc_sh g) = Inr () \<Longrightarrow> publish_reserve (length bs) (gc_sh g) = (t, s) \<Longrightarrow>
    gc_step crc g (g\<lparr> gc_sh := s, gc_apps := gc_apps g @ [((t, bs, Reserved), None)] \<rparr>)"
| fill: "i < length (gc_apps g) \<Longrightarrow> gc_apps g ! i = ((t, bs, Reserved), None) \<Longrightarrow> ring_space_poll t (gc_sh g) = Some (Inr ()) \<Longrightarrow>
    gc_step crc g (g\<lparr> gc_sh := publish_fill t bs (gc_sh g), gc_apps := (gc_apps g)[i := ((t, bs, Filled), None)] \<rparr>)"
| publish: "i < length (gc_apps g) \<Longrightarrow> gc_apps g ! i = ((t, bs, Filled), None) \<Longrightarrow>
    gc_step crc g (g\<lparr> gc_sh := publish_ring t (gc_sh g), gc_apps := (gc_apps g)[i := ((t, bs, Published), None)] \<rparr>)"
| enqueue: "i < length (gc_apps g) \<Longrightarrow> gc_apps g ! i = ((t, bs, Published), None) \<Longrightarrow> publish_count (gc_sh g) = (n, s) \<Longrightarrow>
    gc_step crc g (g\<lparr> gc_sh := s, gc_apps := (gc_apps g)[i := ((t, bs, Published), Some n)] \<rparr>)"
| barrier: "target \<le> queued (gc_sh g) \<Longrightarrow> gc_step crc g (g\<lparr> gc_sh := flush_to_request target (gc_sh g) \<rparr>)"
| observe: "gc_step crc g (g\<lparr> gc_rc := committed_records (sh_ring (gc_sh g)) \<rparr>)"
| drain: "gc_step crc g (g\<lparr> gc_sh := drain_and_maybe_sync (gc_rc g) (gc_sh g), gc_out := drained_out g,
      gc_late := gc_late g \<or> gc_half g \<rparr>)"
| truncate: "\<forall>a \<in> set (gc_apps g). snd a \<noteq> None \<Longrightarrow> flusher_truncate crc (gc_sh g) = (Inr u, s) \<Longrightarrow>
    gc_step crc g (g\<lparr> gc_sh := s, gc_apps := [], gc_out := [], gc_old := [], gc_epoch := gc_epoch g + length (gc_apps g),
      gc_late := gc_late g \<or> gc_half g \<rparr>)"
| truncate_failed: "\<forall>a \<in> set (gc_apps g). snd a \<noteq> None \<Longrightarrow> flusher_truncate crc (gc_sh g) = (Inl e, s) \<Longrightarrow>
    gc_step crc g (g\<lparr> gc_sh := s, gc_out := drained_out g, gc_half := gc_half g \<or> sticky_err s = None,
      gc_late := gc_late g \<or> gc_half g \<rparr>)"

lemma gc_late_step: "gc_step crc g g' \<Longrightarrow> gc_late g \<Longrightarrow> gc_late g'"
  by (induction rule: gc_step.induct) simp_all

section \<open>The invariant\<close>

definition ring_view :: "gc \<Rightarrow> ring_run" where
  "ring_view g = \<lparr> rr_ring = sh_ring (gc_sh g), rr_appends = map fst (gc_apps g), rr_out = gc_out g, rr_base = gc_epoch g \<rparr>"

definition gc_recs :: "gc \<Rightarrow> bytes list" where
  "gc_recs g = recs (map fst (gc_apps g))"

definition synced_body :: "Shared \<Rightarrow> bytes" where
  "synced_body s = drop FILE_HEADER_SIZE (d_synced (w_disk (sh_writer s)))"

definition gc_rel :: "crc \<Rightarrow> gc \<Rightarrow> nat \<Rightarrow> nat \<Rightarrow> bool" where
  "gc_rel crc g f c =
    (ring_rel (ring_view g) f c
     \<and> (sticky_err (gc_sh g) = None \<longrightarrow> \<not> gc_half g \<longrightarrow>
          (\<exists>A B body. writer_rel crc (sh_writer (gc_sh g)) A B body \<and> body @ w_pending (sh_writer (gc_sh g)) = gc_old g @ gc_out g))
     \<and> gc_rc g \<le> committed_records (sh_ring (gc_sh g))
     \<and> (\<forall>i < length (gc_apps g). snd (gc_apps g ! i) \<noteq> None \<longrightarrow> ph (map fst (gc_apps g)) i = Published)
     \<and> (flushed (gc_sh g) < record_base (gc_sh g) \<or>
          (\<exists>k \<le> f. flushed (gc_sh g) \<le> record_base (gc_sh g) + gc_epoch g + k
             \<and> (\<exists>rest. synced_body (gc_sh g) = gc_old g @ concat (take k (gc_recs g)) @ rest))))"

definition tail_ok :: "Shared \<Rightarrow> bool" where
  "tail_ok s = (case ts_tail (sh_tail s) of None \<Rightarrow> True | Some a \<Rightarrow> anchor_ok a)"

definition gc_inv :: "crc \<Rightarrow> gc \<Rightarrow> bool" where
  "gc_inv crc g = (\<not> gc_late g \<longrightarrow> (\<exists>f c. gc_rel crc g f c) \<and> tail_ok (gc_sh g))"

lemma gc_rel_late [simp]: "gc_rel crc (g\<lparr> gc_late := b \<rparr>) f c = gc_rel crc g f c"
  by (simp add: gc_rel_def ring_view_def gc_recs_def)

subsection \<open>The writer under the flusher\<close>

lemma drain_synced: "d_synced (w_disk (snd (drain_to_os w))) = d_synced (w_disk w)"
  by (auto simp: drain_to_os_def wop_defs split: list.splits io_outcome.splits prod.splits)

lemma append_synced: "d_synced (w_disk (snd (append_encoded rec w))) = d_synced (w_disk w)"
  using drain_synced [of "w\<lparr> w_pending := w_pending w @ rec \<rparr>"] by (simp add: append_encoded_def maybe_drain_def)

lemma flush_fail_synced:
  assumes "wal_flush w = (Inl e, w')"
  shows "d_synced (w_disk w') = d_synced (w_disk w)"
proof (cases "drain_to_os w")
  case (Pair r w1)
  then have s: "d_synced (w_disk w1) = d_synced (w_disk w)" using drain_synced [of w] by simp
  show ?thesis
  proof (cases r)
    case (Inl x)
    then show ?thesis using assms Pair s by (simp add: wal_flush_def wseq_def)
  next
    case (Inr x)
    then have "on_disk sync_data w1 = (Inl e, w')" using assms Pair by (simp add: wal_flush_def wseq_def)
    then show ?thesis using s by (auto simp: wop_defs split: list.splits io_outcome.splits prod.splits)
  qed
qed

lemma drain_header: "w_header (snd (drain_to_os w)) = w_header w"
  by (auto simp: drain_to_os_def wop_defs split: list.splits io_outcome.splits prod.splits)

lemma append_header: "w_header (snd (append_encoded rec w)) = w_header w"
  using drain_header [of "w\<lparr> w_pending := w_pending w @ rec \<rparr>"] by (simp add: append_encoded_def maybe_drain_def)

lemma flush_header: "w_header (snd (wal_flush w)) = w_header w"
proof (cases "drain_to_os w")
  case (Pair r w1)
  have "w_header (snd (on_disk sync_data w1)) = w_header w1" by (simp add: on_disk_def split: prod.split)
  then show ?thesis using drain_header [of w] Pair by (simp add: wal_flush_def wseq_def split: sum.split)
qed

lemma sink_synced: "d_synced (w_disk (snd (sink_all cs w))) = d_synced (w_disk w)"
proof (induction cs arbitrary: w)
  case (Cons c cs)
  then show ?case using append_synced [of c w] by (auto split: prod.splits sum.splits)
qed simp

lemma sink_outcome:
  assumes "writer_rel crc w A B body" "sink_all cs w = (True, w')"
  shows "\<exists>body'. writer_rel crc w' A B body' \<and> body' @ w_pending w' = body @ w_pending w @ concat cs"
  using assms
proof (induction cs arbitrary: w body)
  case (Cons c cs)
  obtain w1 where w1: "append_encoded c w = (Inr (), w1)" "sink_all cs w1 = (True, w')"
    using Cons.prems(2) by (auto split: prod.splits sum.splits)
  obtain b1 where b1: "writer_rel crc w1 A B b1" "b1 @ w_pending w1 = body @ w_pending w @ c"
    using append_outcome [OF Cons.prems(1) w1(1)] by auto
  from Cons.IH [OF b1(1) w1(2)] obtain b2 where "writer_rel crc w' A B b2" "b2 @ w_pending w' = b1 @ w_pending w1 @ concat cs"
    by blast
  then show ?case using b1(2) by (metis append.assoc concat.simps(2))
qed auto

lemma writer_body:
  assumes "writer_rel crc w A B body"
  shows "drop FILE_HEADER_SIZE (d_os (w_disk w)) = body"
proof -
  have "length A = 128" "length B = 128" using assms by (auto simp: writer_rel_def slots_ok_def)
  then show ?thesis
    using assms header_page_slots(1) [OF length_header_base, of A B "w_header w"] by (simp add: writer_rel_def FILE_HEADER_SIZE_def)
qed

text \<open>One drain: the committed prefix goes to the writer; a sync makes all of it durable and only then moves the
  watermark.\<close>

lemma drain_cases:
  fixes s rc
  defines "s' \<equiv> drain_and_maybe_sync rc s" and "cs \<equiv> fst (copy_committed_prefix (sh_ring s))"
  assumes "sticky_err s = None" "writer_rel crc (sh_writer s) A B body" "body @ w_pending (sh_writer s) = stream"
  shows "sh_ring s' = snd (copy_committed_prefix (sh_ring s)) \<and> record_base s' = record_base s \<and> queued s' = queued s
    \<and> sync_target s' = sync_target s \<and> sh_tail s' = sh_tail s
    \<and> (sticky_err s' = None \<longrightarrow>
         (\<exists>body'. writer_rel crc (sh_writer s') A B body' \<and> body' @ w_pending (sh_writer s') = stream @ concat cs))
    \<and> (flushed s' = flushed s \<and> synced_body s' = synced_body s
       \<or> flushed s' = max (flushed s) (record_base s + rc) \<and> synced_body s' = stream @ concat cs)"
proof -
  obtain ok w where sk: "sink_all cs (sh_writer s) = (ok, w)" by (cases "sink_all cs (sh_writer s)")
  obtain r where cp: "copy_committed_prefix (sh_ring s) = (cs, r)" by (cases "copy_committed_prefix (sh_ring s)") (simp add: cs_def)
  have sy: "d_synced (w_disk w) = d_synced (w_disk (sh_writer s))" using sink_synced [of cs "sh_writer s"] sk by simp
  define s1 where "s1 = s\<lparr> sh_ring := r, sh_writer := w \<rparr>"
  define s2 where "s2 = (if cs \<noteq> [] then s1\<lparr> written := max (written s1) (record_base s + rc), batches_n := batches_n s1 + 1 \<rparr> else s1)"
  have f2: "sh_ring s2 = r" "sh_writer s2 = w" "record_base s2 = record_base s" "queued s2 = queued s" "sync_target s2 = sync_target s"
    "sh_tail s2 = sh_tail s" "flushed s2 = flushed s" "sticky_err s2 = None"
    using assms(3) by (simp_all add: s2_def s1_def)
  show ?thesis
  proof (cases ok)
    case False
    then have "s' = set_err ''journal flusher append failed'' s1"
      using assms(3) cp sk by (simp add: s'_def drain_and_maybe_sync_def Let_def s1_def)
    then show ?thesis using cp sy assms(3) by (simp add: set_err_def s1_def synced_body_def)
  next
    case True
    obtain b where b: "writer_rel crc w A B b" "b @ w_pending w = stream @ concat cs"
      using sink_outcome [OF assms(4), of cs w] sk True assms(5) [symmetric] by auto
    show ?thesis
    proof (cases "sync_target s2 > flushed s2 \<and> record_base s + rc \<ge> sync_target s2")
      case False
      then have "s' = s2" using True assms(3) cp sk by (auto simp: s'_def drain_and_maybe_sync_def Let_def s2_def s1_def)
      then show ?thesis using f2 cp b sy by (auto simp: synced_body_def)
    next
      case sync: True
      obtain res w' where fl: "wal_flush w = (res, w')" by (cases "wal_flush w")
      show ?thesis
      proof (cases res)
        case (Inl e)
        then have "s' = set_err ''journal flusher fsync failed'' (s2\<lparr> sh_writer := w' \<rparr>)"
          using True sync assms(3) cp sk fl by (auto simp: s'_def drain_and_maybe_sync_def Let_def s2_def s1_def)
        moreover have "d_synced (w_disk w') = d_synced (w_disk w)" using flush_fail_synced fl Inl by blast
        ultimately show ?thesis using f2 cp sy by (simp add: set_err_def synced_body_def)
      next
        case (Inr u)
        then have s': "s' = s2\<lparr> sh_writer := w', syncs_n := syncs_n s2 + 1, flushed := max (flushed s2) (record_base s + rc) \<rparr>"
          using True sync assms(3) cp sk fl by (auto simp: s'_def drain_and_maybe_sync_def Let_def s2_def s1_def)
        have w': "writer_rel crc w' A B (b @ w_pending w)" "w_pending w' = []" "d_synced (w_disk w') = d_os (w_disk w')"
          using flush_outcome [OF b(1)] fl Inr by auto
        then show ?thesis using s' f2 cp b(2) writer_body [OF w'(1)] by (auto simp: synced_body_def)
      qed
    qed
  qed
qed

subsection \<open>Preservation\<close>

lemma gc_relI:
  assumes "ring_rel (ring_view g) f c"
    and "sticky_err (gc_sh g) = None \<Longrightarrow> \<not> gc_half g \<Longrightarrow>
      \<exists>A B body. writer_rel crc (sh_writer (gc_sh g)) A B body \<and> body @ w_pending (sh_writer (gc_sh g)) = gc_old g @ gc_out g"
    and "gc_rc g \<le> committed_records (sh_ring (gc_sh g))"
    and "\<And>i. i < length (gc_apps g) \<Longrightarrow> snd (gc_apps g ! i) \<noteq> None \<Longrightarrow> ph (map fst (gc_apps g)) i = Published"
    and "flushed (gc_sh g) < record_base (gc_sh g) \<or>
      (\<exists>k \<le> f. flushed (gc_sh g) \<le> record_base (gc_sh g) + gc_epoch g + k
         \<and> (\<exists>rest. synced_body (gc_sh g) = gc_old g @ concat (take k (gc_recs g)) @ rest))"
  shows "gc_rel crc g f c"
  using assms by (simp add: gc_rel_def)

lemma gc_relD:
  assumes "gc_rel crc g f c"
  shows "ring_rel (ring_view g) f c"
    and "sticky_err (gc_sh g) = None \<Longrightarrow> \<not> gc_half g \<Longrightarrow>
      \<exists>A B body. writer_rel crc (sh_writer (gc_sh g)) A B body \<and> body @ w_pending (sh_writer (gc_sh g)) = gc_old g @ gc_out g"
    and "gc_rc g \<le> committed_records (sh_ring (gc_sh g))"
    and "i < length (gc_apps g) \<Longrightarrow> snd (gc_apps g ! i) \<noteq> None \<Longrightarrow> ph (map fst (gc_apps g)) i = Published"
    and "flushed (gc_sh g) < record_base (gc_sh g) \<or>
      (\<exists>k \<le> f. flushed (gc_sh g) \<le> record_base (gc_sh g) + gc_epoch g + k
         \<and> (\<exists>rest. synced_body (gc_sh g) = gc_old g @ concat (take k (gc_recs g)) @ rest))"
  using assms by (simp_all add: gc_rel_def)

text \<open>Writers move the ring only; a step of theirs that keeps the drained records keeps what was said of the disk.\<close>

lemma gc_rel_writer:
  assumes "gc_rel crc g f c" "ring_rel (ring_view g') f c'"
    and "gc_sh g' = (gc_sh g)\<lparr> sh_ring := r, queued := q, appends_n := n \<rparr>" "committed_records (sh_ring (gc_sh g)) \<le> committed_records r"
    and "gc_rc g' = gc_rc g" "gc_old g' = gc_old g" "gc_out g' = gc_out g" "gc_epoch g' = gc_epoch g"
    and "gc_half g' = gc_half g" "take f (gc_recs g') = take f (gc_recs g)"
    and "\<And>i. i < length (gc_apps g') \<Longrightarrow> snd (gc_apps g' ! i) \<noteq> None \<Longrightarrow> ph (map fst (gc_apps g')) i = Published"
  shows "gc_rel crc g' f c'"
proof (rule gc_relI [OF assms(2) _ _ assms(11)])
  note R = gc_relD [OF assms(1)]
  have sh: "sticky_err (gc_sh g') = sticky_err (gc_sh g)" "sh_writer (gc_sh g') = sh_writer (gc_sh g)" "sh_ring (gc_sh g') = r"
      "flushed (gc_sh g') = flushed (gc_sh g)" "record_base (gc_sh g') = record_base (gc_sh g)"
      "synced_body (gc_sh g') = synced_body (gc_sh g)"
    using assms(3) by (simp_all add: synced_body_def)
  show "\<exists>A B body. writer_rel crc (sh_writer (gc_sh g')) A B body \<and> body @ w_pending (sh_writer (gc_sh g')) = gc_old g' @ gc_out g'"
    if "sticky_err (gc_sh g') = None" "\<not> gc_half g'" using R(2) that by (simp add: sh assms(6,7,9))
  show "gc_rc g' \<le> committed_records (sh_ring (gc_sh g'))" using R(3) assms(4,5) by (simp add: sh)
  have "take k (gc_recs g') = take k (gc_recs g)" if "k \<le> f" for k
    using assms(10) that by (metis min.absorb1 take_take)
  then show "flushed (gc_sh g') < record_base (gc_sh g') \<or>
      (\<exists>k \<le> f. flushed (gc_sh g') \<le> record_base (gc_sh g') + gc_epoch g' + k
         \<and> (\<exists>rest. synced_body (gc_sh g') = gc_old g' @ concat (take k (gc_recs g')) @ rest))"
    using R(5) by (auto simp: sh assms(6,8))
qed

lemma snd_nth_update: "i < length xs \<Longrightarrow> snd (xs[i := y] ! j) = (if j = i then snd y else snd (xs ! j))"
  by (simp add: nth_list_update)

lemma gc_rel_reserve:
  assumes "gc_rel crc g f c" "preflight_record_len (length bs) (gc_sh g) = Inr ()" "publish_reserve (length bs) (gc_sh g) = (t, s)"
  shows "gc_rel crc (g\<lparr> gc_sh := s, gc_apps := gc_apps g @ [((t, bs, Reserved), None)] \<rparr>) f c"
proof -
  note R = gc_relD [OF assms(1)]
  obtain r where r: "ring_reserve (length bs) (sh_ring (gc_sh g)) = (t, r)" "s = (gc_sh g)\<lparr> sh_ring := r \<rparr>"
    using assms(3) by (auto simp: publish_reserve_def Let_def split: prod.splits)
  have len: "0 < length bs" "length bs \<le> r_capacity (sh_ring (gc_sh g))"
    using assms(2) by (auto simp: preflight_record_len_def split: option.splits if_splits)
  have rel: "ring_rel (ring_view (g\<lparr> gc_sh := s, gc_apps := gc_apps g @ [((t, bs, Reserved), None)] \<rparr>)) f c"
    using ring_rel_reserve [OF R(1), of bs t r] len r by (simp add: ring_view_def)
  have f: "f \<le> length (gc_apps g)" using ring_rel_facts(4,5) [OF R(1)] by (simp add: ring_view_def)
  have cr: "committed_records r = committed_records (sh_ring (gc_sh g))" using r(1) by (auto simp: ring_reserve_def)
  show ?thesis
    by (rule gc_rel_writer [OF assms(1) rel, where r = r and q = "queued (gc_sh g)" and n = "appends_n (gc_sh g)"])
       (use r(2) cr f R(4) in \<open>auto simp: gc_recs_def recs_def ph_def nth_append less_Suc_eq split: if_splits\<close>)
qed

lemma gc_rel_update:
  assumes "gc_rel crc g f c" "i < length (gc_apps g)" "gc_apps g ! i = ((t, bs, p), None)"
    and "ring_rel (ring_view (g\<lparr> gc_sh := s, gc_apps := (gc_apps g)[i := ((t, bs, p'), tg)] \<rparr>)) f c'"
    and "s = (gc_sh g)\<lparr> sh_ring := r, queued := q, appends_n := n \<rparr>" "committed_records (sh_ring (gc_sh g)) \<le> committed_records r"
    and "tg \<noteq> None \<Longrightarrow> p' = Published"
  shows "gc_rel crc (g\<lparr> gc_sh := s, gc_apps := (gc_apps g)[i := ((t, bs, p'), tg)] \<rparr>) f c'"
proof -
  have e: "gc_recs (g\<lparr> gc_sh := s, gc_apps := (gc_apps g)[i := ((t, bs, p'), tg)] \<rparr>) = gc_recs g"
    using assms(2,3) recs_update [of "map fst (gc_apps g)" i t bs p p'] by (simp add: gc_recs_def map_update)
  have q: "ph (map fst ((gc_apps g)[i := ((t, bs, p'), tg)])) j = (if j = i then p' else ph (map fst (gc_apps g)) j)" for j
    using assms(2) ph_update [of i "map fst (gc_apps g)" t bs p' j] by (simp add: map_update)
  show ?thesis
    by (rule gc_rel_writer [OF assms(1,4), where r = r and q = q and n = n])
       (use assms(5-7) gc_relD(4) [OF assms(1)] assms(2,3) e in \<open>auto simp: q snd_nth_update split: if_splits\<close>)
qed

lemma publish_records: "committed_records r \<le> adv_count (r_advance r) \<Longrightarrow> committed_records r \<le> committed_records (ring_publish t r)"
  by (simp add: ring_publish_def Let_def split: prod.split)

lemma gc_rel_fill:
  assumes "gc_rel crc g f c" "i < length (gc_apps g)" "gc_apps g ! i = ((t, bs, Reserved), None)"
    "ring_space_poll t (gc_sh g) = Some (Inr ())"
  shows "gc_rel crc (g\<lparr> gc_sh := publish_fill t bs (gc_sh g), gc_apps := (gc_apps g)[i := ((t, bs, Filled), None)] \<rparr>) f c"
proof -
  note R = gc_relD [OF assms(1)]
  have sp: "reserve_space_ready t (sh_ring (gc_sh g))"
    using assms(4) by (auto simp: ring_space_poll_def split: if_splits option.splits)
  have rel: "ring_rel (ring_view (g\<lparr> gc_sh := publish_fill t bs (gc_sh g), gc_apps := (gc_apps g)[i := ((t, bs, Filled), None)] \<rparr>)) f c"
    using ring_rel_fill [OF R(1), of i t bs] assms(2,3) sp by (simp add: ring_view_def map_update publish_fill_def)
  show ?thesis
    by (rule gc_rel_update [OF assms(1-3) rel, where r = "ring_fill t bs (sh_ring (gc_sh g))" and q = "queued (gc_sh g)"
          and n = "appends_n (gc_sh g)"])
       (simp_all add: publish_fill_def ring_fill_def Let_def)
qed

lemma gc_rel_publish:
  assumes "gc_rel crc g f c" "i < length (gc_apps g)" "gc_apps g ! i = ((t, bs, Filled), None)"
  shows "\<exists>c'. gc_rel crc (g\<lparr> gc_sh := publish_ring t (gc_sh g), gc_apps := (gc_apps g)[i := ((t, bs, Published), None)] \<rparr>) f c'"
proof -
  note R = gc_relD [OF assms(1)]
  obtain c' where rel: "ring_rel (ring_view (g\<lparr> gc_sh := publish_ring t (gc_sh g),
      gc_apps := (gc_apps g)[i := ((t, bs, Published), None)] \<rparr>)) f c'"
    using ring_rel_publish [OF R(1), of i t bs] assms(2,3) by (auto simp: ring_view_def map_update publish_ring_def)
  have "committed_records (sh_ring (gc_sh g)) \<le> committed_records (ring_publish t (sh_ring (gc_sh g)))"
    using ring_rel_facts(14,15) [OF R(1)] by (intro publish_records) (simp add: ring_view_def)
  then have "gc_rel crc (g\<lparr> gc_sh := publish_ring t (gc_sh g), gc_apps := (gc_apps g)[i := ((t, bs, Published), None)] \<rparr>) f c'"
    by (intro gc_rel_update [OF assms(1-3) rel, where r = "ring_publish t (sh_ring (gc_sh g))" and q = "queued (gc_sh g)"
          and n = "appends_n (gc_sh g)"]) (simp_all add: publish_ring_def)
  then show ?thesis by blast
qed

lemma gc_rel_enqueue:
  assumes "gc_rel crc g f c" "i < length (gc_apps g)" "gc_apps g ! i = ((t, bs, Published), None)" "publish_count (gc_sh g) = (n, s)"
  shows "gc_rel crc (g\<lparr> gc_sh := s, gc_apps := (gc_apps g)[i := ((t, bs, Published), Some n)] \<rparr>) f c"
proof -
  have s: "s = (gc_sh g)\<lparr> queued := queued (gc_sh g) + 1, appends_n := appends_n (gc_sh g) + 1 \<rparr>"
    using assms(4) by (auto simp: publish_count_def)
  have m: "map fst ((gc_apps g)[i := ((t, bs, Published), Some n)]) = map fst (gc_apps g)"
    using assms(2,3) by (simp add: map_update list_update_same_conv)
  then have rel: "ring_rel (ring_view (g\<lparr> gc_sh := s, gc_apps := (gc_apps g)[i := ((t, bs, Published), Some n)] \<rparr>)) f c"
    using gc_relD(1) [OF assms(1)] s by (simp add: ring_view_def)
  show ?thesis
    by (rule gc_rel_update [OF assms(1-3) rel, where r = "sh_ring (gc_sh g)" and q = "queued (gc_sh g) + 1"
          and n = "appends_n (gc_sh g) + 1"]) (simp_all add: s)
qed

lemma gc_rel_barrier: "gc_rel crc g f c \<Longrightarrow> gc_rel crc (g\<lparr> gc_sh := flush_to_request target (gc_sh g) \<rparr>) f c"
  by (simp add: gc_rel_def ring_view_def flush_to_request_def gc_recs_def synced_body_def)

lemma gc_rel_observe: "gc_rel crc g f c \<Longrightarrow> gc_rel crc (g\<lparr> gc_rc := committed_records (sh_ring (gc_sh g)) \<rparr>) f c"
  by (simp add: gc_rel_def ring_view_def gc_recs_def)

lemma gc_rel_drain:
  assumes "gc_rel crc g f c" "rc \<le> committed_records (sh_ring (gc_sh g))" "\<not> gc_half g"
  shows "\<exists>f'. gc_rel crc (g\<lparr> gc_sh := drain_and_maybe_sync rc (gc_sh g), gc_out := drained_out g \<rparr>) f' c
    \<and> (sticky_err (gc_sh g) = None \<longrightarrow> f' = c)"
proof (cases "sticky_err (gc_sh g) = None")
  case False
  then have "drain_and_maybe_sync rc (gc_sh g) = gc_sh g" by (simp add: drain_and_maybe_sync_def)
  then show ?thesis using assms False by (auto simp: drained_out_def)
next
  case True
  let ?s = "gc_sh g" and ?s' = "drain_and_maybe_sync rc (gc_sh g)"
  let ?cs = "fst (copy_committed_prefix (sh_ring ?s))"
  note R = gc_relD [OF assms(1)]
  obtain A B body where w: "writer_rel crc (sh_writer ?s) A B body" "body @ w_pending (sh_writer ?s) = gc_old g @ gc_out g"
    using R(2) [OF True assms(3)] by blast
  note D = drain_cases [OF True w, of rc]
  define r where "r = snd (copy_committed_prefix (sh_ring ?s))"
  have cp: "copy_committed_prefix (sh_ring ?s) = (?cs, r)" by (simp add: r_def)
  have rr: "sh_ring ?s' = r" using D by (simp add: r_def)
  let ?g = "g\<lparr> gc_sh := ?s', gc_out := gc_out g @ concat ?cs \<rparr>"
  have rel: "ring_rel (ring_view ?g) c c"
    using ring_rel_drain [OF R(1), of ?cs r] cp by (simp add: ring_view_def rr)
  have out: "gc_out g @ concat ?cs = concat (take c (gc_recs g))"
    using drained_bytes [OF R(1)] by (simp add: ring_view_def gc_recs_def)
  have fc: "f \<le> c" "committed_records (sh_ring ?s) = gc_epoch g + c"
    using ring_rel_facts(4,14) [OF R(1)] by (simp_all add: ring_view_def)
  have cr: "committed_records (sh_ring ?s') = committed_records (sh_ring ?s)"
    unfolding rr r_def by (simp add: copy_committed_prefix_def Let_def)
  have "gc_rel crc ?g c c"
  proof (rule gc_relI [OF rel])
    show "\<exists>A B body. writer_rel crc (sh_writer (gc_sh ?g)) A B body \<and> body @ w_pending (sh_writer (gc_sh ?g)) = gc_old ?g @ gc_out ?g"
      if "sticky_err (gc_sh ?g) = None" using D that by auto
    show "gc_rc ?g \<le> committed_records (sh_ring (gc_sh ?g))" using R(3) cr by simp
    show "ph (map fst (gc_apps ?g)) i = Published" if "i < length (gc_apps ?g)" "snd (gc_apps ?g ! i) \<noteq> None" for i
      using R(4) that by simp
    consider "flushed ?s' = flushed ?s" "synced_body ?s' = synced_body ?s"
      | "flushed ?s' = max (flushed ?s) (record_base ?s + rc)" "synced_body ?s' = gc_old g @ concat (take c (gc_recs g))"
      using D out by (metis append.assoc)
    then show "flushed (gc_sh ?g) < record_base (gc_sh ?g) \<or>
      (\<exists>k \<le> c. flushed (gc_sh ?g) \<le> record_base (gc_sh ?g) + gc_epoch ?g + k
         \<and> (\<exists>rest. synced_body (gc_sh ?g) = gc_old ?g @ concat (take k (gc_recs ?g)) @ rest))"
    proof cases
      case 1
      have rb: "record_base ?s' = record_base ?s" using D by simp
      from R(5) show ?thesis
      proof (elim disjE exE conjE)
        fix k rest assume "k \<le> f" "flushed ?s \<le> record_base ?s + gc_epoch g + k"
          "synced_body ?s = gc_old g @ concat (take k (gc_recs g)) @ rest"
        then show ?thesis using 1 rb fc(1) by (intro disjI2 exI [of _ k]) (simp add: gc_recs_def)
      qed (use 1 rb in simp)
    next
      case 2
      have "flushed ?s \<le> record_base ?s + gc_epoch g + c" using R(5) fc(1) by auto
      then have "flushed ?s' \<le> record_base ?s + gc_epoch g + c" using 2(1) assms(2) fc(2) by simp
      then show ?thesis using 2(2) D by (intro disjI2 exI [of _ c]) (simp add: gc_recs_def)
    qed
  qed
  then show ?thesis using True by (auto simp: drained_out_def)
qed

lemma gc_rel_truncate:
  assumes "gc_rel crc g f c" "\<forall>a \<in> set (gc_apps g). snd a \<noteq> None" "flusher_truncate crc (gc_sh g) = (Inr u, s)"
    and ok: "tail_ok (gc_sh g)" and nh: "\<not> gc_half g"
  shows "gc_rel crc (g\<lparr> gc_sh := s, gc_apps := [], gc_out := [], gc_old := [], gc_epoch := gc_epoch g + length (gc_apps g) \<rparr>) 0 0"
proof -
  let ?rc = "committed_records (sh_ring (gc_sh g))"
  define s1 where "s1 = drain_and_maybe_sync ?rc (gc_sh g)"
  have tr: "do_truncate crc s1 = (Inr u, s)" using assms(3) by (simp add: flusher_truncate_def s1_def)
  then have e1: "sticky_err s1 = None" by (auto simp: do_truncate_def split: option.splits)
  have e0: "sticky_err (gc_sh g) = None"
    using e1 by (cases "sticky_err (gc_sh g)") (auto simp: s1_def drain_and_maybe_sync_def)
  let ?g1 = "g\<lparr> gc_sh := s1, gc_out := gc_out g @ concat (fst (copy_committed_prefix (sh_ring (gc_sh g)))) \<rparr>"
  have R: "gc_rel crc ?g1 c c" using gc_rel_drain [OF assms(1) order_refl nh] e0 by (auto simp: s1_def drained_out_def)
  note D = gc_relD [OF R]
  have tl: "sh_tail s1 = sh_tail (gc_sh g)"
    using drain_cases [OF e0] gc_relD(2) [OF assms(1) e0 nh] unfolding s1_def by blast
  obtain A B body where w: "writer_rel crc (sh_writer s1) A B body" using D(2) e1 nh by auto
  obtain w' where w': "checkpoint_and_truncate crc (ts_tail (sh_tail s1)) (sh_writer s1) = (Inr (), w')"
      "s = s1\<lparr> sh_writer := w', sh_ring := reset_after_drain (sh_ring s1),
             sh_tail := (sh_tail s1)\<lparr> ts_checkpoint := ts_tail (sh_tail s1), ts_scan_resume := None \<rparr> \<rparr>"
    using tr e1 by (auto simp: do_truncate_def on_writer_def Let_def split: prod.splits sum.splits)
  have ok': "\<forall>a. ts_tail (sh_tail s1) = Some a \<longrightarrow> anchor_ok a" using ok tl by (simp add: tail_ok_def split: option.splits)
  obtain A' B' where cw: "writer_rel crc w' A' B' []" "w_pending w' = []"
    using checkpoint_outcome [OF w ok' w'(1)] by blast
  note F = ring_rel_facts [OF D(1)]
  have "c = length (gc_apps g)"
  proof (rule ccontr)
    assume "c \<noteq> length (gc_apps g)"
    then have lt: "c < length (gc_apps g)" using F(5) by (simp add: ring_view_def)
    then have "snd (gc_apps g ! c) \<noteq> None" using assms(2) by simp
    then have "ph (map fst (gc_apps g)) c = Published" using D(4) [of c] lt by simp
    then show False using F(11) lt by (simp add: ring_view_def)
  qed
  then have "r_tail (sh_ring s1) = committed_addr (sh_ring s1)" "flush_cursor (sh_ring s1) = committed_addr (sh_ring s1)"
    using F(6,7,13) by (simp_all add: ring_view_def)
  from ring_rel_reset [OF D(1)] this
  have rel: "ring_rel \<lparr> rr_ring = reset_after_drain (sh_ring s1), rr_appends = [], rr_out = [],
      rr_base = gc_epoch g + length (gc_apps g) \<rparr> 0 0" by (simp add: ring_view_def)
  have fl: "flushed s1 \<le> record_base s1 + gc_epoch g + length (gc_apps g)"
    using D(5) \<open>c = length (gc_apps g)\<close> by auto
  show ?thesis
    by (rule gc_relI) (use rel cw fl D(3) in \<open>auto simp: ring_view_def w'(2) reset_after_drain_def gc_recs_def recs_def\<close>)
qed

lemma drain_tail: "sh_tail (drain_and_maybe_sync rc s) = sh_tail s"
  by (simp add: drain_and_maybe_sync_def Let_def set_err_def split: prod.split sum.split)

lemma drain_counts: "queued (drain_and_maybe_sync rc s) = queued s" "record_base (drain_and_maybe_sync rc s) = record_base s"
  by (simp_all add: drain_and_maybe_sync_def Let_def set_err_def split: prod.split sum.split)

lemma truncate_keeps:
  assumes "flusher_truncate crc s = (r, s')"
  shows "ts_tail (sh_tail s') = ts_tail (sh_tail s)" "queued s' = queued s" "record_base s' = record_base s"
  using assms drain_tail [of "committed_records (sh_ring s)" s] drain_counts [of "committed_records (sh_ring s)" s]
  by (auto simp: flusher_truncate_def do_truncate_def on_writer_def Let_def split: option.splits prod.splits sum.splits)

subsection \<open>A truncation that fails\<close>

text \<open>Whatever request of it fails, the synced image is what it was, or the whole stream under a header that decodes.\<close>

definition synced_image :: "crc \<Rightarrow> WalWriter \<Rightarrow> bytes \<Rightarrow> bool" where
  "synced_image crc w stream =
    (\<exists>A B. slots_ok crc (w_header w) A B \<and> d_synced (w_disk w) = header_page (header_base (w_header w)) A B @ stream)"

lemma synced_imageI: "writer_rel crc w A B body \<Longrightarrow> d_synced (w_disk w) = d_os (w_disk w) \<Longrightarrow> synced_image crc w body"
  by (auto simp: synced_image_def writer_rel_def)

lemma synced_image_keep:
  "synced_image crc w body \<Longrightarrow> w_header w' = w_header w \<Longrightarrow> d_synced (w_disk w') = d_synced (w_disk w) \<Longrightarrow> synced_image crc w' body"
  by (simp add: synced_image_def)

lemma synced_image_body: "synced_image crc (sh_writer s) stream \<Longrightarrow> synced_body s = stream"
  by (auto simp: synced_image_def synced_body_def slots_ok_def FILE_HEADER_SIZE_def header_page_def)

lemma persist_generation_failed:
  "persist_anchor_generation crc a w = (Inl e, w') \<Longrightarrow> w_header w' = w_header w \<and> d_synced (w_disk w') = d_synced (w_disk w)"
  by (auto simp: persist_anchor_generation_def Let_def wop_defs split: option.splits list.splits io_outcome.splits prod.splits)

lemma repeat_generation_image:
  assumes "writer_rel crc w A B body" "anchor_ok a" "synced_image crc w body" "repeat_generation n crc a w = (r, w')"
  shows "synced_image crc w' body"
  using assms
proof (induction n arbitrary: w A B)
  case 0
  then show ?case by (simp add: wset_def)
next
  case (Suc n)
  obtain r1 w1 where p: "persist_anchor_generation crc a w = (r1, w1)" by (cases "persist_anchor_generation crc a w")
  show ?case
  proof (cases r1)
    case (Inl e)
    then have "w' = w1" using Suc.prems(4) p by (simp add: wseq_def)
    then show ?thesis using persist_generation_failed p Inl synced_image_keep [OF Suc.prems(3)] by blast
  next
    case (Inr u)
    obtain A' B' where w1: "writer_rel crc w1 A' B' body" "d_synced (w_disk w1) = d_os (w_disk w1)"
      using persist_generation_outcome [OF Suc.prems(1,2)] p Inr by blast
    show ?thesis
      by (rule Suc.IH [OF w1(1) assms(2) synced_imageI [OF w1]]) (use Suc.prems(4) p Inr in \<open>simp add: wseq_def\<close>)
  qed
qed

lemma truncate_failed_image:
  "wal_truncate w = (Inl e, w') \<Longrightarrow> w_header w' = w_header w \<and> d_synced (w_disk w') = d_synced (w_disk w)"
  by (auto simp: wal_truncate_def Let_def wop_defs split: list.splits io_outcome.splits prod.splits)

lemma checkpoint_failed:
  assumes "writer_rel crc w A B body" "\<And>a. anchor = Some a \<Longrightarrow> anchor_ok a"
    and "checkpoint_and_truncate crc anchor w = (Inl e, w')"
  shows "w_header w' = w_header w \<and> d_synced (w_disk w') = d_synced (w_disk w) \<or> synced_image crc w' (body @ w_pending w)"
proof -
  let ?p = "case anchor of None \<Rightarrow> wset id | Some a \<Rightarrow> persist_checkpoint_anchor crc a"
  obtain r1 w1 where f: "wal_flush w = (r1, w1)" by (cases "wal_flush w")
  show ?thesis
  proof (cases r1)
    case (Inl x)
    then have "w' = w1" using assms(3) f by (simp add: checkpoint_and_truncate_def wseq_def)
    then show ?thesis using flush_fail_synced flush_header [of w] f Inl by auto
  next
    case (Inr u)
    have w1: "writer_rel crc w1 A B (body @ w_pending w)" "d_synced (w_disk w1) = d_os (w_disk w1)"
      using flush_outcome [OF assms(1)] f Inr by blast+
    note im = synced_imageI [OF w1]
    obtain r2 w2 where p: "?p w1 = (r2, w2)" by (cases "?p w1")
    have "synced_image crc w2 (body @ w_pending w)"
    proof (cases anchor)
      case None
      then show ?thesis using p im by (simp add: wset_def)
    next
      case (Some a)
      then show ?thesis using p im repeat_generation_image [OF w1(1) assms(2) [OF Some] im]
        by (auto simp: persist_checkpoint_anchor_def Let_def split: if_splits)
    qed
    moreover have "w' = w2 \<or> wal_truncate w2 = (Inl e, w')"
      using assms(3) f Inr p by (auto simp: checkpoint_and_truncate_def wseq_def split: sum.splits)
    ultimately show ?thesis using truncate_failed_image synced_image_keep by blast
  qed
qed

lemma gc_rel_truncate_failed:
  assumes "gc_rel crc g f c" "flusher_truncate crc (gc_sh g) = (Inl e, s)" "tail_ok (gc_sh g)" "\<not> gc_half g"
  shows "\<exists>f'. gc_rel crc (g\<lparr> gc_sh := s, gc_out := drained_out g, gc_half := sticky_err s = None \<rparr>) f' c"
proof -
  define s1 where "s1 = drain_and_maybe_sync (committed_records (sh_ring (gc_sh g))) (gc_sh g)"
  let ?g1 = "g\<lparr> gc_sh := s1, gc_out := drained_out g \<rparr>"
  obtain f' where R: "gc_rel crc ?g1 f' c" using gc_rel_drain [OF assms(1) order_refl assms(4)] by (auto simp: s1_def)
  note D = gc_relD [OF R]
  have tr: "do_truncate crc s1 = (Inl e, s)" using assms(2) by (simp add: flusher_truncate_def s1_def)
  show ?thesis
  proof (cases "sticky_err s1 = None")
    case False
    then have "s = s1" using tr by (auto simp: do_truncate_def)
    then have "g\<lparr> gc_sh := s, gc_out := drained_out g, gc_half := sticky_err s = None \<rparr> = ?g1" using False assms(4) by simp
    then show ?thesis using R by auto
  next
    case True
    obtain A B body where w: "writer_rel crc (sh_writer s1) A B body" "body @ w_pending (sh_writer s1) = gc_old g @ drained_out g"
      using D(2) True assms(4) by auto
    obtain w' where w': "checkpoint_and_truncate crc (ts_tail (sh_tail s1)) (sh_writer s1) = (Inl e, w')" "s = s1\<lparr> sh_writer := w' \<rparr>"
      using tr True by (auto simp: do_truncate_def on_writer_def Let_def split: prod.splits sum.splits)
    have ok: "anchor_ok a" if "ts_tail (sh_tail s1) = Some a" for a
      using assms(3) that by (simp add: tail_ok_def s1_def drain_tail)
    have sh: "sh_ring s = sh_ring s1" "sh_writer s = w'" "flushed s = flushed s1" "record_base s = record_base s1"
      using w'(2) by simp_all
    have out: "drained_out g = concat (take f' (gc_recs g))"
      using ring_rel_facts(12) [OF D(1)] by (simp add: ring_view_def gc_recs_def)
    have img: "synced_body s = synced_body s1 \<or> synced_body s = gc_old g @ concat (take f' (gc_recs g))"
      using checkpoint_failed [OF w(1) ok w'(1)] synced_image_body [of crc s "gc_old g @ drained_out g"] w(2) out sh(2)
      by (auto simp: synced_body_def)
    have pre: "\<exists>rest. concat (take f' (gc_recs g)) = concat (take k (gc_recs g)) @ rest" if "k \<le> f'" for k
      using that by (metis concat_append le_add_diff_inverse take_add)
    let ?g2 = "g\<lparr> gc_sh := s, gc_out := drained_out g, gc_half := sticky_err s = None \<rparr>"
    have k: "flushed s1 < record_base s1 \<or> (\<exists>k \<le> f'. flushed s1 \<le> record_base s1 + gc_epoch g + k
        \<and> (\<exists>rest. synced_body s1 = gc_old g @ concat (take k (gc_recs g)) @ rest))"
      using D(5) by (simp add: gc_recs_def)
    have "gc_rel crc ?g2 f' c"
    proof (rule gc_relI)
      show "ring_rel (ring_view ?g2) f' c" using D(1) by (simp add: ring_view_def sh)
      show "\<exists>A B body. writer_rel crc (sh_writer (gc_sh ?g2)) A B body \<and> body @ w_pending (sh_writer (gc_sh ?g2)) = gc_old ?g2 @ gc_out ?g2"
        if "sticky_err (gc_sh ?g2) = None" "\<not> gc_half ?g2" using that by simp
      show "gc_rc ?g2 \<le> committed_records (sh_ring (gc_sh ?g2))" using D(3) by (simp add: sh)
      show "ph (map fst (gc_apps ?g2)) i = Published" if "i < length (gc_apps ?g2)" "snd (gc_apps ?g2 ! i) \<noteq> None" for i
        using D(4) [of i] that by simp
      from k show "flushed (gc_sh ?g2) < record_base (gc_sh ?g2) \<or>
          (\<exists>k \<le> f'. flushed (gc_sh ?g2) \<le> record_base (gc_sh ?g2) + gc_epoch ?g2 + k
             \<and> (\<exists>rest. synced_body (gc_sh ?g2) = gc_old ?g2 @ concat (take k (gc_recs ?g2)) @ rest))"
      proof (elim disjE exE conjE)
        fix k rest assume a: "k \<le> f'" "flushed s1 \<le> record_base s1 + gc_epoch g + k"
          "synced_body s1 = gc_old g @ concat (take k (gc_recs g)) @ rest"
        have "\<exists>rest. synced_body s = gc_old g @ concat (take k (gc_recs g)) @ rest"
          using img a(3) pre [OF a(1)] by auto
        then show ?thesis using a(1,2) by (intro disjI2 exI [of _ k]) (simp add: sh gc_recs_def)
      qed (simp add: sh)
    qed
    then show ?thesis by blast
  qed
qed

lemma gc_step_rel:
  assumes "gc_step crc g g'" "gc_rel crc g f c" "tail_ok (gc_sh g)" "\<not> gc_late g'"
  shows "(\<exists>f c. gc_rel crc g' f c) \<and> tail_ok (gc_sh g')"
  using assms
proof (induction rule: gc_step.induct)
  case (reserve bs g t s)
  then have "tail_ok s" by (auto simp: tail_ok_def publish_reserve_def Let_def split: prod.splits)
  with reserve gc_rel_reserve show ?case by fastforce
next
  case (fill i g t bs)
  then have "tail_ok (publish_fill t bs (gc_sh g))" by (auto simp: tail_ok_def publish_fill_def)
  with fill gc_rel_fill show ?case by fastforce
next
  case (publish i g t bs)
  then have "tail_ok (publish_ring t (gc_sh g))" by (auto simp: tail_ok_def publish_ring_def)
  with publish gc_rel_publish show ?case by fastforce
next
  case (enqueue i g t bs n s)
  then have "tail_ok s" by (auto simp: tail_ok_def publish_count_def)
  with enqueue gc_rel_enqueue show ?case by fastforce
next
  case (barrier target g)
  then have "tail_ok (flush_to_request target (gc_sh g))" by (auto simp: tail_ok_def flush_to_request_def)
  with barrier gc_rel_barrier show ?case by fastforce
next
  case (observe g)
  with gc_rel_observe show ?case by fastforce
next
  case (drain g)
  have "tail_ok (drain_and_maybe_sync (gc_rc g) (gc_sh g))" using drain by (auto simp: tail_ok_def drain_tail)
  moreover have "\<not> gc_half g" using drain.prems(3) by simp
  ultimately show ?case using gc_rel_drain [OF drain.prems(1) gc_relD(3) [OF drain.prems(1)]] by auto
next
  case (truncate g u s)
  have "tail_ok s" using truncate truncate_keeps [OF truncate.hyps(2)] by (simp add: tail_ok_def)
  moreover have "\<not> gc_half g" using truncate.prems(3) by simp
  ultimately show ?case using gc_rel_truncate [OF truncate.prems(1) truncate.hyps truncate.prems(2)] by auto
next
  case (truncate_failed g e s)
  have "tail_ok s" using truncate_failed truncate_keeps [OF truncate_failed.hyps(2)] by (simp add: tail_ok_def)
  moreover have "\<not> gc_half g" using truncate_failed.prems(3) by simp
  ultimately show ?case
    using gc_rel_truncate_failed [OF truncate_failed.prems(1) truncate_failed.hyps(2) truncate_failed.prems(2)] by auto
qed

lemma gc_step_inv:
  assumes "gc_step crc g g'" "gc_inv crc g"
  shows "gc_inv crc g'"
proof -
  have "(\<exists>f c. gc_rel crc g' f c) \<and> tail_ok (gc_sh g')" if late: "\<not> gc_late g'"
  proof -
    have "\<not> gc_late g" using gc_late_step [OF assms(1)] late by blast
    then show ?thesis using gc_step_rel [OF assms(1) _ _ late] assms(2) by (auto simp: gc_inv_def)
  qed
  then show ?thesis by (simp add: gc_inv_def)
qed

text \<open>A freshly opened journal.\<close>

definition gc_fresh :: "crc \<Rightarrow> Shared \<Rightarrow> bool" where
  "gc_fresh crc s =
    ((\<exists>n. sh_ring s = ring_with_capacity n) \<and> (\<exists>A B body. writer_rel crc (sh_writer s) A B body) \<and> w_pending (sh_writer s) = []
     \<and> tail_ok s \<and> (flushed s < record_base s \<or> flushed s = 0 \<and> drop FILE_HEADER_SIZE (d_os (w_disk (sh_writer s))) = []))"

lemma gc_inv_start:
  assumes "gc_fresh crc s"
  shows "gc_inv crc (gc_start s)"
proof -
  obtain n A B body where f: "sh_ring s = ring_with_capacity n" "writer_rel crc (sh_writer s) A B body"
    using assms by (auto simp: gc_fresh_def)
  have rel: "ring_rel (ring_view (gc_start s)) 0 0"
    using ring_rel_start [of n] f(1) by (simp add: ring_view_def gc_start_def rr_start_def)
  have "gc_rel crc (gc_start s) 0 0"
    by (rule gc_relI [OF rel])
       (use assms f writer_body [OF f(2)] in \<open>auto simp: gc_fresh_def gc_start_def gc_recs_def recs_def\<close>)
  then show ?thesis using assms by (auto simp: gc_inv_def gc_fresh_def gc_start_def)
qed

theorem gc_reachable_inv:
  assumes "gc_fresh crc s" "(gc_step crc)\<^sup>*\<^sup>* (gc_start s) g"
  shows "gc_inv crc g"
  using assms(2)
proof (induction rule: rtranclp_induct)
  case base
  then show ?case by (rule gc_inv_start [OF assms(1)])
qed (rule gc_step_inv)

section \<open>Durability\<close>

text \<open>Record \<open>i\<close> since the last truncation is on disk, with everything reserved before it.\<close>

definition on_disk_record :: "gc \<Rightarrow> nat \<Rightarrow> bool" where
  "on_disk_record g i = (\<exists>rest. synced_body (gc_sh g) = gc_old g @ concat (take (Suc i) (gc_recs g)) @ rest)"

theorem flushed_sound:
  assumes "gc_fresh crc s" "(gc_step crc)\<^sup>*\<^sup>* (gc_start s) g"
    and "record_base (gc_sh g) + gc_epoch g + i < flushed (gc_sh g)" "\<not> gc_late g"
  shows "on_disk_record g i"
proof -
  have nl: "\<not> flushed (gc_sh g) < record_base (gc_sh g)" using assms(3) by simp
  obtain f c where "gc_rel crc g f c" using gc_reachable_inv [OF assms(1,2)] assms(4) by (auto simp: gc_inv_def)
  from gc_relD(5) [OF this] obtain k rest where kr: "flushed (gc_sh g) \<le> record_base (gc_sh g) + gc_epoch g + k"
      "synced_body (gc_sh g) = gc_old g @ concat (take k (gc_recs g)) @ rest"
    using nl by blast
  then have k: "i < k" "synced_body (gc_sh g) = gc_old g @ concat (take k (gc_recs g)) @ rest" using assms(3) by simp_all
  have "take k (gc_recs g) = take (Suc i) (gc_recs g) @ take (k - Suc i) (drop (Suc i) (gc_recs g))"
    using k(1) by (metis Suc_leI le_add_diff_inverse take_add)
  then show ?thesis using k(2) by (auto simp: on_disk_record_def)
qed

section \<open>Acknowledgements\<close>

text \<open>The target of an acknowledgement is the number of submissions that were counted so far.\<close>

definition counted :: "gc \<Rightarrow> nat" where
  "counted g = length (filter (\<lambda>a. snd a \<noteq> None) (gc_apps g))"

lemma filter_update:
  "i < length xs \<Longrightarrow> \<not> P (xs ! i) \<Longrightarrow> length (filter P (xs[i := y])) = length (filter P xs) + (if P y then 1 else 0)"
proof (induction xs arbitrary: i)
  case (Cons x xs)
  then show ?case by (cases i) auto
qed simp

definition count_ok :: "gc \<Rightarrow> bool" where
  "count_ok g = (queued (gc_sh g) = record_base (gc_sh g) + gc_epoch g + counted g)"

lemma count_ok_step: "gc_step crc g g' \<Longrightarrow> count_ok g \<Longrightarrow> count_ok g' \<and> record_base (gc_sh g') = record_base (gc_sh g)"
proof (induction rule: gc_step.induct)
  case (truncate g u s)
  then have "counted g = length (gc_apps g)" by (simp add: counted_def filter_id_conv [THEN iffD2])
  then show ?case using truncate truncate_keeps [OF truncate(2)] by (simp add: count_ok_def counted_def)
next
  case (truncate_failed g e s)
  then show ?case using truncate_keeps [OF truncate_failed(2)] by (simp add: count_ok_def counted_def)
qed (auto simp: count_ok_def counted_def filter_update publish_reserve_def publish_fill_def publish_ring_def publish_count_def
    flush_to_request_def drain_counts Let_def split: prod.splits)

text \<open>Writers that hold a lock from reservation to count, as the attached-stream guard does, leave at most the last
  append uncounted.\<close>

definition serial :: "gc \<Rightarrow> bool" where
  "serial g = (\<forall>i. Suc i < length (gc_apps g) \<longrightarrow> snd (gc_apps g ! i) \<noteq> None)"

definition serial_step :: "crc \<Rightarrow> gc \<Rightarrow> gc \<Rightarrow> bool" where
  "serial_step crc g g' = (gc_step crc g g' \<and> serial g')"

definition targets_ok :: "gc \<Rightarrow> bool" where
  "targets_ok g = (\<forall>i n. i < length (gc_apps g) \<and> snd (gc_apps g ! i) = Some n \<longrightarrow>
     n = record_base (gc_sh g) + gc_epoch g + i + 1)"

lemma serial_counted:
  assumes "serial g" "i < length (gc_apps g)" "snd (gc_apps g ! i) = None"
  shows "counted g = i" "length (gc_apps g) = Suc i"
proof -
  show l: "length (gc_apps g) = Suc i"
    using assms by (cases "Suc i < length (gc_apps g)") (auto simp: serial_def)
  have e: "gc_apps g = take i (gc_apps g) @ [gc_apps g ! i]"
    using l take_Suc_conv_app_nth [of i "gc_apps g"] by simp
  have all: "a \<in> set (take i (gc_apps g)) \<Longrightarrow> snd a \<noteq> None" for a
    using assms(1) l by (force simp: serial_def in_set_conv_nth)
  have f: "filter (\<lambda>a. snd a \<noteq> None) (take i (gc_apps g)) = take i (gc_apps g)"
    by (rule filter_True) (use all in blast)
  have "filter (\<lambda>a. snd a \<noteq> None) (gc_apps g) = filter (\<lambda>a. snd a \<noteq> None) (take i (gc_apps g) @ [gc_apps g ! i])"
    using e by (rule arg_cong)
  also have "\<dots> = take i (gc_apps g)" unfolding filter_append f using assms(3) by simp
  finally show "counted g = i" using l by (simp add: counted_def)
qed

lemma targets_ok_step:
  assumes "gc_step crc g g'" "serial g" "count_ok g" "targets_ok g"
  shows "targets_ok g'"
  using assms
proof (induction rule: gc_step.induct)
  case (enqueue i g t bs n s)
  have "counted g = i" using serial_counted [OF enqueue(4)] enqueue(1,2) by simp
  then have "n = record_base (gc_sh g) + gc_epoch g + i + 1" using enqueue(3,5) by (auto simp: publish_count_def count_ok_def)
  moreover have "record_base s = record_base (gc_sh g)" using enqueue(3) by (auto simp: publish_count_def)
  ultimately show ?case using enqueue(1,6) by (auto simp: targets_ok_def nth_list_update)
next
  case (truncate g u s)
  then show ?case by (simp add: targets_ok_def)
next
  case (truncate_failed g e s)
  then show ?case using truncate_keeps [OF truncate_failed(2)] by (simp add: targets_ok_def)
qed (auto simp: targets_ok_def publish_reserve_def publish_fill_def publish_ring_def flush_to_request_def drain_counts Let_def
    nth_list_update nth_append less_Suc_eq split: prod.splits if_splits)

lemma serial_reachable:
  assumes "(serial_step crc)\<^sup>*\<^sup>* (gc_start s) g" "queued s = record_base s"
  shows "(gc_step crc)\<^sup>*\<^sup>* (gc_start s) g \<and> serial g \<and> count_ok g \<and> targets_ok g"
  using assms(1)
proof (induction rule: rtranclp_induct)
  case base
  then show ?case using assms(2) by (simp add: serial_def count_ok_def counted_def targets_ok_def gc_start_def)
next
  case (step y z)
  then have "gc_step crc y z" "serial z" by (simp_all add: serial_step_def)
  then show ?case using step.IH count_ok_step targets_ok_step by (meson rtranclp.rtrancl_into_rtrancl)
qed

theorem serial_ack_durable:
  assumes "gc_fresh crc s" "queued s = record_base s" "(serial_step crc)\<^sup>*\<^sup>* (gc_start s) g"
    and "i < length (gc_apps g)" "snd (gc_apps g ! i) = Some n" "flush_to_poll n (gc_sh g) = Some (Inr ())"
    and "\<not> gc_late g"
  shows "on_disk_record g i"
proof -
  note r = serial_reachable [OF assms(3,2)]
  have n: "n = record_base (gc_sh g) + gc_epoch g + i + 1" using r assms(4,5) by (auto simp: targets_ok_def)
  have "n \<le> flushed (gc_sh g)" using assms(6) by (auto simp: flush_to_poll_def split: option.splits if_splits)
  then show ?thesis using flushed_sound [OF assms(1), of g i] r n assms(7) by simp
qed

text \<open>Ordinary writers hold no such lock.  Three of them reserve a byte each; the first publishes but is not counted
  yet, the third publishes and is counted first, so it takes the first target.  The flusher syncs the first record and
  the third is acknowledged, with neither its own bytes nor those of the second on disk.\<close>

definition ticket :: "nat \<Rightarrow> nat \<Rightarrow> ReserveTicket" where
  "ticket a b = \<lparr> t_start = a, t_end = b \<rparr>"

definition overtaken :: "WalRing \<Rightarrow> WalRing" where
  "overtaken r = ring_publish (ticket 2 3) (ring_fill (ticket 2 3) [3] (ring_publish (ticket 0 1)
     (ring_fill (ticket 0 1) [1] (r\<lparr> r_tail := 3 \<rparr>))))"

lemma new_ring:
  fixes n defines "r \<equiv> ring_with_capacity n"
  shows "64 \<le> r_capacity r" "length (r_buf r) = r_capacity r" "r_tail r = 0" "committed_addr r = 0" "committed_records r = 0"
    "flush_cursor r = 0" "adv_pending (r_advance r) = []" "adv_count (r_advance r) = 0"
  using next_power_of_two_ge [of "max n 64"] by (simp_all add: r_def ring_with_capacity_def Let_def)

lemma overtaken_ring:
  fixes n defines "r \<equiv> overtaken (ring_with_capacity n)"
  shows "committed_records r = 1" "committed_addr r = 1" "flush_cursor r = 0" "fst (copy_committed_prefix r) = [[1]]"
proof -
  let ?r = "ring_with_capacity n"
  note new = new_ring [of n]
  have sh: "ring_shape (?r\<lparr> r_tail := 3 \<rparr>)" using ring_shape_new [of n] by (simp add: ring_shape_def)
  have m: "Bit_Operations.and 2 (r_mask ?r) = 2"
    using and_ring_mask [OF ring_shape_new, of 2 n] new(1) by simp
  have c: "r_capacity ?r \<noteq> 0" "0 < length (r_buf ?r)" "2 < length (r_buf ?r)" using new(1,2) by linarith+
  show 1: "committed_records r = 1" "committed_addr r = 1" "flush_cursor r = 0"
    using new by (simp_all add: r_def overtaken_def ticket_def ring_publish_def ring_fill_def Let_def fold_pending.simps split: prod.split)
  have b: "r_buf r = patch_at (patch_at (r_buf ?r) 0 [1]) 2 [3]" "r_mask r = r_mask ?r"
    using new m c by (simp_all add: r_def overtaken_def ticket_def ring_publish_def ring_fill_def Let_def fold_pending.simps patch_at_def split: prod.split)
  obtain x y z zs where "r_buf ?r = x # y # z # zs"
    using c(3) by (cases "r_buf ?r"; cases "tl (r_buf ?r)"; cases "tl (tl (r_buf ?r))") auto
  then show "fst (copy_committed_prefix r) = [[1]]"
    using 1 b by (simp add: copy_committed_prefix_def Let_def patch_at_def sub_def)
qed

definition at_ring :: "Shared \<Rightarrow> WalRing \<Rightarrow> (append \<times> nat option) list \<Rightarrow> gc" where
  "at_ring s r as = (gc_start s)\<lparr> gc_sh := s\<lparr> sh_ring := r \<rparr>, gc_apps := as \<rparr>"

lemma at_ring_start: "gc_start s = at_ring s (sh_ring s) []"
  by (simp add: at_ring_def gc_start_def)

lemma at_ring_reserve:
  assumes "sticky_err s = None" "bs \<noteq> []" "length bs \<le> r_capacity r"
  shows "gc_step crc (at_ring s r as)
    (at_ring s (r\<lparr> r_tail := r_tail r + length bs \<rparr>) (as @ [((ticket (r_tail r) (r_tail r + length bs), bs, Reserved), None)]))"
  using gc_step.reserve [of bs "at_ring s r as" "ticket (r_tail r) (r_tail r + length bs)" "s\<lparr> sh_ring := r\<lparr> r_tail := r_tail r + length bs \<rparr> \<rparr>" crc] assms
  by (simp add: at_ring_def preflight_record_len_def publish_reserve_def ring_reserve_def ticket_def)

lemma at_ring_fill:
  assumes "i < length as" "as ! i = ((t, bs, Reserved), None)" "t_end t \<le> r_capacity r"
  shows "gc_step crc (at_ring s r as) (at_ring s (ring_fill t bs r) (as[i := ((t, bs, Filled), None)]))"
  using gc_step.fill [of i "at_ring s r as" t bs crc] assms
  by (simp add: at_ring_def publish_fill_def ring_space_poll_def reserve_space_ready_def trans_le_add2)

lemma at_ring_publish:
  assumes "i < length as" "as ! i = ((t, bs, Filled), None)"
  shows "gc_step crc (at_ring s r as) (at_ring s (ring_publish t r) (as[i := ((t, bs, Published), None)]))"
  using gc_step.publish [of i "at_ring s r as" t bs crc] assms by (simp add: at_ring_def publish_ring_def)

definition overtaken_apps :: "nat option \<Rightarrow> (append \<times> nat option) list" where
  "overtaken_apps n = [((ticket 0 1, [1], Published), None), ((ticket 1 2, [2], Reserved), None), ((ticket 2 3, [3], Published), n)]"

lemma reserve_three:
  fixes c defines "r \<equiv> ring_with_capacity c"
  assumes "sticky_err s = None"
  shows "(gc_step crc)\<^sup>*\<^sup>* (at_ring s r []) (at_ring s (r\<lparr> r_tail := 3 \<rparr>)
    [((ticket 0 1, [1], Reserved), None), ((ticket 1 2, [2], Reserved), None), ((ticket 2 3, [3], Reserved), None)])"
proof -
  note new = new_ring [of c, folded r_def]
  have "gc_step crc (at_ring s r []) (at_ring s (r\<lparr> r_tail := 1 \<rparr>) [((ticket 0 1, [1], Reserved), None)])"
    using at_ring_reserve [of s "[1]" r crc "[]"] assms(2) new by simp
  moreover have "gc_step crc (at_ring s (r\<lparr> r_tail := 1 \<rparr>) [((ticket 0 1, [1], Reserved), None)])
      (at_ring s (r\<lparr> r_tail := 2 \<rparr>) [((ticket 0 1, [1], Reserved), None), ((ticket 1 2, [2], Reserved), None)])"
    using at_ring_reserve [of s "[2]" "r\<lparr> r_tail := 1 \<rparr>" crc "[((ticket 0 1, [1], Reserved), None)]"] assms(2) new by (simp add: numeral_2_eq_2)
  moreover have "gc_step crc (at_ring s (r\<lparr> r_tail := 2 \<rparr>) [((ticket 0 1, [1], Reserved), None), ((ticket 1 2, [2], Reserved), None)])
      (at_ring s (r\<lparr> r_tail := 3 \<rparr>) [((ticket 0 1, [1], Reserved), None), ((ticket 1 2, [2], Reserved), None), ((ticket 2 3, [3], Reserved), None)])"
    using at_ring_reserve [of s "[3]" "r\<lparr> r_tail := 2 \<rparr>" crc "[((ticket 0 1, [1], Reserved), None), ((ticket 1 2, [2], Reserved), None)]"] assms(2) new by simp
  ultimately show ?thesis by (meson rtranclp.rtrancl_into_rtrancl r_into_rtranclp)
qed

lemma overtake:
  fixes c defines "r \<equiv> ring_with_capacity c"
  assumes "sticky_err s = None"
  shows "(gc_step crc)\<^sup>*\<^sup>* (at_ring s r []) (at_ring s (overtaken r) (overtaken_apps None))"
proof -
  note new = new_ring [of c, folded r_def]
  let ?a = "\<lambda>p q. [((ticket 0 1, [1], p), None), ((ticket 1 2, [2], Reserved), None), ((ticket 2 3, [3], q), None)]"
  let ?r1 = "ring_fill (ticket 0 1) [1] (r\<lparr> r_tail := 3 \<rparr>)"
  let ?r2 = "ring_publish (ticket 0 1) ?r1"
  let ?r3 = "ring_fill (ticket 2 3) [3] ?r2"
  have c: "r_capacity ?r2 = r_capacity r" by (simp add: ring_fill_def ring_publish_def Let_def split: prod.split)
  have 1: "gc_step crc (at_ring s (r\<lparr> r_tail := 3 \<rparr>) (?a Reserved Reserved)) (at_ring s ?r1 (?a Filled Reserved))"
    using at_ring_fill [of 0 "?a Reserved Reserved" "ticket 0 1" "[1]" "r\<lparr> r_tail := 3 \<rparr>" crc s] new by (simp add: ticket_def)
  have 2: "gc_step crc (at_ring s ?r1 (?a Filled Reserved)) (at_ring s ?r2 (?a Published Reserved))"
    using at_ring_publish [of 0 "?a Filled Reserved" "ticket 0 1" "[1]" crc s ?r1] by simp
  have 3: "gc_step crc (at_ring s ?r2 (?a Published Reserved)) (at_ring s ?r3 (?a Published Filled))"
    using at_ring_fill [of 2 "?a Published Reserved" "ticket 2 3" "[3]" ?r2 crc s] new c by (simp add: ticket_def)
  have 4: "gc_step crc (at_ring s ?r3 (?a Published Filled)) (at_ring s (overtaken r) (?a Published Published))"
    using at_ring_publish [of 2 "?a Published Filled" "ticket 2 3" "[3]" crc s ?r3] by (simp add: overtaken_def)
  show ?thesis using reserve_three [OF assms(2), of crc c, folded r_def] 1 2 3 4
    unfolding overtaken_apps_def by (meson rtranclp.rtrancl_into_rtrancl)
qed

text \<open>With no request failing, the flusher's pass over that ring syncs exactly one byte more.\<close>

lemma sync_one:
  assumes "w_pending w = []" "d_plan (w_disk w) = []"
  shows "\<exists>w1 w2. sink_all [[b]] w = (True, w1) \<and> wal_flush w1 = (Inr (), w2) \<and> d_synced (w_disk w2) = d_os (w_disk w) @ [b]"
  using assms
  by (simp add: append_encoded_def maybe_drain_def AUTO_FLUSH_THRESHOLD_def wal_flush_def drain_to_os_def wseq_def wset_def on_disk_def
      write_end_def write_at_def sync_data_def patch_at_def)

lemma drain_overtaken:
  assumes "sticky_err s = None" "w_pending (sh_writer s) = []" "d_plan (w_disk (sh_writer s)) = []"
    and "sh_ring s = overtaken (ring_with_capacity c)" "sync_target s = record_base s + 1" "flushed s \<le> record_base s"
  shows "flushed (drain_and_maybe_sync 1 s) = record_base s + 1 \<and> sticky_err (drain_and_maybe_sync 1 s) = None
    \<and> d_synced (w_disk (sh_writer (drain_and_maybe_sync 1 s))) = d_os (w_disk (sh_writer s)) @ [1]"
proof -
  obtain w1 w2 where w: "sink_all [[1]] (sh_writer s) = (True, w1)" "wal_flush w1 = (Inr (), w2)"
      "d_synced (w_disk w2) = d_os (w_disk (sh_writer s)) @ [1]"
    using sync_one [OF assms(2,3), of 1] by blast
  obtain r where "copy_committed_prefix (sh_ring s) = ([[1]], r)"
    using overtaken_ring(4) [of c] assms(4) by (metis prod.collapse)
  then show ?thesis using w assms by (simp add: drain_and_maybe_sync_def Let_def del: sink_all.simps)
qed

theorem overtaking_ack_not_durable:
  assumes "gc_fresh crc s" "sticky_err s = None" "d_plan (w_disk (sh_writer s)) = []"
    and "queued s = record_base s" "flushed s \<le> record_base s" "sync_target s = 0"
  shows "\<exists>g n. (gc_step crc)\<^sup>*\<^sup>* (gc_start s) g \<and> snd (gc_apps g ! 2) = Some n \<and> flush_to_poll n (gc_sh g) = Some (Inr ())
    \<and> length (gc_apps g) = 3 \<and> \<not> on_disk_record g 1 \<and> \<not> on_disk_record g 2"
proof -
  obtain c where c: "sh_ring s = ring_with_capacity c" using assms(1) by (auto simp: gc_fresh_def)
  let ?n = "record_base s + 1"
  let ?s2 = "s\<lparr> sh_ring := overtaken (sh_ring s), queued := ?n, appends_n := appends_n s + 1 \<rparr>"
  let ?s3 = "?s2\<lparr> sync_target := ?n \<rparr>"
  define g1 where "g1 = at_ring s (overtaken (sh_ring s)) (overtaken_apps None)"
  define g2 where "g2 = g1\<lparr> gc_sh := ?s2, gc_apps := overtaken_apps (Some ?n) \<rparr>"
  define g3 where "g3 = g2\<lparr> gc_sh := ?s3 \<rparr>"
  define g4 where "g4 = g3\<lparr> gc_rc := 1 \<rparr>"
  define g5 where "g5 = g4\<lparr> gc_sh := drain_and_maybe_sync 1 ?s3, gc_out := [1] \<rparr>"
  note ov = overtaken_ring [of c, folded c]
  have "gc_step crc g1 g2"
    using gc_step.enqueue [of 2 g1 "ticket 2 3" "[3]" ?n ?s2 crc] assms(4)
    by (simp add: g1_def g2_def at_ring_def overtaken_apps_def publish_count_def)
  moreover have "gc_step crc g2 g3"
    using gc_step.barrier [of ?n g2 crc] assms(5,6) by (simp add: g2_def g3_def flush_to_request_def)
  moreover have "gc_step crc g3 g4" using gc_step.observe [of crc g3] ov(1) by (simp add: g2_def g3_def g4_def)
  moreover have "gc_step crc g4 g5"
    using gc_step.drain [of crc g4] assms(2) ov(4) by (simp add: drained_out_def g1_def g2_def g3_def g4_def g5_def at_ring_def gc_start_def)
  ultimately have run: "(gc_step crc)\<^sup>*\<^sup>* (gc_start s) g5"
    using overtake [OF assms(2), of crc c, folded c] unfolding at_ring_start g1_def [symmetric]
    by (meson rtranclp.rtrancl_into_rtrancl)
  have p: "w_pending (sh_writer s) = []" using assms(1) by (simp add: gc_fresh_def)
  have "flushed (gc_sh g5) = ?n \<and> sticky_err (gc_sh g5) = None \<and> d_synced (w_disk (sh_writer (gc_sh g5))) = d_os (w_disk (sh_writer s)) @ [1]"
    using drain_overtaken [of ?s3 c] assms p c by (simp add: g5_def)
  then have ack: "flush_to_poll ?n (gc_sh g5) = Some (Inr ())" "length (synced_body (gc_sh g5)) \<le> length (gc_old g5) + 1"
    by (simp_all add: flush_to_poll_def synced_body_def g1_def g2_def g3_def g4_def g5_def at_ring_def gc_start_def)
  have app: "gc_apps g5 = overtaken_apps (Some ?n)" by (simp add: g2_def g3_def g4_def g5_def)
  have "gc_recs g5 = [[1], [2], [3]]" by (simp add: gc_recs_def recs_def app overtaken_apps_def)
  then have "\<not> on_disk_record g5 1 \<and> \<not> on_disk_record g5 2" using ack(2) by (auto simp: on_disk_record_def numeral_2_eq_2)
  then show ?thesis using run ack(1) app by (auto simp: overtaken_apps_def)
qed

end
