(* ===== verification/Commit_Recovery.thy ===== *)
theory Commit_Recovery
  imports Commit_Safety
begin

text \<open>The commit path end to end: whatever the interleaving, the synced file is a header and a cut of the record
  stream, so a replay after a power loss sees a prefix of the appended records, and an acknowledged record is in it.\<close>

section \<open>What the disk holds\<close>

definition sync_rel :: "crc \<Rightarrow> gc \<Rightarrow> bool" where
  "sync_rel crc g =
    (let w = sh_writer (gc_sh g) in
     \<exists>A B m. slots_ok crc (w_header w) A B
       \<and> d_synced (w_disk w) = header_page (header_base (w_header w)) A B @ take m (gc_old g @ concat (gc_recs g)))"

lemma sink_header: "w_header (snd (sink_all cs w)) = w_header w"
proof (induction cs arbitrary: w)
  case (Cons c cs)
  then show ?case using append_header [of c w] by (auto split: prod.splits sum.splits)
qed simp

lemma drain_sync_header: "w_header (sh_writer (drain_and_maybe_sync rc s)) = w_header (sh_writer s)"
proof -
  obtain cs r where cp: "copy_committed_prefix (sh_ring s) = (cs, r)" by (cases "copy_committed_prefix (sh_ring s)")
  obtain ok w where sk: "sink_all cs (sh_writer s) = (ok, w)" by (cases "sink_all cs (sh_writer s)")
  have "w_header w = w_header (sh_writer s)" using sink_header [of cs "sh_writer s"] sk by simp
  moreover have "w_header (snd (wal_flush w)) = w_header w" by (rule flush_header)
  ultimately show ?thesis
    using cp sk by (cases "wal_flush w"; cases "fst (wal_flush w)") (simp_all add: drain_and_maybe_sync_def Let_def set_err_def)
qed

text \<open>A flusher pass leaves the synced image alone, or makes it the whole stream it has seen.\<close>

lemma drain_sync_image:
  assumes "sticky_err s = None" "writer_rel crc (sh_writer s) A B body" "body @ w_pending (sh_writer s) = stream"
  shows "d_synced (w_disk (sh_writer (drain_and_maybe_sync rc s))) = d_synced (w_disk (sh_writer s))
    \<or> d_synced (w_disk (sh_writer (drain_and_maybe_sync rc s))) =
      header_page (header_base (w_header (sh_writer s))) A B @ stream @ concat (fst (copy_committed_prefix (sh_ring s)))"
proof -
  obtain cs r where cp: "copy_committed_prefix (sh_ring s) = (cs, r)" by (cases "copy_committed_prefix (sh_ring s)")
  obtain ok w where sk: "sink_all cs (sh_writer s) = (ok, w)" by (cases "sink_all cs (sh_writer s)")
  have sy: "d_synced (w_disk w) = d_synced (w_disk (sh_writer s))" using sink_synced [of cs "sh_writer s"] sk by simp
  have hd: "w_header w = w_header (sh_writer s)" using sink_header [of cs "sh_writer s"] sk by simp
  obtain res w' where fl: "wal_flush w = (res, w')" by (cases "wal_flush w")
  have "d_synced (w_disk w') = d_synced (w_disk w) \<or>
      d_synced (w_disk w') = header_page (header_base (w_header (sh_writer s))) A B @ stream @ concat cs" if all_ok: ok
  proof (cases res)
    case (Inl e)
    then show ?thesis using flush_fail_synced fl by blast
  next
    case (Inr u)
    obtain b where b: "writer_rel crc w A B b" "b @ w_pending w = stream @ concat cs"
      using sink_outcome [OF assms(2), of cs w] sk all_ok assms(3) [symmetric] by auto
    have "writer_rel crc w' A B (b @ w_pending w) \<and> w_header w' = w_header w \<and> d_synced (w_disk w') = d_os (w_disk w')"
      using flush_outcome [OF b(1)] fl Inr by blast
    then show ?thesis using b(2) hd by (simp add: writer_rel_def)
  qed
  then show ?thesis using assms(1) cp sk sy fl by (auto simp: drain_and_maybe_sync_def Let_def set_err_def split: sum.splits)
qed

section \<open>Preservation\<close>

lemma take_append_prefix: "\<exists>m'. take m xs = take m' (xs @ ys)"
proof
  show "take m xs = take (min m (length xs)) (xs @ ys)" by (cases "m \<le> length xs") simp_all
qed

lemma sync_relI:
  assumes "slots_ok crc (w_header (sh_writer (gc_sh g))) A B"
    and "d_synced (w_disk (sh_writer (gc_sh g))) =
      header_page (header_base (w_header (sh_writer (gc_sh g)))) A B @ take m (gc_old g @ concat (gc_recs g))"
  shows "sync_rel crc g"
  using assms unfolding sync_rel_def Let_def by blast

lemma sync_rel_writer:
  assumes "sync_rel crc g" "sh_writer (gc_sh g') = sh_writer (gc_sh g)" "gc_old g' = gc_old g" "gc_recs g' = gc_recs g @ more_recs"
  shows "sync_rel crc g'"
proof -
  obtain A B m where s: "slots_ok crc (w_header (sh_writer (gc_sh g))) A B"
      "d_synced (w_disk (sh_writer (gc_sh g))) =
        header_page (header_base (w_header (sh_writer (gc_sh g)))) A B @ take m (gc_old g @ concat (gc_recs g))"
    using assms(1) by (auto simp: sync_rel_def Let_def)
  obtain m' where "take m (gc_old g @ concat (gc_recs g)) = take m' ((gc_old g @ concat (gc_recs g)) @ concat more_recs)"
    using take_append_prefix by blast
  then show ?thesis by (intro sync_relI [of _ _ A B m']) (use s assms in simp_all)
qed

lemma recs_kept: "i < length xs \<Longrightarrow> fst (snd (fst y)) = fst (snd (fst (xs ! i))) \<Longrightarrow> recs (map fst (xs[i := y])) = recs (map fst xs)"
  by (simp add: recs_def list_eq_iff_nth_eq nth_list_update case_prod_beta)

lemma sync_rel_drain:
  assumes R: "gc_rel crc g f c" and "sync_rel crc g" "\<not> gc_half g"
  shows "sync_rel crc (g\<lparr> gc_sh := drain_and_maybe_sync rc (gc_sh g), gc_out := drained_out g \<rparr>)"
proof (cases "sticky_err (gc_sh g) = None")
  case False
  then show ?thesis using assms(2) by (simp add: sync_rel_def drain_and_maybe_sync_def gc_recs_def)
next
  case True
  obtain A B body where w: "writer_rel crc (sh_writer (gc_sh g)) A B body"
      "body @ w_pending (sh_writer (gc_sh g)) = gc_old g @ gc_out g"
    using gc_relD(2) [OF R True assms(3)] by blast
  let ?cs = "concat (fst (copy_committed_prefix (sh_ring (gc_sh g))))"
  obtain f' where "gc_rel crc (g\<lparr> gc_sh := drain_and_maybe_sync 0 (gc_sh g), gc_out := gc_out g @ ?cs \<rparr>) f' c"
    using gc_rel_drain [OF R _ assms(3), of 0] True by (auto simp: drained_out_def)
  from ring_rel_facts(12) [OF gc_relD(1) [OF this]] have "gc_out g @ ?cs = concat (take f' (gc_recs g))"
    by (simp add: ring_view_def gc_recs_def)
  then have o: "(gc_old g @ gc_out g) @ ?cs = take (length (gc_old g) + length (gc_out g @ ?cs)) (gc_old g @ concat (gc_recs g))"
    using append_take_drop_id [of f' "gc_recs g"] by (metis append.assoc append_eq_conv_conj concat_append length_append)
  show ?thesis
    using drain_sync_image [OF True w, of rc]
  proof
    assume "d_synced (w_disk (sh_writer (drain_and_maybe_sync rc (gc_sh g)))) = d_synced (w_disk (sh_writer (gc_sh g)))"
    then show ?thesis using assms(2) drain_sync_header [of rc "gc_sh g"] by (simp add: sync_rel_def Let_def gc_recs_def)
  next
    assume "d_synced (w_disk (sh_writer (drain_and_maybe_sync rc (gc_sh g)))) =
      header_page (header_base (w_header (sh_writer (gc_sh g)))) A B @ (gc_old g @ gc_out g) @ ?cs"
    moreover have "slots_ok crc (w_header (sh_writer (gc_sh g))) A B" using w(1) by (simp add: writer_rel_def)
    ultimately show ?thesis unfolding o
      by (intro sync_relI [of _ _ A B "length (gc_old g) + length (gc_out g @ ?cs)"]) (use drain_sync_header [of rc "gc_sh g"] in \<open>simp_all add: gc_recs_def\<close>)
  qed
qed

lemma sync_rel_truncate:
  assumes R: "gc_rel crc g f c" and "flusher_truncate crc (gc_sh g) = (Inr u, s)" and ok: "tail_ok (gc_sh g)" and nh: "\<not> gc_half g"
  shows "sync_rel crc (g\<lparr> gc_sh := s, gc_apps := [], gc_out := [], gc_old := [], gc_epoch := n \<rparr>)"
proof -
  define s1 where "s1 = drain_and_maybe_sync (committed_records (sh_ring (gc_sh g))) (gc_sh g)"
  have tr: "do_truncate crc s1 = (Inr u, s)" using assms(2) by (simp add: flusher_truncate_def s1_def)
  then have e1: "sticky_err s1 = None" by (auto simp: do_truncate_def split: option.splits)
  have e0: "sticky_err (gc_sh g) = None"
    using e1 by (cases "sticky_err (gc_sh g)") (auto simp: s1_def drain_and_maybe_sync_def)
  obtain A B body where w: "writer_rel crc (sh_writer s1) A B body"
    using drain_cases [OF e0] gc_relD(2) [OF R e0 nh] e1 unfolding s1_def by blast
  have ok': "\<forall>a. ts_tail (sh_tail s1) = Some a \<longrightarrow> anchor_ok a"
    using ok drain_tail by (simp add: tail_ok_def s1_def split: option.splits)
  obtain w' where w': "checkpoint_and_truncate crc (ts_tail (sh_tail s1)) (sh_writer s1) = (Inr (), w')" "sh_writer s = w'"
    using tr e1 by (auto simp: do_truncate_def on_writer_def Let_def split: prod.splits sum.splits)
  obtain A' B' where "writer_rel crc w' A' B' []" "d_synced (w_disk w') = d_os (w_disk w')"
    using checkpoint_outcome [OF w ok' w'(1)] by blast
  then show ?thesis by (intro sync_relI [of _ _ A' B' 0]) (use w'(2) in \<open>simp_all add: writer_rel_def\<close>)
qed

lemma sync_rel_truncate_failed:
  assumes R: "gc_rel crc g f c" and "sync_rel crc g" "flusher_truncate crc (gc_sh g) = (Inl e, s)" "tail_ok (gc_sh g)" "\<not> gc_half g"
  shows "sync_rel crc (g\<lparr> gc_sh := s, gc_out := drained_out g, gc_half := b \<rparr>)"
proof -
  define s1 where "s1 = drain_and_maybe_sync (committed_records (sh_ring (gc_sh g))) (gc_sh g)"
  let ?g1 = "g\<lparr> gc_sh := s1, gc_out := drained_out g \<rparr>"
  have y: "sync_rel crc ?g1" unfolding s1_def by (rule sync_rel_drain [OF R assms(2,5)])
  obtain f' where R1: "gc_rel crc ?g1 f' c" using gc_rel_drain [OF R order_refl assms(5)] by (auto simp: s1_def)
  have tr: "do_truncate crc s1 = (Inl e, s)" using assms(3) by (simp add: flusher_truncate_def s1_def)
  show ?thesis
  proof (cases "sticky_err s1 = None")
    case False
    then have "s = s1" using tr by (auto simp: do_truncate_def)
    then show ?thesis using y by (simp add: sync_rel_def gc_recs_def)
  next
    case True
    obtain A B body where w: "writer_rel crc (sh_writer s1) A B body" "body @ w_pending (sh_writer s1) = gc_old g @ drained_out g"
      using gc_relD(2) [OF R1] True assms(5) by auto
    obtain w' where w': "checkpoint_and_truncate crc (ts_tail (sh_tail s1)) (sh_writer s1) = (Inl e, w')" "s = s1\<lparr> sh_writer := w' \<rparr>"
      using tr True by (auto simp: do_truncate_def on_writer_def Let_def split: prod.splits sum.splits)
    have ok: "anchor_ok a" if "ts_tail (sh_tail s1) = Some a" for a
      using assms(4) that by (simp add: tail_ok_def s1_def drain_tail)
    have "drained_out g = concat (take f' (gc_recs g))"
      using ring_rel_facts(12) [OF gc_relD(1) [OF R1]] by (simp add: ring_view_def gc_recs_def)
    then have o: "gc_old g @ drained_out g = take (length (gc_old g) + length (drained_out g)) (gc_old g @ concat (gc_recs g))"
      using append_take_drop_id [of f' "gc_recs g"] by (metis append.assoc append_eq_conv_conj concat_append length_append)
    from checkpoint_failed [OF w(1) ok w'(1)] show ?thesis
    proof
      assume "w_header w' = w_header (sh_writer s1) \<and> d_synced (w_disk w') = d_synced (w_disk (sh_writer s1))"
      then show ?thesis using y w'(2) by (simp add: sync_rel_def Let_def gc_recs_def)
    next
      assume "synced_image crc w' (body @ w_pending (sh_writer s1))"
      then obtain A' B' where "slots_ok crc (w_header w') A' B'"
          "d_synced (w_disk w') = header_page (header_base (w_header w')) A' B' @ gc_old g @ drained_out g"
        using w(2) by (auto simp: synced_image_def)
      then show ?thesis unfolding o
        by (intro sync_relI [of _ _ A' B' "length (gc_old g) + length (drained_out g)"]) (use w'(2) in \<open>simp_all add: gc_recs_def\<close>)
    qed
  qed
qed

lemma sync_rel_late [simp]: "sync_rel crc (g\<lparr> gc_late := b \<rparr>) = sync_rel crc g"
  by (simp add: sync_rel_def gc_recs_def)

lemma gc_recs_append: "gc_recs (g\<lparr> gc_sh := s, gc_apps := gc_apps g @ [((t, bs, p), n)] \<rparr>) = gc_recs g @ [bs]"
  by (simp add: gc_recs_def recs_def)

lemma gc_recs_update:
  "i < length (gc_apps g) \<Longrightarrow> gc_apps g ! i = ((t, bs, p), n) \<Longrightarrow>
    gc_recs (g\<lparr> gc_sh := s, gc_apps := (gc_apps g)[i := ((t, bs, q), m)] \<rparr>) = gc_recs g"
  by (simp add: gc_recs_def recs_kept)

lemma sync_rel_step:
  "gc_step crc g g' \<Longrightarrow> gc_rel crc g f c \<Longrightarrow> tail_ok (gc_sh g) \<Longrightarrow> sync_rel crc g \<Longrightarrow> \<not> gc_late g' \<Longrightarrow> sync_rel crc g'"
proof (induction rule: gc_step.induct)
  case (reserve bs g t s)
  have "sh_writer s = sh_writer (gc_sh g)" using reserve(2) by (auto simp: publish_reserve_def split: prod.splits)
  then show ?case by (intro sync_rel_writer [OF reserve.prems(3) _ _ gc_recs_append]) simp_all
next
  case (fill i g t bs)
  then show ?case
    by (intro sync_rel_writer [OF fill.prems(3), where more_recs = "[]"]) (simp_all add: publish_fill_def gc_recs_update [OF fill(1,2)])
next
  case (publish i g t bs)
  then show ?case
    by (intro sync_rel_writer [OF publish.prems(3), where more_recs = "[]"]) (simp_all add: publish_ring_def gc_recs_update [OF publish(1,2)])
next
  case (enqueue i g t bs n s)
  then show ?case
    by (intro sync_rel_writer [OF enqueue.prems(3), where more_recs = "[]"]) (auto simp: publish_count_def gc_recs_update [OF enqueue(1,2)])
next
  case (barrier target g)
  then show ?case
    by (intro sync_rel_writer [OF barrier.prems(3), where more_recs = "[]"]) (simp_all add: flush_to_request_def gc_recs_def)
next
  case (observe g)
  then show ?case by (intro sync_rel_writer [OF observe.prems(3), where more_recs = "[]"]) (simp_all add: gc_recs_def)
next
  case (drain g)
  then have "\<not> gc_half g" by simp
  then show ?case using sync_rel_drain [OF drain.prems(1,3)] by simp
next
  case (truncate g u s)
  then have "\<not> gc_half g" by simp
  then show ?case using sync_rel_truncate [OF truncate.prems(1) truncate.hyps(2) truncate.prems(2)] by simp
next
  case (truncate_failed g e s)
  then have "\<not> gc_half g" by simp
  then show ?case using sync_rel_truncate_failed [OF truncate_failed.prems(1,3) truncate_failed.hyps(2) truncate_failed.prems(2)] by simp
qed

definition synced_start :: "crc \<Rightarrow> Shared \<Rightarrow> bool" where
  "synced_start crc s = (gc_fresh crc s \<and> queued s = record_base s \<and> d_synced (w_disk (sh_writer s)) = d_os (w_disk (sh_writer s)))"

lemma sync_rel_start:
  assumes "synced_start crc s"
  shows "sync_rel crc (gc_start s)"
proof -
  obtain A B body where w: "writer_rel crc (sh_writer s) A B body" using assms by (auto simp: synced_start_def gc_fresh_def)
  then show ?thesis
    using assms writer_body [OF w]
    by (intro sync_relI [of _ _ A B "length body"]) (simp_all add: writer_rel_def synced_start_def gc_start_def gc_recs_def recs_def)
qed

lemma sync_rel_reachable:
  assumes "synced_start crc s" "(gc_step crc)\<^sup>*\<^sup>* (gc_start s) g" "\<not> gc_late g"
  shows "sync_rel crc g"
  using assms(2,3)
proof (induction rule: rtranclp_induct)
  case base
  show ?case by (rule sync_rel_start [OF assms(1)])
next
  case (step y z)
  have l: "\<not> gc_late y" using gc_late_step step.hyps(2) step.prems by blast
  have "gc_inv crc y" using gc_reachable_inv [OF _ step.hyps(1)] assms(1) by (simp add: synced_start_def)
  then obtain f c where "gc_rel crc y f c" "tail_ok (gc_sh y)" using l by (auto simp: gc_inv_def)
  then show ?case using sync_rel_step [OF step.hyps(2)] step.IH [OF l] step.prems by blast
qed

section \<open>After a power loss\<close>

lemma complete_append: "complete (length (log_bytes as) + n) (as @ bs) = length as + complete n bs"
  by (induction as) (simp_all add: log_bytes_def)

lemma complete_ge:
  assumes "length (log_bytes (take j es)) \<le> n" "j \<le> length es"
  shows "j \<le> complete n es"
proof -
  have "complete (length (log_bytes (take j es)) + (n - length (log_bytes (take j es)))) (take j es @ drop j es) =
      length (take j es) + complete (n - length (log_bytes (take j es))) (drop j es)"
    by (rule complete_append)
  then show ?thesis using assms by (simp add: min_def)
qed

lemma log_bytes_concat: "log_bytes es = concat (map fst es)"
  by (simp add: log_bytes_def)

definition log_of :: "crc \<Rightarrow> gc \<Rightarrow> log_entry list \<Rightarrow> log_entry list \<Rightarrow> bool" where
  "log_of crc g old new =
    (gc_old g = log_bytes old \<and> gc_recs g = map fst new \<and> (\<forall>r \<in> set (old @ new). wal_rec crc r)
     \<and> mode_ok (w_header (sh_writer (gc_sh g))) (old @ new))"

definition ops_of :: "log_entry list \<Rightarrow> (WalOp \<times> u64) list" where
  "ops_of es = concat (map (\<lambda>(bs, op, sq). record_ops op sq) es)"

theorem power_loss_replay:
  assumes "synced_start crc s" "(gc_step crc)\<^sup>*\<^sup>* (gc_start s) g" "log_of crc g old new"
    and "j = 0 \<or> on_disk_record g (j - 1)" "j \<le> length new" "\<not> gc_late g"
  shows "\<exists>k stats. replay_bytes crc (d_synced (w_disk (sh_writer (gc_sh g)))) collect [] =
      (Inr (w_header (sh_writer (gc_sh g)), stats), ops_of (take k (old @ new))) \<and> (j = 0 \<or> length old + j \<le> k)"
proof -
  let ?w = "sh_writer (gc_sh g)"
  obtain A B m where sl: "slots_ok crc (w_header ?w) A B"
      "d_synced (w_disk ?w) = header_page (header_base (w_header ?w)) A B @ take m (gc_old g @ concat (gc_recs g))"
    using sync_rel_reachable [OF assms(1,2,6)] by (auto simp: sync_rel_def Let_def)
  let ?H = "header_page (header_base (w_header ?w)) A B"
  let ?n = "record_offset (w_header ?w) + m"
  have H: "header_image crc (w_header ?w) ?H" by (rule slots_ok_image [OF sl(1)])
  then have len: "length ?H = record_offset (w_header ?w)" by (simp add: header_image_def)
  have all: "gc_old g @ concat (gc_recs g) = log_bytes (old @ new)" using assms(3) by (simp add: log_of_def log_bytes_concat)
  have cut: "d_synced (w_disk ?w) = take ?n (?H @ log_bytes (old @ new))" using sl(2) len by (simp add: all)
  let ?k = "complete (?n - record_offset (w_header ?w)) (old @ new)"
  obtain stats where rp: "replay_bytes crc (d_synced (w_disk ?w)) collect [] =
      (Inr (w_header ?w, stats), ops_of (take ?k (old @ new)))"
    using replay_cut_log [OF H, of "old @ new" ?n] assms(3) unfolding cut log_of_def ops_of_def by auto
  have "length old + j \<le> ?k" if j: "j \<noteq> 0"
  proof (rule complete_ge)
    obtain i where i: "j = Suc i" using j by (cases j) auto
    then obtain rest where "synced_body (gc_sh g) = gc_old g @ concat (take j (gc_recs g)) @ rest"
      using assms(4) by (auto simp: on_disk_record_def)
    moreover have "synced_body (gc_sh g) = take m (log_bytes (old @ new))"
    proof -
      have "length ?H = FILE_HEADER_SIZE"
        using len sl(1) by (simp add: slots_ok_def record_offset_def FORMAT_VERSION_def LEGACY_FORMAT_VERSION_def)
      then show ?thesis using sl(2) by (simp add: synced_body_def all)
    qed
    ultimately have "length (gc_old g @ concat (take j (gc_recs g))) \<le> length (take m (log_bytes (old @ new)))" by simp
    moreover have "gc_old g @ concat (take j (gc_recs g)) = log_bytes (take (length old + j) (old @ new))"
      using assms(3) by (simp add: log_of_def log_bytes_concat take_map)
    ultimately show "length (log_bytes (take (length old + j) (old @ new))) \<le> ?n - record_offset (w_header ?w)" by simp
    show "length old + j \<le> length (old @ new)" using assms(5) by simp
  qed
  then have "j = 0 \<or> length old + j \<le> ?k" by blast
  with rp show ?thesis by blast
qed

theorem acked_survives:
  assumes "synced_start crc s" "(serial_step crc)\<^sup>*\<^sup>* (gc_start s) g" "log_of crc g old new"
    and "i < length (gc_apps g)" "snd (gc_apps g ! i) = Some n" "flush_to_poll n (gc_sh g) = Some (Inr ())"
    and "\<not> gc_late g"
  shows "\<exists>k stats. replay_bytes crc (d_synced (w_disk (sh_writer (gc_sh g)))) collect [] =
      (Inr (w_header (sh_writer (gc_sh g)), stats), ops_of (take k (old @ new))) \<and> length old + i < k"
proof -
  have s: "gc_fresh crc s" "queued s = record_base s" using assms(1) by (simp_all add: synced_start_def)
  note r = serial_reachable [OF assms(2) s(2)]
  have d: "on_disk_record g i" by (rule serial_ack_durable [OF s assms(2,4-7)])
  have "length (gc_recs g) = length new" using assms(3) by (simp add: log_of_def)
  then have "Suc i \<le> length new" using assms(4) by (simp add: gc_recs_def)
  then show ?thesis using power_loss_replay [OF assms(1) _ assms(3), of "Suc i"] r d assms(7) by (auto simp: Suc_le_eq)
qed

text \<open>A journal opened on a path that does not exist yet starts in such a state.\<close>

lemma empty_journal:
  assumes "header_image crc h H" "fh_checkpoint_anchor h = None"
  shows "validate_attached_journal crc H = Inr None"
proof -
  have o: "sr_open crc H = Inr (reader_at H [] h (length H))"
    using sr_open_log [OF assms(1), of "[]"] assms(1) by (simp add: header_image_def)
  have "for_records crc observe_body (reader_at H [] h (length H)) (ac_new None) =
      (Inr (Inr (ac_new None, reader_at H [] h (length H))) :: (unit + AttachedChain \<times> StreamingRecords) result)"
    using next_record_torn [OF torn_Nil, of crc H h] by (simp add: for_records.simps)
  then show ?thesis using o assms(2) by (simp add: validate_attached_journal_def reader_at_def ac_state_def ac_new_def)
qed

lemma created_journal:
  assumes "journal_open_or_create crc secs tree_id d = (Inr s, d')" "\<not> d_exists d"
  shows "synced_start crc s \<and> sticky_err s = None \<and> sync_target s = 0 \<and> record_base s = 0 \<and> flushed s = 0
    \<and> sh_ring s = ring_with_capacity RING_CAPACITY_BYTES \<and> w_header (sh_writer s) = file_header_now secs tree_id
    \<and> drop FILE_HEADER_SIZE (d_os (w_disk (sh_writer s))) = [] \<and> ts_tail (sh_tail s) = None"
proof -
  obtain w where w: "wal_create crc secs tree_id d = (Inr w, d')" "sh_writer s = w"
    using assms by (auto simp: journal_open_or_create_def wal_open_or_create_def Let_def split: prod.splits sum.splits)
  note c = created_writer [OF w(1)]
  let ?h = "file_header_now secs tree_id" and ?H = "header_page (header_base (w_header w)) (replicate 128 0) (replicate 128 0)"
  have "slots_ok crc (w_header w) (replicate 128 0) (replicate 128 0)" using c unfolding writer_rel_def by blast
  from slots_ok_image [OF this] have H: "header_image crc ?h ?H" using c by simp
  have os: "d_os (w_disk w) = ?H" using c by (simp add: writer_rel_def)
  have bw: "\<not> has_records w"
    using w(1) by (auto simp: has_records_def wal_create_def dseq_def Let_def write_at_def sync_data_def split: if_splits prod.splits io_outcome.splits)
  have v: "validate_attached_journal crc ?H = Inr None"
    using H by (rule empty_journal) (simp add: file_header_now_def)
  have s: "s = \<lparr> sh_ring = ring_with_capacity RING_CAPACITY_BYTES, sh_writer = w, record_base = 0, queued = 0,
                 written = 0, flushed = 0, checkpointed = 0, sync_target = 0, appends_n = 0, batches_n = 0,
                 syncs_n = 0, sticky_err = None, sh_fenced = False,
                 sh_tail = \<lparr> ts_checkpoint = None, ts_tail = None, ts_initializing = None, ts_scan_resume = None \<rparr> \<rparr>"
    using assms w v os bw
    by (auto simp: journal_open_or_create_def wal_open_or_create_def Let_def split: prod.splits sum.splits)
  have fresh: "gc_fresh crc s" unfolding gc_fresh_def tail_ok_def s using c writer_body [of crc w _ _ "[]"] by auto
  then show ?thesis using c writer_body [of crc w _ _ "[]"] by (auto simp: s synced_start_def)
qed

lemma journal_created:
  assumes "\<not> d_exists d" "d_plan d = []"
  shows "\<exists>s d'. journal_open_or_create crc secs tree_id d = (Inr s, d') \<and> d_plan (w_disk (sh_writer s)) = []"
proof -
  obtain w d' where w: "wal_create crc secs tree_id d = (Inr w, d')" "d_plan (w_disk w) = []"
    using assms by (simp add: wal_create_def dseq_def Let_def write_at_def sync_data_def)
  note c = created_writer [OF w(1)]
  have "slots_ok crc (w_header w) (replicate 128 0) (replicate 128 0)" using c unfolding writer_rel_def by blast
  from slots_ok_image [OF this] have "validate_attached_journal crc (d_os (w_disk w)) = Inr None"
    using c by (intro empty_journal [of _ "w_header w"]) (simp_all add: writer_rel_def file_header_now_def)
  then show ?thesis using assms(1) w by (simp add: journal_open_or_create_def wal_open_or_create_def Let_def)
qed

lemma new_ring_capacity: "n \<le> r_capacity (ring_with_capacity n)"
  using next_power_of_two_ge [of "max n 64"] by (simp add: ring_with_capacity_def Let_def)

section \<open>A single synchronous append\<close>

lemma append_succeeds:
  assumes "d_plan (w_disk w) = []"
  shows "\<exists>w'. append_encoded b w = (Inr (), w') \<and> d_plan (w_disk w') = []"
  using assms by (auto simp: append_encoded_def maybe_drain_def drain_to_os_def wop_defs)

lemma sink_succeeds: "d_plan (w_disk w) = [] \<Longrightarrow> \<exists>w'. sink_all cs w = (True, w') \<and> d_plan (w_disk w') = []"
proof (induction cs arbitrary: w)
  case (Cons c cs)
  obtain w1 where "append_encoded c w = (Inr (), w1)" "d_plan (w_disk w1) = []" using append_succeeds [OF Cons.prems] by blast
  then show ?case using Cons.IH by simp
qed simp

lemma flush_succeeds: "d_plan (w_disk w) = [] \<Longrightarrow> \<exists>w'. wal_flush w = (Inr (), w')"
  by (simp add: wal_flush_def drain_to_os_def wop_defs)

lemma drain_acks:
  assumes "sticky_err s = None" "d_plan (w_disk (sh_writer s)) = []" "sync_target s = record_base s + rc" "flushed s < sync_target s"
  shows "flush_to_poll (sync_target s) (drain_and_maybe_sync rc s) = Some (Inr ())"
proof -
  obtain cs r where cp: "copy_committed_prefix (sh_ring s) = (cs, r)" by (cases "copy_committed_prefix (sh_ring s)")
  obtain w where w: "sink_all cs (sh_writer s) = (True, w)" "d_plan (w_disk w) = []" using sink_succeeds [OF assms(2)] by blast
  obtain w' where "wal_flush w = (Inr (), w')" using flush_succeeds [OF w(2)] by blast
  then show ?thesis using cp w assms by (simp add: drain_and_maybe_sync_def Let_def flush_to_poll_def)
qed

lemma first_publish:
  assumes "bs \<noteq> []"
  shows "committed_records (ring_publish (ticket 0 (length bs)) (ring_fill (ticket 0 (length bs)) bs
    ((ring_with_capacity n)\<lparr> r_tail := length bs \<rparr>))) = 1"
  using assms new_ring [of n] by (simp add: ticket_def ring_publish_def ring_fill_def Let_def fold_pending.simps split: prod.split)

definition idle :: "Shared \<Rightarrow> bool" where
  "idle s = (sticky_err s = None \<and> sync_target s = 0 \<and> flushed s \<le> record_base s \<and> d_plan (w_disk (sh_writer s)) = [])"

theorem append_acked:
  assumes "synced_start crc s" "idle s" "bs \<noteq> []" "length bs \<le> r_capacity (sh_ring s)"
  shows "\<exists>g t. (serial_step crc)\<^sup>*\<^sup>* (gc_start s) g \<and> gc_apps g = [((t, bs, Published), Some (record_base s + 1))]
    \<and> gc_old g = gc_old (gc_start s) \<and> w_header (sh_writer (gc_sh g)) = w_header (sh_writer s)
    \<and> flush_to_poll (record_base s + 1) (gc_sh g) = Some (Inr ()) \<and> \<not> gc_late g"
proof -
  obtain c where c: "sh_ring s = ring_with_capacity c" using assms(1) by (auto simp: synced_start_def gc_fresh_def)
  let ?t = "ticket 0 (length bs)" and ?n = "record_base s + 1"
  let ?r1 = "(sh_ring s)\<lparr> r_tail := length bs \<rparr>"
  let ?r2 = "ring_fill ?t bs ?r1"
  let ?r3 = "ring_publish ?t ?r2"
  define s4 where "s4 = s\<lparr> sh_ring := ?r3, queued := ?n, appends_n := appends_n s + 1 \<rparr>"
  define s5 where "s5 = s4\<lparr> sync_target := ?n \<rparr>"
  define g3 where "g3 = at_ring s ?r3 [((?t, bs, Published), None)]"
  define g4 where "g4 = g3\<lparr> gc_sh := s4, gc_apps := [((?t, bs, Published), Some ?n)] \<rparr>"
  define g5 where "g5 = g4\<lparr> gc_sh := s5 \<rparr>"
  define g6 where "g6 = g5\<lparr> gc_rc := 1 \<rparr>"
  define g7 where "g7 = g6\<lparr> gc_sh := drain_and_maybe_sync 1 s5, gc_out := concat (fst (copy_committed_prefix ?r3)) \<rparr>"
  note i = assms(2) [unfolded idle_def]
  have q: "queued s = record_base s" using assms(1) by (simp add: synced_start_def)
  have 1: "gc_step crc (gc_start s) (at_ring s ?r1 [((?t, bs, Reserved), None)])"
    using at_ring_reserve [of s bs "sh_ring s" crc "[]"] i assms(3,4) new_ring(3) [of c] unfolding at_ring_start c by simp
  have 2: "gc_step crc (at_ring s ?r1 [((?t, bs, Reserved), None)]) (at_ring s ?r2 [((?t, bs, Filled), None)])"
    using at_ring_fill [of 0 "[((?t, bs, Reserved), None)]" ?t bs ?r1 crc s] assms(4) by (simp add: ticket_def)
  have 3: "gc_step crc (at_ring s ?r2 [((?t, bs, Filled), None)]) g3"
    using at_ring_publish [of 0 "[((?t, bs, Filled), None)]" ?t bs crc s ?r2] by (simp add: g3_def)
  have 4: "gc_step crc g3 g4"
    using gc_step.enqueue [of 0 g3 ?t bs ?n s4 crc] q by (simp add: g3_def g4_def s4_def at_ring_def publish_count_def)
  have 5: "gc_step crc g4 g5"
    using gc_step.barrier [of ?n g4 crc] i by (simp add: g4_def g5_def s4_def s5_def flush_to_request_def)
  have 6: "gc_step crc g5 g6"
    using gc_step.observe [of crc g5] first_publish [OF assms(3), of c] c by (simp add: g5_def g6_def s4_def s5_def)
  have 7: "gc_step crc g6 g7"
    using gc_step.drain [of crc g6] i by (simp add: drained_out_def g3_def g4_def g5_def g6_def g7_def s4_def s5_def at_ring_def gc_start_def)
  have one: "serial_step crc g g'" if "gc_step crc g g'" "length (gc_apps g') = 1" for g g'
    using that by (simp add: serial_def serial_step_def)
  have len: "length (gc_apps g3) = 1" "length (gc_apps g4) = 1" "length (gc_apps g5) = 1" "length (gc_apps g6) = 1"
      "length (gc_apps g7) = 1" "\<And>r x. length (gc_apps (at_ring s r [x])) = 1"
    by (simp_all add: g3_def g4_def g5_def g6_def g7_def at_ring_def)
  note steps = one [OF 1 len(6)] one [OF 2 len(6)] one [OF 3 len(1)] one [OF 4 len(2)] one [OF 5 len(3)] one [OF 6 len(4)] one [OF 7 len(5)]
  have "(serial_step crc)\<^sup>*\<^sup>* (gc_start s) g7"
    using steps by (meson r_into_rtranclp rtranclp.rtrancl_into_rtrancl)
  moreover have "flush_to_poll ?n (gc_sh g7) = Some (Inr ())"
    using drain_acks [of s5 1] i by (simp add: g7_def s5_def s4_def)
  moreover have "w_header (sh_writer (gc_sh g7)) = w_header (sh_writer s)"
    using drain_sync_header [of 1 s5] by (simp add: g7_def s5_def s4_def)
  moreover have "gc_apps g7 = [((?t, bs, Published), Some ?n)]" "gc_old g7 = gc_old (gc_start s)" "\<not> gc_late g7"
    by (simp_all add: g3_def g4_def g5_def g6_def g7_def at_ring_def gc_start_def)
  ultimately show ?thesis by blast
qed

section \<open>A truncation that fails half way\<close>

text \<open>A ring with nothing in flight, and a byte put through it.\<close>

definition quiet_ring :: "WalRing \<Rightarrow> nat \<Rightarrow> nat \<Rightarrow> bool" where
  "quiet_ring r a n = (ring_shape r \<and> r_tail r = a \<and> committed_addr r = a \<and> flush_cursor r = a \<and> adv_pending (r_advance r) = []
     \<and> adv_count (r_advance r) = n \<and> committed_records r = n \<and> a < r_capacity r)"

definition put_byte :: "nat \<Rightarrow> u8 \<Rightarrow> WalRing \<Rightarrow> WalRing" where
  "put_byte a b r = ring_publish (ticket a (a + 1)) (ring_fill (ticket a (a + 1)) [b] (r\<lparr> r_tail := a + 1 \<rparr>))"

lemma put_byte:
  assumes "quiet_ring r a n"
  shows "committed_records (put_byte a b r) = n + 1"
    "copy_committed_prefix (put_byte a b r) = ([[b]], (put_byte a b r)\<lparr> flush_cursor := a + 1 \<rparr>)"
    "a + 1 < r_capacity r \<Longrightarrow> quiet_ring ((put_byte a b r)\<lparr> flush_cursor := a + 1 \<rparr>) (a + 1) (n + 1)"
proof -
  have q: "ring_shape r" "r_tail r = a" "committed_addr r = a" "flush_cursor r = a" "adv_pending (r_advance r) = []"
      "adv_count (r_advance r) = n" "committed_records r = n" "a < r_capacity r" "length (r_buf r) = r_capacity r"
    using assms by (simp_all add: quiet_ring_def ring_shape_def)
  have m: "Bit_Operations.and a (r_mask r) = a" using and_ring_mask [OF q(1), of a] q(8) by simp
  have p: "put_byte a b r = r\<lparr> r_tail := a + 1, r_buf := patch_at (r_buf r) a [b],
      r_advance := (r_advance r)\<lparr> adv_pending := [], adv_count := n + 1 \<rparr>, committed_addr := a + 1, committed_records := n + 1 \<rparr>"
    using q m by (simp add: put_byte_def ring_publish_def ring_fill_def ticket_def fold_pending.simps Let_def min_def)
  have l: "length (patch_at (r_buf r) a [b]) = r_capacity r" "sub (patch_at (r_buf r) a [b]) a (a + 1) = [b]"
    using q(8,9) by (simp_all add: patch_at_def sub_def)
  have one: "Suc 0 \<le> r_capacity r - a" using q(8) by simp
  show "committed_records (put_byte a b r) = n + 1" by (simp add: p)
  show "copy_committed_prefix (put_byte a b r) = ([[b]], (put_byte a b r)\<lparr> flush_cursor := a + 1 \<rparr>)"
    using q m l one by (simp add: p copy_committed_prefix_def Let_def min_def)
  show "quiet_ring ((put_byte a b r)\<lparr> flush_cursor := a + 1 \<rparr>) (a + 1) (n + 1)" if "a + 1 < r_capacity r"
    using that q(1) l by (simp add: p quiet_ring_def ring_shape_def)
qed

text \<open>A synchronous append of one byte, up to the flusher's pass.\<close>

definition byte_counted :: "nat \<Rightarrow> u8 \<Rightarrow> Shared \<Rightarrow> Shared" where
  "byte_counted a b s = s\<lparr> sh_ring := put_byte a b (sh_ring s), queued := queued s + 1, appends_n := appends_n s + 1,
     sync_target := max (sync_target s) (queued s + 1) \<rparr>"

lemma byte_steps:
  assumes "sticky_err (gc_sh g) = None" "quiet_ring (sh_ring (gc_sh g)) a n" "flushed (gc_sh g) \<le> queued (gc_sh g)"
  shows "(gc_step crc)\<^sup>*\<^sup>* g (g\<lparr> gc_apps := gc_apps g @ [((ticket a (a + 1), [b], Published), Some (queued (gc_sh g) + 1))],
    gc_rc := n + 1, gc_sh := drain_and_maybe_sync (n + 1) (byte_counted a b (gc_sh g)), gc_out := gc_out g @ [b], gc_late := gc_late g \<or> gc_half g \<rparr>)"
proof -
  let ?s = "gc_sh g" and ?t = "ticket a (a + 1)" and ?n = "queued (gc_sh g) + 1" and ?l = "length (gc_apps g)"
  define r1 where "r1 = (sh_ring ?s)\<lparr> r_tail := a + 1 \<rparr>"
  define r2 where "r2 = ring_fill ?t [b] r1"
  define r3 where "r3 = put_byte a b (sh_ring ?s)"
  have q: "r_tail (sh_ring ?s) = a" "flush_cursor (sh_ring ?s) = a" "0 < r_capacity (sh_ring ?s)"
    using assms(2) by (auto simp: quiet_ring_def)
  note pb = put_byte [OF assms(2), of b, folded r3_def]
  define g1 where "g1 = g\<lparr> gc_sh := ?s\<lparr> sh_ring := r1 \<rparr>, gc_apps := gc_apps g @ [((?t, [b], Reserved), None)] \<rparr>"
  define g2 where "g2 = g\<lparr> gc_sh := ?s\<lparr> sh_ring := r2 \<rparr>, gc_apps := gc_apps g @ [((?t, [b], Filled), None)] \<rparr>"
  define g3 where "g3 = g\<lparr> gc_sh := ?s\<lparr> sh_ring := r3 \<rparr>, gc_apps := gc_apps g @ [((?t, [b], Published), None)] \<rparr>"
  define s4 where "s4 = ?s\<lparr> sh_ring := r3, queued := ?n, appends_n := appends_n ?s + 1 \<rparr>"
  define g4 where "g4 = g\<lparr> gc_sh := s4, gc_apps := gc_apps g @ [((?t, [b], Published), Some ?n)] \<rparr>"
  define g5 where "g5 = g4\<lparr> gc_sh := byte_counted a b ?s \<rparr>"
  define g6 where "g6 = g5\<lparr> gc_rc := n + 1 \<rparr>"
  have "gc_step crc g g1"
    using gc_step.reserve [of "[b]" g ?t "?s\<lparr> sh_ring := r1 \<rparr>" crc] assms(1) q
    by (simp add: g1_def r1_def preflight_record_len_def publish_reserve_def ring_reserve_def ticket_def Suc_le_eq)
  moreover have "gc_step crc g1 g2"
    using gc_step.fill [of ?l g1 ?t "[b]" crc] q
    by (simp add: g1_def g2_def r1_def r2_def publish_fill_def ring_space_poll_def reserve_space_ready_def ticket_def Suc_le_eq)
  moreover have "gc_step crc g2 g3"
    using gc_step.publish [of ?l g2 ?t "[b]" crc] by (simp add: g2_def g3_def r1_def r2_def r3_def publish_ring_def put_byte_def)
  moreover have "gc_step crc g3 g4"
    using gc_step.enqueue [of ?l g3 ?t "[b]" ?n s4 crc] by (simp add: g3_def g4_def s4_def publish_count_def)
  moreover have "gc_step crc g4 g5"
    using gc_step.barrier [of ?n g4 crc] assms(3)
    by (simp add: g4_def g5_def s4_def flush_to_request_def byte_counted_def r3_def)
  moreover have "gc_step crc g5 g6"
    using gc_step.observe [of crc g5] pb(1) by (simp add: g5_def g6_def byte_counted_def r3_def)
  moreover have "gc_step crc g6 (g6\<lparr> gc_sh := drain_and_maybe_sync (n + 1) (byte_counted a b ?s), gc_out := gc_out g @ [b],
      gc_late := gc_late g \<or> gc_half g \<rparr>)"
    using gc_step.drain [of crc g6] assms(1) pb(2) by (simp add: g4_def g5_def g6_def drained_out_def byte_counted_def r3_def)
  ultimately have "(gc_step crc)\<^sup>*\<^sup>* g (g6\<lparr> gc_sh := drain_and_maybe_sync (n + 1) (byte_counted a b ?s), gc_out := gc_out g @ [b],
      gc_late := gc_late g \<or> gc_half g \<rparr>)"
    by (meson r_into_rtranclp rtranclp.rtrancl_into_rtrancl)
  then show ?thesis by (simp add: g4_def g5_def g6_def)
qed

lemma byte_synced:
  assumes "w_pending w = []" "d_plan (w_disk w) = IoDone # IoDone # p \<or> d_plan (w_disk w) = [] \<and> p = []"
  obtains w1 w2 where "sink_all [[b]] w = (True, w1)" "wal_flush w1 = (Inr (), w2)" "w_pending w2 = []" "w_header w2 = w_header w"
    "d_os (w_disk w2) = d_os (w_disk w) @ [b]" "d_synced (w_disk w2) = d_os (w_disk w2)" "d_plan (w_disk w2) = p"
  using assms
  by (auto simp: append_encoded_def maybe_drain_def AUTO_FLUSH_THRESHOLD_def wal_flush_def drain_to_os_def wop_defs patch_at_def)

lemma byte_drained:
  fixes b :: u8
  assumes "sticky_err s = None" "quiet_ring (sh_ring s) a n" "a + 1 < r_capacity (sh_ring s)" "sync_target s \<le> queued s"
    and "flushed s \<le> queued s" "queued s = record_base s + n" "w_pending (sh_writer s) = []"
    and "d_plan (w_disk (sh_writer s)) = IoDone # IoDone # p \<or> d_plan (w_disk (sh_writer s)) = [] \<and> p = []"
  defines "s' \<equiv> drain_and_maybe_sync (n + 1) (byte_counted a b s)"
  shows "sticky_err s' = None \<and> quiet_ring (sh_ring s') (a + 1) (n + 1) \<and> r_capacity (sh_ring s') = r_capacity (sh_ring s)
    \<and> queued s' = queued s + 1 \<and> record_base s' = record_base s \<and> flushed s' = queued s + 1 \<and> sync_target s' = queued s + 1
    \<and> sh_tail s' = sh_tail s \<and> w_pending (sh_writer s') = [] \<and> w_header (sh_writer s') = w_header (sh_writer s)
    \<and> d_os (w_disk (sh_writer s')) = d_os (w_disk (sh_writer s)) @ [b]
    \<and> d_synced (w_disk (sh_writer s')) = d_os (w_disk (sh_writer s')) \<and> d_plan (w_disk (sh_writer s')) = p"
proof -
  obtain w1 w2 where w: "sink_all [[b]] (sh_writer s) = (True, w1)" "wal_flush w1 = (Inr (), w2)" "w_pending w2 = []"
      "w_header w2 = w_header (sh_writer s)" "d_os (w_disk w2) = d_os (w_disk (sh_writer s)) @ [b]"
      "d_synced (w_disk w2) = d_os (w_disk w2)" "d_plan (w_disk w2) = p"
    using byte_synced [OF assms(7,8)] .
  note pb = put_byte [OF assms(2), of b]
  have cap: "r_capacity (put_byte a b (sh_ring s)) = r_capacity (sh_ring s)"
    by (simp add: put_byte_def ring_publish_def ring_fill_def Let_def split: prod.split)
  have "s' = (byte_counted a b s)\<lparr> sh_ring := (put_byte a b (sh_ring s))\<lparr> flush_cursor := a + 1 \<rparr>,
      sh_writer := w2, written := max (written s) (queued s + 1), batches_n := batches_n s + 1, syncs_n := syncs_n s + 1,
      flushed := queued s + 1 \<rparr>"
    unfolding s'_def using assms(1,4-6) w(1,2) pb(2)
    by (simp add: drain_and_maybe_sync_def byte_counted_def Let_def max_def del: sink_all.simps)
  then show ?thesis using assms(1,4) w(3-7) pb(3) [OF assms(3)] cap by (simp add: byte_counted_def max_def)
qed

text \<open>The last sync of a truncation fails after the file was cut.\<close>

lemma truncation_cut_short:
  assumes "sticky_err s = None" "quiet_ring (sh_ring s) a n" "sync_target s \<le> flushed s" "ts_tail (sh_tail s) = None"
    and "w_pending (sh_writer s) = []" "d_plan (w_disk (sh_writer s)) = [IoDone, IoDone, IoFailed 0]"
    and "record_offset (w_header (sh_writer s)) \<le> length (d_os (w_disk (sh_writer s)))"
  obtains s' where "flusher_truncate crc s = (Inl io_error, s')" "sticky_err s' = None" "sh_ring s' = sh_ring s" "flushed s' = flushed s"
    "queued s' = queued s" "record_base s' = record_base s" "sync_target s' = sync_target s" "w_pending (sh_writer s') = []"
    "d_os (w_disk (sh_writer s')) = take (record_offset (w_header (sh_writer s))) (d_os (w_disk (sh_writer s)))"
    "d_plan (w_disk (sh_writer s')) = []"
proof -
  have "copy_committed_prefix (sh_ring s) = ([], sh_ring s)"
    using assms(2) by (simp add: copy_committed_prefix_def quiet_ring_def)
  then have d: "drain_and_maybe_sync rc s = s" for rc
    using assms(1,3) by (simp add: drain_and_maybe_sync_def Let_def)
  show ?thesis
    by (rule that [of "s\<lparr> sh_writer := snd (checkpoint_and_truncate crc None (sh_writer s)) \<rparr>"])
       (use assms in \<open>simp_all add: flusher_truncate_def d do_truncate_def on_writer_def checkpoint_and_truncate_def wal_flush_def
          drain_to_os_def wal_truncate_def wop_defs Let_def\<close>)
qed

theorem half_truncation:
  assumes "synced_start crc s" "sticky_err s = None" "sync_target s = 0" "flushed s \<le> record_base s" "ts_tail (sh_tail s) = None"
    and "d_plan (w_disk (sh_writer s)) = [IoDone, IoDone, IoDone, IoDone, IoFailed 0]"
  shows "\<exists>g n. (gc_step crc)\<^sup>*\<^sup>* (gc_start s) g \<and> sticky_err (gc_sh g) = None \<and> length (gc_apps g) = 2
    \<and> snd (gc_apps g ! 0) = Some n \<and> flush_to_poll n (gc_sh g) = Some (Inr ()) \<and> \<not> on_disk_record g 0"
proof -
  let ?w = "sh_writer s" and ?n = "queued s + 1"
  obtain c A B body where f: "sh_ring s = ring_with_capacity c" "writer_rel crc ?w A B body" "w_pending ?w = []" "queued s = record_base s"
    using assms(1) by (auto simp: synced_start_def gc_fresh_def)
  note new = new_ring [of c, folded f(1)]
  have q0: "quiet_ring (sh_ring s) 0 0" "0 + 1 < r_capacity (sh_ring s)" "1 + 1 < r_capacity (sh_ring s)"
    using new ring_shape_new [of c] by (auto simp: quiet_ring_def f(1))
  define s1 where "s1 = drain_and_maybe_sync 1 (byte_counted 0 1 s)"
  define g1 where "g1 = (gc_start s)\<lparr> gc_sh := s1, gc_apps := [((ticket 0 1, [1], Published), Some ?n)], gc_rc := 1, gc_out := [1] \<rparr>"
  have r1: "(gc_step crc)\<^sup>*\<^sup>* (gc_start s) g1"
    using byte_steps [of "gc_start s" 0 0 crc 1] assms(2,4) q0(1) f(4) by (simp add: gc_start_def g1_def s1_def)
  have s1: "sticky_err s1 = None" "quiet_ring (sh_ring s1) 1 1" "r_capacity (sh_ring s1) = r_capacity (sh_ring s)" "queued s1 = ?n"
      "record_base s1 = record_base s" "flushed s1 = ?n" "sync_target s1 = ?n" "sh_tail s1 = sh_tail s" "w_pending (sh_writer s1) = []"
      "w_header (sh_writer s1) = w_header ?w" "d_os (w_disk (sh_writer s1)) = d_os (w_disk ?w) @ [1]"
      "d_plan (w_disk (sh_writer s1)) = [IoDone, IoDone, IoFailed 0]"
    using byte_drained [OF assms(2) q0(1,2), of "[IoDone, IoDone, IoFailed 0]" 1] assms(3,4,6) f(3,4) by (simp_all add: s1_def)
  have ro: "record_offset (w_header ?w) = FILE_HEADER_SIZE" "FILE_HEADER_SIZE \<le> length (d_os (w_disk ?w))"
    using f(2) by (auto simp: writer_rel_def slots_ok_def record_offset_def FORMAT_VERSION_def LEGACY_FORMAT_VERSION_def
        FILE_HEADER_SIZE_def header_page_def)
  obtain s2 where t: "flusher_truncate crc s1 = (Inl io_error, s2)" and s2: "sticky_err s2 = None" "sh_ring s2 = sh_ring s1"
      "flushed s2 = ?n" "queued s2 = ?n" "record_base s2 = record_base s" "sync_target s2 = ?n" "w_pending (sh_writer s2) = []"
      "d_os (w_disk (sh_writer s2)) = take FILE_HEADER_SIZE (d_os (w_disk ?w))" "d_plan (w_disk (sh_writer s2)) = []"
    by (rule truncation_cut_short [OF s1(1,2) _ _ s1(9,12), of crc]) (use s1 assms(5) ro in simp_all)
  define g2 where "g2 = g1\<lparr> gc_sh := s2, gc_half := True, gc_late := False \<rparr>"
  have cp: "copy_committed_prefix (sh_ring s1) = ([], sh_ring s1)"
    using s1(2) by (simp add: copy_committed_prefix_def quiet_ring_def)
  have r2: "gc_step crc g1 g2"
    using gc_step.truncate_failed [of g1 crc io_error s2] t s1(1) s2(1) cp
    by (simp add: g1_def g2_def gc_start_def drained_out_def)
  define g3 where "g3 = g2\<lparr> gc_sh := drain_and_maybe_sync 2 (byte_counted 1 2 s2),
    gc_apps := [((ticket 0 1, [1], Published), Some ?n), ((ticket 1 2, [2], Published), Some (?n + 1))], gc_rc := 2,
    gc_out := [1, 2], gc_late := True \<rparr>"
  have r3: "(gc_step crc)\<^sup>*\<^sup>* g2 g3"
    using byte_steps [of g2 1 1 crc 2] s1(2) s2 by (simp add: g1_def g2_def g3_def gc_start_def numeral_2_eq_2)
  have s3: "sticky_err (gc_sh g3) = None" "flushed (gc_sh g3) = ?n + 1" "d_os (w_disk (sh_writer (gc_sh g3))) = take FILE_HEADER_SIZE (d_os (w_disk ?w)) @ [2]"
      "d_synced (w_disk (sh_writer (gc_sh g3))) = d_os (w_disk (sh_writer (gc_sh g3)))"
    using byte_drained [OF s2(1), of 1 1 "[]" 2] s1(2,3) s2 q0(3) f(4) by (simp_all add: g3_def numeral_2_eq_2)
  have "synced_body (gc_sh g3) = [2]" using s3(3,4) ro(2) by (simp add: synced_body_def)
  moreover have "gc_recs g3 = [[1], [2]]" by (simp add: g3_def gc_recs_def recs_def)
  ultimately have "\<not> on_disk_record g3 0" by (auto simp: on_disk_record_def append_eq_Cons_conv Cons_eq_append_conv)
  moreover have "(gc_step crc)\<^sup>*\<^sup>* (gc_start s) g3" using r1 r2 r3 by (meson rtranclp_trans rtranclp.rtrancl_into_rtrancl)
  moreover have "flush_to_poll ?n (gc_sh g3) = Some (Inr ())" using s3(1,2) by (simp add: flush_to_poll_def)
  ultimately show ?thesis using s3(1) by (intro exI [of _ g3] exI [of _ ?n]) (simp add: g3_def)
qed

end
