(* ===== verification/Paged_Reads.thy ===== *)
theory Paged_Reads
  imports Group_Commit
begin

text \<open>Readers of the attached stream page through the file with \<^verbatim>\<open>envelopes_after\<close> of
  \<^verbatim>\<open>src/src/journal/group_commit.rs\<close>, which keeps the resume position the last scan of
  \<^verbatim>\<open>src/src/journal/reader.rs\<close> saved.  What the saved positions are, and that using them is invisible.\<close>

section \<open>The positions a scan saves\<close>

lemma scan_saves_resume:
  assumes "af_ok crc F" "scan_attached_envelope_page_from crc (af_bytes crc F) cursor r l None = Inr (page, v)"
  shows "\<exists>i \<le> length (af_envs F). v = af_resume F i"
proof -
  let ?cp = "af_checkpoint F" and ?es = "af_envs F"
  have r: "r \<noteq> 0" using assms(2) by (cases "r = 0") (simp_all add: scan_attached_envelope_page_from_def)
  have "scan_attached_envelope_page crc (af_bytes crc F) cursor r l = Inr page"
    using assms(2) by (simp add: scan_attached_envelope_page_def)
  then have ea: "vj_envelopes_after cursor r l (af_volatile F) = Inr page" using scan_refines_volatile [OF assms(1)] by simp
  obtain i where i: "i \<le> length ?es" "cursor = cursor_at ?cp ?es i"
  proof (cases "cursor = ?cp")
    case True
    then show ?thesis using that [of 0] by (simp add: cursor_at_def)
  next
    case False
    then obtain j where j: "envelope_position (anchor_seq cursor) ?es = Some j" "env_current (?es ! j) = cursor"
      using ea r by (auto simp: vj_envelopes_after_def af_volatile_def Let_def split: if_splits option.splits)
    show ?thesis using that [of "Suc j"] envelope_position_Some [OF j(1)] j(2) by (simp add: cursor_at_def)
  qed
  let ?page = "bounded_envelope_page ?es i cursor r l"
  have v: "v = af_resume F (i + length (page_envelopes ?page))"
    using scan_page_at [OF assms(1) i(1) disjI1 [OF refl], of r l] assms(2) i(2) r by auto
  have "length (page_envelopes ?page) \<le> length ?es - i"
    using page_loop_extends [of r l "drop i ?es" "[]" 0] by (auto simp: bounded_envelope_page_def Let_def)
  then show ?thesis using v i(1) by (intro exI [of _ "i + length (page_envelopes ?page)"]) simp
qed

lemma resume_transparent:
  assumes "af_ok crc F" "v = None \<or> (\<exists>i \<le> length (af_envs F). v = Some (af_resume F i))"
  shows "scan_attached_envelope_page_from crc (af_bytes crc F) cursor r l v =
    scan_attached_envelope_page_from crc (af_bytes crc F) cursor r l None"
proof -
  have "?thesis" if i: "i \<le> length (af_envs F)" "v = Some (af_resume F i)" for i
  proof (cases "cursor = cursor_at (af_checkpoint F) (af_envs F) i \<and> 0 < r")
    case True
    then show ?thesis using scan_page_at [OF assms(1) i(1), of _ r l] i(2) by simp
  next
    case False
    then have "r = 0 \<or> res_cursor (af_resume F i) \<noteq> cursor" by (auto simp: af_resume_def)
    then show ?thesis
      by (auto simp: scan_attached_envelope_page_from_def scan_initialized_envelope_page_def i(2)
          intro!: arg_cong [where f = "rbind _"] split: option.split)
  qed
  then show ?thesis using assms(2) by blast
qed

section \<open>A reading session\<close>

text \<open>Between two requests of a session records may be appended.\<close>

definition af_extends :: "attached_file \<Rightarrow> attached_file \<Rightarrow> bool" where
  "af_extends F G =
    (af_header G = af_header F \<and> af_checkpoint G = af_checkpoint F \<and> af_old G = af_old F
     \<and> prefix (af_new F) (af_new G) \<and> prefix (af_envs F) (af_envs G))"

lemma resume_extends:
  assumes "af_ok crc F" "af_extends F G" "i \<le> length (af_envs F)"
  shows "af_resume G i = af_resume F i \<and> i \<le> length (af_envs G)"
proof -
  have "length (af_new F) = length (af_envs F)" using assms(1) attached_log_length by (auto simp: af_ok_def)
  then show ?thesis using assms(2,3) by (auto simp: af_extends_def af_resume_def cursor_at_def prefix_def nth_append)
qed

definition with_file :: "bytes \<Rightarrow> Shared \<Rightarrow> Shared" where
  "with_file bs s = s\<lparr> sh_writer := (sh_writer s)\<lparr> w_disk := (w_disk (sh_writer s))\<lparr> d_os := bs \<rparr> \<rparr> \<rparr>"

type_synonym page_request = "attached_file \<times> JournalAnchor \<times> nat \<times> nat"

fun read_session :: "crc \<Rightarrow> page_request list \<Rightarrow> Shared \<Rightarrow> JournalEnvelopePage result list" where
  "read_session crc [] s = []"
| "read_session crc ((F, cursor, r, l) # qs) s =
    (case envelopes_after crc cursor r l (Inr ()) (with_file (af_bytes crc F) s) of
       (page, s') \<Rightarrow> page # read_session crc qs s')"

definition growing :: "page_request list \<Rightarrow> bool" where
  "growing qs = sorted_wrt (\<lambda>p q. af_extends (fst p) (fst q)) qs"

theorem session_rescans:
  assumes "\<forall>q \<in> set qs. af_ok crc (fst q)" "growing qs"
    and "ts_checkpoint (sh_tail s) \<noteq> None" "ts_initializing (sh_tail s) = None"
    and "\<forall>q \<in> set qs. \<forall>v. ts_scan_resume (sh_tail s) = Some v \<longrightarrow> (\<exists>i \<le> length (af_envs (fst q)). v = af_resume (fst q) i)"
  shows "read_session crc qs s = map (\<lambda>(F, cursor, r, l). scan_attached_envelope_page crc (af_bytes crc F) cursor r l) qs"
  using assms
proof (induction qs arbitrary: s)
  case (Cons q qs)
  obtain F cursor r l where q: "q = (F, cursor, r, l)" by (metis prod_cases4)
  have F: "af_ok crc F" using Cons.prems(1) q by simp
  let ?v = "ts_scan_resume (sh_tail s)"
  have v: "?v = None \<or> (\<exists>i \<le> length (af_envs F). ?v = Some (af_resume F i))" using Cons.prems(5) q by (cases ?v) auto
  let ?out = "scan_attached_envelope_page_from crc (af_bytes crc F) cursor r l None"
  define s' where "s' = snd (envelopes_after crc cursor r l (Inr ()) (with_file (af_bytes crc F) s))"
  have e: "envelopes_after crc cursor r l (Inr ()) (with_file (af_bytes crc F) s) =
      (scan_attached_envelope_page crc (af_bytes crc F) cursor r l, s')"
    using Cons.prems(3,4) resume_transparent [OF F v, of cursor r l]
    by (auto simp: s'_def envelopes_after_def with_file_def scan_attached_envelope_page_def split: sum.splits)
  have t: "ts_checkpoint (sh_tail s') = ts_checkpoint (sh_tail s)" "ts_initializing (sh_tail s') = ts_initializing (sh_tail s)"
      "ts_scan_resume (sh_tail s') = (case ?out of Inr (page, w) \<Rightarrow> Some w | Inl e \<Rightarrow> None)"
    using Cons.prems(3,4) resume_transparent [OF F v, of cursor r l]
    by (auto simp: s'_def envelopes_after_def with_file_def split: sum.splits prod.splits)
  have "\<exists>i \<le> length (af_envs (fst p)). w = af_resume (fst p) i" if p: "p \<in> set qs" "ts_scan_resume (sh_tail s') = Some w" for p w
  proof -
    obtain page where "?out = Inr (page, w)" using p(2) t(3) by (auto split: sum.splits prod.splits)
    then obtain i where i: "i \<le> length (af_envs F)" "w = af_resume F i" using scan_saves_resume [OF F] by blast
    have "af_extends F (fst p)" using Cons.prems(2) p(1) q by (auto simp: growing_def)
    from resume_extends [OF F this i(1)] i(2) show ?thesis by auto
  qed
  then have "read_session crc qs s' = map (\<lambda>(F, cursor, r, l). scan_attached_envelope_page crc (af_bytes crc F) cursor r l) qs"
    using Cons.prems t by (intro Cons.IH) (auto simp: growing_def)
  then show ?case using e q by simp
qed simp

end
