(* ===== verification/Exclusion.thy ===== *)
theory Exclusion
  imports Holt_Prelude
begin

text \<open>The contract of the admission primitives of \<^verbatim>\<open>src/src/concurrency\<close>: holders in shared mode, or one holder in exclusive
  mode.  Threads are the positions of a list of program counters.\<close>

section \<open>Counting threads\<close>

definition count_pc :: "('p \<Rightarrow> bool) \<Rightarrow> 'p list \<Rightarrow> nat" where
  "count_pc P ps = length (filter P ps)"

lemma count_pc_simps [simp]: "count_pc P [] = 0" "count_pc P (p # ps) = (if P p then Suc (count_pc P ps) else count_pc P ps)"
  by (simp_all add: count_pc_def)

lemma count_pc_update:
  "i < length ps \<Longrightarrow> count_pc P (ps[i := p]) + (if P (ps ! i) then 1 else 0) = count_pc P ps + (if P p then 1 else 0)"
proof (induction ps arbitrary: i)
  case (Cons q ps)
  then show ?case by (cases i) auto
qed simp

lemma count_pc_pos: "i < length ps \<Longrightarrow> P (ps ! i) \<Longrightarrow> 0 < count_pc P ps"
  by (auto simp: count_pc_def filter_empty_conv)

lemma count_pc_replicate [simp]: "count_pc P (replicate n p) = (if P p then n else 0)"
  by (simp add: count_pc_def)

lemma count_pc_le: "count_pc P ps \<le> length ps"
  by (simp add: count_pc_def)

lemma count_pc_mono: "(\<And>p. P p \<Longrightarrow> Q p) \<Longrightarrow> count_pc P ps \<le> count_pc Q ps"
  by (induction ps) (simp_all add: le_SucI)

lemma count_pc_two:
  assumes "i < length ps" "j < length ps" "i \<noteq> j" "P (ps ! i)" "P (ps ! j)"
  shows "2 \<le> count_pc P ps"
proof -
  have "card {i, j} \<le> card {k. k < length ps \<and> P (ps ! k)}" by (intro card_mono) (use assms in auto)
  then show ?thesis using assms(3) by (simp add: count_pc_def length_filter_conv_card)
qed

section \<open>The contract\<close>

locale exclusion =
  fixes step :: "'s \<Rightarrow> 's \<Rightarrow> bool" and start :: "'s \<Rightarrow> bool" and inv :: "'s \<Rightarrow> bool"
    and pcs :: "'s \<Rightarrow> 'p list" and reads writes :: "'p \<Rightarrow> bool"
  assumes start_inv: "start s \<Longrightarrow> inv s"
    and step_inv: "step s s' \<Longrightarrow> inv s \<Longrightarrow> inv s'"
    and one_writer: "inv s \<Longrightarrow> count_pc writes (pcs s) \<le> 1"
    and no_reader: "inv s \<Longrightarrow> 0 < count_pc writes (pcs s) \<Longrightarrow> count_pc reads (pcs s) = 0"
begin

lemma reachable_inv: "step\<^sup>*\<^sup>* s s' \<Longrightarrow> start s \<Longrightarrow> inv s'"
  by (induction rule: rtranclp_induct) (auto intro: start_inv step_inv)

lemma exclusive:
  assumes "step\<^sup>*\<^sup>* s s'" "start s" "i < length (pcs s')" "j < length (pcs s')" "i \<noteq> j" "writes (pcs s' ! i)"
  shows "\<not> writes (pcs s' ! j) \<and> \<not> reads (pcs s' ! j)"
proof -
  have v: "inv s'" by (rule reachable_inv [OF assms(1,2)])
  have p: "0 < count_pc writes (pcs s')" by (rule count_pc_pos [where i = i]) (use assms in simp_all)
  have "\<not> writes (pcs s' ! j)" using one_writer [OF v] count_pc_two [OF assms(3-5), of writes] assms(6) by auto
  moreover have "\<not> reads (pcs s' ! j)" using no_reader [OF v p] count_pc_pos [OF assms(4), of reads] by auto
  ultimately show ?thesis by blast
qed

end

end
