(* ===== verification/Gate.thy ===== *)
theory Gate
  imports Exclusion
begin

text \<open>The shared/exclusive admission gate of \<^verbatim>\<open>src/src/concurrency/gate.rs\<close> and the commit gate built on it
  (\<^verbatim>\<open>commit_gate.rs\<close>).  Every load and every compare-exchange is a step of its own; waiting is trying again.  The
  state is the 64-bit word of the source: the top bit for a pending or admitted exclusive holder, the rest a count.\<close>

unbundle bit_operations_syntax

section \<open>Operations\<close>

definition WRITE_BIT :: u64 where "WRITE_BIT = 2 ^ 63"

definition COUNT_MASK :: u64 where "COUNT_MASK = WRITE_BIT - 1"

record Gate =
  gate_state :: u64

definition gate_new :: Gate where "gate_new = \<lparr> gate_state = 0 \<rparr>"

definition compare_exchange :: "u64 \<Rightarrow> u64 \<Rightarrow> Gate \<Rightarrow> Gate option" where
  "compare_exchange cur new g = (if gate_state g = cur then Some (g\<lparr> gate_state := new \<rparr>) else None)"

text \<open>One round of \<^verbatim>\<open>enter_shared\<close> and of \<^verbatim>\<open>enter_exclusive\<close> after the load of \<open>cur\<close>; \<open>None\<close> is another round.\<close>

definition enter_shared :: "u64 \<Rightarrow> Gate \<Rightarrow> Gate option" where
  "enter_shared cur g =
    (if cur AND WRITE_BIT = 0 \<and> cur AND COUNT_MASK \<noteq> COUNT_MASK then compare_exchange cur (cur + 1) g else None)"

definition enter_exclusive :: "u64 \<Rightarrow> Gate \<Rightarrow> Gate option" where
  "enter_exclusive cur g = (if cur AND WRITE_BIT \<noteq> 0 then None else compare_exchange cur (cur OR WRITE_BIT) g)"

definition drained :: "Gate \<Rightarrow> bool" where
  "drained g = (gate_state g AND COUNT_MASK = 0)"

definition leave_shared :: "Gate \<Rightarrow> Gate" where
  "leave_shared g = g\<lparr> gate_state := gate_state g - 1 \<rparr>"

definition leave_exclusive :: "Gate \<Rightarrow> Gate" where
  "leave_exclusive g = g\<lparr> gate_state := 0 \<rparr>"

text \<open>An atomic batch takes the exclusive side; its guard issues the one release.\<close>

definition enter_batch :: "u64 \<Rightarrow> Gate \<Rightarrow> Gate option" where
  "enter_batch = enter_exclusive"

text \<open>The commit gate: foreground writers on the shared side, the checkpoint on the exclusive side.\<close>

record CommitGate =
  cg_gate :: Gate

definition commit_gate_new :: CommitGate where "commit_gate_new = \<lparr> cg_gate = gate_new \<rparr>"

definition enter_writer :: "u64 \<Rightarrow> CommitGate \<Rightarrow> CommitGate option" where
  "enter_writer cur c = map_option (\<lambda>g. c\<lparr> cg_gate := g \<rparr>) (enter_shared cur (cg_gate c))"

definition enter_checkpoint :: "u64 \<Rightarrow> CommitGate \<Rightarrow> CommitGate option" where
  "enter_checkpoint cur c = map_option (\<lambda>g. c\<lparr> cg_gate := g \<rparr>) (enter_exclusive cur (cg_gate c))"

section \<open>The word\<close>

lemma count_mask_eq: "COUNT_MASK = mask 63"
  by (simp add: COUNT_MASK_def WRITE_BIT_def mask_eq_exp_minus_1)

lemma unat_count: "unat (w AND COUNT_MASK) = unat w mod 2 ^ 63" for w :: u64
proof -
  have "unat (w AND COUNT_MASK) = unat (take_bit 63 w)" by (simp only: count_mask_eq take_bit_eq_mask)
  also have "\<dots> = take_bit 63 (unat w)" by (rule unsigned_take_bit_eq)
  finally show ?thesis by (simp only: take_bit_eq_mod)
qed

lemma write_bit_clear: "w AND WRITE_BIT = 0 \<longleftrightarrow> unat w < 2 ^ 63" for w :: u64
proof -
  have w: "unat w < 2 ^ 64" using unsigned_less [of w] by simp
  have "w AND WRITE_BIT = 0 \<longleftrightarrow> \<not> bit w 63" by (simp only: WRITE_BIT_def and_exp_eq_0_iff_not_bit)
  also have "bit w 63 \<longleftrightarrow> bit (unat w) 63" by (simp add: bit_unsigned_iff)
  also have "bit (unat w) 63 \<longleftrightarrow> odd (unat w div 2 ^ 63)" by (rule bit_iff_odd)
  also have "\<dots> \<longleftrightarrow> \<not> unat w < 2 ^ 63"
  proof (cases "unat w < 2 ^ 63")
    case False
    then have "unat w div 2 ^ 63 = 1" using w by (intro div_nat_eqI) simp_all
    then show ?thesis using False by simp
  qed simp
  finally show ?thesis by blast
qed

definition gate_word :: "bool \<Rightarrow> nat \<Rightarrow> u64" where
  "gate_word pending n = word_of_nat (n + (if pending then 2 ^ 63 else 0))"

lemma unat_gate_word: "n < 2 ^ 63 \<Longrightarrow> unat (gate_word p n) = n + (if p then 2 ^ 63 else 0)"
  unfolding gate_word_def unat_of_nat by simp

lemma gate_word_write [simp]: "n < 2 ^ 63 \<Longrightarrow> gate_word p n AND WRITE_BIT = 0 \<longleftrightarrow> \<not> p"
  by (simp add: write_bit_clear unat_gate_word)

lemma gate_word_count: "n < 2 ^ 63 \<Longrightarrow> unat (gate_word p n AND COUNT_MASK) = n"
  by (simp add: unat_count unat_gate_word)

lemma gate_word_full: "n < 2 ^ 63 \<Longrightarrow> gate_word p n AND COUNT_MASK = COUNT_MASK \<longleftrightarrow> n = 2 ^ 63 - 1"
  using gate_word_count [of n p] by (auto simp: word_unat_eq_iff COUNT_MASK_def WRITE_BIT_def)

lemma gate_word_drained: "n < 2 ^ 63 \<Longrightarrow> gate_word p n AND COUNT_MASK = 0 \<longleftrightarrow> n = 0"
  using gate_word_count [of n p] by (auto simp: word_unat_eq_iff)

lemma gate_word_pend: "n < 2 ^ 63 \<Longrightarrow> gate_word False n OR WRITE_BIT = gate_word True n"
proof -
  assume n: "n < 2 ^ 63"
  have "gate_word False n OR WRITE_BIT = gate_word False n + WRITE_BIT"
    using gate_word_write [OF n, of False] by (simp add: disjunctive_add_eq_or)
  then show ?thesis by (simp add: gate_word_def WRITE_BIT_def)
qed

section \<open>Interleavings\<close>

datatype gate_pc = Outside | SharedLoaded u64 | InShared | ExclusiveLoaded u64 | Draining | InExclusive

record gate_run =
  gr_gate :: Gate
  gr_pcs :: "gate_pc list"

inductive gate_step :: "gate_run \<Rightarrow> gate_run \<Rightarrow> bool" where
  shared_load: "i < length (gr_pcs s) \<Longrightarrow> gr_pcs s ! i = Outside \<or> gr_pcs s ! i = SharedLoaded c \<Longrightarrow>
    gate_step s (s\<lparr> gr_pcs := (gr_pcs s)[i := SharedLoaded (gate_state (gr_gate s))] \<rparr>)"
| shared_enter: "i < length (gr_pcs s) \<Longrightarrow> gr_pcs s ! i = SharedLoaded c \<Longrightarrow> enter_shared c (gr_gate s) = Some g \<Longrightarrow>
    gate_step s (s\<lparr> gr_gate := g, gr_pcs := (gr_pcs s)[i := InShared] \<rparr>)"
| shared_leave: "i < length (gr_pcs s) \<Longrightarrow> gr_pcs s ! i = InShared \<Longrightarrow>
    gate_step s (s\<lparr> gr_gate := leave_shared (gr_gate s), gr_pcs := (gr_pcs s)[i := Outside] \<rparr>)"
| exclusive_load: "i < length (gr_pcs s) \<Longrightarrow> gr_pcs s ! i = Outside \<or> gr_pcs s ! i = ExclusiveLoaded c \<Longrightarrow>
    gate_step s (s\<lparr> gr_pcs := (gr_pcs s)[i := ExclusiveLoaded (gate_state (gr_gate s))] \<rparr>)"
| exclusive_pend: "i < length (gr_pcs s) \<Longrightarrow> gr_pcs s ! i = ExclusiveLoaded c \<Longrightarrow> enter_exclusive c (gr_gate s) = Some g \<Longrightarrow>
    gate_step s (s\<lparr> gr_gate := g, gr_pcs := (gr_pcs s)[i := Draining] \<rparr>)"
| exclusive_enter: "i < length (gr_pcs s) \<Longrightarrow> gr_pcs s ! i = Draining \<Longrightarrow> drained (gr_gate s) \<Longrightarrow>
    gate_step s (s\<lparr> gr_pcs := (gr_pcs s)[i := InExclusive] \<rparr>)"
| exclusive_leave: "i < length (gr_pcs s) \<Longrightarrow> gr_pcs s ! i = InExclusive \<Longrightarrow>
    gate_step s (s\<lparr> gr_gate := leave_exclusive (gr_gate s), gr_pcs := (gr_pcs s)[i := Outside] \<rparr>)"

inductive_cases gate_stepE: "gate_step s s'"

definition gate_start :: "gate_run \<Rightarrow> bool" where
  "gate_start s = (gr_gate s = gate_new \<and> (\<forall>p \<in> set (gr_pcs s). p = Outside))"

definition shared_count :: "gate_run \<Rightarrow> nat" where
  "shared_count s = count_pc (\<lambda>p. p = InShared) (gr_pcs s)"

definition pend_count :: "gate_run \<Rightarrow> nat" where
  "pend_count s = count_pc (\<lambda>p. p = Draining \<or> p = InExclusive) (gr_pcs s)"

definition held_count :: "gate_run \<Rightarrow> nat" where
  "held_count s = count_pc (\<lambda>p. p = InExclusive) (gr_pcs s)"

text \<open>The word is exact: the count of shared holders, and the top bit iff some thread is draining or inside.\<close>

definition gate_inv :: "gate_run \<Rightarrow> bool" where
  "gate_inv s =
    (gate_state (gr_gate s) = gate_word (pend_count s = 1) (shared_count s) \<and> shared_count s < 2 ^ 63 \<and> pend_count s \<le> 1
     \<and> (0 < held_count s \<longrightarrow> shared_count s = 0))"

lemma gate_counts_update:
  assumes "i < length ps"
  shows "count_pc (\<lambda>p. p = InShared) (ps[i := q]) + (if ps ! i = InShared then 1 else 0) = count_pc (\<lambda>p. p = InShared) ps + (if q = InShared then 1 else 0)"
    "count_pc (\<lambda>p. p = Draining \<or> p = InExclusive) (ps[i := q]) + (if ps ! i = Draining \<or> ps ! i = InExclusive then 1 else 0) =
     count_pc (\<lambda>p. p = Draining \<or> p = InExclusive) ps + (if q = Draining \<or> q = InExclusive then 1 else 0)"
    "count_pc (\<lambda>p. p = InExclusive) (ps[i := q]) + (if ps ! i = InExclusive then 1 else 0) = count_pc (\<lambda>p. p = InExclusive) ps + (if q = InExclusive then 1 else 0)"
  by (rule count_pc_update [OF assms])+

lemma held_pending: "held_count s \<le> pend_count s"
  unfolding held_count_def pend_count_def by (rule count_pc_mono) simp

lemma gate_invI:
  assumes "gate_state (gr_gate s) = gate_word (pend_count s = 1) (shared_count s)" "shared_count s < 2 ^ 63" "pend_count s \<le> 1"
    "0 < held_count s \<Longrightarrow> shared_count s = 0"
  shows "gate_inv s"
  using assms by (simp add: gate_inv_def)

lemma gate_same_counts:
  assumes "gate_inv s" "gr_gate s' = gr_gate s" "shared_count s' = shared_count s" "pend_count s' = pend_count s"
    "held_count s' \<le> held_count s"
  shows "gate_inv s'"
  using assms by (auto simp: gate_inv_def)

lemma gate_step_counts:
  fixes s :: gate_run and g :: Gate and q :: gate_pc and i :: nat
  assumes "i < length (gr_pcs s)"
  defines "s' \<equiv> s\<lparr> gr_gate := g, gr_pcs := (gr_pcs s)[i := q] \<rparr>"
  shows "shared_count s' + (if gr_pcs s ! i = InShared then 1 else 0) = shared_count s + (if q = InShared then 1 else 0)"
    "pend_count s' + (if gr_pcs s ! i = Draining \<or> gr_pcs s ! i = InExclusive then 1 else 0) =
     pend_count s + (if q = Draining \<or> q = InExclusive then 1 else 0)"
    "held_count s' + (if gr_pcs s ! i = InExclusive then 1 else 0) = held_count s + (if q = InExclusive then 1 else 0)"
  using gate_counts_update [OF assms(1), of q] by (simp_all add: s'_def shared_count_def pend_count_def held_count_def)

lemma gate_pcs_counts:
  fixes s :: gate_run and q :: gate_pc and i :: nat
  assumes "i < length (gr_pcs s)"
  defines "s' \<equiv> s\<lparr> gr_pcs := (gr_pcs s)[i := q] \<rparr>"
  shows "shared_count s' + (if gr_pcs s ! i = InShared then 1 else 0) = shared_count s + (if q = InShared then 1 else 0)"
    "pend_count s' + (if gr_pcs s ! i = Draining \<or> gr_pcs s ! i = InExclusive then 1 else 0) =
     pend_count s + (if q = Draining \<or> q = InExclusive then 1 else 0)"
    "held_count s' + (if gr_pcs s ! i = InExclusive then 1 else 0) = held_count s + (if q = InExclusive then 1 else 0)"
  using gate_counts_update [OF assms(1), of q] by (simp_all add: s'_def shared_count_def pend_count_def held_count_def)

lemma gate_step_inv: "gate_step s s' \<Longrightarrow> gate_inv s \<Longrightarrow> gate_inv s'"
proof (induction rule: gate_step.induct)
  case (shared_load i s c)
  then show ?case
    using gate_pcs_counts [OF shared_load(1), where q = "SharedLoaded (gate_state (gr_gate s))"]
    by (intro gate_same_counts [OF shared_load(3)]) auto
next
  case (shared_enter i s c g)
  note v = shared_enter(4) [unfolded gate_inv_def]
  have c: "gate_state (gr_gate s) = c" "c AND WRITE_BIT = 0" "c AND COUNT_MASK \<noteq> COUNT_MASK" "g = (gr_gate s)\<lparr> gate_state := c + 1 \<rparr>"
    using shared_enter(3) by (auto simp: enter_shared_def compare_exchange_def split: if_splits)
  have p: "pend_count s = 0" "shared_count s < 2 ^ 63 - 1" using v c(1-3) by (auto simp: gate_word_full)
  have "held_count s = 0" using held_pending [of s] p(1) by simp
  moreover have "c + 1 = gate_word False (Suc (shared_count s))" using v c(1) p(1) by (simp add: gate_word_def)
  ultimately show ?case
    using gate_step_counts [OF shared_enter(1), where g = g and q = InShared] shared_enter(2) p c(4) by (intro gate_invI) auto
next
  case (shared_leave i s)
  note v = shared_leave(3) [unfolded gate_inv_def]
  have n: "0 < shared_count s" unfolding shared_count_def by (rule count_pc_pos [OF shared_leave(1)]) (simp add: shared_leave(2))
  then have h: "held_count s = 0" using v by auto
  have "gate_word p (shared_count s) - 1 = gate_word p (shared_count s - 1)" for p
    using n by (cases "shared_count s") (simp_all add: gate_word_def)
  then have w: "gate_state (leave_shared (gr_gate s)) = gate_word (pend_count s = 1) (shared_count s - 1)"
    using v by (simp add: leave_shared_def)
  let ?s' = "s\<lparr> gr_gate := leave_shared (gr_gate s), gr_pcs := (gr_pcs s)[i := Outside] \<rparr>"
  have "shared_count ?s' = shared_count s - 1" "pend_count ?s' = pend_count s" "held_count ?s' = 0"
    using gate_step_counts [OF shared_leave(1), where g = "leave_shared (gr_gate s)" and q = Outside] shared_leave(2) h by simp_all
  then show ?case using v w by (intro gate_invI) auto
next
  case (exclusive_load i s c)
  then show ?case
    using gate_pcs_counts [OF exclusive_load(1), where q = "ExclusiveLoaded (gate_state (gr_gate s))"]
    by (intro gate_same_counts [OF exclusive_load(3)]) auto
next
  case (exclusive_pend i s c g)
  note v = exclusive_pend(4) [unfolded gate_inv_def]
  have c: "gate_state (gr_gate s) = c" "c AND WRITE_BIT = 0" "g = (gr_gate s)\<lparr> gate_state := c OR WRITE_BIT \<rparr>"
    using exclusive_pend(3) by (auto simp: enter_exclusive_def compare_exchange_def split: if_splits)
  have p: "pend_count s = 0" using v c(1,2) by auto
  have "held_count s = 0" using held_pending [of s] p by simp
  moreover have "c OR WRITE_BIT = gate_word True (shared_count s)" using v c(1) p gate_word_pend [of "shared_count s"] by simp
  ultimately show ?case
    using gate_step_counts [OF exclusive_pend(1), where g = g and q = Draining] exclusive_pend(2) p c(3) v by (intro gate_invI) auto
next
  case (exclusive_enter i s)
  note v = exclusive_enter(4) [unfolded gate_inv_def]
  have "shared_count s = 0" using exclusive_enter(3) v gate_word_drained by (auto simp: drained_def)
  then show ?case
    using gate_pcs_counts [OF exclusive_enter(1), where q = InExclusive] exclusive_enter(2) v
    by (intro gate_invI) auto
next
  case (exclusive_leave i s)
  note v = exclusive_leave(3) [unfolded gate_inv_def]
  have h: "0 < held_count s" unfolding held_count_def by (rule count_pc_pos [OF exclusive_leave(1)]) (simp add: exclusive_leave(2))
  then have "pend_count s = 1" "shared_count s = 0" using v held_pending [of s] by auto
  then show ?case
    using gate_step_counts [OF exclusive_leave(1), where g = "leave_exclusive (gr_gate s)" and q = Outside] exclusive_leave(2)
    by (intro gate_invI) (auto simp: leave_exclusive_def gate_word_def)
qed

lemma count_none: "(\<forall>p \<in> set ps. \<not> P p) \<Longrightarrow> count_pc P ps = 0"
  by (induction ps) auto

lemma gate_start_inv: "gate_start s \<Longrightarrow> gate_inv s"
proof -
  assume s: "gate_start s"
  then have "shared_count s = 0" "pend_count s = 0" "held_count s = 0"
    unfolding gate_start_def shared_count_def pend_count_def held_count_def by (auto intro!: count_none)
  then show ?thesis using s by (simp add: gate_inv_def gate_start_def gate_new_def gate_word_def)
qed

interpretation gate: exclusion gate_step gate_start gate_inv gr_pcs "\<lambda>p. p = InShared" "\<lambda>p. p = InExclusive"
proof (unfold_locales, goal_cases)
  case (3 s)
  then show ?case using held_pending [of s] by (simp add: gate_inv_def held_count_def)
next
  case (4 s)
  then show ?case by (simp add: gate_inv_def held_count_def shared_count_def)
qed (auto intro: gate_start_inv gate_step_inv)

text \<open>A draining thread is not starved: no further shared holder gets in, and once the last one left it may enter.\<close>

lemma count_shared_keep: "i < length ps \<Longrightarrow> q \<noteq> InShared \<Longrightarrow> count_pc (\<lambda>p. p = InShared) (ps[i := q]) \<le> count_pc (\<lambda>p. p = InShared) ps"
  using gate_counts_update(1) [of i ps q] by simp

lemma draining_blocks:
  assumes "gate_inv s" "i < length (gr_pcs s)" "gr_pcs s ! i = Draining" "gate_step s s'"
  shows "shared_count s' \<le> shared_count s"
proof -
  have "0 < pend_count s" unfolding pend_count_def by (rule count_pc_pos [OF assms(2)]) (simp add: assms(3))
  then have w: "gate_state (gr_gate s) AND WRITE_BIT \<noteq> 0" using assms(1) by (auto simp: gate_inv_def)
  show ?thesis
    using assms(4)
  proof cases
    case (shared_enter j c g)
    then show ?thesis using w by (auto simp: enter_shared_def compare_exchange_def split: if_splits)
  qed (auto simp: shared_count_def intro: count_shared_keep)
qed

lemma draining_enters:
  assumes "gate_inv s" "i < length (gr_pcs s)" "gr_pcs s ! i = Draining" "shared_count s = 0"
  shows "gate_step s (s\<lparr> gr_pcs := (gr_pcs s)[i := InExclusive] \<rparr>)"
  by (rule gate_step.exclusive_enter) (use assms in \<open>auto simp: drained_def gate_inv_def gate_word_drained\<close>)

end
