(* ===== verification/Hybrid_Latch.thy ===== *)
theory Hybrid_Latch
  imports Exclusion
begin

text \<open>The three-mode latch of \<^verbatim>\<open>src/src/concurrency/hybrid_latch.rs\<close>: a reader counter with a writer sentinel, and a version
  that every exclusive release bumps before it clears the sentinel.  Every atomic operation is a step of its own.  The
  latched content is a value that exclusive holders change and readers look at.\<close>

section \<open>Operations\<close>

definition WRITER :: u32 where "WRITER = - 1"

record HybridLatch =
  latch_counter :: u32
  latch_version :: u64

definition latch_new :: HybridLatch where "latch_new = \<lparr> latch_counter = 0, latch_version = 0 \<rparr>"

text \<open>\<^verbatim>\<open>acquire_optimistic\<close> loads the version, then looks at the counter; \<^verbatim>\<open>validate\<close> looks at the counter, then compares the
  version.\<close>

definition optimistic_ok :: "HybridLatch \<Rightarrow> bool" where
  "optimistic_ok l = (latch_counter l \<noteq> WRITER)"

definition validate_version :: "u64 \<Rightarrow> HybridLatch \<Rightarrow> bool" where
  "validate_version snapshot l = (latch_version l = snapshot)"

definition latch_validate :: "u64 \<Rightarrow> HybridLatch \<Rightarrow> bool" where
  "latch_validate snapshot l = (if latch_counter l = WRITER then False else latch_version l = snapshot)"

text \<open>One round of an acquisition, after the load of \<open>cur\<close>; \<open>None\<close> is another round.\<close>

definition acquire_shared :: "u32 \<Rightarrow> HybridLatch \<Rightarrow> HybridLatch option" where
  "acquire_shared cur l =
    (if cur = WRITER \<or> cur \<ge> WRITER - 1 then None
     else if latch_counter l = cur then Some (l\<lparr> latch_counter := cur + 1 \<rparr>) else None)"

definition release_shared :: "HybridLatch \<Rightarrow> HybridLatch" where
  "release_shared l = l\<lparr> latch_counter := latch_counter l - 1 \<rparr>"

definition acquire_exclusive :: "HybridLatch \<Rightarrow> HybridLatch option" where
  "acquire_exclusive l = (if latch_counter l = 0 then Some (l\<lparr> latch_counter := WRITER \<rparr>) else None)"

text \<open>The two stores of \<^verbatim>\<open>release_exclusive\<close>.\<close>

definition bump_version :: "HybridLatch \<Rightarrow> HybridLatch" where
  "bump_version l = l\<lparr> latch_version := latch_version l + 1 \<rparr>"

definition clear_writer :: "HybridLatch \<Rightarrow> HybridLatch" where
  "clear_writer l = l\<lparr> latch_counter := 0 \<rparr>"

definition release_exclusive :: "HybridLatch \<Rightarrow> HybridLatch" where
  "release_exclusive l = clear_writer (bump_version l)"

text \<open>The guard: what a holder has, validated and released by its state.\<close>

datatype GuardState = Unlocked | Optimistic | Shared | Exclusive

record Guard =
  g_state :: GuardState
  g_snapshot :: u64

fun guard_validate :: "Guard \<Rightarrow> HybridLatch \<Rightarrow> bool" where
  "guard_validate g l =
    (case g_state g of
       Optimistic \<Rightarrow> latch_validate (g_snapshot g) l
     | Shared \<Rightarrow> True
     | Exclusive \<Rightarrow> True
     | Unlocked \<Rightarrow> False)"

fun guard_release :: "Guard \<Rightarrow> HybridLatch \<Rightarrow> Guard \<times> HybridLatch" where
  "guard_release g l =
    (g\<lparr> g_state := Unlocked \<rparr>,
     case g_state g of
       Optimistic \<Rightarrow> l
     | Unlocked \<Rightarrow> l
     | Shared \<Rightarrow> release_shared l
     | Exclusive \<Rightarrow> release_exclusive l)"

section \<open>Interleavings\<close>

text \<open>Program counters carry what the thread remembers.  An optimistic reader also remembers, for the statements below only,
  the number of releases when it took its version, the content at its snapshot, and what it read since.\<close>

datatype 'a latch_pc =
  Away
| OptVersion u64 nat
| OptReading u64 nat 'a "'a list"
| OptChecked u64 nat 'a "'a list"
| OptDone bool nat 'a "'a list"
| SharedTry u32
| SharedHeld
| ExclusiveHeld
| ExclusiveBumped

record 'a latch_run =
  lr_latch :: HybridLatch
  lr_content :: 'a
  lr_releases :: nat
  lr_pcs :: "'a latch_pc list"

definition set_pc :: "nat \<Rightarrow> 'a latch_pc \<Rightarrow> 'a latch_run \<Rightarrow> 'a latch_run" where
  "set_pc i p s = s\<lparr> lr_pcs := (lr_pcs s)[i := p] \<rparr>"

definition at_pc :: "nat \<Rightarrow> 'a latch_pc \<Rightarrow> 'a latch_run \<Rightarrow> bool" where
  "at_pc i p s = (i < length (lr_pcs s) \<and> lr_pcs s ! i = p)"

inductive latch_step :: "'a latch_run \<Rightarrow> 'a latch_run \<Rightarrow> bool" where
  opt_version: "at_pc i Away s \<or> at_pc i (OptVersion v n) s \<Longrightarrow>
    latch_step s (set_pc i (OptVersion (latch_version (lr_latch s)) (lr_releases s)) s)"
| opt_snapshot: "at_pc i (OptVersion v n) s \<Longrightarrow> optimistic_ok (lr_latch s) \<Longrightarrow>
    latch_step s (set_pc i (OptReading v n (lr_content s) []) s)"
| opt_read: "at_pc i (OptReading v n c rs) s \<Longrightarrow> latch_step s (set_pc i (OptReading v n c (rs @ [lr_content s])) s)"
| opt_check: "at_pc i (OptReading v n c rs) s \<Longrightarrow>
    latch_step s (set_pc i (if latch_counter (lr_latch s) = WRITER then OptDone False n c rs else OptChecked v n c rs) s)"
| opt_validate: "at_pc i (OptChecked v n c rs) s \<Longrightarrow>
    latch_step s (set_pc i (OptDone (validate_version v (lr_latch s)) n c rs) s)"
| opt_leave: "at_pc i (OptDone b n c rs) s \<Longrightarrow> latch_step s (set_pc i Away s)"
| shared_load: "at_pc i Away s \<or> at_pc i (SharedTry u) s \<Longrightarrow> latch_step s (set_pc i (SharedTry (latch_counter (lr_latch s))) s)"
| shared_acquire: "at_pc i (SharedTry u) s \<Longrightarrow> acquire_shared u (lr_latch s) = Some l \<Longrightarrow>
    latch_step s (set_pc i SharedHeld (s\<lparr> lr_latch := l \<rparr>))"
| shared_release: "at_pc i SharedHeld s \<Longrightarrow> latch_step s (set_pc i Away (s\<lparr> lr_latch := release_shared (lr_latch s) \<rparr>))"
| exclusive_acquire: "at_pc i Away s \<Longrightarrow> acquire_exclusive (lr_latch s) = Some l \<Longrightarrow>
    latch_step s (set_pc i ExclusiveHeld (s\<lparr> lr_latch := l \<rparr>))"
| exclusive_write: "at_pc i ExclusiveHeld s \<Longrightarrow> latch_step s (s\<lparr> lr_content := c \<rparr>)"
| exclusive_bump: "at_pc i ExclusiveHeld s \<Longrightarrow>
    latch_step s (set_pc i ExclusiveBumped (s\<lparr> lr_latch := bump_version (lr_latch s), lr_releases := lr_releases s + 1 \<rparr>))"
| exclusive_clear: "at_pc i ExclusiveBumped s \<Longrightarrow>
    latch_step s (set_pc i Away (s\<lparr> lr_latch := clear_writer (lr_latch s) \<rparr>))"

definition latch_start :: "'a latch_run \<Rightarrow> bool" where
  "latch_start s = (lr_latch s = latch_new \<and> lr_releases s = 0 \<and> (\<forall>p \<in> set (lr_pcs s). p = Away))"

section \<open>The invariant\<close>

abbreviation is_shared :: "'a latch_pc \<Rightarrow> bool" where "is_shared p \<equiv> p = SharedHeld"

abbreviation is_exclusive :: "'a latch_pc \<Rightarrow> bool" where "is_exclusive p \<equiv> p = ExclusiveHeld \<or> p = ExclusiveBumped"

abbreviation is_writing :: "'a latch_pc \<Rightarrow> bool" where "is_writing p \<equiv> p = ExclusiveHeld"

definition latch_word :: "'a latch_run \<Rightarrow> u32" where
  "latch_word s = (if count_pc is_exclusive (lr_pcs s) = 0 then word_of_nat (count_pc is_shared (lr_pcs s)) else WRITER)"

definition latch_core :: "'a latch_run \<Rightarrow> bool" where
  "latch_core s =
    (latch_counter (lr_latch s) = latch_word s \<and> latch_version (lr_latch s) = word_of_nat (lr_releases s)
     \<and> count_pc is_exclusive (lr_pcs s) \<le> 1 \<and> count_pc is_shared (lr_pcs s) < 2 ^ 32 - 1
     \<and> (count_pc is_exclusive (lr_pcs s) = 1 \<longrightarrow> count_pc is_shared (lr_pcs s) = 0))"

text \<open>What each program counter says: \<open>rel\<close> releases so far, \<open>w\<close> somebody may be writing, \<open>c'\<close> the content.\<close>

fun pc_ok :: "nat \<Rightarrow> bool \<Rightarrow> 'a \<Rightarrow> 'a latch_pc \<Rightarrow> bool" where
  "pc_ok rel w c' (OptVersion v n) = (v = word_of_nat n \<and> n \<le> rel)"
| "pc_ok rel w c' (OptReading v n c rs) =
    (v = word_of_nat n \<and> n \<le> rel \<and> (rel = n \<and> \<not> w \<longrightarrow> c' = c \<and> (\<forall>r \<in> set rs. r = c)))"
| "pc_ok rel w c' (OptChecked v n c rs) = (v = word_of_nat n \<and> n \<le> rel \<and> (rel = n \<longrightarrow> (\<forall>r \<in> set rs. r = c)))"
| "pc_ok rel w c' (OptDone b n c rs) = (b \<longrightarrow> (\<forall>r \<in> set rs. r = c) \<or> n + 2 ^ 64 \<le> rel)"
| "pc_ok rel w c' _ = True"

definition writing :: "'a latch_run \<Rightarrow> bool" where
  "writing s = (0 < count_pc is_writing (lr_pcs s))"

definition latch_inv :: "'a latch_run \<Rightarrow> bool" where
  "latch_inv s = (latch_core s \<and> (\<forall>p \<in> set (lr_pcs s). pc_ok (lr_releases s) (writing s) (lr_content s) p))"

lemma counts_set:
  assumes "at_pc i p s"
  shows "count_pc is_shared (lr_pcs (set_pc i q s)) + (if is_shared p then 1 else 0) = count_pc is_shared (lr_pcs s) + (if is_shared q then 1 else 0)"
    "count_pc is_exclusive (lr_pcs (set_pc i q s)) + (if is_exclusive p then 1 else 0) = count_pc is_exclusive (lr_pcs s) + (if is_exclusive q then 1 else 0)"
    "count_pc is_writing (lr_pcs (set_pc i q s)) + (if is_writing p then 1 else 0) = count_pc is_writing (lr_pcs s) + (if is_writing q then 1 else 0)"
  using assms count_pc_update [of i "lr_pcs s" is_shared q] count_pc_update [of i "lr_pcs s" is_exclusive q]
    count_pc_update [of i "lr_pcs s" is_writing q]
  by (auto simp: set_pc_def at_pc_def)

lemma counts_pos:
  assumes "at_pc i p s"
  shows "is_shared p \<Longrightarrow> 0 < count_pc is_shared (lr_pcs s)" "is_exclusive p \<Longrightarrow> 0 < count_pc is_exclusive (lr_pcs s)"
    "is_writing p \<Longrightarrow> 0 < count_pc is_writing (lr_pcs s)"
  using assms count_pc_pos [of i "lr_pcs s"] by (auto simp: at_pc_def)

lemma writing_le: "count_pc is_writing ps \<le> count_pc is_exclusive ps"
  by (rule count_pc_mono) simp

lemma set_pc_fields [simp]: "lr_latch (set_pc i q s) = lr_latch s" "lr_releases (set_pc i q s) = lr_releases s"
    "lr_content (set_pc i q s) = lr_content s"
  by (simp_all add: set_pc_def)

lemma set_pc_pcs: "p \<in> set (lr_pcs (set_pc i q s)) \<Longrightarrow> p = q \<or> p \<in> set (lr_pcs s)"
  using set_update_subset_insert [of "lr_pcs s" i q] by (auto simp: set_pc_def)

lemma at_pc_mem: "at_pc i p s \<Longrightarrow> p \<in> set (lr_pcs s)"
  by (auto simp: at_pc_def)

lemma WRITER_num: "WRITER = 4294967295" "WRITER - 1 = 4294967294"
  by (simp_all add: WRITER_def)

lemma unat_WRITER: "unat WRITER = 2 ^ 32 - 1" "unat (WRITER - 1) = 2 ^ 32 - 2"
  unfolding WRITER_num by simp_all

lemma core_exclusive: "latch_core s \<Longrightarrow> latch_counter (lr_latch s) = WRITER \<longleftrightarrow> count_pc is_exclusive (lr_pcs s) \<noteq> 0"
proof -
  assume c: "latch_core s"
  have "word_of_nat n \<noteq> WRITER" if "n < 2 ^ 32 - 1" for n
  proof
    assume "word_of_nat n = WRITER"
    then have "unat (word_of_nat n :: u32) = 2 ^ 32 - 1" by (simp only: unat_WRITER(1))
    then show False using that by (simp add: unat_of_nat)
  qed
  then show ?thesis using c by (auto simp: latch_core_def latch_word_def)
qed

text \<open>A step of a reader leaves the latch alone.\<close>

lemma quiet_step:
  assumes "latch_inv s" "at_pc i p s" "\<not> is_shared p" "\<not> is_exclusive p" "\<not> is_shared q" "\<not> is_exclusive q"
    and "pc_ok (lr_releases s) (writing s) (lr_content s) q"
  shows "latch_inv (set_pc i q s)"
proof -
  have c: "count_pc is_shared (lr_pcs (set_pc i q s)) = count_pc is_shared (lr_pcs s)"
      "count_pc is_exclusive (lr_pcs (set_pc i q s)) = count_pc is_exclusive (lr_pcs s)"
      "count_pc is_writing (lr_pcs (set_pc i q s)) = count_pc is_writing (lr_pcs s)"
    using counts_set [OF assms(2), of q] assms(3-6) by auto
  then have "latch_core (set_pc i q s)" "writing (set_pc i q s) = writing s"
    using assms(1) by (simp_all add: latch_inv_def latch_core_def latch_word_def writing_def)
  then show ?thesis using assms(1,7) set_pc_pcs [of _ i q s] by (auto simp: latch_inv_def)
qed

lemma pc_ok_kept:
  "pc_ok rel w c p \<Longrightarrow> rel \<le> rel' \<Longrightarrow> (rel' = rel \<and> \<not> w' \<Longrightarrow> \<not> w \<and> c' = c) \<Longrightarrow> pc_ok rel' w' c' p"
  by (cases p) auto

lemma latch_invI:
  assumes "latch_core s'" "latch_inv s" "lr_releases s \<le> lr_releases s'"
    and "\<And>p. p \<in> set (lr_pcs s') \<Longrightarrow> p \<in> set (lr_pcs s) \<or> pc_ok (lr_releases s') (writing s') (lr_content s') p"
    and "lr_releases s' = lr_releases s \<Longrightarrow> \<not> writing s' \<Longrightarrow> \<not> writing s \<and> lr_content s' = lr_content s"
  shows "latch_inv s'"
  unfolding latch_inv_def
proof (intro conjI ballI)
  show "latch_core s'" by fact
next
  fix p
  assume "p \<in> set (lr_pcs s')"
  from assms(4) [OF this] show "pc_ok (lr_releases s') (writing s') (lr_content s') p"
  proof
    assume "p \<in> set (lr_pcs s)"
    then have "pc_ok (lr_releases s) (writing s) (lr_content s) p" using assms(2) by (simp add: latch_inv_def)
    then show ?thesis by (rule pc_ok_kept) (use assms(3,5) in auto)
  qed
qed

lemma latch_inv_set:
  assumes "latch_core s'" "latch_inv s" "lr_pcs s' = lr_pcs (set_pc i q s)" "\<forall>rel w c. pc_ok rel w c q"
    and "lr_releases s \<le> lr_releases s'"
    and "lr_releases s' = lr_releases s \<Longrightarrow> \<not> writing s' \<Longrightarrow> \<not> writing s \<and> lr_content s' = lr_content s"
  shows "latch_inv s'"
proof (rule latch_invI [OF assms(1,2,5)])
  fix p
  assume "p \<in> set (lr_pcs s')"
  then have "p = q \<or> p \<in> set (lr_pcs s)" unfolding assms(3) by (rule set_pc_pcs)
  then show "p \<in> set (lr_pcs s) \<or> pc_ok (lr_releases s') (writing s') (lr_content s') p" using assms(4) by blast
qed (use assms(6) in auto)

lemma latch_update [simp]: "set_pc i q (s\<lparr> lr_latch := l \<rparr>) = (set_pc i q s)\<lparr> lr_latch := l \<rparr>"
    "set_pc i q (s\<lparr> lr_latch := l, lr_releases := n \<rparr>) = (set_pc i q s)\<lparr> lr_latch := l, lr_releases := n \<rparr>"
  by (simp_all add: set_pc_def)

lemma inv_shared_acquire:
  assumes "latch_inv s" "at_pc i (SharedTry u) s" "acquire_shared u (lr_latch s) = Some l"
  shows "latch_inv (set_pc i SharedHeld (s\<lparr> lr_latch := l \<rparr>))"
proof -
  note core = assms(1) [unfolded latch_inv_def, THEN conjunct1]
  let ?R = "count_pc is_shared (lr_pcs s)"
  have u: "latch_counter (lr_latch s) = u" "u \<noteq> WRITER" "u < WRITER - 1" "l = (lr_latch s)\<lparr> latch_counter := u + 1 \<rparr>"
    using assms(3) by (auto simp: acquire_shared_def split: if_splits)
  have x: "count_pc is_exclusive (lr_pcs s) = 0" using core_exclusive [OF core] u by auto
  have w: "u = word_of_nat ?R" "?R < 2 ^ 32 - 1" using core x u(1) by (auto simp: latch_core_def latch_word_def)
  have "unat u = ?R" using w by (simp add: unat_of_nat)
  then have R: "Suc ?R < 2 ^ 32 - 1" using u(3) unat_WRITER(2) by (simp add: word_less_nat_alt)
  note c = counts_set [OF assms(2), of SharedHeld]
  have core': "latch_core (set_pc i SharedHeld (s\<lparr> lr_latch := l \<rparr>))"
    using core c x w R u(4) by (simp add: latch_core_def latch_word_def)
  have "writing (set_pc i SharedHeld (s\<lparr> lr_latch := l \<rparr>)) = writing s" using c by (simp add: writing_def)
  then show ?thesis by (intro latch_inv_set [OF core' assms(1), where i = i and q = SharedHeld]) simp_all
qed

lemma inv_shared_release:
  assumes "latch_inv s" "at_pc i SharedHeld s"
  shows "latch_inv (set_pc i Away (s\<lparr> lr_latch := release_shared (lr_latch s) \<rparr>))"
proof -
  note core = assms(1) [unfolded latch_inv_def, THEN conjunct1]
  let ?R = "count_pc is_shared (lr_pcs s)" and ?s' = "set_pc i Away (s\<lparr> lr_latch := release_shared (lr_latch s) \<rparr>)"
  have n: "0 < ?R" using counts_pos(1) [OF assms(2)] by simp
  have x: "count_pc is_exclusive (lr_pcs s) = 0"
    using core n by (cases "count_pc is_exclusive (lr_pcs s)") (auto simp: latch_core_def)
  note c = counts_set [OF assms(2), of Away]
  have "(word_of_nat ?R :: u32) - 1 = word_of_nat (?R - 1)" using n by (cases ?R) simp_all
  moreover have "count_pc is_shared (lr_pcs ?s') = ?R - 1" "count_pc is_exclusive (lr_pcs ?s') = 0" using c x by simp_all
  ultimately have core': "latch_core ?s'"
    using core x unfolding latch_core_def latch_word_def by (auto simp: release_shared_def)
  have "writing ?s' = writing s" using c by (simp add: writing_def)
  then show ?thesis by (intro latch_inv_set [OF core' assms(1), where i = i and q = Away]) simp_all
qed

lemma inv_exclusive_acquire:
  assumes "latch_inv s" "at_pc i Away s" "acquire_exclusive (lr_latch s) = Some l"
  shows "latch_inv (set_pc i ExclusiveHeld (s\<lparr> lr_latch := l \<rparr>))"
proof -
  note core = assms(1) [unfolded latch_inv_def, THEN conjunct1]
  let ?R = "count_pc is_shared (lr_pcs s)" and ?s' = "set_pc i ExclusiveHeld (s\<lparr> lr_latch := l \<rparr>)"
  have u: "latch_counter (lr_latch s) = 0" "l = (lr_latch s)\<lparr> latch_counter := WRITER \<rparr>"
    using assms(3) by (auto simp: acquire_exclusive_def split: if_splits)
  have "(0 :: u32) \<noteq> WRITER" unfolding WRITER_def by simp
  then have x: "count_pc is_exclusive (lr_pcs s) = 0" using core_exclusive [OF core] u by auto
  have w: "(word_of_nat ?R :: u32) = 0" "?R < 2 ^ 32" using core x u(1) by (auto simp: latch_core_def latch_word_def)
  then have "unat (word_of_nat ?R :: u32) = 0" by simp
  then have R: "?R = 0" using w(2) by (simp add: unat_of_nat)
  note c = counts_set [OF assms(2), of ExclusiveHeld]
  have core': "latch_core ?s'" using core c x R u(2) by (simp add: latch_core_def latch_word_def)
  have "writing ?s'" using c by (simp add: writing_def)
  then show ?thesis by (intro latch_inv_set [OF core' assms(1), where i = i and q = ExclusiveHeld]) simp_all
qed

lemma inv_exclusive_write:
  assumes "latch_inv s" "at_pc i ExclusiveHeld s"
  shows "latch_inv (s\<lparr> lr_content := c \<rparr>)"
proof -
  have w: "writing (s\<lparr> lr_content := c \<rparr>)" using counts_pos(3) [OF assms(2)] by (simp add: writing_def)
  have "latch_core (s\<lparr> lr_content := c \<rparr>)" using assms(1) by (simp add: latch_inv_def latch_core_def latch_word_def)
  then show ?thesis by (rule latch_invI [OF _ assms(1)]) (use w in simp_all)
qed

lemma inv_exclusive_bump:
  assumes "latch_inv s" "at_pc i ExclusiveHeld s"
  shows "latch_inv (set_pc i ExclusiveBumped (s\<lparr> lr_latch := bump_version (lr_latch s), lr_releases := lr_releases s + 1 \<rparr>))"
proof -
  let ?s' = "set_pc i ExclusiveBumped (s\<lparr> lr_latch := bump_version (lr_latch s), lr_releases := lr_releases s + 1 \<rparr>)"
  note c = counts_set [OF assms(2), of ExclusiveBumped]
  have "latch_core ?s'" using assms(1) c by (simp add: latch_inv_def latch_core_def latch_word_def bump_version_def)
  then show ?thesis by (intro latch_inv_set [OF _ assms(1), where i = i and q = ExclusiveBumped]) simp_all
qed

lemma inv_exclusive_clear:
  assumes "latch_inv s" "at_pc i ExclusiveBumped s"
  shows "latch_inv (set_pc i Away (s\<lparr> lr_latch := clear_writer (lr_latch s) \<rparr>))"
proof -
  note core = assms(1) [unfolded latch_inv_def, THEN conjunct1]
  let ?s' = "set_pc i Away (s\<lparr> lr_latch := clear_writer (lr_latch s) \<rparr>)"
  note c = counts_set [OF assms(2), of Away]
  have x: "count_pc is_exclusive (lr_pcs s) = 1" using counts_pos(2) [OF assms(2)] core by (simp add: latch_core_def)
  then have "latch_core ?s'" using core c by (auto simp: latch_core_def latch_word_def clear_writer_def)
  moreover have "writing ?s' = writing s" using c by (simp add: writing_def)
  ultimately show ?thesis by (intro latch_inv_set [OF _ assms(1), where i = i and q = Away]) simp_all
qed

lemma pc_of: "latch_inv s \<Longrightarrow> at_pc i p s \<Longrightarrow> pc_ok (lr_releases s) (writing s) (lr_content s) p"
  by (auto simp: latch_inv_def dest: at_pc_mem)

lemma not_writing:
  assumes "latch_inv s" "latch_counter (lr_latch s) \<noteq> WRITER"
  shows "\<not> writing s"
  using assms core_exclusive [of s] writing_le [of "lr_pcs s"] by (auto simp: latch_inv_def writing_def)

lemma same_version:
  assumes "latch_inv s" "n \<le> lr_releases s" "latch_version (lr_latch s) = word_of_nat n" "\<not> n + 2 ^ 64 \<le> lr_releases s"
  shows "lr_releases s = n"
proof -
  have "(word_of_nat (lr_releases s) :: u64) = word_of_nat n" using assms(1,3) by (simp add: latch_inv_def latch_core_def)
  then have "(word_of_nat (lr_releases s - n) :: u64) = 0" using assms(2) by (simp add: of_nat_diff)
  then have "unat (word_of_nat (lr_releases s - n) :: u64) = 0" by simp
  then have "(lr_releases s - n) mod 2 ^ 64 = 0" by (simp add: unat_of_nat)
  moreover have "lr_releases s - n < 2 ^ 64" using assms(2,4) by (simp add: less_diff_conv2)
  ultimately show ?thesis using assms(2) by (simp only: mod_less)
qed

lemma latch_step_inv: "latch_step s s' \<Longrightarrow> latch_inv s \<Longrightarrow> latch_inv s'"
proof (induction rule: latch_step.induct)
  case (opt_version i s v n)
  have q: "pc_ok (lr_releases s) (writing s) (lr_content s) (OptVersion (latch_version (lr_latch s)) (lr_releases s))"
    using opt_version(2) by (simp add: latch_inv_def latch_core_def)
  from opt_version(1) show ?case
  proof
    assume "at_pc i Away s"
    then show ?case by (rule quiet_step [OF opt_version(2)]) (use q in simp_all)
  next
    assume "at_pc i (OptVersion v n) s"
    then show ?case by (rule quiet_step [OF opt_version(2)]) (use q in simp_all)
  qed
next
  case (opt_snapshot i v n s)
  show ?case by (rule quiet_step [OF opt_snapshot(3,1)]) (use pc_of [OF opt_snapshot(3,1)] in simp_all)
next
  case (opt_read i v n c rs s)
  show ?case by (rule quiet_step [OF opt_read(2,1)]) (use pc_of [OF opt_read(2,1)] in auto)
next
  case (opt_check i v n c rs s)
  show ?case
    by (rule quiet_step [OF opt_check(2,1)]) (use pc_of [OF opt_check(2,1)] not_writing [OF opt_check(2)] in auto)
next
  case (opt_validate i v n c rs s)
  note p = pc_of [OF opt_validate(2,1)]
  have "(\<forall>r \<in> set rs. r = c) \<or> n + 2 ^ 64 \<le> lr_releases s" if "validate_version v (lr_latch s)"
    using same_version [OF opt_validate(2), of n] p that by (auto simp: validate_version_def)
  then show ?case by (intro quiet_step [OF opt_validate(2,1)]) simp_all
next
  case (opt_leave i b n c rs s)
  show ?case by (rule quiet_step [OF opt_leave(2,1)]) simp_all
next
  case (shared_load i s u)
  from shared_load(1) show ?case
  proof
    assume "at_pc i Away s"
    then show ?case by (rule quiet_step [OF shared_load(2)]) simp_all
  next
    assume "at_pc i (SharedTry u) s"
    then show ?case by (rule quiet_step [OF shared_load(2)]) simp_all
  qed
qed (blast intro: inv_shared_acquire inv_shared_release inv_exclusive_acquire inv_exclusive_write inv_exclusive_bump inv_exclusive_clear)+

lemma latch_start_inv: "latch_start s \<Longrightarrow> latch_inv s"
proof -
  assume s: "latch_start s"
  then have "filter P (lr_pcs s) = []" if "\<not> P Away" for P using that by (auto simp: latch_start_def filter_empty_conv)
  then have "count_pc P (lr_pcs s) = 0" if "\<not> P Away" for P using that by (simp add: count_pc_def)
  then show ?thesis using s by (auto simp: latch_inv_def latch_core_def latch_word_def latch_start_def latch_new_def)
qed

interpretation latch: exclusion latch_step latch_start latch_inv lr_pcs is_shared is_exclusive
proof (unfold_locales, goal_cases)
  case (3 s)
  then show ?case by (simp add: latch_inv_def latch_core_def)
next
  case (4 s)
  then show ?case by (simp add: latch_inv_def latch_core_def)
qed (auto intro: latch_start_inv latch_step_inv)

text \<open>A validated optimistic read saw one state: unless the version came round its 64 bits since, everything read between
  snapshot and validation is what the content was at the snapshot.\<close>

theorem optimistic_consistent:
  assumes "latch_start s" "latch_step\<^sup>*\<^sup>* s s'" "at_pc i (OptDone True n c rs) s'" "lr_releases s' < n + 2 ^ 64"
  shows "\<forall>r \<in> set rs. r = c"
  using pc_of [OF latch.reachable_inv [OF assms(2,1)] assms(3)] assms(4) by auto

end
