(* ===== verification/Endpoint_Locks.thy ===== *)
theory Endpoint_Locks
  imports Holt_Prelude
begin

text \<open>The sharded endpoint locks of \<^verbatim>\<open>src/src/concurrency/endpoint_locks.rs\<close>: an operation on one key or on two locks the
  shards of its keys, in ascending order, and releases them when its guard is dropped.\<close>

unbundle bit_operations_syntax

section \<open>Operations\<close>

definition ENDPOINT_LOCK_SHARDS :: nat where "ENDPOINT_LOCK_SHARDS = 256"

text \<open>The 64-bit FNV-1a hash of the key, reduced to a shard.\<close>

definition shard_hash_step :: "u64 \<Rightarrow> u8 \<Rightarrow> u64" where
  "shard_hash_step h b = (h XOR ucast b) * 0x100000001b3"

definition shard_index :: "bytes \<Rightarrow> nat" where
  "shard_index key = unat (foldl shard_hash_step 0xcbf29ce484222325 key AND word_of_nat (ENDPOINT_LOCK_SHARDS - 1))"

text \<open>The shards an operation locks, in the order it locks them.\<close>

definition lock_key :: "bytes \<Rightarrow> nat list" where
  "lock_key key = [shard_index key]"

definition lock_pair :: "bytes \<Rightarrow> bytes \<Rightarrow> nat list" where
  "lock_pair src dst =
    (let src_idx = shard_index src; dst_idx = shard_index dst in
     if src_idx = dst_idx then [src_idx]
     else if src_idx < dst_idx then [src_idx, dst_idx] else [dst_idx, src_idx])"

type_synonym EndpointLocks = "bool list"

definition endpoint_locks_new :: EndpointLocks where
  "endpoint_locks_new = replicate ENDPOINT_LOCK_SHARDS False"

definition shard_lock :: "nat \<Rightarrow> EndpointLocks \<Rightarrow> EndpointLocks option" where
  "shard_lock i l = (if l ! i then None else Some (l[i := True]))"

definition shard_unlock :: "nat \<Rightarrow> EndpointLocks \<Rightarrow> EndpointLocks" where
  "shard_unlock i l = l[i := False]"

lemma shard_index_bound: "shard_index key < ENDPOINT_LOCK_SHARDS"
proof -
  have "unat (w AND 255 :: u64) \<le> 255" for w :: u64
    using word_and_le1 [of w 255] by (simp add: word_le_nat_alt)
  from this [of "foldl shard_hash_step 0xcbf29ce484222325 key"] show ?thesis by (simp add: shard_index_def ENDPOINT_LOCK_SHARDS_def)
qed

lemma lock_orders:
  "sorted_wrt (<) (lock_key key)" "sorted_wrt (<) (lock_pair src dst)" "lock_key key \<noteq> []" "lock_pair src dst \<noteq> []"
  "i \<in> set (lock_key key) \<Longrightarrow> i < ENDPOINT_LOCK_SHARDS" "i \<in> set (lock_pair src dst) \<Longrightarrow> i < ENDPOINT_LOCK_SHARDS"
  using shard_index_bound by (auto simp: lock_key_def lock_pair_def Let_def split: if_splits)

section \<open>Interleavings\<close>

text \<open>An operation in progress: the shards it wants, how many it has locked, and how many its dropped guard has released, in
  the order of the guard's fields.\<close>

record lock_op =
  lo_want :: "nat list"
  lo_held :: nat
  lo_dropped :: nat

datatype request = OneKey bytes | TwoKeys bytes bytes

fun request_shards :: "request \<Rightarrow> nat list" where
  "request_shards (OneKey key) = lock_key key"
| "request_shards (TwoKeys src dst) = lock_pair src dst"

record lock_run =
  ln_locks :: EndpointLocks
  ln_ops :: "lock_op option list"

definition put_op :: "nat \<Rightarrow> lock_op option \<Rightarrow> EndpointLocks \<Rightarrow> lock_run \<Rightarrow> lock_run" where
  "put_op t q l s = s\<lparr> ln_locks := l, ln_ops := (ln_ops s)[t := q] \<rparr>"

definition op_at :: "nat \<Rightarrow> lock_op option \<Rightarrow> lock_run \<Rightarrow> bool" where
  "op_at t q s = (t < length (ln_ops s) \<and> ln_ops s ! t = q)"

inductive endpoint_step :: "lock_run \<Rightarrow> lock_run \<Rightarrow> bool" where
  acquire: "op_at t (Some p) s \<Longrightarrow> lo_held p < length (lo_want p) \<Longrightarrow> shard_lock (lo_want p ! lo_held p) (ln_locks s) = Some l \<Longrightarrow>
    endpoint_step s (put_op t (Some (p\<lparr> lo_held := lo_held p + 1 \<rparr>)) l s)"
| release: "op_at t (Some p) s \<Longrightarrow> lo_held p = length (lo_want p) \<Longrightarrow> lo_dropped p < length (lo_want p) \<Longrightarrow>
    endpoint_step s (put_op t (Some (p\<lparr> lo_dropped := lo_dropped p + 1 \<rparr>)) (shard_unlock (lo_want p ! lo_dropped p) (ln_locks s)) s)"
| finish: "op_at t (Some p) s \<Longrightarrow> lo_dropped p = length (lo_want p) \<Longrightarrow> endpoint_step s (put_op t None (ln_locks s) s)"

inductive lock_step :: "lock_run \<Rightarrow> lock_run \<Rightarrow> bool" where
  start_op: "op_at t None s \<Longrightarrow> lock_step s (put_op t (Some \<lparr> lo_want = request_shards r, lo_held = 0, lo_dropped = 0 \<rparr>) (ln_locks s) s)"
| run_op: "endpoint_step s s' \<Longrightarrow> lock_step s s'"

definition lock_start :: "lock_run \<Rightarrow> bool" where
  "lock_start s = (ln_locks s = endpoint_locks_new \<and> (\<forall>p \<in> set (ln_ops s). p = None))"

section \<open>The invariant\<close>

definition shards_held :: "lock_op option \<Rightarrow> nat set" where
  "shards_held q = (case q of None \<Rightarrow> {} | Some p \<Rightarrow> set (drop (lo_dropped p) (take (lo_held p) (lo_want p))))"

fun lock_op_ok :: "lock_op option \<Rightarrow> bool" where
  "lock_op_ok None = True"
| "lock_op_ok (Some p) = (sorted_wrt (<) (lo_want p) \<and> (\<forall>i \<in> set (lo_want p). i < ENDPOINT_LOCK_SHARDS) \<and> lo_held p \<le> length (lo_want p)
    \<and> lo_dropped p \<le> length (lo_want p) \<and> (lo_held p < length (lo_want p) \<longrightarrow> lo_dropped p = 0))"

text \<open>A lock is set iff an operation holds it, and no two hold the same.\<close>

definition lock_inv :: "lock_run \<Rightarrow> bool" where
  "lock_inv s =
    (length (ln_locks s) = ENDPOINT_LOCK_SHARDS \<and> (\<forall>t < length (ln_ops s). lock_op_ok (ln_ops s ! t))
     \<and> (\<forall>i < ENDPOINT_LOCK_SHARDS. ln_locks s ! i \<longleftrightarrow> (\<exists>t < length (ln_ops s). i \<in> shards_held (ln_ops s ! t)))
     \<and> (\<forall>t < length (ln_ops s). \<forall>t' < length (ln_ops s). t \<noteq> t' \<longrightarrow> shards_held (ln_ops s ! t) \<inter> shards_held (ln_ops s ! t') = {}))"

lemma shards_held_acquire:
  assumes "lo_held p < length (lo_want p)" "lo_dropped p = 0"
  shows "shards_held (Some (p\<lparr> lo_held := lo_held p + 1 \<rparr>)) = insert (lo_want p ! lo_held p) (shards_held (Some p))"
  using assms by (simp add: shards_held_def take_Suc_conv_app_nth)

lemma shards_held_release:
  assumes "lo_held p = length (lo_want p)" "lo_dropped p < length (lo_want p)" "sorted_wrt (<) (lo_want p)"
  shows "shards_held (Some (p\<lparr> lo_dropped := lo_dropped p + 1 \<rparr>)) = shards_held (Some p) - {lo_want p ! lo_dropped p}"
    "lo_want p ! lo_dropped p \<in> shards_held (Some p)"
proof -
  have d: "drop (lo_dropped p) (lo_want p) = lo_want p ! lo_dropped p # drop (Suc (lo_dropped p)) (lo_want p)"
    using assms(2) by (simp add: Cons_nth_drop_Suc)
  have "sorted_wrt (<) (drop (lo_dropped p) (lo_want p))" using assms(3) by (rule sorted_wrt_drop)
  then have "lo_want p ! lo_dropped p \<notin> set (drop (Suc (lo_dropped p)) (lo_want p))" unfolding d by auto
  then show "shards_held (Some (p\<lparr> lo_dropped := lo_dropped p + 1 \<rparr>)) = shards_held (Some p) - {lo_want p ! lo_dropped p}"
      "lo_want p ! lo_dropped p \<in> shards_held (Some p)"
    using assms(1) by (auto simp: shards_held_def d)
qed

text \<open>One operation changes what it holds and the locks change with it.\<close>

lemma lock_inv_put:
  assumes "lock_inv s" "op_at t q s" "lock_op_ok q'" "length l = length (ln_locks s)"
    and "\<And>i. i < ENDPOINT_LOCK_SHARDS \<Longrightarrow> l ! i \<longleftrightarrow> (ln_locks s ! i \<and> i \<notin> shards_held q) \<or> i \<in> shards_held q'"
    and "\<And>i. i \<in> shards_held q' \<Longrightarrow> i \<notin> shards_held q \<Longrightarrow> i < ENDPOINT_LOCK_SHARDS \<and> \<not> ln_locks s ! i"
  shows "lock_inv (put_op t q' l s)"
proof -
  let ?ops = "ln_ops s"
  have t: "t < length ?ops" "?ops ! t = q" using assms(2) by (simp_all add: op_at_def)
  have ops: "ln_ops (put_op t q' l s) = ?ops[t := q']" by (simp add: put_op_def)
  have own: "shards_held q' \<inter> shards_held (?ops ! t') = {}" if "t' < length ?ops" "t' \<noteq> t" for t'
  proof -
    have "i \<notin> shards_held (?ops ! t')" if "i \<in> shards_held q'" for i
    proof (cases "i \<in> shards_held q")
      case True
      then show ?thesis using assms(1) t \<open>t' < length ?ops\<close> \<open>t' \<noteq> t\<close> unfolding lock_inv_def by blast
    next
      case False
      then show ?thesis using assms(1,6) that \<open>t' < length ?ops\<close> unfolding lock_inv_def by blast
    qed
    then show ?thesis by blast
  qed
  have locks: "l ! i \<longleftrightarrow> (\<exists>t' < length ?ops. i \<in> shards_held (?ops[t := q'] ! t'))" if i: "i < ENDPOINT_LOCK_SHARDS" for i
  proof -
    have "(ln_locks s ! i \<and> i \<notin> shards_held q) \<longleftrightarrow> (\<exists>t' < length ?ops. t' \<noteq> t \<and> i \<in> shards_held (?ops ! t'))"
      using assms(1) t i unfolding lock_inv_def by blast
    then show ?thesis using assms(5) [OF i] t(1) by (auto simp: nth_list_update)
  qed
  show ?thesis
    unfolding lock_inv_def ops
    using assms(1,3,4) t own locks by (auto simp: lock_inv_def put_op_def nth_list_update)
qed

lemma start_ok: "lock_op_ok (Some \<lparr> lo_want = request_shards r, lo_held = 0, lo_dropped = 0 \<rparr>)"
  using lock_orders by (cases r) auto

lemma endpoint_step_inv: "endpoint_step s s' \<Longrightarrow> lock_inv s \<Longrightarrow> lock_inv s'"
proof (induction rule: endpoint_step.induct)
  case (acquire t p s l)
  have ok: "lock_op_ok (Some p)" using acquire(1,4) by (auto simp: lock_inv_def op_at_def)
  have h: "shards_held (Some (p\<lparr> lo_held := lo_held p + 1 \<rparr>)) = insert (lo_want p ! lo_held p) (shards_held (Some p))"
    using acquire(2) ok by (intro shards_held_acquire) auto
  have l: "\<not> ln_locks s ! (lo_want p ! lo_held p)" "l = (ln_locks s)[lo_want p ! lo_held p := True]"
    using acquire(3) by (auto simp: shard_lock_def split: if_splits)
  have w: "lo_want p ! lo_held p < ENDPOINT_LOCK_SHARDS" using ok acquire(2) by auto
  have s: "i \<in> shards_held (Some p) \<Longrightarrow> i < ENDPOINT_LOCK_SHARDS \<Longrightarrow> ln_locks s ! i" for i
    using acquire(1,4) by (auto simp: lock_inv_def op_at_def)
  show ?case
    by (rule lock_inv_put [OF acquire(4,1)]) (use ok acquire(2,4) h l w s in \<open>auto simp: lock_inv_def nth_list_update\<close>)
next
  case (release t p s)
  have ok: "lock_op_ok (Some p)" using release(1,4) by (auto simp: lock_inv_def op_at_def)
  note h = shards_held_release [OF release(2,3)]
  have s: "i \<in> shards_held (Some p) \<Longrightarrow> i < ENDPOINT_LOCK_SHARDS \<Longrightarrow> ln_locks s ! i" for i
    using release(1,4) by (auto simp: lock_inv_def op_at_def)
  have w: "lo_want p ! lo_dropped p < ENDPOINT_LOCK_SHARDS" using ok release(3) by auto
  show ?case
    by (rule lock_inv_put [OF release(4,1)])
       (use ok release(2-4) h s w in \<open>auto simp: lock_inv_def shard_unlock_def nth_list_update\<close>)
next
  case (finish t p s)
  have "shards_held (Some p) = {}" using finish(2) by (simp add: shards_held_def)
  then show ?case by (intro lock_inv_put [OF finish(3,1)]) (auto simp: shards_held_def)
qed

lemma lock_step_inv: "lock_step s s' \<Longrightarrow> lock_inv s \<Longrightarrow> lock_inv s'"
proof (induction rule: lock_step.induct)
  case (start_op t s r)
  show ?case by (rule lock_inv_put [OF start_op(2,1) start_ok]) (auto simp: shards_held_def)
qed (rule endpoint_step_inv)

lemma lock_reachable_inv: "lock_step\<^sup>*\<^sup>* s s' \<Longrightarrow> lock_start s \<Longrightarrow> lock_inv s'"
proof (induction rule: rtranclp_induct)
  case base
  have n: "ln_ops s ! t = None" if "t < length (ln_ops s)" for t using base nth_mem [OF that] by (simp add: lock_start_def)
  have l: "ln_locks s = endpoint_locks_new" using base by (simp add: lock_start_def)
  show ?case by (simp add: lock_inv_def l n endpoint_locks_new_def shards_held_def)
qed (rule lock_step_inv)

section \<open>No deadlock\<close>

lemma sorted_take_less:
  assumes "sorted_wrt (<) (xs :: nat list)" "n < length xs" "x \<in> set (take n xs)"
  shows "x < xs ! n"
  using assms by (auto simp: in_set_conv_nth sorted_wrt_iff_nth_less)

text \<open>While an operation is in progress, some operation can go on: look at the one that waits for the highest shard.\<close>

theorem lock_progress:
  assumes "lock_inv s" "op_at t (Some p) s"
  shows "\<exists>s'. endpoint_step s s'"
proof (rule ccontr)
  assume stuck: "\<nexists>s'. endpoint_step s s'"
  define waits where "waits = {(t, lo_want p ! lo_held p) | t p. op_at t (Some p) s}"
  have blocked: "lo_held q < length (lo_want q) \<and> ln_locks s ! (lo_want q ! lo_held q)" if q: "op_at u (Some q) s" for u q
  proof -
    have ok: "lock_op_ok (Some q)" using q assms(1) by (auto simp: lock_inv_def op_at_def)
    have "\<not> lo_held q = length (lo_want q)"
      using stuck endpoint_step.release [OF q] endpoint_step.finish [OF q] ok by (cases "lo_dropped q = length (lo_want q)") auto
    moreover have "ln_locks s ! (lo_want q ! lo_held q)" if "lo_held q < length (lo_want q)"
      using stuck endpoint_step.acquire [OF q that] by (cases "ln_locks s ! (lo_want q ! lo_held q)") (auto simp: shard_lock_def)
    ultimately show ?thesis using ok by auto
  qed
  let ?W = "(\<lambda>(u, w). w) ` waits"
  have "waits \<subseteq> (\<lambda>u. (u, lo_want (the (ln_ops s ! u)) ! lo_held (the (ln_ops s ! u)))) ` {..< length (ln_ops s)}"
    by (auto simp: waits_def op_at_def)
  then have fin: "finite ?W" using finite_surj by blast
  have "lo_want p ! lo_held p \<in> ?W" using assms(2) by (force simp: waits_def)
  then have "Max ?W \<in> ?W" using fin by (intro Max_in) auto
  then obtain u q where q: "op_at u (Some q) s" "Max ?W = lo_want q ! lo_held q" by (auto simp: waits_def)
  have "lock_op_ok (Some q)" using q(1) assms(1) by (auto simp: lock_inv_def op_at_def)
  then have "lo_want q ! lo_held q < ENDPOINT_LOCK_SHARDS" using blocked [OF q(1)] by auto
  then obtain u' where u': "u' < length (ln_ops s)" "lo_want q ! lo_held q \<in> shards_held (ln_ops s ! u')"
    using assms(1) blocked [OF q(1)] by (auto simp: lock_inv_def)
  then obtain q' where q': "op_at u' (Some q') s" by (cases "ln_ops s ! u'") (auto simp: shards_held_def op_at_def)
  have "lo_want q ! lo_held q \<in> set (take (lo_held q') (lo_want q'))"
    using u'(2) q' by (auto simp: shards_held_def op_at_def dest: in_set_dropD)
  moreover have "lock_op_ok (Some q')" using q' assms(1) by (auto simp: lock_inv_def op_at_def)
  ultimately have "lo_want q ! lo_held q < lo_want q' ! lo_held q'"
    using blocked [OF q'] by (intro sorted_take_less) auto
  moreover have "lo_want q' ! lo_held q' \<le> Max ?W" using fin
  proof (rule Max_ge)
    have "(u', lo_want q' ! lo_held q') \<in> waits" using q' by (auto simp: waits_def)
    then show "lo_want q' ! lo_held q' \<in> ?W" by (metis (mono_tags, lifting) case_prod_conv image_eqI)
  qed
  ultimately show False using q(2) by simp
qed

section \<open>Every operation ends\<close>

definition lock_work :: "lock_op option \<Rightarrow> nat" where
  "lock_work q = (case q of None \<Rightarrow> 0 | Some p \<Rightarrow> Suc (length (lo_want p) - lo_held p + (length (lo_want p) - lo_dropped p)))"

definition total_lock_work :: "lock_run \<Rightarrow> nat" where
  "total_lock_work s = sum_list (map lock_work (ln_ops s))"

lemma total_lock_work_put:
  assumes "op_at t q s" "lock_work q' < lock_work q"
  shows "total_lock_work (put_op t q' l s) < total_lock_work s"
proof -
  have t: "t < length (ln_ops s)" "ln_ops s ! t = q" using assms(1) by (simp_all add: op_at_def)
  have "map lock_work ((ln_ops s)[t := q']) = (map lock_work (ln_ops s))[t := lock_work q']" by (simp add: map_update)
  moreover have "sum_list ((map lock_work (ln_ops s))[t := lock_work q']) + lock_work q = sum_list (map lock_work (ln_ops s)) + lock_work q'"
  proof -
    have "lock_work q \<in> set (map lock_work (ln_ops s))" using t nth_mem by fastforce
    then have "lock_work q \<le> sum_list (map lock_work (ln_ops s))" by (rule member_le_sum_list) simp
    then show ?thesis using t sum_list_update [of t "map lock_work (ln_ops s)" "lock_work q'"] by simp
  qed
  ultimately show ?thesis using assms(2) by (simp add: total_lock_work_def put_op_def)
qed

lemma endpoint_step_decreases: "endpoint_step s s' \<Longrightarrow> total_lock_work s' < total_lock_work s"
proof (induction rule: endpoint_step.induct)
  case (acquire t p s l)
  show ?case by (rule total_lock_work_put [OF acquire(1)]) (use acquire(2) in \<open>simp add: lock_work_def\<close>)
next
  case (release t p s)
  show ?case by (rule total_lock_work_put [OF release(1)]) (use release(3) in \<open>simp add: lock_work_def\<close>)
next
  case (finish t p s)
  show ?case by (rule total_lock_work_put [OF finish(1)]) (simp add: lock_work_def)
qed

theorem locks_drain:
  assumes "lock_inv s"
  shows "\<exists>s'. endpoint_step\<^sup>*\<^sup>* s s' \<and> (\<forall>p \<in> set (ln_ops s'). p = None)"
  using assms
proof (induction "total_lock_work s" arbitrary: s rule: less_induct)
  case less
  show ?case
  proof (cases "\<forall>p \<in> set (ln_ops s). p = None")
    case False
    then obtain t p where "op_at t (Some p) s" by (auto simp: op_at_def in_set_conv_nth)
    from lock_progress [OF less.prems this] obtain s1 where s1: "endpoint_step s s1" by blast
    from less.hyps [OF endpoint_step_decreases [OF s1] endpoint_step_inv [OF s1 less.prems]] s1 show ?thesis
      by (meson converse_rtranclp_into_rtranclp)
  qed blast
qed

end
