(* ===== verification/Key_Path.thy ===== *)
theory Key_Path
  imports Holt_Prelude
begin

text \<open>The path-shaped key builder of \<^verbatim>\<open>src/src/api/key.rs\<close>.\<close>

section \<open>Operations\<close>

definition DELIMITER :: u8 where "DELIMITER = 47"

definition NUL :: u8 where "NUL = 0"

datatype KeyPathError = EmptySegment | ContainsDelimiter | ContainsNul | DotSegment

record KeyPathBuf =
  kp_bytes :: bytes

record KeyPrefixBuf =
  kpre_bytes :: bytes

definition validate_segment :: "bytes \<Rightarrow> KeyPathError + unit" where
  "validate_segment segment =
    (if segment = [] then Inl EmptySegment
     else if DELIMITER \<in> set segment then Inl ContainsDelimiter
     else if NUL \<in> set segment then Inl ContainsNul
     else if segment = [46] \<or> segment = [46, 46] then Inl DotSegment
     else Inr ())"

definition key_path_new :: KeyPathBuf where "key_path_new = \<lparr> kp_bytes = [] \<rparr>"

definition with_namespace :: "bytes \<Rightarrow> KeyPathError + KeyPathBuf" where
  "with_namespace ns =
    (case validate_segment ns of
       Inl e \<Rightarrow> Inl e
     | Inr _ \<Rightarrow> Inr \<lparr> kp_bytes = ns @ [DELIMITER] \<rparr>)"

definition delimited :: "bytes \<Rightarrow> bytes" where
  "delimited bs = (if bs \<noteq> [] \<and> last bs \<noteq> DELIMITER then bs @ [DELIMITER] else bs)"

definition key_push :: "bytes \<Rightarrow> KeyPathBuf \<Rightarrow> KeyPathError + KeyPathBuf" where
  "key_push segment k =
    (case validate_segment segment of
       Inl e \<Rightarrow> Inl e
     | Inr _ \<Rightarrow> Inr \<lparr> kp_bytes = delimited (kp_bytes k) @ segment \<rparr>)"

definition into_prefix :: "KeyPathBuf \<Rightarrow> KeyPrefixBuf" where
  "into_prefix k = \<lparr> kpre_bytes = delimited (kp_bytes k) \<rparr>"

definition key_path_len :: "KeyPathBuf \<Rightarrow> nat" where "key_path_len k = length (kp_bytes k)"

definition key_is_empty :: "KeyPathBuf \<Rightarrow> bool" where "key_is_empty k = (kp_bytes k = [])"

section \<open>Paths\<close>

text \<open>What a builder holds: the segments so far, and whether a namespace has left its delimiter at the end.\<close>

fun push_all :: "bytes list \<Rightarrow> KeyPathBuf \<Rightarrow> KeyPathError + KeyPathBuf" where
  "push_all [] k = Inr k"
| "push_all (s # ss) k = (case key_push s k of Inl e \<Rightarrow> Inl e | Inr k' \<Rightarrow> push_all ss k')"

definition segment_ok :: "bytes \<Rightarrow> bool" where
  "segment_ok s = (validate_segment s = Inr ())"

fun joined :: "bytes list \<Rightarrow> bytes" where
  "joined [] = []"
| "joined [s] = s"
| "joined (s # ss) = s @ DELIMITER # joined ss"

definition terminated :: "bytes list \<Rightarrow> bytes" where
  "terminated ss = concat (map (\<lambda>s. s @ [DELIMITER]) ss)"

lemma segment_ok_iff:
  "segment_ok s \<longleftrightarrow> s \<noteq> [] \<and> DELIMITER \<notin> set s \<and> NUL \<notin> set s \<and> s \<noteq> [46] \<and> s \<noteq> [46, 46]"
  by (auto simp: segment_ok_def validate_segment_def)

lemma joined_Cons: "ss \<noteq> [] \<Longrightarrow> joined (s # ss) = s @ DELIMITER # joined ss"
  by (cases ss) auto

lemma joined_last: "ss \<noteq> [] \<Longrightarrow> \<forall>s \<in> set ss. segment_ok s \<Longrightarrow> joined ss \<noteq> [] \<and> last (joined ss) \<noteq> DELIMITER"
proof (induction ss rule: joined.induct)
  case (2 s)
  then show ?case by (auto simp: segment_ok_iff dest: last_in_set)
qed auto

lemma terminated_joined: "ss \<noteq> [] \<Longrightarrow> terminated ss = joined ss @ [DELIMITER]"
  by (induction ss rule: joined.induct) (auto simp: terminated_def)

lemma terminated_simps [simp]: "terminated [] = []" "terminated (s # ss) = s @ DELIMITER # terminated ss"
    "terminated (as @ bs) = terminated as @ terminated bs"
  by (simp_all add: terminated_def)

lemma delimited_joined: "\<forall>s \<in> set ss. segment_ok s \<Longrightarrow> delimited (joined ss) = terminated ss"
  using joined_last [of ss] terminated_joined [of ss] by (cases "ss = []") (auto simp: delimited_def)

lemma delimited_terminated: "delimited (terminated ss) = terminated ss"
  using terminated_joined [of ss] by (cases "ss = []") (auto simp: delimited_def)

lemma joined_snoc: "joined (ss @ [s]) = terminated ss @ s"
  by (induction ss) (auto simp: joined_Cons)

lemma push_all_joined:
  "\<forall>s \<in> set ss. segment_ok s \<Longrightarrow> push_all rest \<lparr> kp_bytes = joined ss \<rparr> = Inr k \<Longrightarrow>
   kp_bytes k = joined (ss @ rest) \<and> (\<forall>s \<in> set rest. segment_ok s)"
proof (induction rest arbitrary: ss)
  case (Cons r rest)
  have r: "segment_ok r" using Cons.prems(2) by (auto simp: key_push_def segment_ok_def split: sum.splits)
  then have "push_all rest \<lparr> kp_bytes = joined (ss @ [r]) \<rparr> = Inr k"
    using Cons.prems by (simp add: key_push_def segment_ok_def delimited_joined joined_snoc)
  from Cons.IH [OF _ this] Cons.prems(1) r show ?case by simp
qed auto

lemma push_all_ok: "\<forall>s \<in> set ss. segment_ok s \<Longrightarrow> \<exists>k'. push_all ss k = Inr k'"
  by (induction ss arbitrary: k) (auto simp: key_push_def segment_ok_def)

text \<open>Reading the segments back.\<close>

fun split_path :: "bytes \<Rightarrow> bytes \<Rightarrow> bytes list" where
  "split_path acc [] = (if acc = [] then [] else [acc])"
| "split_path acc (b # bs) = (if b = DELIMITER then acc # split_path [] bs else split_path (acc @ [b]) bs)"

lemma split_segment: "DELIMITER \<notin> set s \<Longrightarrow> split_path acc (s @ bs) = split_path (acc @ s) bs"
  by (induction s arbitrary: acc) auto

lemma split_terminated: "\<forall>s \<in> set ss. segment_ok s \<Longrightarrow> split_path [] (terminated ss @ bs) = ss @ split_path [] bs"
  by (induction ss) (auto simp: segment_ok_iff split_segment)

theorem split_joined:
  assumes "\<forall>s \<in> set ss. segment_ok s"
  shows "split_path [] (joined ss) = ss"
proof (cases ss rule: rev_cases)
  case (snoc ts t)
  then show ?thesis using assms split_terminated [of ts t] split_segment [of t "[]" "[]"] by (simp add: joined_snoc segment_ok_iff)
qed simp

text \<open>A scan prefix selects exactly the keys below its path.\<close>

lemma terminated_prefix:
  assumes "\<forall>s \<in> set as. segment_ok s" "\<forall>s \<in> set bs. segment_ok s"
  shows "prefix (terminated as) (terminated bs) \<longleftrightarrow> prefix as bs"
proof
  assume "prefix (terminated as) (terminated bs)"
  then obtain r where "terminated bs = terminated as @ r" by (rule prefixE)
  then have "bs = as @ split_path [] r"
    using split_terminated [OF assms(1), of r] split_terminated [OF assms(2), of "[]"] by simp
  then show "prefix as bs" by (rule prefixI)
next
  assume "prefix as bs"
  then show "prefix (terminated as) (terminated bs)" by (auto elim!: prefixE)
qed

theorem prefix_selects:
  assumes "\<forall>s \<in> set as. segment_ok s" "\<forall>s \<in> set bs. segment_ok s"
  shows "prefix (terminated as) (joined bs) \<longleftrightarrow> as = [] \<or> strict_prefix as bs"
proof (cases bs rule: rev_cases)
  case Nil
  then show ?thesis using terminated_joined [of as] by (cases "as = []") auto
next
  case (snoc cs c)
  have c: "DELIMITER \<notin> set c" "segment_ok c" using assms(2) snoc by (auto simp: segment_ok_iff)
  show ?thesis
  proof
    assume p: "prefix (terminated as) (joined bs)"
    then obtain r where r: "joined bs = terminated as @ r" by (rule prefixE)
    then have e: "bs = as @ split_path [] r" using split_terminated [OF assms(1), of r] split_joined [OF assms(2)] by simp
    have "as \<noteq> bs" if "as \<noteq> []"
    proof
      assume "as = bs"
      then show False using r terminated_joined [OF that] by auto
    qed
    then show "as = [] \<or> strict_prefix as bs" using e by (auto simp: strict_prefix_def)
  next
    assume "as = [] \<or> strict_prefix as bs"
    then have "prefix as cs" using snoc by (auto simp: strict_prefix_def prefix_snoc)
    then show "prefix (terminated as) (joined bs)" using snoc by (auto simp: joined_snoc elim!: prefixE)
  qed
qed

lemma joined_no_nul: "\<forall>s \<in> set ss. segment_ok s \<Longrightarrow> NUL \<notin> set (joined ss)"
  by (induction ss rule: joined.induct) (auto simp: segment_ok_iff DELIMITER_def NUL_def)

end
