(* ===== verification/Write_Delta.thy ===== *)
theory Write_Delta
  imports Holt_Errors "HOL-Library.AList" "HOL-Library.List_Lexorder" "HOL-Library.Product_Lexorder"
begin

text \<open>The overlay of deferred writes of \<^verbatim>\<open>src/src/store/buffer_manager/write_delta.rs\<close> and its flush in
  \<^verbatim>\<open>buffer_manager/mod.rs\<close>.  Each method holds the mutex, so it is one function on the state.  A hash map is an association
  list with distinct keys; the order a map is drained in does not matter, as the operations are sorted before use.\<close>

section \<open>Data\<close>

datatype DeltaEntry = DPut bytes u64 bool | DDelete u64

record DeltaOp =
  do_tree_id :: u64
  do_root_guid :: bytes
  do_key :: bytes
  do_entry :: DeltaEntry

type_synonym delta_map = "(u64 \<times> (bytes \<times> DeltaOp) list) list"

type_synonym delta_counts = "(u64 \<times> nat) list"

record DeltaMaps =
  dm_pending :: delta_map
  dm_flushing :: delta_map
  pending_key_set :: delta_counts
  flushing_key_set :: delta_counts

record WriteDelta =
  wd_inner :: DeltaMaps
  wd_has_any :: bool

definition write_delta_default :: WriteDelta where
  "write_delta_default =
    \<lparr> wd_inner = \<lparr> dm_pending = [], dm_flushing = [], pending_key_set = [], flushing_key_set = [] \<rparr>, wd_has_any = False \<rparr>"

section \<open>Operations\<close>

fun entry_seq :: "DeltaEntry \<Rightarrow> u64" where
  "entry_seq (DPut val sq creates_key) = sq"
| "entry_seq (DDelete sq) = sq"

fun changes_key_set :: "DeltaEntry \<Rightarrow> bool" where
  "changes_key_set (DPut val sq creates_key) = creates_key"
| "changes_key_set (DDelete sq) = True"

definition op_changes :: "DeltaOp \<Rightarrow> bool" where
  "op_changes d = changes_key_set (do_entry d)"

definition increment_tree_count :: "u64 \<Rightarrow> delta_counts \<Rightarrow> delta_counts" where
  "increment_tree_count tree_id counts =
    AList.update tree_id ((case map_of counts tree_id of None \<Rightarrow> 0 | Some n \<Rightarrow> n) + 1) counts"

definition decrement_tree_count :: "u64 \<Rightarrow> delta_counts \<Rightarrow> delta_counts" where
  "decrement_tree_count tree_id counts =
    (case map_of counts tree_id of
       None \<Rightarrow> counts
     | Some n \<Rightarrow> if n - 1 = 0 then AList.delete tree_id counts else AList.update tree_id (n - 1) counts)"

text \<open>\<open>map.entry(tree_id).or_default()\<close>.\<close>

definition tree_of :: "u64 \<Rightarrow> delta_map \<Rightarrow> (bytes \<times> DeltaOp) list" where
  "tree_of tree_id m = (case map_of m tree_id of None \<Rightarrow> [] | Some t \<Rightarrow> t)"

definition put_op_into :: "DeltaOp \<Rightarrow> delta_map \<Rightarrow> delta_counts \<Rightarrow> delta_map \<times> delta_counts" where
  "put_op_into d m counts =
    (let tree = tree_of (do_tree_id d) m;
         old = map_of tree (do_key d);
         m' = AList.update (do_tree_id d) (AList.update (do_key d) d tree) m;
         c1 = (case old of Some o' \<Rightarrow> if op_changes o' then decrement_tree_count (do_tree_id d) counts else counts | None \<Rightarrow> counts);
         c2 = (if op_changes d then increment_tree_count (do_tree_id d) c1 else c1) in
     (m', c2))"

definition insert_pending :: "DeltaOp \<Rightarrow> DeltaMaps \<Rightarrow> DeltaMaps" where
  "insert_pending d s =
    (let (m, c) = put_op_into d (dm_pending s) (pending_key_set s) in s\<lparr> dm_pending := m, pending_key_set := c \<rparr>)"

definition publish_flushing :: "DeltaOp list \<Rightarrow> DeltaMaps \<Rightarrow> DeltaMaps" where
  "publish_flushing ops s =
    fold (\<lambda>d s. let (m, c) = put_op_into d (dm_flushing s) (flushing_key_set s) in s\<lparr> dm_flushing := m, flushing_key_set := c \<rparr>) ops s"

definition remove_flushing :: "DeltaOp \<Rightarrow> DeltaMaps \<Rightarrow> DeltaMaps" where
  "remove_flushing d s =
    (case map_of (dm_flushing s) (do_tree_id d) of
       None \<Rightarrow> s
     | Some tree \<Rightarrow>
         (case map_of tree (do_key d) of
            None \<Rightarrow> s
          | Some current \<Rightarrow>
              if entry_seq (do_entry current) = entry_seq (do_entry d) then
                let tree' = AList.delete (do_key d) tree;
                    c = (if op_changes current then decrement_tree_count (do_tree_id d) (flushing_key_set s) else flushing_key_set s);
                    m = (if tree' = [] then AList.delete (do_tree_id d) (dm_flushing s)
                         else AList.update (do_tree_id d) tree' (dm_flushing s)) in
                s\<lparr> dm_flushing := m, flushing_key_set := c \<rparr>
              else s))"

definition map_find :: "delta_map \<Rightarrow> u64 \<Rightarrow> bytes \<Rightarrow> DeltaEntry option" where
  "map_find m tree_id key =
    (case map_of m tree_id of None \<Rightarrow> None | Some tree \<Rightarrow> map_option do_entry (map_of tree key))"

definition maps_get :: "u64 \<Rightarrow> bytes \<Rightarrow> DeltaMaps \<Rightarrow> DeltaEntry option" where
  "maps_get tree_id key s =
    (case (map_find (dm_pending s) tree_id key, map_find (dm_flushing s) tree_id key) of
       (Some a, Some b) \<Rightarrow> if entry_seq a \<ge> entry_seq b then Some a else Some b
     | (None, Some b) \<Rightarrow> Some b
     | (Some a, None) \<Rightarrow> Some a
     | (None, None) \<Rightarrow> None)"

definition map_len :: "delta_map \<Rightarrow> nat" where
  "map_len m = sum_list (map (length \<circ> snd) m)"

definition maps_len :: "DeltaMaps \<Rightarrow> nat" where
  "maps_len s = map_len (dm_pending s) + map_len (dm_flushing s)"

definition maps_tree_len :: "u64 \<Rightarrow> DeltaMaps \<Rightarrow> nat" where
  "maps_tree_len tree_id s = length (tree_of tree_id (dm_pending s)) + length (tree_of tree_id (dm_flushing s))"

definition count_of :: "delta_counts \<Rightarrow> u64 \<Rightarrow> nat" where
  "count_of c tree_id = (case map_of c tree_id of None \<Rightarrow> 0 | Some n \<Rightarrow> n)"

definition maps_tree_key_set_len :: "u64 \<Rightarrow> DeltaMaps \<Rightarrow> nat" where
  "maps_tree_key_set_len tree_id s = count_of (pending_key_set s) tree_id + count_of (flushing_key_set s) tree_id"

definition sort_tree_ops :: "DeltaOp list \<Rightarrow> DeltaOp list" where
  "sort_tree_ops = sort_key (\<lambda>d. (do_root_guid d, do_key d, entry_seq (do_entry d)))"

definition sort_all_ops :: "DeltaOp list \<Rightarrow> DeltaOp list" where
  "sort_all_ops = sort_key (\<lambda>d. (do_tree_id d, do_root_guid d, do_key d, entry_seq (do_entry d)))"

definition stage_put :: "u64 \<Rightarrow> bytes \<Rightarrow> bytes \<Rightarrow> bytes \<Rightarrow> u64 \<Rightarrow> bool \<Rightarrow> WriteDelta \<Rightarrow> WriteDelta" where
  "stage_put tree_id root_guid key val sq creates_key w =
    \<lparr> wd_inner = insert_pending \<lparr> do_tree_id = tree_id, do_root_guid = root_guid, do_key = key, do_entry = DPut val sq creates_key \<rparr> (wd_inner w),
      wd_has_any = True \<rparr>"

definition stage_delete :: "u64 \<Rightarrow> bytes \<Rightarrow> bytes \<Rightarrow> u64 \<Rightarrow> WriteDelta \<Rightarrow> WriteDelta" where
  "stage_delete tree_id root_guid key sq w =
    \<lparr> wd_inner = insert_pending \<lparr> do_tree_id = tree_id, do_root_guid = root_guid, do_key = key, do_entry = DDelete sq \<rparr> (wd_inner w),
      wd_has_any = True \<rparr>"

definition begin_flush_tree :: "u64 \<Rightarrow> WriteDelta \<Rightarrow> DeltaOp list \<times> WriteDelta" where
  "begin_flush_tree tree_id w =
    (case map_of (dm_pending (wd_inner w)) tree_id of
       None \<Rightarrow> ([], w)
     | Some tree \<Rightarrow>
         let s = (wd_inner w)\<lparr> dm_pending := AList.delete tree_id (dm_pending (wd_inner w)),
                              pending_key_set := AList.delete tree_id (pending_key_set (wd_inner w)) \<rparr>;
             out = sort_tree_ops (map snd tree) in
         (out, w\<lparr> wd_inner := publish_flushing out s \<rparr>))"

definition begin_flush_all :: "WriteDelta \<Rightarrow> DeltaOp list \<times> WriteDelta" where
  "begin_flush_all w =
    (let out = sort_all_ops (concat (map (\<lambda>(_, tree). map snd tree) (dm_pending (wd_inner w))));
         s = (wd_inner w)\<lparr> dm_pending := [], pending_key_set := [] \<rparr> in
     (out, w\<lparr> wd_inner := publish_flushing out s \<rparr>))"

definition finish_flush :: "DeltaOp list \<Rightarrow> WriteDelta \<Rightarrow> WriteDelta" where
  "finish_flush ops w =
    (if ops = [] then w
     else
       let s = fold remove_flushing ops (wd_inner w) in
       \<lparr> wd_inner = s, wd_has_any = (if maps_len s = 0 then False else wd_has_any w) \<rparr>)"

definition abort_flush :: "DeltaOp list \<Rightarrow> WriteDelta \<Rightarrow> WriteDelta" where
  "abort_flush ops w =
    (if ops = [] then w
     else \<lparr> wd_inner = fold (\<lambda>d s. insert_pending d (remove_flushing d s)) ops (wd_inner w), wd_has_any = True \<rparr>)"

definition wd_get :: "u64 \<Rightarrow> bytes \<Rightarrow> WriteDelta \<Rightarrow> DeltaEntry option" where
  "wd_get tree_id key w = maps_get tree_id key (wd_inner w)"

section \<open>Applying staged operations\<close>

text \<open>What the flush calls of the engine and of the cache: \<^verbatim>\<open>pin\<close>, \<^verbatim>\<open>insert_multi_batch_conditional\<close> (how many of the items
  it applied, and whether the root frame changed), \<^verbatim>\<open>erase_multi\<close> (mutated, root dirty) and \<^verbatim>\<open>mark_dirty_cached\<close>; \<open>'b\<close> is the
  state of the buffer manager.\<close>

type_synonym batch_item = "bytes \<times> bytes \<times> u64"

record 'b DeltaEngine =
  en_pin :: "bytes \<Rightarrow> 'b \<Rightarrow> unit result \<times> 'b"
  en_insert_batch :: "bytes \<Rightarrow> batch_item list \<Rightarrow> 'b \<Rightarrow> (nat \<times> bool) result \<times> 'b"
  en_erase :: "bytes \<Rightarrow> bytes \<Rightarrow> u64 \<Rightarrow> 'b \<Rightarrow> (bool \<times> bool) result \<times> 'b"
  en_mark_dirty :: "bytes \<Rightarrow> u64 \<Rightarrow> 'b \<Rightarrow> 'b"

definition min_seq :: "batch_item list \<Rightarrow> u64" where
  "min_seq items = fold min (map (snd \<circ> snd) items) (- 1)"

function put_run_loop :: "'b DeltaEngine \<Rightarrow> bytes \<Rightarrow> batch_item list \<Rightarrow> 'b \<Rightarrow> unit result \<times> 'b" where
  "put_run_loop E root_guid items b =
    (if items = [] then (Inr (), b)
     else
       case en_insert_batch E root_guid items b of
         (Inl e, b') \<Rightarrow> (Inl e, b')
       | (Inr (applied, root_dirty), b') \<Rightarrow>
           if applied = 0 then (Inl (Fail (Internal ''write-delta batch flush made no progress'')), b')
           else if root_dirty then
             if length items < applied then (Inl (Panic ''range end index out of range''), b')
             else put_run_loop E root_guid (drop applied items) (en_mark_dirty E root_guid (min_seq (take applied items)) b')
           else put_run_loop E root_guid (drop applied items) b')"
  by pat_completeness auto

termination by (relation "measure (\<lambda>(E, g, items, b). length items)") auto

declare put_run_loop.simps [simp del]

fun batch_items :: "DeltaOp list \<Rightarrow> batch_item list result" where
  "batch_items [] = Inr []"
| "batch_items (d # ops) =
    (case do_entry d of
       DPut val sq creates_key \<Rightarrow> rbind (batch_items ops) (\<lambda>items. Inr ((do_key d, val, sq) # items))
     | DDelete sq \<Rightarrow> Inl (Fail (Internal ''write-delta put run contained non-put op'')))"

definition apply_write_delta_put_run :: "'b DeltaEngine \<Rightarrow> bytes \<Rightarrow> DeltaOp list \<Rightarrow> 'b \<Rightarrow> unit result \<times> 'b" where
  "apply_write_delta_put_run E root_guid ops b =
    (case batch_items ops of Inl e \<Rightarrow> (Inl e, b) | Inr items \<Rightarrow> put_run_loop E root_guid items b)"

fun is_put :: "DeltaEntry \<Rightarrow> bool" where
  "is_put (DPut val sq creates_key) = True"
| "is_put (DDelete sq) = False"

definition same_run :: "DeltaOp \<Rightarrow> DeltaOp \<Rightarrow> bool" where
  "same_run d e = (do_tree_id e = do_tree_id d \<and> do_root_guid e = do_root_guid d \<and> is_put (do_entry e))"

text \<open>The pins taken so far are kept in a map by root; only a root met for the first time is pinned.\<close>

function apply_ops_from :: "'b DeltaEngine \<Rightarrow> bytes list \<Rightarrow> DeltaOp list \<Rightarrow> 'b \<Rightarrow> unit result \<times> 'b" where
  "apply_ops_from E root_pins [] b = (Inr (), b)"
| "apply_ops_from E root_pins (d # ops) b =
    (case (if do_root_guid d \<in> set root_pins then (Inr (), b) else en_pin E (do_root_guid d) b) of
       (Inl e, b1) \<Rightarrow> (Inl e, b1)
     | (Inr _, b1) \<Rightarrow>
         (case do_entry d of
            DPut val sq creates_key \<Rightarrow>
              (case apply_write_delta_put_run E (do_root_guid d) (d # takeWhile (same_run d) ops) b1 of
                 (Inl e, b2) \<Rightarrow> (Inl e, b2)
               | (Inr _, b2) \<Rightarrow> apply_ops_from E (do_root_guid d # root_pins) (dropWhile (same_run d) ops) b2)
          | DDelete sq \<Rightarrow>
              (case en_erase E (do_root_guid d) (do_key d) sq b1 of
                 (Inl e, b2) \<Rightarrow> (Inl e, b2)
               | (Inr (mutated, root_dirty), b2) \<Rightarrow>
                   apply_ops_from E (do_root_guid d # root_pins) ops
                     (if mutated \<and> root_dirty then en_mark_dirty E (do_root_guid d) sq b2 else b2))))"
  by pat_completeness auto

termination by (relation "measure (\<lambda>(E, pins, ops, b). length ops)") (auto simp: le_imp_less_Suc length_dropWhile_le)

definition apply_write_delta_ops_inner :: "'b DeltaEngine \<Rightarrow> DeltaOp list \<Rightarrow> 'b \<Rightarrow> unit result \<times> 'b" where
  "apply_write_delta_ops_inner E ops b = apply_ops_from E [] ops b"

text \<open>The flush of the buffer manager; \<open>inner\<close> is \<^verbatim>\<open>apply_write_delta_ops_inner\<close>, which puts the operations into the trees.\<close>

definition apply_write_delta_ops ::
  "(DeltaOp list \<Rightarrow> 'b \<Rightarrow> unit result \<times> 'b) \<Rightarrow> DeltaOp list \<Rightarrow> WriteDelta \<Rightarrow> 'b \<Rightarrow> unit result \<times> WriteDelta \<times> 'b" where
  "apply_write_delta_ops inner ops w b =
    (if ops = [] then (Inr (), w, b)
     else
       case inner ops b of
         (Inl e, b') \<Rightarrow> (Inl e, abort_flush ops w, b')
       | (Inr _, b') \<Rightarrow> (Inr (), finish_flush ops w, b'))"

definition flush_write_deltas ::
  "(DeltaOp list \<Rightarrow> 'b \<Rightarrow> unit result \<times> 'b) \<Rightarrow> WriteDelta \<Rightarrow> 'b \<Rightarrow> unit result \<times> WriteDelta \<times> 'b" where
  "flush_write_deltas inner w b = (let (ops, w') = begin_flush_all w in apply_write_delta_ops inner ops w' b)"

definition flush_write_deltas_for_tree ::
  "(DeltaOp list \<Rightarrow> 'b \<Rightarrow> unit result \<times> 'b) \<Rightarrow> u64 \<Rightarrow> WriteDelta \<Rightarrow> 'b \<Rightarrow> unit result \<times> WriteDelta \<times> 'b" where
  "flush_write_deltas_for_tree inner tree_id w b =
    (if \<not> wd_has_any w then (Inr (), w, b)
     else let (ops, w') = begin_flush_tree tree_id w in apply_write_delta_ops inner ops w' b)"

fun flush_each_tree ::
  "(DeltaOp list \<Rightarrow> 'b \<Rightarrow> unit result \<times> 'b) \<Rightarrow> u64 list \<Rightarrow> WriteDelta \<Rightarrow> 'b \<Rightarrow> unit result \<times> WriteDelta \<times> 'b" where
  "flush_each_tree inner [] w b = (Inr (), w, b)"
| "flush_each_tree inner (tree # trees) w b =
    (let (ops, w') = begin_flush_tree tree w in
     case apply_write_delta_ops inner ops w' b of
       (Inl e, w'', b') \<Rightarrow> (Inl e, w'', b')
     | (Inr _, w'', b') \<Rightarrow> flush_each_tree inner trees w'' b')"

definition flush_write_deltas_for_trees ::
  "(DeltaOp list \<Rightarrow> 'b \<Rightarrow> unit result \<times> 'b) \<Rightarrow> u64 list \<Rightarrow> WriteDelta \<Rightarrow> 'b \<Rightarrow> unit result \<times> WriteDelta \<times> 'b" where
  "flush_write_deltas_for_trees inner trees w b =
    (if \<not> wd_has_any w then (Inr (), w, b) else flush_each_tree inner trees w b)"

section \<open>What the maps hold\<close>

definition dfind :: "delta_map \<Rightarrow> u64 \<times> bytes \<Rightarrow> DeltaOp option" where
  "dfind m = (\<lambda>(t, k). map_of (tree_of t m) k)"

definition op_key :: "DeltaOp \<Rightarrow> u64 \<times> bytes" where
  "op_key d = (do_tree_id d, do_key d)"

definition changes_in :: "delta_map \<Rightarrow> u64 \<Rightarrow> nat" where
  "changes_in m t = length (filter (op_changes \<circ> snd) (tree_of t m))"

text \<open>A well-formed map with its counter: distinct keys, no empty tree, every operation under its own key, and the number of
  operations that change the key set, per tree.\<close>

definition delta_wf :: "delta_map \<Rightarrow> delta_counts \<Rightarrow> bool" where
  "delta_wf m c =
    (distinct (map fst m) \<and> (\<forall>(t, tree) \<in> set m. tree \<noteq> [] \<and> distinct (map fst tree) \<and> (\<forall>(k, d) \<in> set tree. op_key d = (t, k)))
     \<and> (\<forall>t. count_of c t = changes_in m t) \<and> distinct (map fst c))"

lemma map_find_dfind: "map_find m t k = map_option do_entry (dfind m (t, k))"
  by (simp add: map_find_def dfind_def tree_of_def split: option.split)

lemma tree_of_update: "tree_of t (AList.update t' tree m) = (if t = t' then tree else tree_of t m)"
  by (simp add: tree_of_def update_conv')

lemma tree_of_delete: "tree_of t (AList.delete t' m) = (if t = t' then [] else tree_of t m)"
  by (simp add: tree_of_def AList.delete_conv')

lemma tree_of_mem: "delta_wf m c \<Longrightarrow> (t, tree) \<in> set m \<Longrightarrow> tree_of t m = tree"
  by (auto simp: delta_wf_def tree_of_def)

lemma tree_of_wf:
  assumes "delta_wf m c"
  shows "distinct (map fst (tree_of t m))" "(k, d) \<in> set (tree_of t m) \<Longrightarrow> op_key d = (t, k)"
  using assms by (auto simp: tree_of_def delta_wf_def split: option.splits dest!: map_of_SomeD)

lemma dfind_key: "delta_wf m c \<Longrightarrow> dfind m tk = Some d \<Longrightarrow> op_key d = tk"
  using tree_of_wf(2) by (cases tk) (auto simp: dfind_def dest!: map_of_SomeD)

lemma dfind_empty: "delta_wf m c \<Longrightarrow> dfind m = (\<lambda>_. None) \<Longrightarrow> m = []"
proof (rule ccontr)
  assume wf: "delta_wf m c" and d: "dfind m = (\<lambda>_. None)" and ne: "m \<noteq> []"
  then obtain t tree where m: "(t, tree) \<in> set m" by (cases m) auto
  then obtain k e where "(k, e) \<in> set tree" using wf by (cases tree) (auto simp: delta_wf_def)
  then have "k \<in> fst ` set tree" by force
  then have "map_of tree k \<noteq> None" by (simp add: map_of_eq_None_iff)
  then show False using d tree_of_mem [OF wf m] by (auto simp: dfind_def fun_eq_iff)
qed

lemma filter_update_alist:
  "distinct (map fst al) \<Longrightarrow>
   length (filter (P \<circ> snd) (AList.update k v al)) + (case map_of al k of None \<Rightarrow> 0 | Some v' \<Rightarrow> if P v' then 1 else 0) =
   length (filter (P \<circ> snd) al) + (if P v then 1 else 0)"
proof (induction al)
  case (Cons a al)
  then show ?case by (cases a) (auto simp: update_Some_unfold split: option.splits dest!: map_of_SomeD)
qed simp

lemma filter_delete_alist:
  "distinct (map fst al) \<Longrightarrow>
   length (filter (P \<circ> snd) (AList.delete k al)) + (case map_of al k of None \<Rightarrow> 0 | Some v' \<Rightarrow> if P v' then 1 else 0) =
   length (filter (P \<circ> snd) al)"
proof (induction al)
  case (Cons a al)
  have "AList.delete (fst a) al = al" if "fst a \<notin> fst ` set al" using that by (rule AList.delete_id)
  then show ?case using Cons by (cases a) (auto split: option.splits dest!: map_of_SomeD)
qed simp

lemma count_increment: "count_of (increment_tree_count t c) t' = (if t' = t then count_of c t + 1 else count_of c t')"
  by (simp add: count_of_def increment_tree_count_def update_conv')

lemma count_decrement: "count_of (decrement_tree_count t c) t' = (if t' = t then count_of c t - 1 else count_of c t')"
  by (auto simp: count_of_def decrement_tree_count_def update_conv' AList.delete_conv' split: option.splits)

lemma counts_distinct:
  "distinct (map fst c) \<Longrightarrow> distinct (map fst (increment_tree_count t c))"
  "distinct (map fst c) \<Longrightarrow> distinct (map fst (decrement_tree_count t c))"
  by (auto simp: increment_tree_count_def decrement_tree_count_def distinct_update distinct_delete split: option.split)

lemma dfind_put:
  "dfind (fst (put_op_into d m c)) = (dfind m)(op_key d \<mapsto> d)"
  by (auto simp: fun_eq_iff dfind_def put_op_into_def Let_def op_key_def tree_of_update update_conv')

lemma put_wf:
  assumes "delta_wf m c"
  shows "delta_wf (fst (put_op_into d m c)) (snd (put_op_into d m c))"
proof -
  let ?t = "do_tree_id d" and ?tree = "tree_of (do_tree_id d) m"
  let ?tree' = "AList.update (do_key d) d ?tree"
  have m': "fst (put_op_into d m c) = AList.update ?t ?tree' m" by (simp add: put_op_into_def Let_def)
  have t1: "distinct (map fst ?tree')" using tree_of_wf(1) [OF assms] by (rule distinct_update)
  have t2: "op_key e = (?t, k)" if "(k, e) \<in> set ?tree'" for k e
  proof -
    have "map_of ?tree' k = Some e" using that t1 by simp
    then show ?thesis using tree_of_wf(2) [OF assms, of k e ?t] by (auto simp: update_conv' op_key_def split: if_splits dest!: map_of_SomeD)
  qed
  have "?tree' \<noteq> []" by (simp add: update_nonempty)
  moreover have "tree \<noteq> [] \<and> distinct (map fst tree) \<and> (\<forall>(k, e) \<in> set tree. op_key e = (t, k))"
    if "(t, tree) \<in> set (AList.update ?t ?tree' m)" for t tree
  proof -
    have "distinct (map fst (AList.update ?t ?tree' m))" using assms by (intro distinct_update) (simp add: delta_wf_def)
    then have "map_of (AList.update ?t ?tree' m) t = Some tree" using that by simp
    then consider "t = ?t" "tree = ?tree'" | "(t, tree) \<in> set m" by (auto simp: update_conv' split: if_splits dest: map_of_SomeD)
    then show ?thesis
    proof cases
      case 1
      then show ?thesis using t1 t2 \<open>?tree' \<noteq> []\<close> by auto
    next
      case 2
      then show ?thesis using assms by (auto simp: delta_wf_def)
    qed
  qed
  moreover have "distinct (map fst (AList.update ?t ?tree' m))" using assms by (intro distinct_update) (simp add: delta_wf_def)
  moreover have "count_of (snd (put_op_into d m c)) t = changes_in (AList.update ?t ?tree' m) t" for t
  proof -
    have c: "count_of c t = changes_in m t" for t using assms by (simp add: delta_wf_def)
    note f = filter_update_alist [OF tree_of_wf(1) [OF assms, of ?t], of op_changes "do_key d" d]
    have "0 < length (filter (op_changes \<circ> snd) ?tree)" if "map_of ?tree (do_key d) = Some a" "op_changes a" for a
      using map_of_SomeD [OF that(1)] that(2) by (force simp: filter_empty_conv)
    then show ?thesis
      using f c [of t] c [of ?t]
      by (cases "map_of ?tree (do_key d)")
         (auto simp: put_op_into_def Let_def count_increment count_decrement changes_in_def tree_of_update)
  qed
  moreover have "distinct (map fst (snd (put_op_into d m c)))"
    using assms by (auto simp: put_op_into_def Let_def counts_distinct delta_wf_def split: option.split)
  ultimately show ?thesis unfolding m' delta_wf_def by blast
qed

text \<open>Removal looks at the sequence number, so that an operation published again is kept.\<close>

definition removes :: "DeltaOp \<Rightarrow> DeltaOp option \<Rightarrow> bool" where
  "removes d x = (case x of None \<Rightarrow> False | Some e \<Rightarrow> entry_seq (do_entry e) = entry_seq (do_entry d))"

lemma remove_other: "dm_pending (remove_flushing d s) = dm_pending s" "pending_key_set (remove_flushing d s) = pending_key_set s"
  by (auto simp: remove_flushing_def Let_def split: option.split)

lemma remove_same:
  assumes "\<not> removes d (dfind (dm_flushing s) (op_key d))"
  shows "remove_flushing d s = s"
  using assms by (auto simp: remove_flushing_def removes_def dfind_def op_key_def tree_of_def split: option.splits)

lemma remove_hit:
  assumes "delta_wf (dm_flushing s) (flushing_key_set s)" "removes d (dfind (dm_flushing s) (op_key d))"
  shows "dfind (dm_flushing (remove_flushing d s)) = (dfind (dm_flushing s))(op_key d := None)"
    and "delta_wf (dm_flushing (remove_flushing d s)) (flushing_key_set (remove_flushing d s))"
proof -
  let ?t = "do_tree_id d" and ?m = "dm_flushing s" and ?c = "flushing_key_set s"
  obtain tree e where tree: "map_of ?m ?t = Some tree" and e: "map_of tree (do_key d) = Some e"
      and sq: "entry_seq (do_entry e) = entry_seq (do_entry d)"
    using assms(2) by (auto simp: removes_def dfind_def op_key_def tree_of_def split: option.splits)
  let ?tree' = "AList.delete (do_key d) tree"
  let ?m' = "if ?tree' = [] then AList.delete ?t ?m else AList.update ?t ?tree' ?m"
  have to: "tree_of ?t ?m = tree" using tree by (simp add: tree_of_def)
  have m': "dm_flushing (remove_flushing d s) = ?m'"
      "flushing_key_set (remove_flushing d s) = (if op_changes e then decrement_tree_count ?t ?c else ?c)"
    using tree e sq by (simp_all add: remove_flushing_def Let_def)
  have tm: "tree_of t ?m' = (if t = ?t then ?tree' else tree_of t ?m)" for t by (simp add: tree_of_update tree_of_delete)
  show "dfind (dm_flushing (remove_flushing d s)) = (dfind ?m)(op_key d := None)"
    unfolding m' using to by (auto simp: fun_eq_iff dfind_def tm op_key_def AList.delete_conv')
  have d: "distinct (map fst tree)" using tree_of_wf(1) [OF assms(1), of ?t] to by simp
  have "distinct (map fst ?m')" using assms(1) by (auto simp: delta_wf_def distinct_update distinct_delete)
  moreover have "tr \<noteq> [] \<and> distinct (map fst tr) \<and> (\<forall>(k, e) \<in> set tr. op_key e = (t, k))" if tr: "(t, tr) \<in> set ?m'" for t tr
  proof -
    have "map_of ?m' t = Some tr" using tr \<open>distinct (map fst ?m')\<close> by simp
    then consider "t = ?t" "tr = ?tree'" "?tree' \<noteq> []" | "(t, tr) \<in> set ?m"
      by (auto simp: update_conv' AList.delete_conv' split: if_splits dest: map_of_SomeD)
    then show ?thesis
    proof cases
      case 1
      have "op_key x = (?t, k)" if "(k, x) \<in> set ?tree'" for k x
        using that tree_of_wf(2) [OF assms(1), of k x ?t] to by (auto simp: AList.delete_eq)
      then show ?thesis using 1 d by (auto simp: distinct_delete)
    next
      case 2
      then show ?thesis using assms(1) by (auto simp: delta_wf_def)
    qed
  qed
  moreover have "count_of (if op_changes e then decrement_tree_count ?t ?c else ?c) t = changes_in ?m' t" for t
    using filter_delete_alist [OF d, of op_changes "do_key d"] assms(1) to e
    by (auto simp: changes_in_def tm count_decrement delta_wf_def)
  moreover have "distinct (map fst (if op_changes e then decrement_tree_count ?t ?c else ?c))"
    using assms(1) by (auto simp: delta_wf_def counts_distinct)
  ultimately show "delta_wf (dm_flushing (remove_flushing d s)) (flushing_key_set (remove_flushing d s))"
    unfolding m' delta_wf_def by blast
qed

section \<open>Flushes\<close>

definition maps_wf :: "DeltaMaps \<Rightarrow> bool" where
  "maps_wf s = (delta_wf (dm_pending s) (pending_key_set s) \<and> delta_wf (dm_flushing s) (flushing_key_set s))"

definition ops_map :: "DeltaOp list \<Rightarrow> u64 \<times> bytes \<Rightarrow> DeltaOp option" where
  "ops_map ops = map_of (map (\<lambda>d. (op_key d, d)) ops)"

lemma ops_map_fresh: "distinct (map op_key (d # ops)) \<Longrightarrow> ops_map ops (op_key d) = None"
  by (auto simp: ops_map_def map_of_eq_None_iff)

lemma ops_map_add: "distinct (map op_key (d # ops)) \<Longrightarrow> f(op_key d \<mapsto> d) ++ ops_map ops = f ++ ops_map (d # ops)"
  using ops_map_fresh [of d ops] by (auto simp: ops_map_def fun_eq_iff map_add_def split: option.split)

lemma insert_pending_facts:
  "dfind (dm_pending (insert_pending d s)) = (dfind (dm_pending s))(op_key d \<mapsto> d)"
  "dm_flushing (insert_pending d s) = dm_flushing s"
  "maps_wf s \<Longrightarrow> maps_wf (insert_pending d s)"
  using dfind_put [of d "dm_pending s" "pending_key_set s"] put_wf [of "dm_pending s" "pending_key_set s" d]
  by (simp_all add: insert_pending_def maps_wf_def case_prod_beta)

lemma publish_facts:
  assumes "maps_wf s" "distinct (map op_key ops)"
  shows "dfind (dm_flushing (publish_flushing ops s)) = dfind (dm_flushing s) ++ ops_map ops"
    "dm_pending (publish_flushing ops s) = dm_pending s"
    "maps_wf (publish_flushing ops s)"
proof -
  have "dfind (dm_flushing (publish_flushing ops s)) = dfind (dm_flushing s) ++ ops_map ops
    \<and> dm_pending (publish_flushing ops s) = dm_pending s \<and> maps_wf (publish_flushing ops s)"
    using assms
  proof (induction ops arbitrary: s)
    case Nil
    then show ?case by (simp add: publish_flushing_def ops_map_def)
  next
    case (Cons d ops)
    let ?p = "put_op_into d (dm_flushing s) (flushing_key_set s)"
    let ?s = "s\<lparr> dm_flushing := fst ?p, flushing_key_set := snd ?p \<rparr>"
    have w: "maps_wf ?s" using Cons.prems(1) put_wf [of "dm_flushing s" "flushing_key_set s" d] by (simp add: maps_wf_def)
    have e: "publish_flushing (d # ops) s = publish_flushing ops ?s" by (simp add: publish_flushing_def case_prod_beta)
    have "dfind (dm_flushing ?s) ++ ops_map ops = dfind (dm_flushing s) ++ ops_map (d # ops)"
      using ops_map_add [OF Cons.prems(2)] dfind_put [of d "dm_flushing s" "flushing_key_set s"] by simp
    then show ?case unfolding e using Cons.IH [OF w] Cons.prems(2) by simp
  qed
  then show "dfind (dm_flushing (publish_flushing ops s)) = dfind (dm_flushing s) ++ ops_map ops"
    "dm_pending (publish_flushing ops s) = dm_pending s" "maps_wf (publish_flushing ops s)" by blast+
qed

lemma remove_facts:
  assumes "maps_wf s" "dfind (dm_flushing s) (op_key d) = Some d"
  shows "dfind (dm_flushing (remove_flushing d s)) = (dfind (dm_flushing s))(op_key d := None)" "maps_wf (remove_flushing d s)"
proof -
  have "removes d (dfind (dm_flushing s) (op_key d))" using assms(2) by (simp add: removes_def)
  from remove_hit [OF _ this] show "dfind (dm_flushing (remove_flushing d s)) = (dfind (dm_flushing s))(op_key d := None)"
    "maps_wf (remove_flushing d s)" using assms(1) by (simp_all add: maps_wf_def remove_other)
qed

lemma ops_map_Cons: "distinct (map op_key (d # ops)) \<Longrightarrow> (ops_map (d # ops))(op_key d := None) = ops_map ops"
  using ops_map_fresh [of d ops] by (auto simp: ops_map_def fun_eq_iff)

lemma finish_facts:
  assumes "maps_wf s" "distinct (map op_key ops)" "dfind (dm_flushing s) = ops_map ops"
  shows "dm_flushing (fold remove_flushing ops s) = []" "dm_pending (fold remove_flushing ops s) = dm_pending s"
    "maps_wf (fold remove_flushing ops s)"
proof -
  have "dfind (dm_flushing (fold remove_flushing ops s)) = (\<lambda>_. None) \<and> dm_pending (fold remove_flushing ops s) = dm_pending s
    \<and> maps_wf (fold remove_flushing ops s)"
    using assms
  proof (induction ops arbitrary: s)
    case (Cons d ops)
    have "dfind (dm_flushing s) (op_key d) = Some d" using Cons.prems(3) by (simp add: ops_map_def)
    note r = remove_facts [OF Cons.prems(1) this]
    have "dfind (dm_flushing (remove_flushing d s)) = ops_map ops" using r(1) Cons.prems(3) ops_map_Cons [OF Cons.prems(2)] by simp
    from Cons.IH [OF r(2) _ this] Cons.prems(2) show ?case by (simp add: remove_other)
  qed (simp add: ops_map_def)
  then show "dm_flushing (fold remove_flushing ops s) = []" "dm_pending (fold remove_flushing ops s) = dm_pending s"
    "maps_wf (fold remove_flushing ops s)" using dfind_empty by (auto simp: maps_wf_def)
qed

lemma abort_facts:
  assumes "maps_wf s" "distinct (map op_key ops)" "dfind (dm_flushing s) = ops_map ops"
  shows "dm_flushing (fold (\<lambda>d s. insert_pending d (remove_flushing d s)) ops s) = []"
    "dfind (dm_pending (fold (\<lambda>d s. insert_pending d (remove_flushing d s)) ops s)) = dfind (dm_pending s) ++ ops_map ops"
    "maps_wf (fold (\<lambda>d s. insert_pending d (remove_flushing d s)) ops s)"
proof -
  let ?f = "\<lambda>d s. insert_pending d (remove_flushing d s)"
  have "dfind (dm_flushing (fold ?f ops s)) = (\<lambda>_. None)
    \<and> dfind (dm_pending (fold ?f ops s)) = dfind (dm_pending s) ++ ops_map ops \<and> maps_wf (fold ?f ops s)"
    using assms
  proof (induction ops arbitrary: s)
    case (Cons d ops)
    have "dfind (dm_flushing s) (op_key d) = Some d" using Cons.prems(3) by (simp add: ops_map_def)
    note r = remove_facts [OF Cons.prems(1) this]
    have "dfind (dm_flushing (?f d s)) = ops_map ops"
      using r(1) Cons.prems(3) ops_map_Cons [OF Cons.prems(2)] by (simp add: insert_pending_facts)
    note IH = Cons.IH [OF insert_pending_facts(3) [OF r(2)] _ this]
    have "dfind (dm_pending (?f d s)) ++ ops_map ops = dfind (dm_pending s) ++ ops_map (d # ops)"
      using ops_map_add [OF Cons.prems(2)] insert_pending_facts(1) [of d "remove_flushing d s"] by (simp add: remove_other)
    then show ?case using IH Cons.prems(2) by simp
  qed (simp add: ops_map_def)
  then show "dm_flushing (fold ?f ops s) = []" "dfind (dm_pending (fold ?f ops s)) = dfind (dm_pending s) ++ ops_map ops"
    "maps_wf (fold ?f ops s)" using dfind_empty by (auto simp: maps_wf_def)
qed

section \<open>The overlay is transparent\<close>

text \<open>What a reader of the trees with the overlay on top sees.\<close>

fun entry_value :: "DeltaEntry \<Rightarrow> (bytes \<times> u64) option" where
  "entry_value (DPut val sq creates_key) = Some (val, sq)"
| "entry_value (DDelete sq) = None"

definition effective :: "(u64 \<times> bytes \<Rightarrow> (bytes \<times> u64) option) \<Rightarrow> WriteDelta \<Rightarrow> u64 \<times> bytes \<Rightarrow> (bytes \<times> u64) option" where
  "effective base w tk = (case wd_get (fst tk) (snd tk) w of None \<Rightarrow> base tk | Some e \<Rightarrow> entry_value e)"

text \<open>No flush in progress: the mutex around a flush keeps a second one out, and the gates keep writers out.  Every
  staged operation has the property \<open>Q\<close>.\<close>

definition wd_idle :: "(DeltaOp \<Rightarrow> bool) \<Rightarrow> WriteDelta \<Rightarrow> bool" where
  "wd_idle Q w = (maps_wf (wd_inner w) \<and> dm_flushing (wd_inner w) = [] \<and> (\<not> wd_has_any w \<longrightarrow> dm_pending (wd_inner w) = [])
     \<and> (\<forall>tk d. dfind (dm_pending (wd_inner w)) tk = Some d \<longrightarrow> Q d))"

text \<open>The part of \<^verbatim>\<open>apply_write_delta_ops_inner\<close> the flush relies on: it touches only the keys of its operations, and when it
  succeeds all of them are applied; \<open>J\<close> is an invariant of the trees it keeps.\<close>

definition applier_ok :: "('b \<Rightarrow> bool) \<Rightarrow> (DeltaOp \<Rightarrow> bool) \<Rightarrow> (DeltaOp list \<Rightarrow> 'b \<Rightarrow> unit result \<times> 'b) \<Rightarrow> ('b \<Rightarrow> u64 \<times> bytes \<Rightarrow> (bytes \<times> u64) option) \<Rightarrow> bool" where
  "applier_ok J Q inner base = (\<forall>ops b r b'. J b \<and> distinct (map op_key ops) \<and> list_all Q ops \<and> inner ops b = (r, b') \<longrightarrow>
     J b' \<and> (\<forall>tk. tk \<notin> op_key ` set ops \<longrightarrow> base b' tk = base b tk)
     \<and> (\<forall>u. r = Inr u \<longrightarrow> (\<forall>d \<in> set ops. base b' (op_key d) = entry_value (do_entry d))))"

lemma wd_get_dfind:
  "wd_get t k w = (case (dfind (dm_pending (wd_inner w)) (t, k), dfind (dm_flushing (wd_inner w)) (t, k)) of
     (Some a, Some b) \<Rightarrow> Some (if entry_seq (do_entry a) \<ge> entry_seq (do_entry b) then do_entry a else do_entry b)
   | (None, Some b) \<Rightarrow> Some (do_entry b)
   | (Some a, None) \<Rightarrow> Some (do_entry a)
   | (None, None) \<Rightarrow> None)"
  by (auto simp: wd_get_def maps_get_def map_find_dfind split: option.split)

lemma dfind_Nil [simp]: "dfind [] = (\<lambda>_. None)"
  by (auto simp: dfind_def tree_of_def fun_eq_iff)

lemma ops_map_iff: "distinct (map op_key ops) \<Longrightarrow> ops_map ops tk = Some d \<longleftrightarrow> d \<in> set ops \<and> op_key d = tk"
  by (force simp: ops_map_def distinct_map map_of_eq_Some_iff comp_def)

lemma ops_map_none: "ops_map ops tk = None \<Longrightarrow> tk \<notin> op_key ` set ops"
  by (force simp: ops_map_def map_of_eq_None_iff)

lemma distinct_sort_keys: "distinct (map op_key (sort_key f ops)) = distinct (map op_key ops)"
  by (simp add: distinct_map)

lemma delta_wf_Nil [simp]: "delta_wf [] []"
  by (simp add: delta_wf_def count_of_def changes_in_def tree_of_def)

lemma distinct_map_Pair: "distinct (map (Pair t) xs) = distinct xs"
  by (simp add: distinct_map inj_on_def)

lemma all_ops:
  assumes "delta_wf m c"
  defines "ops \<equiv> concat (map (\<lambda>(_, tree). map snd tree) m)"
  shows "distinct (map op_key ops)" "d \<in> set ops \<longleftrightarrow> dfind m (op_key d) = Some d"
proof -
  show mem: "d \<in> set ops \<longleftrightarrow> dfind m (op_key d) = Some d" for d
  proof
    assume "d \<in> set ops"
    then obtain t tree k where m: "(t, tree) \<in> set m" "(k, d) \<in> set tree" by (force simp: ops_def)
    then have "op_key d = (t, k)" "distinct (map fst tree)" using assms(1) by (auto simp: delta_wf_def)
    then show "dfind m (op_key d) = Some d" using m(2) tree_of_mem [OF assms(1) m(1)] by (simp add: dfind_def)
  next
    assume d: "dfind m (op_key d) = Some d"
    then obtain tree where "map_of m (do_tree_id d) = Some tree" "map_of tree (do_key d) = Some d"
      by (auto simp: dfind_def op_key_def tree_of_def split: option.splits)
    then have "(do_tree_id d, tree) \<in> set m" "d \<in> snd ` set tree" by (force dest: map_of_SomeD)+
    then show "d \<in> set ops" by (auto simp: ops_def)
  qed
  have "distinct (map op_key (map snd tree))" if "(t, tree) \<in> set m" for t tree
  proof -
    have tree: "distinct (map fst tree)" "\<forall>(k, d) \<in> set tree. op_key d = (t, k)"
      using that assms(1) unfolding delta_wf_def by blast+
    then have "map op_key (map snd tree) = map (Pair t) (map fst tree)" by auto
    moreover note tree(1)
    ultimately show ?thesis by (simp only: distinct_map_Pair)
  qed
  moreover have "fst (op_key y) = t" if "(t, tree) \<in> set m" "y \<in> snd ` set tree" for t tree y
  proof -
    have "\<forall>(k, d) \<in> set tree. op_key d = (t, k)" using that(1) assms(1) unfolding delta_wf_def by blast
    then show ?thesis using that(2) by auto
  qed
  moreover have "distinct (map fst m)" using assms(1) by (simp add: delta_wf_def)
  ultimately show "distinct (map op_key ops)"
    unfolding ops_def
  proof (induction m)
    case (Cons x m)
    obtain t tree where x: "x = (t, tree)" by (cases x)
    have t: "fst (op_key y) = t" if "y \<in> snd ` set tree" for y by (rule Cons.prems(2) [OF _ that]) (simp add: x)
    have rest: "fst (op_key y) \<in> fst ` set m" if y: "y \<in> set (concat (map (\<lambda>(_, tree). map snd tree) m))" for y
    proof -
      have "y \<in> (\<Union>p \<in> set m. snd ` set (snd p))" using y by (simp add: case_prod_beta)
      then obtain t' tr where m: "(t', tr) \<in> set m" "y \<in> snd ` set tr" by (metis UN_E prod.collapse)
      then have "fst (op_key y) = t'" by (intro Cons.prems(2)) simp_all
      then show ?thesis using m(1) by force
    qed
    have "t \<notin> fst ` set m" using Cons.prems(3) x by simp
    then have "op_key y \<noteq> op_key z" if "y \<in> snd ` set tree" "z \<in> set (concat (map (\<lambda>(_, tree). map snd tree) m))" for y z
      using t [OF that(1)] rest [OF that(2)] by metis
    then have "op_key ` snd ` set tree \<inter> op_key ` set (concat (map (\<lambda>(_, tree). map snd tree) m)) = {}" by blast
    moreover have "distinct (map op_key (map snd tree))" by (rule Cons.prems(1) [of t]) (simp add: x)
    moreover have "distinct (map op_key (concat (map (\<lambda>(_, tree). map snd tree) m)))"
    proof (rule Cons.IH)
      show "distinct (map op_key (map snd tr))" if "(t', tr) \<in> set m" for t' tr by (rule Cons.prems(1) [of t']) (simp add: that)
      show "fst (op_key y) = t'" if "(t', tr) \<in> set m" "y \<in> snd ` set tr" for t' tr y by (rule Cons.prems(2) [OF _ that(2)]) (simp add: that)
      show "distinct (map fst m)" using Cons.prems(3) by simp
    qed
    ultimately show ?case
      unfolding x by (simp only: list.map concat.simps prod.case map_append distinct_append set_map)
  qed simp
qed

text \<open>A flush moves the operations of the trees \<open>K\<close> from the pending map to the flushing map.\<close>

definition flush_moves :: "(u64 \<Rightarrow> bool) \<Rightarrow> WriteDelta \<Rightarrow> DeltaOp list \<Rightarrow> WriteDelta \<Rightarrow> bool" where
  "flush_moves K w ops w' = (distinct (map op_key ops) \<and> maps_wf (wd_inner w') \<and> wd_has_any w' = wd_has_any w
     \<and> ops_map ops = (\<lambda>tk. if K (fst tk) then dfind (dm_pending (wd_inner w)) tk else None)
     \<and> dfind (dm_flushing (wd_inner w')) = ops_map ops
     \<and> dfind (dm_pending (wd_inner w')) = (\<lambda>tk. if K (fst tk) then None else dfind (dm_pending (wd_inner w)) tk))"

lemma dfind_delete: "dfind (AList.delete t m) = (\<lambda>tk. if fst tk = t then None else dfind m tk)"
  by (auto simp: dfind_def tree_of_delete fun_eq_iff)

lemma delta_wf_delete:
  assumes "delta_wf m c"
  shows "delta_wf (AList.delete t m) (AList.delete t c)"
proof -
  let ?ok = "\<lambda>(t, tree). tree \<noteq> [] \<and> distinct (map fst tree) \<and> (\<forall>(k, d) \<in> set tree. op_key d = (t, k))"
  have sub: "set (AList.delete t m) \<subseteq> set m" by (auto simp: AList.delete_eq)
  have ok: "\<forall>p \<in> set m. ?ok p" using assms unfolding delta_wf_def by (elim conjE)
  have "\<forall>p \<in> set (AList.delete t m). ?ok p" by (rule ballI) (rule bspec [OF ok subsetD [OF sub]])
  moreover have "count_of (AList.delete t c) t' = changes_in (AList.delete t m) t'" for t'
  proof -
    have "count_of c t' = changes_in m t'" using assms unfolding delta_wf_def by blast
    then show ?thesis by (simp add: count_of_def changes_in_def tree_of_delete AList.delete_conv')
  qed
  moreover have "distinct (map fst (AList.delete t m))" "distinct (map fst (AList.delete t c))"
    using assms by (simp_all add: delta_wf_def distinct_delete)
  ultimately show ?thesis unfolding delta_wf_def by blast
qed

lemma ops_map_eqI:
  assumes "distinct (map op_key ops)" "\<And>d. d \<in> set ops \<longleftrightarrow> f (op_key d) = Some d" "\<And>tk d. f tk = Some d \<Longrightarrow> op_key d = tk"
  shows "ops_map ops = f"
proof
  fix tk
  have eq: "ops_map ops tk = Some d \<longleftrightarrow> f tk = Some d" for d
  proof -
    have "d \<in> set ops \<and> op_key d = tk \<longleftrightarrow> f tk = Some d" using assms(2) [of d] assms(3) [of tk d] by blast
    then show ?thesis unfolding ops_map_iff [OF assms(1)] .
  qed
  show "ops_map ops tk = f tk"
  proof (cases "f tk")
    case None
    then show ?thesis using eq by (metis not_None_eq)
  next
    case (Some d)
    then show ?thesis using eq [of d] by metis
  qed
qed

lemma begin_all_moves:
  assumes "wd_idle Q w" "begin_flush_all w = (ops, w')"
  shows "flush_moves (\<lambda>_. True) w ops w'"
proof -
  let ?p = "dm_pending (wd_inner w)"
  let ?s = "(wd_inner w)\<lparr> dm_pending := [], pending_key_set := [] \<rparr>"
  have wf: "delta_wf ?p (pending_key_set (wd_inner w))" using assms(1) by (simp add: wd_idle_def maps_wf_def)
  have ops: "ops = sort_all_ops (concat (map (\<lambda>(_, tree). map snd tree) ?p))"
    and w': "w' = w\<lparr> wd_inner := publish_flushing ops ?s \<rparr>" using assms(2) by (auto simp: begin_flush_all_def Let_def)
  have d: "distinct (map op_key ops)" unfolding ops sort_all_ops_def distinct_sort_keys by (rule all_ops(1) [OF wf])
  have "x \<in> set ops \<longleftrightarrow> dfind ?p (op_key x) = Some x" for x unfolding ops sort_all_ops_def set_sort by (rule all_ops(2) [OF wf])
  then have m: "ops_map ops = dfind ?p" using dfind_key [OF wf] by (rule ops_map_eqI [OF d])
  have "maps_wf ?s" using assms(1) by (auto simp: wd_idle_def maps_wf_def)
  from publish_facts [OF this d] show ?thesis
    using assms(1) d m by (simp add: flush_moves_def w' wd_idle_def)
qed

lemma begin_tree_moves:
  assumes "wd_idle Q w" "begin_flush_tree t w = (ops, w')"
  shows "flush_moves (\<lambda>t'. t' = t) w ops w'"
proof (cases "map_of (dm_pending (wd_inner w)) t")
  case None
  then show ?thesis using assms
    by (auto simp: flush_moves_def begin_flush_tree_def wd_idle_def ops_map_def dfind_def tree_of_def fun_eq_iff)
next
  case (Some tree)
  let ?p = "dm_pending (wd_inner w)"
  let ?s = "(wd_inner w)\<lparr> dm_pending := AList.delete t ?p, pending_key_set := AList.delete t (pending_key_set (wd_inner w)) \<rparr>"
  let ?f = "\<lambda>tk. if fst tk = t then dfind ?p tk else None"
  have wf: "delta_wf ?p (pending_key_set (wd_inner w))" using assms(1) by (simp add: wd_idle_def maps_wf_def)
  have mem: "(t, tree) \<in> set ?p" using Some by (rule map_of_SomeD)
  have ops: "ops = sort_tree_ops (map snd tree)"
    and w': "w' = w\<lparr> wd_inner := publish_flushing ops ?s \<rparr>" using assms(2) Some by (auto simp: begin_flush_tree_def Let_def)
  have single: "delta_wf [(t, tree)] (if changes_in [(t, tree)] t = 0 then [] else [(t, changes_in [(t, tree)] t)])"
    using mem wf by (auto simp: delta_wf_def count_of_def changes_in_def tree_of_def)
  have eq: "dfind [(t, tree)] = ?f" using Some by (auto simp: dfind_def tree_of_def fun_eq_iff)
  note all = all_ops [OF single, simplified]
  have d: "distinct (map op_key ops)" unfolding ops sort_tree_ops_def distinct_sort_keys using all(1) by simp
  have "x \<in> set ops \<longleftrightarrow> ?f (op_key x) = Some x" for x unfolding ops sort_tree_ops_def set_sort using all(2) [of x] eq by simp
  then have m: "ops_map ops = ?f" by (rule ops_map_eqI [OF d]) (simp add: dfind_key [OF wf] split: if_splits)
  have "maps_wf ?s" using assms(1) delta_wf_delete [OF wf] by (auto simp: wd_idle_def maps_wf_def)
  from publish_facts [OF this d] show ?thesis
    using assms(1) d m by (simp add: flush_moves_def w' wd_idle_def dfind_delete)
qed

lemma effective_idle:
  "dm_flushing (wd_inner w) = [] \<Longrightarrow>
   effective base w tk = (case dfind (dm_pending (wd_inner w)) tk of None \<Rightarrow> base tk | Some d \<Rightarrow> entry_value (do_entry d))"
  by (simp add: effective_def wd_get_dfind split: option.split)

lemma maps_empty: "maps_len s = 0 \<longleftrightarrow> (\<forall>(t, tree) \<in> set (dm_pending s @ dm_flushing s). tree = [])"
  by (auto simp: maps_len_def map_len_def)

lemma maps_len_zero:
  assumes "maps_wf s"
  shows "maps_len s = 0 \<longleftrightarrow> dm_pending s = [] \<and> dm_flushing s = []"
proof -
  have "m = []" if "delta_wf m c" "\<forall>(t, tree) \<in> set m. tree = []" for m c
    using that unfolding delta_wf_def by (cases m) auto
  then show ?thesis using assms unfolding maps_empty maps_wf_def by (metis Un_iff append_Nil list.set(1) empty_iff set_append)
qed

text \<open>While the operations are being applied, readers find them in the flushing map, so it does not matter which of them
  are in the trees already.\<close>

definition mid_flush_ok :: "(u64 \<times> bytes \<Rightarrow> (bytes \<times> u64) option) \<Rightarrow> WriteDelta \<Rightarrow> DeltaOp list \<times> WriteDelta \<Rightarrow> bool" where
  "mid_flush_ok base w out = (case out of (ops, w') \<Rightarrow>
     \<forall>now. (\<forall>tk. tk \<notin> op_key ` set ops \<longrightarrow> now tk = base tk) \<longrightarrow> effective now w' = effective base w)"

lemma mid_flush:
  assumes "flush_moves K w ops w'" "wd_idle Q w"
  shows "mid_flush_ok base w (ops, w')"
proof -
  note m = assms(1) [unfolded flush_moves_def]
  have fl: "dm_flushing (wd_inner w) = []" using assms(2) by (simp add: wd_idle_def)
  have "effective now w' tk = effective base w tk" if now: "\<And>tk. tk \<notin> op_key ` set ops \<Longrightarrow> now tk = base tk" for now tk
  proof (cases "ops_map ops tk")
    case None
    then have "now tk = base tk" by (intro now ops_map_none)
    moreover have "dfind (dm_flushing (wd_inner w')) tk = None" "dfind (dm_pending (wd_inner w')) tk = dfind (dm_pending (wd_inner w)) tk"
      using None m by (simp_all split: if_splits)
    ultimately show ?thesis using fl by (simp add: effective_def wd_get_dfind split: option.split)
  next
    case (Some d)
    then have "dfind (dm_flushing (wd_inner w')) tk = Some d" "dfind (dm_pending (wd_inner w')) tk = None"
        "dfind (dm_pending (wd_inner w)) tk = Some d"
      using m by (simp_all split: if_splits)
    then show ?thesis using fl by (simp add: effective_def wd_get_dfind)
  qed
  then show ?thesis unfolding mid_flush_ok_def prod.case by blast
qed

text \<open>Both outcomes of the flush: the operations are in the trees, or they are pending again.\<close>

lemma finish_transparent:
  assumes w: "flush_moves K w ops w'" "wd_idle Q w" and ne: "ops \<noteq> []"
    and b': "\<And>tk. tk \<notin> op_key ` set ops \<Longrightarrow> base' tk = base tk" "\<And>d. d \<in> set ops \<Longrightarrow> base' (op_key d) = entry_value (do_entry d)"
  shows "wd_idle Q (finish_flush ops w')" "effective base' (finish_flush ops w') = effective base w"
    "K t \<Longrightarrow> wd_get t k (finish_flush ops w') = None"
proof -
  note m = w(1) [unfolded flush_moves_def]
  have fl: "dm_flushing (wd_inner w) = []" and q: "\<And>tk d. dfind (dm_pending (wd_inner w)) tk = Some d \<Longrightarrow> Q d"
    using w(2) unfolding wd_idle_def by blast+
  have f: "dm_flushing (wd_inner (finish_flush ops w')) = []" "dm_pending (wd_inner (finish_flush ops w')) = dm_pending (wd_inner w')"
    "maps_wf (wd_inner (finish_flush ops w'))"
    using finish_facts [of "wd_inner w'" ops] m ne by (simp_all add: finish_flush_def Let_def)
  have p: "dfind (dm_pending (wd_inner w')) tk = (if K (fst tk) then None else dfind (dm_pending (wd_inner w)) tk)" for tk
    using m by simp
  have "dm_pending (wd_inner (finish_flush ops w')) = []" if "\<not> wd_has_any (finish_flush ops w')"
  proof (cases "wd_has_any w")
    case True
    then have "maps_len (wd_inner (finish_flush ops w')) = 0"
      using that m ne by (auto simp: finish_flush_def Let_def split: if_splits)
    then show ?thesis using maps_len_zero [OF f(3)] by blast
  next
    case False
    then have "dm_pending (wd_inner w) = []" using w(2) unfolding wd_idle_def by blast
    then have "dfind (dm_pending (wd_inner w')) = (\<lambda>_. None)" by (intro ext) (simp add: p)
    then show ?thesis using dfind_empty m f(2) unfolding maps_wf_def by metis
  qed
  moreover have "Q d" if "dfind (dm_pending (wd_inner (finish_flush ops w'))) tk = Some d" for tk d
    by (rule q [of tk]) (use that p [of tk] f(2) in \<open>simp split: if_splits\<close>)
  ultimately show "wd_idle Q (finish_flush ops w')" unfolding wd_idle_def using f(1,3) by blast
  have "effective base' (finish_flush ops w') tk = effective base w tk" for tk
  proof (cases "ops_map ops tk")
    case None
    then have "tk \<notin> op_key ` set ops" by (rule ops_map_none)
    then show ?thesis using None m p [of tk] f fl b'(1) by (simp add: effective_idle split: if_splits option.split)
  next
    case (Some d)
    then have "d \<in> set ops" "op_key d = tk" using m ops_map_iff by blast+
    then show ?thesis using Some m p [of tk] f fl b'(2) [of d] by (simp add: effective_idle split: if_splits)
  qed
  then show "effective base' (finish_flush ops w') = effective base w" by blast
  show "wd_get t k (finish_flush ops w') = None" if "K t" using that p [of "(t, k)"] f by (simp add: wd_get_dfind)
qed

lemma abort_transparent:
  assumes w: "flush_moves K w ops w'" "wd_idle Q w" and ne: "ops \<noteq> []"
    and b': "\<And>tk. tk \<notin> op_key ` set ops \<Longrightarrow> base' tk = base tk"
  shows "wd_idle Q (abort_flush ops w')" "effective base' (abort_flush ops w') = effective base w"
proof -
  note m = w(1) [unfolded flush_moves_def]
  have fl: "dm_flushing (wd_inner w) = []" and q: "\<And>tk d. dfind (dm_pending (wd_inner w)) tk = Some d \<Longrightarrow> Q d"
    using w(2) unfolding wd_idle_def by blast+
  have f: "dm_flushing (wd_inner (abort_flush ops w')) = []" "maps_wf (wd_inner (abort_flush ops w'))"
      "dfind (dm_pending (wd_inner (abort_flush ops w'))) = dfind (dm_pending (wd_inner w')) ++ ops_map ops"
    using abort_facts [of "wd_inner w'" ops] m ne by (simp_all add: abort_flush_def)
  have p: "dfind (dm_pending (wd_inner (abort_flush ops w'))) tk = dfind (dm_pending (wd_inner w)) tk" for tk
    using m f(3) by (simp add: map_add_def split: option.split)
  have "wd_has_any (abort_flush ops w')" using ne by (simp add: abort_flush_def)
  moreover have "Q d" if "dfind (dm_pending (wd_inner (abort_flush ops w'))) tk = Some d" for tk d
    by (rule q [of tk]) (use that p [of tk] in simp)
  ultimately show "wd_idle Q (abort_flush ops w')" unfolding wd_idle_def using f(1,2) by blast
  have "effective base' (abort_flush ops w') tk = effective base w tk" for tk
  proof (cases "ops_map ops tk")
    case None
    then have "tk \<notin> op_key ` set ops" by (rule ops_map_none)
    then show ?thesis using p f(1) fl b' by (simp add: effective_idle split: option.split)
  next
    case (Some d)
    then have "dfind (dm_pending (wd_inner w)) tk = Some d" using m by (simp split: if_splits)
    then show ?thesis using p f(1) fl by (simp add: effective_idle)
  qed
  then show "effective base' (abort_flush ops w') = effective base w" by blast
qed

text \<open>The contract of one flush, from one quiet state to the next.\<close>

definition flush_ok ::
  "('b \<Rightarrow> bool) \<Rightarrow> (DeltaOp \<Rightarrow> bool) \<Rightarrow> (u64 \<Rightarrow> bool) \<Rightarrow> ('b \<Rightarrow> u64 \<times> bytes \<Rightarrow> (bytes \<times> u64) option) \<Rightarrow> WriteDelta \<Rightarrow> 'b \<Rightarrow> unit result \<times> WriteDelta \<times> 'b \<Rightarrow> bool" where
  "flush_ok J Q K base w b out = (case out of (r, w', b') \<Rightarrow>
     J b' \<and> wd_idle Q w' \<and> effective (base b') w' = effective (base b) w \<and> (\<forall>u. r = Inr u \<longrightarrow> (\<forall>t k. K t \<longrightarrow> wd_get t k w' = None)))"

lemma apply_ok:
  assumes "flush_moves K w ops w'" "wd_idle Q w" "applier_ok J Q inner base" "J b"
  shows "flush_ok J Q K base w b (apply_write_delta_ops inner ops w' b)"
proof (cases "ops = []")
  case True
  note m = assms(1) [unfolded flush_moves_def]
  have n: "ops_map ops = (\<lambda>_. None)" using True by (simp add: ops_map_def fun_eq_iff)
  have fl: "dm_flushing (wd_inner w') = []" using m n dfind_empty unfolding maps_wf_def by metis
  have p: "dfind (dm_pending (wd_inner w')) tk = dfind (dm_pending (wd_inner w)) tk" for tk
  proof -
    have "(if K (fst tk) then dfind (dm_pending (wd_inner w)) tk else None) = None" using m n by metis
    then show ?thesis using m by (simp split: if_splits)
  qed
  have k: "dfind (dm_pending (wd_inner w')) (t, k) = None" if "K t" for t k using m that by simp
  have "dm_pending (wd_inner w') = []" if "\<not> wd_has_any w'"
  proof -
    have "dm_pending (wd_inner w) = []" using that m assms(2) by (simp add: wd_idle_def)
    then have "dfind (dm_pending (wd_inner w')) = (\<lambda>_. None)" using p by auto
    then show ?thesis using m dfind_empty unfolding maps_wf_def by metis
  qed
  moreover have "Q d" if "dfind (dm_pending (wd_inner w')) tk = Some d" for tk d
    using that p [of tk] assms(2) by (cases tk) (auto simp: wd_idle_def)
  ultimately have "wd_idle Q w'" unfolding wd_idle_def using m fl by blast
  moreover have "effective (base b) w' = effective (base b) w"
    using fl p assms(2) by (simp add: fun_eq_iff effective_idle wd_idle_def)
  moreover have "wd_get t k w' = None" if "K t" for t k using k [OF that] fl by (simp add: wd_get_dfind)
  ultimately show ?thesis using True assms(4) by (simp add: flush_ok_def apply_write_delta_ops_def)
next
  case False
  obtain r b' where i: "inner ops b = (r, b')" by fastforce
  have d: "distinct (map op_key ops)" using assms(1) by (simp add: flush_moves_def)
  have "Q e" if "e \<in> set ops" for e
  proof -
    have "ops_map ops (op_key e) = Some e" using ops_map_iff [OF d] that by blast
    then have "dfind (dm_pending (wd_inner w)) (op_key e) = Some e" using assms(1) unfolding flush_moves_def by (metis option.distinct(1))
    then show ?thesis using assms(2) unfolding wd_idle_def by blast
  qed
  then have q: "list_all Q ops" by (simp add: list_all_iff)
  have j: "J b'" using assms(3,4) d q i unfolding applier_ok_def by blast
  have b1: "base b' tk = base b tk" if "tk \<notin> op_key ` set ops" for tk using assms(3,4) d q i that unfolding applier_ok_def by blast
  show ?thesis
  proof (cases r)
    case (Inl e)
    then show ?thesis using abort_transparent [OF assms(1,2) False b1] False i j by (simp add: flush_ok_def apply_write_delta_ops_def)
  next
    case (Inr u)
    have b2: "base b' (op_key d) = entry_value (do_entry d)" if "d \<in> set ops" for d
      using assms(3,4) d q i that Inr unfolding applier_ok_def by blast
    show ?thesis using finish_transparent [OF assms(1,2) False b1 b2] False i j Inr by (simp add: flush_ok_def apply_write_delta_ops_def)
  qed
qed

lemma idle_none: "wd_idle Q w \<Longrightarrow> \<not> wd_has_any w \<Longrightarrow> wd_get t k w = None"
  by (simp add: wd_idle_def wd_get_dfind)

theorem flush_all_ok:
  assumes "wd_idle Q w" "applier_ok J Q inner base" "J b"
  shows "flush_ok J Q (\<lambda>_. True) base w b (flush_write_deltas inner w b)"
  using apply_ok [OF begin_all_moves [OF assms(1)] assms] by (simp add: flush_write_deltas_def split: prod.split)

lemma idle_flush_ok: "wd_idle Q w \<Longrightarrow> \<not> wd_has_any w \<Longrightarrow> J b \<Longrightarrow> flush_ok J Q K base w b (Inr (), w, b)"
  by (simp add: flush_ok_def idle_none)

theorem flush_tree_ok:
  assumes "wd_idle Q w" "applier_ok J Q inner base" "J b"
  shows "flush_ok J Q (\<lambda>t'. t' = t) base w b (flush_write_deltas_for_tree inner t w b)"
proof (cases "wd_has_any w")
  case True
  then show ?thesis
    using apply_ok [OF begin_tree_moves [OF assms(1)] assms] by (simp add: flush_write_deltas_for_tree_def split: prod.split)
next
  case False
  then show ?thesis using idle_flush_ok [OF assms(1)] assms(3) by (simp add: flush_write_deltas_for_tree_def)
qed

text \<open>A tree once flushed stays flushed while others are.\<close>

lemma apply_keeps_none:
  assumes "flush_moves K w ops w'" "wd_idle Q w" "wd_get t k w = None"
    "apply_write_delta_ops inner ops w' b = (Inr u, w'', b')"
  shows "wd_get t k w'' = None"
proof -
  note m = assms(1) [unfolded flush_moves_def]
  have "dm_flushing (wd_inner w) = []" using assms(2) by (simp add: wd_idle_def)
  then have n: "dfind (dm_pending (wd_inner w)) (t, k) = None" using assms(3) by (simp add: wd_get_dfind split: option.splits)
  have p: "dfind (dm_pending (wd_inner w')) (t, k) = None" "dfind (dm_flushing (wd_inner w')) (t, k) = None" using m n by auto
  show ?thesis
  proof (cases "ops = []")
    case True
    then show ?thesis using assms(4) p by (simp add: apply_write_delta_ops_def wd_get_dfind)
  next
    case False
    then have "w'' = finish_flush ops w'" using assms(4) by (auto simp: apply_write_delta_ops_def split: prod.splits sum.splits)
    then show ?thesis using finish_facts [of "wd_inner w'" ops] m p False by (simp add: finish_flush_def Let_def wd_get_dfind)
  qed
qed

lemma flush_each_ok:
  assumes "wd_idle Q w" "applier_ok J Q inner base" "J b"
  shows "flush_ok J Q (\<lambda>t. t \<in> set trees) base w b (flush_each_tree inner trees w b)
    \<and> (\<forall>w' b' u t k. flush_each_tree inner trees w b = (Inr u, w', b') \<longrightarrow> wd_get t k w = None \<longrightarrow> wd_get t k w' = None)"
  using assms(1,3)
proof (induction trees arbitrary: w b)
  case Nil
  then show ?case by (simp add: flush_ok_def)
next
  case (Cons x trees)
  obtain ops w1 where b1: "begin_flush_tree x w = (ops, w1)" by fastforce
  obtain r w2 b2 where a: "apply_write_delta_ops inner ops w1 b = (r, w2, b2)" by (metis prod_cases3)
  note mv = begin_tree_moves [OF Cons.prems(1) b1]
  have ok: "flush_ok J Q (\<lambda>t. t = x) base w b (r, w2, b2)" using apply_ok [OF mv Cons.prems(1) assms(2) Cons.prems(2)] a by simp
  then have j: "J b2" and idle: "wd_idle Q w2" and eff: "effective (base b2) w2 = effective (base b) w" by (simp_all add: flush_ok_def)
  show ?case
  proof (cases r)
    case (Inl e)
    then show ?thesis using b1 a j idle eff by (simp add: flush_ok_def)
  next
    case (Inr u)
    have e: "flush_each_tree inner (x # trees) w b = flush_each_tree inner trees w2 b2" using b1 a Inr by simp
    have x: "wd_get x k w2 = None" for k using ok Inr by (simp add: flush_ok_def)
    have keep: "wd_get t k w2 = None" if "wd_get t k w = None" for t k
      by (rule apply_keeps_none [OF mv Cons.prems(1) that a [unfolded Inr]])
    show ?thesis unfolding e using Cons.IH [OF idle j] eff x keep
      by (auto simp: flush_ok_def split: prod.splits)
  qed
qed

theorem flush_trees_ok:
  assumes "wd_idle Q w" "applier_ok J Q inner base" "J b"
  shows "flush_ok J Q (\<lambda>t. t \<in> set trees) base w b (flush_write_deltas_for_trees inner trees w b)"
  using flush_each_ok [OF assms, of trees] idle_flush_ok [OF assms(1), of J b "\<lambda>t. t \<in> set trees" base] assms(3)
  by (simp add: flush_write_deltas_for_trees_def)

text \<open>Staging: a write is seen at once, and only under its key.\<close>

lemma stage_idle:
  assumes "wd_idle Q w"
  shows "Q \<lparr> do_tree_id = t, do_root_guid = g, do_key = k, do_entry = DPut v sq c \<rparr> \<Longrightarrow> wd_idle Q (stage_put t g k v sq c w)"
    "Q \<lparr> do_tree_id = t, do_root_guid = g, do_key = k, do_entry = DDelete sq \<rparr> \<Longrightarrow> wd_idle Q (stage_delete t g k sq w)"
  using assms insert_pending_facts(3) by (auto simp: wd_idle_def stage_put_def stage_delete_def insert_pending_facts)

theorem stage_effective:
  assumes "wd_idle Q w"
  shows "effective base (stage_put t g k v sq c w) = (effective base w)((t, k) \<mapsto> (v, sq))"
    "effective base (stage_delete t g k sq w) = (effective base w)((t, k) := None)"
proof -
  have f: "dm_flushing (wd_inner w) = []" using assms by (simp add: wd_idle_def)
  show "effective base (stage_put t g k v sq c w) = (effective base w)((t, k) \<mapsto> (v, sq))"
    "effective base (stage_delete t g k sq w) = (effective base w)((t, k) := None)"
    using f by (auto simp: fun_eq_iff effective_idle stage_put_def stage_delete_def insert_pending_facts op_key_def)
qed

theorem default_idle: "wd_idle Q write_delta_default" "effective base write_delta_default = base"
  by (simp_all add: wd_idle_def write_delta_default_def maps_wf_def fun_eq_iff effective_idle)

text \<open>The per-tree counter is exact: it is the number of staged operations that change the key set.\<close>

theorem key_set_count_exact:
  "maps_wf s \<Longrightarrow> maps_tree_key_set_len t s = changes_in (dm_pending s) t + changes_in (dm_flushing s) t"
  by (simp add: maps_tree_key_set_len_def maps_wf_def delta_wf_def)

section \<open>The engine applies what is staged\<close>

text \<open>The content of the trees by root, and what the flush relies on: the engine applies a prefix of a batch in order, an error
  leaves everything outside the keys of the call alone, and pins and dirty marks are invisible.  This is asked for trees that
  satisfy an invariant \<open>J\<close>, which every call keeps, and for the keys and values \<open>V\<close> allows (no value for a deletion).\<close>

type_synonym contents = "bytes \<Rightarrow> bytes \<Rightarrow> (bytes \<times> u64) option"

definition put_items :: "batch_item list \<Rightarrow> (bytes \<Rightarrow> (bytes \<times> u64) option) \<Rightarrow> bytes \<Rightarrow> (bytes \<times> u64) option" where
  "put_items items m = fold (\<lambda>(k, v, sq) m. m(k \<mapsto> (v, sq))) items m"

definition items_ok :: "(bytes \<Rightarrow> bytes option \<Rightarrow> bool) \<Rightarrow> batch_item list \<Rightarrow> bool" where
  "items_ok V items = list_all (\<lambda>(k, v, sq). V k (Some v)) items"

locale delta_engine =
  fixes E :: "'b DeltaEngine"
    and content :: "'b \<Rightarrow> contents"
    and J :: "'b \<Rightarrow> bool"
    and V :: "bytes \<Rightarrow> bytes option \<Rightarrow> bool"
  assumes pin: "J b \<Longrightarrow> en_pin E g b = (r, b') \<Longrightarrow> J b' \<and> content b' = content b"
    and mark_dirty: "J b \<Longrightarrow> J (en_mark_dirty E g sq b) \<and> content (en_mark_dirty E g sq b) = content b"
    and insert_batch: "J b \<Longrightarrow> items_ok V items \<Longrightarrow> en_insert_batch E g items b = (ri, b') \<Longrightarrow>
      J b' \<and> (\<forall>g' k. g' \<noteq> g \<or> k \<notin> fst ` set items \<longrightarrow> content b' g' k = content b g' k)
      \<and> (\<forall>n dirty. ri = Inr (n, dirty) \<longrightarrow> n \<le> length items \<and> content b' g = put_items (take n items) (content b g))"
    and erase: "J b \<Longrightarrow> V k None \<Longrightarrow> en_erase E g k sq b = (re, b') \<Longrightarrow>
      J b' \<and> (\<forall>g' k'. g' \<noteq> g \<or> k' \<noteq> k \<longrightarrow> content b' g' k' = content b g' k') \<and> (\<forall>p. re = Inr p \<longrightarrow> content b' g k = None)"

lemma put_items_append: "put_items (xs @ ys) m = put_items ys (put_items xs m)"
  by (simp add: put_items_def)

lemma put_items_other: "k \<notin> fst ` set items \<Longrightarrow> put_items items m k = m k"
  by (induction items arbitrary: m) (auto simp: put_items_def)

lemma put_items_hit: "distinct (map fst items) \<Longrightarrow> (k, v, sq) \<in> set items \<Longrightarrow> put_items items m k = Some (v, sq)"
proof (induction items arbitrary: m)
  case (Cons x items)
  have e: "put_items (x # items) m = put_items items (m(fst x \<mapsto> snd x))" by (cases x) (auto simp: put_items_def)
  show ?case
  proof (cases "x = (k, v, sq)")
    case True
    then show ?thesis unfolding e using Cons.prems(1) by (simp add: put_items_other)
  next
    case False
    then show ?thesis unfolding e using Cons by simp
  qed
qed simp

text \<open>A run of puts: everything else is untouched, and on success all of it is in the tree; the loop always ends.\<close>

definition run_ok :: "('b \<Rightarrow> bool) \<Rightarrow> ('b \<Rightarrow> contents) \<Rightarrow> bytes \<Rightarrow> batch_item list \<Rightarrow> 'b \<Rightarrow> unit result \<times> 'b \<Rightarrow> bool" where
  "run_ok J content g items b out = (case out of (r, b') \<Rightarrow>
     J b' \<and> (\<forall>g' k. g' \<noteq> g \<or> k \<notin> fst ` set items \<longrightarrow> content b' g' k = content b g' k)
     \<and> (r = Inr () \<longrightarrow> content b' g = put_items items (content b g)))"

lemma run_ok_step:
  assumes ins: "\<And>g' k. g' \<noteq> g \<or> k \<notin> fst ` set items \<Longrightarrow> content b1 g' k = content b g' k"
      "content b1 g = put_items (take n items) (content b g)"
    and c: "content b2 = content b1" and rest: "run_ok J content g (drop n items) b2 out"
  shows "run_ok J content g items b out"
proof -
  obtain r b' where o: "out = (r, b')" by fastforce
  have "content b' g' k = content b g' k" if k: "g' \<noteq> g \<or> k \<notin> fst ` set items" for g' k
  proof -
    have "g' \<noteq> g \<or> k \<notin> fst ` set (drop n items)" using k set_drop_subset [of n items] by blast
    then have "content b' g' k = content b2 g' k" using rest o by (auto simp: run_ok_def)
    then show ?thesis using c ins(1) [OF k] by simp
  qed
  moreover have "content b' g = put_items items (content b g)" if "r = Inr ()"
  proof -
    have "content b' g = put_items (drop n items) (put_items (take n items) (content b g))"
      using rest o that c ins(2) by (simp add: run_ok_def)
    then show ?thesis by (simp flip: put_items_append)
  qed
  moreover have "J b'" using rest o by (simp add: run_ok_def)
  ultimately show ?thesis by (simp add: run_ok_def o)
qed

context delta_engine
begin

lemma put_run_loop_ok: "J b \<Longrightarrow> items_ok V items \<Longrightarrow> run_ok J content g items b (put_run_loop E g items b)"
proof (induction "length items" arbitrary: items b rule: less_induct)
  case less
  show ?case
  proof (cases "items = []")
    case True
    then show ?thesis using less.prems(1) by (simp add: put_run_loop.simps put_items_def run_ok_def)
  next
    case False
    obtain ri b1 where i: "en_insert_batch E g items b = (ri, b1)" by fastforce
    note law = insert_batch [OF less.prems i]
    have j: "J b1" and out: "\<And>g' k. g' \<noteq> g \<or> k \<notin> fst ` set items \<Longrightarrow> content b1 g' k = content b g' k" using law by blast+
    show ?thesis
    proof (cases ri)
      case (Inl e)
      then show ?thesis using False i j out by (auto simp: put_run_loop.simps [of E g items] run_ok_def)
    next
      case (Inr p)
      obtain n dirty where p: "p = (n, dirty)" by fastforce
      have ins: "n \<le> length items" "content b1 g = put_items (take n items) (content b g)" using law Inr p by simp_all
      let ?b = "if dirty then en_mark_dirty E g (min_seq (take n items)) b1 else b1"
      have c: "content ?b = content b1" "J ?b" using mark_dirty [OF j] j by simp_all
      have rest: "items_ok V (drop n items)"
        using less.prems(2) set_drop_subset [of n items] by (auto simp: items_ok_def list_all_iff)
      show ?thesis
      proof (cases "n = 0")
        case True
        then show ?thesis using False i Inr p j out by (auto simp: put_run_loop.simps [of E g items] run_ok_def)
      next
        case n: False
        have e: "put_run_loop E g items b = put_run_loop E g (drop n items) ?b"
          using False i Inr p n ins(1) by (simp add: put_run_loop.simps [of E g items])
        show ?thesis unfolding e using False n c(2) rest by (intro run_ok_step [OF out ins(2) c(1)] less.hyps) simp_all
      qed
    qed
  qed
qed

end

text \<open>The trees as readers name them: a tree identifier stands for its root frame, and every staged operation carries
  it, with a key and a value the engine takes.\<close>

definition base_of :: "(u64 \<Rightarrow> bytes) \<Rightarrow> ('b \<Rightarrow> contents) \<Rightarrow> 'b \<Rightarrow> u64 \<times> bytes \<Rightarrow> (bytes \<times> u64) option" where
  "base_of root_of content b = (\<lambda>(t, k). content b (root_of t) k)"

definition rooted :: "(u64 \<Rightarrow> bytes) \<Rightarrow> (bytes \<Rightarrow> bytes option \<Rightarrow> bool) \<Rightarrow> DeltaOp \<Rightarrow> bool" where
  "rooted root_of V d =
    (do_root_guid d = root_of (do_tree_id d) \<and> V (do_key d) (map_option fst (entry_value (do_entry d))))"

definition ops_ok :: "('b \<Rightarrow> bool) \<Rightarrow> ('b \<Rightarrow> u64 \<times> bytes \<Rightarrow> (bytes \<times> u64) option) \<Rightarrow> DeltaOp list \<Rightarrow> 'b \<Rightarrow> unit result \<times> 'b \<Rightarrow> bool" where
  "ops_ok J base ops b out = (case out of (r, b') \<Rightarrow>
     J b' \<and> (\<forall>tk. tk \<notin> op_key ` set ops \<longrightarrow> base b' tk = base b tk)
     \<and> (\<forall>u. r = Inr u \<longrightarrow> (\<forall>d \<in> set ops. base b' (op_key d) = entry_value (do_entry d))))"

lemma ops_ok_append:
  assumes "ops_ok J base xs b (Inr u, b2)" "ops_ok J base ys b2 out" "distinct (map op_key (xs @ ys))"
  shows "ops_ok J base (xs @ ys) b out"
proof -
  obtain r b' where o: "out = (r, b')" by fastforce
  have x: "op_key d \<notin> op_key ` set ys" if "d \<in> set xs" for d using assms(3) that by auto
  have "base b' tk = base b tk" if "tk \<notin> op_key ` set (xs @ ys)" for tk
    using assms(1,2) that by (cases tk) (simp add: ops_ok_def o image_Un)
  moreover have "base b' (op_key d) = entry_value (do_entry d)" if "r = Inr v" "d \<in> set (xs @ ys)" for d v
  proof (cases "d \<in> set ys")
    case True
    then show ?thesis using assms(2) that(1) by (simp add: ops_ok_def o)
  next
    case False
    then have d: "d \<in> set xs" using that(2) by simp
    have "base b' (op_key d) = base b2 (op_key d)" using assms(2) x [OF d] by (cases "op_key d") (simp add: ops_ok_def o)
    then show ?thesis using assms(1) d by (simp add: ops_ok_def)
  qed
  moreover have "J b'" using assms(2) by (simp add: ops_ok_def o)
  ultimately show ?thesis by (simp add: ops_ok_def o)
qed

lemma ops_ok_error: "ops_ok J base xs b (Inl e, b') \<Longrightarrow> ops_ok J base (xs @ ys) b (Inl e, b')"
  by (simp add: ops_ok_def image_Un)

lemma ops_ok_content: "base b0 = base b \<Longrightarrow> ops_ok J base ops b0 out \<Longrightarrow> ops_ok J base ops b out"
  by (simp add: ops_ok_def)

definition item_of :: "DeltaOp \<Rightarrow> batch_item" where
  "item_of d = (do_key d, the (entry_value (do_entry d)))"

lemma batch_items_puts: "\<forall>d \<in> set ops. is_put (do_entry d) \<Longrightarrow> batch_items ops = Inr (map item_of ops)"
proof (induction ops)
  case (Cons d ops)
  then show ?case by (cases "do_entry d") (simp_all add: item_of_def)
qed simp

lemma item_keys: "fst (item_of d) = do_key d" by (simp add: item_of_def)

lemma distinct_map_dropWhile: "distinct (map f xs) \<Longrightarrow> distinct (map f (dropWhile P xs))"
  by (induction xs) auto

context delta_engine
begin

lemma put_run_ok:
  assumes inj: "inj root_of" and j: "J b" "\<forall>d \<in> set ops. rooted root_of V d"
    and run: "\<forall>d \<in> set ops. is_put (do_entry d) \<and> do_tree_id d = t" and d: "distinct (map op_key ops)"
  shows "ops_ok J (base_of root_of content) ops b (apply_write_delta_put_run E (root_of t) ops b)"
proof -
  let ?items = "map item_of ops" and ?g = "root_of t"
  obtain r b' where o: "put_run_loop E ?g ?items b = (r, b')" by fastforce
  have "V (do_key x) (Some (fst (the (entry_value (do_entry x)))))" if "x \<in> set ops" for x
    using j(2) run that by (cases "do_entry x") (auto simp: rooted_def)
  then have "items_ok V ?items" by (auto simp: items_ok_def list_all_iff item_of_def case_prod_beta)
  then have r: "run_ok J content ?g ?items b (r, b')" using put_run_loop_ok [OF j(1), of ?items ?g] o by simp
  have e: "apply_write_delta_put_run E ?g ops b = (r, b')"
    using batch_items_puts [of ops] run o by (simp add: apply_write_delta_put_run_def)
  have key: "op_key x = (t, do_key x)" if "x \<in> set ops" for x using run that by (simp add: op_key_def)
  have "map op_key ops = map (Pair t) (map do_key ops)" using key by simp
  then have "distinct (map do_key ops)" using d distinct_map_Pair by metis
  then have dk: "distinct (map fst ?items)" by (simp add: item_keys comp_def)
  have "content b' (root_of t') k = content b (root_of t') k" if "(t', k) \<notin> op_key ` set ops" for t' k
  proof -
    have "root_of t' \<noteq> ?g \<or> k \<notin> fst ` set ?items"
    proof (cases "t' = t")
      case True
      then have "k \<noteq> do_key x" if "x \<in> set ops" for x using \<open>(t', k) \<notin> op_key ` set ops\<close> key [OF that] that by force
      then have "k \<notin> do_key ` set ops" by blast
      then show ?thesis by (simp add: image_image item_keys)
    next
      case False
      then show ?thesis using inj by (simp add: inj_eq)
    qed
    then show ?thesis using r by (simp add: run_ok_def)
  qed
  moreover have "content b' ?g (do_key x) = entry_value (do_entry x)" if ok: "r = Inr u" "x \<in> set ops" for x u
  proof -
    obtain v sq c where x: "do_entry x = DPut v sq c" using run ok(2) by (cases "do_entry x") auto
    then have "(do_key x, v, sq) \<in> set ?items" using ok(2) by (force simp: item_of_def image_iff)
    then show ?thesis using r ok(1) put_items_hit [OF dk] x by (simp add: run_ok_def)
  qed
  moreover have "J b'" using r by (simp add: run_ok_def)
  ultimately show ?thesis using key by (simp add: ops_ok_def e base_of_def)
qed

lemma put_step_ok:
  assumes inj: "inj root_of" and j: "J b" "\<forall>x \<in> set (d # rest). rooted root_of V x" and d: "is_put (do_entry d)"
    and dist: "distinct (map op_key (d # rest))"
    and IH: "\<And>b2. J b2 \<Longrightarrow> ops_ok J (base_of root_of content) (dropWhile (same_run d) rest) b2 (f b2)"
  shows "ops_ok J (base_of root_of content) (d # rest) b
    (case apply_write_delta_put_run E (do_root_guid d) (d # takeWhile (same_run d) rest) b of (Inl e, b2) \<Rightarrow> (Inl e, b2) | (Inr _, b2) \<Rightarrow> f b2)"
proof -
  let ?run = "d # takeWhile (same_run d) rest"
  have ops: "d # rest = ?run @ dropWhile (same_run d) rest" by simp
  obtain r b2 where o: "apply_write_delta_put_run E (do_root_guid d) ?run b = (r, b2)" by fastforce
  have run: "\<forall>x \<in> set ?run. is_put (do_entry x) \<and> do_tree_id x = do_tree_id d"
    using d by (auto simp: same_run_def dest: set_takeWhileD)
  have g: "do_root_guid d = root_of (do_tree_id d)" using j(2) by (simp add: rooted_def)
  have jr: "\<forall>x \<in> set ?run. rooted root_of V x" using j(2) by (auto dest: set_takeWhileD)
  have "distinct (map op_key ?run)" using dist unfolding ops map_append by simp
  from put_run_ok [OF inj j(1) jr run this] have ok: "ops_ok J (base_of root_of content) ?run b (r, b2)" using o g by simp
  then have j2: "J b2" by (simp add: ops_ok_def)
  show ?thesis
  proof (cases r)
    case (Inl e)
    then show ?thesis using ops_ok_error [of J _ ?run b e b2 "dropWhile (same_run d) rest"] ok o by simp
  next
    case (Inr u)
    have "ops_ok J (base_of root_of content) (?run @ dropWhile (same_run d) rest) b (f b2)"
      by (rule ops_ok_append [OF ok [unfolded Inr] IH [OF j2]]) (use dist in simp)
    then show ?thesis using o Inr by simp
  qed
qed

lemma erase_step_ok:
  assumes inj: "inj root_of" and j: "J b" "rooted root_of V d" and d: "do_entry d = DDelete sq"
    and dist: "distinct (map op_key (d # rest))"
    and IH: "\<And>b2. J b2 \<Longrightarrow> ops_ok J (base_of root_of content) rest b2 (f b2)"
  shows "ops_ok J (base_of root_of content) (d # rest) b
    (case en_erase E (do_root_guid d) (do_key d) sq b of
       (Inl e, b2) \<Rightarrow> (Inl e, b2)
     | (Inr (mutated, root_dirty), b2) \<Rightarrow> f (if mutated \<and> root_dirty then en_mark_dirty E (do_root_guid d) sq b2 else b2))"
proof -
  let ?g = "do_root_guid d" and ?base = "base_of root_of content"
  obtain r b2 where o: "en_erase E ?g (do_key d) sq b = (r, b2)" by fastforce
  have g: "?g = root_of (do_tree_id d)" and v: "V (do_key d) None" using j(2) d by (simp_all add: rooted_def)
  note law = erase [OF j(1) v o]
  have j2: "J b2" using law by blast
  have out: "?base b2 tk = ?base b tk" if "tk \<noteq> op_key d" for tk
  proof -
    obtain t k where tk: "tk = (t, k)" by fastforce
    have "root_of t \<noteq> ?g \<or> k \<noteq> do_key d" using that tk g inj by (auto simp: op_key_def inj_eq)
    then show ?thesis using law tk by (simp add: base_of_def)
  qed
  show ?thesis
  proof (cases r)
    case (Inl e)
    then show ?thesis using ops_ok_error [of J ?base "[d]" b e b2 rest] out o j2 by (simp add: ops_ok_def del: split_paired_All)
  next
    case (Inr p)
    let ?b = "if fst p \<and> snd p then en_mark_dirty E ?g sq b2 else b2"
    have c: "?base ?b = ?base b2" "J ?b" using mark_dirty [OF j2] j2 by (simp_all add: base_of_def)
    have "?base ?b (op_key d) = None" unfolding c(1) using law Inr g by (simp add: base_of_def op_key_def)
    then have "ops_ok J ?base [d] b (Inr (), ?b)" using out d c(2) unfolding ops_ok_def prod.case c(1) by simp
    from ops_ok_append [OF this IH [OF c(2)]] dist show ?thesis using o Inr by (simp add: case_prod_beta)
  qed
qed

lemma apply_ops_from_ok:
  assumes "inj root_of"
  shows "J b \<Longrightarrow> list_all (rooted root_of V) ops \<Longrightarrow> distinct (map op_key ops) \<Longrightarrow>
    ops_ok J (base_of root_of content) ops b (apply_ops_from E root_pins ops b)"
proof (induction "length ops" arbitrary: ops root_pins b rule: less_induct)
  case less
  let ?base = "base_of root_of content"
  show ?case
  proof (cases ops)
    case Nil
    then show ?thesis using less.prems(1) by (simp add: ops_ok_def)
  next
    case ops: (Cons d rest)
    let ?g = "do_root_guid d" and ?pin = "if do_root_guid d \<in> set root_pins then (Inr (), b) else en_pin E (do_root_guid d) b"
    have all: "\<forall>x \<in> set (d # rest). rooted root_of V x" using less.prems(2) ops by (simp add: list_all_iff)
    obtain rp b1 where pin: "?pin = (rp, b1)" by fastforce
    have b1: "?base b1 = ?base b" "J b1"
      using pin delta_engine.pin [OF delta_engine_axioms less.prems(1), of ?g rp b1] less.prems(1) by (auto simp: base_of_def split: if_splits)
    show ?thesis
    proof (cases rp)
      case (Inl e)
      then show ?thesis using pin b1 ops by (simp add: ops_ok_def)
    next
      case (Inr u)
      show ?thesis
      proof (cases "do_entry d")
        case (DPut v sq c)
        have e: "apply_ops_from E root_pins ops b = (case apply_write_delta_put_run E ?g (d # takeWhile (same_run d) rest) b1 of
            (Inl e, b2) \<Rightarrow> (Inl e, b2) | (Inr _, b2) \<Rightarrow> apply_ops_from E (?g # root_pins) (dropWhile (same_run d) rest) b2)"
          using ops pin Inr DPut by simp
        have "ops_ok J ?base (d # rest) b1 (apply_ops_from E root_pins ops b)" unfolding e
        proof (rule put_step_ok [OF assms b1(2) all])
          show "ops_ok J ?base (dropWhile (same_run d) rest) b2 (apply_ops_from E (?g # root_pins) (dropWhile (same_run d) rest) b2)" if "J b2" for b2
            using that less.prems(2,3) ops length_dropWhile_le [of "same_run d" rest]
            by (intro less.hyps) (auto simp: list_all_iff distinct_map_dropWhile dest: set_dropWhileD)
        qed (use DPut less.prems(3) ops in simp_all)
        then show ?thesis using ops_ok_content [of ?base, OF b1(1)] ops by simp
      next
        case (DDelete sq)
        have e: "apply_ops_from E root_pins ops b = (case en_erase E ?g (do_key d) sq b1 of
            (Inl e, b2) \<Rightarrow> (Inl e, b2)
          | (Inr (mutated, root_dirty), b2) \<Rightarrow>
              apply_ops_from E (?g # root_pins) rest (if mutated \<and> root_dirty then en_mark_dirty E ?g sq b2 else b2))"
          using ops pin Inr DDelete by simp
        have "ops_ok J ?base (d # rest) b1 (apply_ops_from E root_pins ops b)" unfolding e
        proof (rule erase_step_ok [OF assms b1(2) _ DDelete])
          show "ops_ok J ?base rest b2 (apply_ops_from E (?g # root_pins) rest b2)" if "J b2" for b2
            using that less.prems(2,3) ops by (intro less.hyps) simp_all
        qed (use less.prems(3) ops all in simp_all)
        then show ?thesis using ops_ok_content [of ?base, OF b1(1)] ops by simp
      qed
    qed
  qed
qed

lemma inner_applies:
  assumes "inj root_of"
  shows "applier_ok J (rooted root_of V) (apply_write_delta_ops_inner E) (base_of root_of content)"
proof -
  have "J b' \<and> (\<forall>tk. tk \<notin> op_key ` set ops \<longrightarrow> base_of root_of content b' tk = base_of root_of content b tk)
     \<and> (\<forall>u. r = Inr u \<longrightarrow> (\<forall>d \<in> set ops. base_of root_of content b' (op_key d) = entry_value (do_entry d)))"
    if "J b \<and> distinct (map op_key ops) \<and> list_all (rooted root_of V) ops \<and> apply_write_delta_ops_inner E ops b = (r, b')" for ops b r b'
    using apply_ops_from_ok [OF assms, of b ops "[]"] that by (simp add: ops_ok_def apply_write_delta_ops_inner_def)
  then show ?thesis unfolding applier_ok_def by blast
qed

text \<open>All three flushes and the two states in their middle.\<close>

lemma flush_all_kinds:
  assumes "inj root_of" "wd_idle (rooted root_of V) w" "J b"
  shows "flush_ok J (rooted root_of V) (\<lambda>_. True) (base_of root_of content) w b (flush_write_deltas (apply_write_delta_ops_inner E) w b)"
    "flush_ok J (rooted root_of V) (\<lambda>t'. t' = t) (base_of root_of content) w b
      (flush_write_deltas_for_tree (apply_write_delta_ops_inner E) t w b)"
    "flush_ok J (rooted root_of V) (\<lambda>t'. t' \<in> set ts) (base_of root_of content) w b
      (flush_write_deltas_for_trees (apply_write_delta_ops_inner E) ts w b)"
    "mid_flush_ok (base_of root_of content b) w (begin_flush_all w)"
    "mid_flush_ok (base_of root_of content b) w (begin_flush_tree t w)"
proof -
  note ok = assms(2) inner_applies [OF assms(1)] assms(3)
  show "flush_ok J (rooted root_of V) (\<lambda>_. True) (base_of root_of content) w b (flush_write_deltas (apply_write_delta_ops_inner E) w b)"
    by (rule flush_all_ok [OF ok])
  show "flush_ok J (rooted root_of V) (\<lambda>t'. t' = t) (base_of root_of content) w b
      (flush_write_deltas_for_tree (apply_write_delta_ops_inner E) t w b)" by (rule flush_tree_ok [OF ok])
  show "flush_ok J (rooted root_of V) (\<lambda>t'. t' \<in> set ts) (base_of root_of content) w b
      (flush_write_deltas_for_trees (apply_write_delta_ops_inner E) ts w b)" by (rule flush_trees_ok [OF ok])
  show "mid_flush_ok (base_of root_of content b) w (begin_flush_all w)"
    using mid_flush [OF begin_all_moves [OF assms(2)] assms(2)] by (cases "begin_flush_all w") simp
  show "mid_flush_ok (base_of root_of content b) w (begin_flush_tree t w)"
    using mid_flush [OF begin_tree_moves [OF assms(2)] assms(2)] by (cases "begin_flush_tree t w") simp
qed

end

end
