(* ===== verification/Delta_Blob.thy ===== *)
theory Delta_Blob
  imports Write_Delta Blob_Tree
begin

text \<open>The engine under the overlay, for trees that fit one blob: the calls of the flush are answered by the single-blob put and
  erase of \<^verbatim>\<open>src/src/engine/walker\<close>, on a root frame per tree.  Splitting a full frame into further blobs is the part
  of the engine this instance leaves out; there a batch stops with the allocation error.\<close>

fun put_batch :: "batch_item list \<Rightarrow> frame \<Rightarrow> (nat \<times> bool) result \<times> frame" where
  "put_batch [] f = (Inr (0, False), f)"
| "put_batch ((k, v, sq) # items) f =
    (case insert_single (length k + 1) (root_slot (header_of f)) k v sq f of
       Some (Inr out, f1) \<Rightarrow>
         (case put_batch items f1 of
            (Inr (n, dirty), f2) \<Rightarrow> (Inr (n + 1, root_dirty out \<or> dirty), f2)
          | (Inl e, f2) \<Rightarrow> (Inl e, f2))
     | Some (Inl e, f1) \<Rightarrow> (Inl e, f1)
     | None \<Rightarrow> (Inl (Panic ''fuel''), f))"

definition frame_engine :: "(bytes \<Rightarrow> frame) DeltaEngine" where
  "frame_engine =
    \<lparr> en_pin = (\<lambda>g b. (Inr (), b)),
      en_insert_batch = (\<lambda>g items b. case put_batch items (b g) of (r, f) \<Rightarrow> (r, b(g := f))),
      en_erase = (\<lambda>g k sq b.
        case erase_single (length k + 1) (root_slot (header_of (b g))) k (b g) of
          Some (Inr out, f) \<Rightarrow> (Inr (erase_mutated out, erase_root_dirty out), b(g := f))
        | Some (Inl e, f) \<Rightarrow> (Inl e, b(g := f))
        | None \<Rightarrow> (Inl (Panic ''fuel''), b)),
      en_mark_dirty = (\<lambda>g sq b. b) \<rparr>"

definition frame_contents :: "(bytes \<Rightarrow> frame) \<Rightarrow> contents" where
  "frame_contents b g = frame_get (b g)"

definition single_blobs :: "(bytes \<Rightarrow> frame) \<Rightarrow> bool" where
  "single_blobs b = (\<forall>g. one_blob (b g))"

definition blob_entry :: "bytes \<Rightarrow> bytes option \<Rightarrow> bool" where
  "blob_entry k v = (valid_key k \<and> length k < 2 ^ 16 \<and> (case v of None \<Rightarrow> True | Some x \<Rightarrow> length x < 2 ^ 16))"

lemma put_batch_laws:
  assumes "one_blob f" "items_ok blob_entry items" "put_batch items f = (r, f')"
  shows "one_blob f' \<and> (\<forall>k. k \<notin> fst ` set items \<longrightarrow> frame_get f' k = frame_get f k)
    \<and> (\<forall>n dirty. r = Inr (n, dirty) \<longrightarrow> n = length items \<and> frame_get f' = put_items items (frame_get f))"
  using assms
proof (induction items arbitrary: f r f')
  case Nil
  then show ?case by (auto simp: put_items_def)
next
  case (Cons x items)
  obtain k v sq where x: "x = (k, v, sq)" by (cases x)
  obtain b f1 where p: "frame_put k v sq f = (b, f1)" by fastforce
  have "op_ok (PutOp k v sq)" "items_ok blob_entry items" using Cons.prems(2) x by (simp_all add: items_ok_def blob_entry_def)
  note law = blob_kv.put_law [OF Cons.prems(1) this(1) p] and IH = Cons.IH [OF _ this(2)]
  show ?case
  proof (cases b)
    case True
    then obtain out where i: "insert_single (length k + 1) (root_slot (header_of f)) k v sq f = Some (Inr out, f1)"
      using p by (auto simp: frame_put_def split: option.splits prod.splits sum.splits)
    obtain r2 f2 where b: "put_batch items f1 = (r2, f2)" by fastforce
    have "one_blob f1" using law by blast
    note tail = IH [OF this b]
    have f': "f' = f2" using Cons.prems(3) x i b by (auto split: sum.splits prod.splits)
    have "frame_get f' k' = frame_get f k'" if "k' \<notin> fst ` set (x # items)" for k'
    proof -
      have "frame_get f' k' = frame_get f1 k'" using tail f' that by simp
      then show ?thesis using law True that x by simp
    qed
    moreover have "n = length (x # items) \<and> frame_get f' = put_items (x # items) (frame_get f)" if ok: "r = Inr (n, dirty)" for n dirty
    proof -
      obtain m d where "r2 = Inr (m, d)" "n = m + 1"
        using ok Cons.prems(3) x i b by (auto split: sum.splits prod.splits)
      then have "n = length (x # items)" "frame_get f' = put_items items (frame_get f1)" using tail f' by simp_all
      then show ?thesis using law True by (simp add: put_items_def x)
    qed
    ultimately show ?thesis using tail f' by blast
  next
    case False
    then have "r \<noteq> Inr q \<and> f' = f1" for q
      using p Cons.prems(3) x by (auto simp: frame_put_def split: option.splits prod.splits sum.splits)
    then show ?thesis using law False by simp
  qed
qed

interpretation blob_engine: delta_engine frame_engine frame_contents single_blobs blob_entry
proof
  fix b g r b' assume "single_blobs b" "en_pin frame_engine g b = (r, b')"
  then show "single_blobs b' \<and> frame_contents b' = frame_contents b" by (simp add: frame_engine_def)
next
  fix b g sq assume "single_blobs b"
  then show "single_blobs (en_mark_dirty frame_engine g sq b)
    \<and> frame_contents (en_mark_dirty frame_engine g sq b) = frame_contents b" by (simp add: frame_engine_def)
next
  fix b items g ri b'
  assume a: "single_blobs b" "items_ok blob_entry items" "en_insert_batch frame_engine g items b = (ri, b')"
  then obtain f where p: "put_batch items (b g) = (ri, f)" "b' = b(g := f)" by (auto simp: frame_engine_def split: prod.splits)
  from put_batch_laws [OF _ a(2) p(1)] a(1) p(2)
  show "single_blobs b' \<and> (\<forall>g' k. g' \<noteq> g \<or> k \<notin> fst ` set items \<longrightarrow> frame_contents b' g' k = frame_contents b g' k)
      \<and> (\<forall>n dirty. ri = Inr (n, dirty) \<longrightarrow> n \<le> length items \<and> frame_contents b' g = put_items (take n items) (frame_contents b g))"
    by (auto simp: single_blobs_def frame_contents_def)
next
  fix b k g sq re b' assume a: "single_blobs b" "blob_entry k None" "en_erase frame_engine g k sq b = (re, b')"
  have "op_ok (DelOp k)" "one_blob (b g)" using a(1,2) by (simp_all add: blob_entry_def single_blobs_def)
  note law = blob_kv.del_law [OF this(2,1)]
  have "b' = b(g := frame_del k (b g))"
    using a(3) by (auto simp: frame_engine_def frame_del_def split: option.splits prod.splits sum.splits)
  then show "single_blobs b' \<and> (\<forall>g' k'. g' \<noteq> g \<or> k' \<noteq> k \<longrightarrow> frame_contents b' g' k' = frame_contents b g' k')
      \<and> (\<forall>p. re = Inr p \<longrightarrow> frame_contents b' g k = None)"
    using law a(1) by (auto simp: single_blobs_def frame_contents_def)
qed

end
