(* ===== verification/Spec2Isabelle.thy ===== *)
theory Spec2Isabelle
  imports Blob_Tree Commit_Recovery Paged_Reads Gate Hybrid_Latch Endpoint_Locks Key_Path Delta_Blob
begin

text \<open>
  A verification development of holt, an embedded key-value store whose trees are adaptive radix trees
  laid out in fixed-size blob frames, with a write-ahead log in front of them.

  \<^bold>\<open>The program.\<close>  A blob is one page-sized buffer (\<^verbatim>\<open>src/src/store/blob_frame.rs\<close>, \<^verbatim>\<open>src/src/layout\<close>): a header, a slot
  table and a data area into which a bump allocator places node bodies.  The walker (\<^verbatim>\<open>src/src/engine/walker\<close>) looks
  keys up, inserts and erases inside a frame, and hands a key over when it meets a node that points to another
  blob.  Writers append records to a shared ring (\<^verbatim>\<open>journal/ring.rs\<close>), a flusher drains the ring into the log file
  (\<^verbatim>\<open>journal/writer.rs\<close>) under the watermarks of \<^verbatim>\<open>journal/group_commit.rs\<close>, and recovery replays the file
  (\<^verbatim>\<open>journal/reader.rs\<close>).  An attached stream of envelopes (\<^verbatim>\<open>api/journal.rs\<close>) is read back page by page.  Deferred
  writes wait in an overlay (\<^verbatim>\<open>store/buffer_manager/write_delta.rs\<close>).  Gates, latches and sharded locks
  (\<^verbatim>\<open>src/src/concurrency\<close>) keep threads apart.

  \<^bold>\<open>Frames.\<close>  \<open>Holt_Prelude\<close> has machine words, little-endian codecs and slices of a memory; \<open>Holt_Errors\<close> the error
  values and results, in which a Rust panic is a value.  \<open>Layout\<close> has the structs of \<^verbatim>\<open>src/src/layout\<close> with their byte
  images, \<open>Blob_Frame\<close> the allocator and slot table, \<open>Frame_Monad\<close> the threading of a frame through fallible
  operations (a failed operation keeps its partial writes, as in Rust).  \<open>Simd\<close> models \<^verbatim>\<open>engine/simd.rs\<close> lane by
  lane for every target, \<open>Search_Key\<close> the search key with its virtual terminator.  \<open>Node_Access\<close> and \<open>Node_Shape\<close> hold
  the readers and writers of nodes and the meaning of the four inner node sizes as maps from bytes to children.

  \<^bold>\<open>Trees.\<close>  \<open>Art\<close> defines the abstract radix tree and when a frame holds one.  \<open>Lookup\<close>, \<open>Insert\<close> and \<open>Erase\<close> are the
  in-frame parts of \<^verbatim>\<open>lookup.rs\<close>, \<^verbatim>\<open>insert.rs\<close> and \<^verbatim>\<open>erase.rs\<close>, one definition per arm; \<open>Writer_Specs\<close>, \<open>Insert_Correct\<close>
  and \<open>Erase_Correct\<close> prove what they do to the tree, and \<open>Blob_Tree\<close> that a blob refines a finite map.

  \<^bold>\<open>Log.\<close>  \<open>Journal_Stream\<close> is the attached stream kept in memory; \<open>Wal_Codec\<close> and \<open>Wal_Correct\<close> the record and header
  formats and their round trips; \<open>Wal_Reader\<close> and \<open>Attached_Scan\<close> replay, recovery and paging, which refines the
  in-memory stream; \<open>Wal_Writer\<close> the writer over a disk whose requests may fail after any number of bytes; \<open>Wal_Ring\<close>
  and \<open>Ring_Safety\<close> the ring under every interleaving; \<open>Group_Commit\<close>, \<open>Commit_Safety\<close> and \<open>Commit_Recovery\<close> the commit
  path end to end: what is on disk after a power loss, what an acknowledgement means, and a run in which
  it means less than promised (\<open>overtaking_ack_not_durable\<close>).  A truncation may fail at each of its requests.  If no sticky
  error comes of it the durability theorems hold up to the flusher's next pass over the file (the history flags
  \<open>gc_half\<close> and \<open>gc_late\<close>), and \<open>half_truncation\<close> is a run in which they fail after it.  \<open>Paged_Reads\<close> threads the saved
  resume positions through a session of page requests.

  \<^bold>\<open>Concurrency.\<close>  \<open>Exclusion\<close> is the contract of a shared/exclusive primitive as a locale; \<open>Gate\<close> and \<open>Hybrid_Latch\<close>
  interpret it on the step relations of \<^verbatim>\<open>gate.rs\<close> and \<^verbatim>\<open>hybrid_latch.rs\<close>, where each atomic operation is a step and a
  thread is a program counter.  \<open>Endpoint_Locks\<close> shows that the ordered sharded locks never deadlock.  \<open>Write_Delta\<close>
  shows that a flush of the overlay never changes what a reader sees, for every engine that keeps the laws of the locale
  \<open>delta_engine\<close>; \<open>Delta_Blob\<close> interprets it on the put and erase of single blobs.  \<open>Key_Path\<close> shows that a scan prefix
  built from segments selects exactly the keys below it.

  \<^bold>\<open>Conventions.\<close>  A frame is a function from addresses to bytes; results are \<open>fault + 'a\<close>.  The in-frame recursions take
  fuel, and \<open>None\<close> means it ran out; fuel above the length of the key is enough and the properties say so, as
  every call consumes a byte of the key.  The loops of the log reader and of the flush recurse on the bytes or
  operations left and are total.  Atomic operations are sequentially consistent.  Counters that the source keeps
  in 64 bits and never wraps are natural numbers in the ring and the commit path; where a wrap matters
  (the gate word, the latch counter and version, hashes, slot entries, child offsets) they are words.  The checksum
  of the log is the parameter \<open>crc\<close>, of which nothing is assumed but what a theorem states.  The disk keeps two images of
  the log file, the one the operating system shows and the one of the last successful sync; a power loss leaves the latter, and that
  unsynced bytes may reach the disk early is modelled for the anchor slots only.  The flusher copies the committed
  prefix of the ring in one step, as no other thread writes those bytes.  A well-formed frame has empty
  free lists, as only tests free a slot; the functions that do (\<open>free_node\<close>) and the test-only encoder of a single
  record (\<open>encode_record\<close>) are modelled all the same.

  \<^bold>\<open>Not modelled.\<close>  The cross-blob engine (drivers that pin several blobs, compaction, spillover and merge, range
  scans, the route cache) and the buffer manager around it, as their meaning is that of many shared frames
  under eviction; the flush of the overlay calls the engine through an interface with named laws instead, which the
  single-blob operations satisfy.  The
  checkpointer and the blob stores are threads and file I/O.  The public API orchestrates these parts; of it
  the recovery tail of an open and the key builder are modelled.  The read index is an accelerator beside the
  engine.  Weak-memory effects, debug assertions, metrics, formatting and thread start and stop are left out.
\<close>

section \<open>Example frames\<close>

text \<open>A freshly initialised frame and the frame after one insertion: the concrete inputs at which the
  properties below are instantiated.\<close>

definition demo_frame :: frame where
  "demo_frame = snd (frame_init (replicate 16 0))"

lemma demo_frame: "frame_init (replicate 16 0) = (Inr (Inr ()), demo_frame)" "stores demo_frame (AEmpty DATA_AREA_START)"
  "\<not> crowded demo_frame" "frame_ok demo_frame"
proof -
  have l: "length (replicate 16 (0 :: u8)) = 16" by simp
  obtain f where f: "frame_init (replicate 16 0) = (Inr (Inr ()), f)" "stores f (AEmpty DATA_AREA_START)" "\<not> crowded f"
    by (rule stores_init [OF l])
  then have "f = demo_frame" by (simp add: demo_frame_def)
  with f show "frame_init (replicate 16 0) = (Inr (Inr ()), demo_frame)" "stores demo_frame (AEmpty DATA_AREA_START)"
    "\<not> crowded demo_frame" "frame_ok demo_frame" by (auto simp: stores_def)
qed

lemma demo_holds: "holds demo_frame (AEmpty DATA_AREA_START)"
  using demo_frame(2) by (simp add: stores_def)

lemma demo_slots: "num_slots (header_of demo_frame) = 1" "cursor demo_frame = DATA_AREA_START + 8"
  using frame_init_spec [of "replicate 16 0"] demo_frame(1) by (metis Pair_inject length_replicate)+

lemma fresh_get: "stores f (AEmpty off) \<Longrightarrow> frame_get f = Map.empty"
  by (rule ext) (simp add: frame_get_stores)

section \<open>The blob as a key-value map\<close>

text \<open>C1. A blob is a finite map.  Run any sequence of puts and deletes of valid keys (terminated, no interior NUL,
  shorter than 64 KiB) through the single-blob entry points, starting from a freshly initialised frame.  Lookups
  then see exactly the map that the successful operations build, and the frame is still well formed: it stores a
  tree, its root pointer and its tombstone counter agree with that tree.\<close>

theorem blob_is_map:
  assumes "length guid = 16" "list_all op_ok ops" "run_ops frame_put frame_del ops (snd (frame_init guid)) = (bs, f)"
  shows "frame_get f = spec_ops ops bs Map.empty \<and> (\<exists>t. stores f t \<and> aguids t = {})"
proof -
  obtain f0 where f0: "frame_init guid = (Inr (Inr ()), f0)" "stores f0 (AEmpty DATA_AREA_START)"
    using stores_init [OF assms(1)] by metis
  then have "one_blob f0" by (auto simp: one_blob_def)
  then have "one_blob f \<and> frame_get f = spec_ops ops bs (frame_get f0)"
    using assms(2,3) f0(1) by (intro blob_kv.run_ops_refines) auto
  then show ?thesis using fresh_get [OF f0(2)] by (simp add: one_blob_def)
qed

theorem blob_is_map_witness:
  "\<exists>bs f. run_ops frame_put frame_del [PutOp [97, 0] [7] 5, DelOp [98, 0]] (snd (frame_init (replicate 16 0))) = (bs, f)
     \<and> frame_get f = spec_ops [PutOp [97, 0] [7] 5, DelOp [98, 0]] bs Map.empty"
proof -
  obtain bs f where r: "run_ops frame_put frame_del [PutOp [97, 0] [7] 5, DelOp [98, 0]] (snd (frame_init (replicate 16 0))) = (bs, f)"
    by (metis surj_pair)
  have "frame_get f = spec_ops [PutOp [97, 0] [7] 5, DelOp [98, 0]] bs Map.empty"
    using blob_is_map [OF _ _ r] by (simp add: valid_key_def)
  with r show ?thesis by blast
qed

text \<open>The first put leaves one leaf; a key that extends the leaf's key is refused there.\<close>

lemma first_leaf:
  assumes "stores f (AEmpty off)" "\<not> crowded f" "length k < 2 ^ 16" "length val < 2 ^ 16"
  shows "\<exists>f' l. insert_single (Suc n) (root_slot (header_of f)) k val sq f =
      Some (Inr \<lparr> root_dirty = True, outcome_mutated = True \<rparr>, f')
    \<and> frame_ok f' \<and> holds f' (ALeaf (cursor f) l k val) \<and> root_slot (header_of f') = encode_child_off (cursor f)"
proof -
  have st: "holds f (AEmpty off)" "frame_ok f" using assms(1) by (auto simp: stores_def)
  have kf: "length (full (sk_exact k)) < 2 ^ 16" using assms(3) by simp
  obtain f1 where w: "write_leaf (sk_exact k) val sq f = (Inr (cursor f), f1)" "quiet_step f f1"
      "grown no_patch f f1 {} (fresh_leaf f (sk_exact k) val sq)"
    using st(2) kf assms(4) by (cases rule: write_leaf_cases [where sq = sq]) (use assms(2) in auto)
  let ?f2 = "note_abandoned off f1"
  let ?f3 = "header_mut (\<lambda>h. h\<lparr> root_slot := encode_child_off (cursor f) \<rparr>) ?f2"
  have q: "quiet_step f1 ?f2" using w(2) by (intro quiet_note_abandoned) (rule quiet_step_ok)
  have "holds f1 (fresh_leaf f (sk_exact k) val sq)" using w(3) by (simp add: grown_def)
  then have h: "holds ?f2 (fresh_leaf f (sk_exact k) val sq)" by (rule holds_quiet [OF q])
  have "insert_single (Suc n) (root_slot (header_of f)) k val sq f =
      Some (Inr \<lparr> root_dirty = True, outcome_mutated = True \<rparr>, ?f3)"
    using insert_dispatch [OF st(2,1)] stores_root [OF assms(1)] w assms(3,4)
    by (simp add: insert_single_def insert_at_def insert_into_empty_root_def obind_def sbind_def ret_def modify_def is_if_version_def)
  moreover have "frame_ok ?f3" using root_mut(2) quiet_step_ok [OF q] by simp
  moreover have "\<exists>l. holds ?f3 (ALeaf (cursor f) l k val)" using root_mut(1) h by (auto simp: fresh_leaf_def)
  ultimately show ?thesis using root_mut(5) by blast
qed

lemma extended_key_refused:
  assumes "frame_ok f" "holds f (ALeaf off l lk lv)" "root_slot (header_of f) = encode_child_off off"
    and "rest \<noteq> []" "length (lk @ rest) < 2 ^ 16" "length val < 2 ^ 16"
  shows "insert_single (Suc n) (root_slot (header_of f)) (lk @ rest) val sq f =
    Some (Inl (Fail (NotYetImplemented ''walker::insert_into_leaf: one key is a strict prefix of the other'')), f)"
proof -
  let ?key = "sk_exact (lk @ rest)"
  have o: "decode_child_off (root_slot (header_of f)) = aoff (ALeaf off l lk lv)"
    using holds_node_off [OF assms(2,1)] assms(3) by simp
  have "Sublist.longest_common_prefix (lk @ rest) lk = lk" by (induction lk) simp_all
  then have c: "common_prefix_with_slice ?key 0 lk = length lk" by (simp add: common_prefix_full)
  have "insert_into_leaf off ?key val 0 sq Always f =
      (Inl (Fail (NotYetImplemented ''walker::insert_into_leaf: one key is a strict prefix of the other'')), f)"
    using leaf_key_ref [OF assms(1,2)] assms(4) c by (simp add: insert_into_leaf_def sbind_def reads_def eq_slice_full throw_def Let_def)
  then show ?thesis
    using insert_dispatch [OF assms(1,2), of n ?key val 0 sq Always False] o assms(5,6)
    by (simp add: insert_single_def insert_at_def obind_def)
qed

text \<open>C2. A put into a blob that has no child blobs, of a key that ends in its terminator and has no other zero byte, with a key
  and a value below 65536 bytes, returns, and does one of two things.  Either it reports success and exactly the
  key's entry changes, to the value and sequence number given; or it fails with an allocation error, lookups see
  nothing of the attempt, and the frame it leaves has no slot left or less than the largest node body
  (131096 bytes plus the spillover reservation) of free space.  For such keys no other error and no panic is possible.\<close>

theorem put_outcome:
  assumes "stores f t" "aguids t = {}" "valid_key k" "length k < 2 ^ 16" "length val < 2 ^ 16" "length k < n"
  shows "(\<exists>f' t'. insert_single n (root_slot (header_of f)) k val sq f =
              Some (Inr \<lparr> root_dirty = True, outcome_mutated = True \<rparr>, f')
            \<and> stores f' t' \<and> aguids t' = {} \<and> frame_get f' = (frame_get f)(k \<mapsto> (val, sq)))
    \<or> (\<exists>a f'. insert_single n (root_slot (header_of f)) k val sq f = Some (Inl (Fail (Alloc a)), f')
            \<and> stores f' t \<and> frame_get f' = frame_get f \<and> crowded f')"
proof -
  have get: "frame_get f' = (frame_get f)(k \<mapsto> (val, sq))"
    if "stores f' t'" "\<forall>k'. alookup t' k' 0 = (if k' = k then Found val sq else alookup t k' 0)" for f' t'
    using frame_get_changes(1) [OF assms(1) that] .
  have same: "frame_get f' = frame_get f" if "stores f' t" for f'
    using frame_get_changes(3) [OF assms(1) that refl] .
  from insert_single_stores [OF assms, of sq] show ?thesis
    by (elim disjE exE conjE) (use same in blast, use get in blast)
qed

theorem put_outcome_witness:
  "(\<exists>f'. insert_single 3 (root_slot (header_of demo_frame)) [97, 0] [7] 5 demo_frame =
        Some (Inr \<lparr> root_dirty = True, outcome_mutated = True \<rparr>, f')
      \<and> frame_get f' = (frame_get demo_frame)([97, 0] \<mapsto> ([7], 5)))
   \<or> (\<exists>a f'. insert_single 3 (root_slot (header_of demo_frame)) [97, 0] [7] 5 demo_frame = Some (Inl (Fail (Alloc a)), f')
      \<and> crowded f')"
  using put_outcome [OF demo_frame(2), of "[97, 0]" "[7]" 3 5] by (simp add: valid_key_def) blast

text \<open>C9. Progress: the first put into a fresh blob always succeeds, whatever the key and value (below 64 KiB),
  and the pair is found afterwards.\<close>

theorem first_put_found:
  assumes "length guid = 16" "valid_key k" "length k < 2 ^ 16" "length val < 2 ^ 16"
  shows "\<exists>f'. frame_put k val sq (snd (frame_init guid)) = (True, f') \<and> frame_get f' k = Some (val, sq)"
proof -
  obtain f0 where f0: "frame_init guid = (Inr (Inr ()), f0)" "stores f0 (AEmpty DATA_AREA_START)" "\<not> crowded f0"
    by (rule stores_init [OF assms(1)])
  obtain f' where f': "frame_put k val sq f0 = (True, f')"
    using insert_single_first [OF f0(2,3) assms(3,4), of "length k" sq] by (auto simp: frame_put_def)
  have "one_blob f0" using f0(2) by (auto simp: one_blob_def)
  then have "frame_get f' = (frame_get f0)(k \<mapsto> (val, sq))"
    using blob_kv.put_law [OF _ _ f'] assms by simp
  then show ?thesis using f0(1) f' by simp
qed

theorem first_put_found_witness:
  "\<exists>f'. frame_put [97, 0] [7] 5 (snd (frame_init (replicate 16 0))) = (True, f') \<and> frame_get f' [97, 0] = Some ([7], 5)"
  by (rule first_put_found) (simp_all add: valid_key_def)

text \<open>C7. An erase in a blob always returns without error.  It reports a mutation exactly when the key was
  present, removes exactly that key, and an immediate second erase of the key reports no mutation.\<close>

theorem erase_outcome:
  assumes "stores f t" "aguids t = {}" "length k < n"
  shows "\<exists>f' t' b f''. erase_single n (root_slot (header_of f)) k f =
           Some (Inr \<lparr> erase_root_dirty = b, erase_mutated = b \<rparr>, f')
         \<and> (b \<longleftrightarrow> frame_get f k \<noteq> None) \<and> stores f' t' \<and> aguids t' = {} \<and> frame_get f' = (frame_get f)(k := None)
         \<and> erase_single n (root_slot (header_of f')) k f' =
             Some (Inr \<lparr> erase_root_dirty = False, erase_mutated = False \<rparr>, f'')"
proof -
  obtain f' t' b where e: "erase_single n (root_slot (header_of f)) k f =
        Some (Inr \<lparr> erase_root_dirty = b, erase_mutated = b \<rparr>, f')" "b = (\<exists>v sq. alookup t k 0 = Found v sq)"
      "stores f' t'" "aguids t' = {}" "\<And>k'. alookup t' k' 0 = (if k' = k then LookupNotFound else alookup t k' 0)"
    using erase_single_stores [OF assms] by blast
  have "\<exists>f''. erase_single n (root_slot (header_of f')) k f' =
      Some (Inr \<lparr> erase_root_dirty = False, erase_mutated = False \<rparr>, f'')"
  proof -
    obtain f'' b' where "erase_single n (root_slot (header_of f')) k f' =
        Some (Inr \<lparr> erase_root_dirty = b', erase_mutated = b' \<rparr>, f'')" "b' = (\<exists>v sq. alookup t' k 0 = Found v sq)"
      using erase_single_stores [OF e(3,4) assms(3)] by blast
    then show ?thesis using e(5) [of k] by simp
  qed
  moreover have "b \<longleftrightarrow> frame_get f k \<noteq> None"
    using assms(1) e(2) by (auto simp: frame_get_stores split: LookupResult.splits)
  moreover have "frame_get f' = (frame_get f)(k := None)"
    using frame_get_changes(2) [OF assms(1) e(3)] e(5) by blast
  ultimately show ?thesis using e by blast
qed

theorem erase_outcome_witness:
  "\<exists>f'. erase_single 3 (root_slot (header_of demo_frame)) [97, 0] demo_frame =
     Some (Inr \<lparr> erase_root_dirty = False, erase_mutated = False \<rparr>, f')"
  using erase_outcome [OF demo_frame(2), of "[97, 0]" 3] by (auto simp: fresh_get [OF demo_frame(2)])

section \<open>The walkers on a tree in a frame\<close>

text \<open>C8. Node lookup: on a frame that holds the tree, the descent from the tree's root returns what the
  abstract tree maps the key to, for every key and every depth, once the fuel exceeds the remaining key length.\<close>

theorem descend_correct:
  assumes "holds f t" "frame_ok f" "length (full key) < n + d" "0 < n"
  shows "descend n f (aoff t) key d = Some (Inr (alookup t (full key) d))"
  using assms by (rule descend_refines)

theorem descend_correct_witness: "descend 9 demo_frame DATA_AREA_START (sk_user [1, 2, 3]) 0 = Some (Inr LookupNotFound)"
  using descend_correct [OF demo_holds demo_frame(4), of "sk_user [1, 2, 3]" 9 0] by simp

text \<open>C5. One insertion step in one frame, for every condition (unconditional, if-absent, if-version) and with
  or without permission to cross into a child blob.  A descent that ends at a blob node reports the crossing and
  changes nothing.  A condition that does not hold reports no mutation and changes nothing.  Otherwise the step
  succeeds, the new tree maps the key to the value and every other key as before, it keeps the child blobs and
  the tombstone count, and only bytes of the old tree and newly allocated bytes change; or it fails with an
  allocation error in a nearly full frame, and the old tree is intact.\<close>

theorem insert_step_outcome:
  assumes "holds f t" "frame_ok f" "apath t pre" "prefix pre (full key)" "valid_key (full key)"
    "length (full key) < 2 ^ 16" "length val < 2 ^ 16" "atombs t \<le> tombs f" "length (full key) < n + length pre" "0 < n"
  shows "case alookup t (full key) (length pre) of
      Crossing g d \<Rightarrow>
        (if allow then \<exists>p. across t (full key) (length pre) = Some p \<and>
            insert_at_step n (aoff t) key val (length pre) sq cond allow f = Some (Inr (InsertCrossing g d p), f)
         else \<exists>msg. insert_at_step n (aoff t) key val (length pre) sq cond allow f = Some (Inl (Fail (NotYetImplemented msg)), f))
    | r \<Rightarrow>
        (if guard_passes cond r then
           (\<exists>a f'. insert_at_step n (aoff t) key val (length pre) sq cond allow f = Some (Inl (Fail (Alloc a)), f')
               \<and> quiet_step f f' \<and> crowded f')
           \<or> (\<exists>f' t'. insert_at_step n (aoff t) key val (length pre) sq cond allow f = Some (Inr (InsertDone (aoff t') True), f')
               \<and> ins_post f t f' t' pre (full key) val sq)
         else insert_at_step n (aoff t) key val (length pre) sq cond allow f = Some (Inr (InsertDone (aoff t) False), f))"
  using insert_at_step_outcome [OF assms] unfolding ins_outcome_def ins_writes_def .

theorem insert_step_outcome_witness:
  "insert_at_step 3 DATA_AREA_START (sk_user [97]) [7] 0 5 (IfVersion 4) True demo_frame =
     Some (Inr (InsertDone DATA_AREA_START False), demo_frame)"
  using insert_step_outcome [OF demo_holds demo_frame(4), where pre = "[]" and key = "sk_user [97]" and val = "[7]"
      and n = 3 and allow = True and sq = 5 and cond = "IfVersion 4"]
  by (simp add: valid_key_def guard_passes_def)

text \<open>C6. One erase step in one frame, unconditional or conditional on the version.  It never fails.  A crossing is
  reported with its blob node; a miss or a version mismatch changes nothing; a hit tombstones exactly one leaf
  in place: no node moves, every other key keeps its answer, and the frame's tombstone counter grows by one.\<close>

theorem erase_step_outcome:
  assumes "holds f t" "frame_ok f" "apath t pre" "prefix pre (full key)" "tombs f < 2 ^ 32 - 1"
    "allow \<or> aguids t = {}" "length (full key) < n + length pre" "0 < n"
  shows "case alookup t (full key) (length pre) of
      Crossing g d \<Rightarrow> \<exists>p. across t (full key) (length pre) = Some p \<and>
        erase_at_step n (aoff t) key (length pre) cond allow f = Some (Inr (EraseCrossing g d p), f)
    | r \<Rightarrow>
        (if erase_hits cond r
         then \<exists>f' t'. erase_at_step n (aoff t) key (length pre) cond allow f = Some (Inr (EraseDone Unchanged True), f')
                 \<and> er_post f t f' t' pre (full key)
         else erase_at_step n (aoff t) key (length pre) cond allow f = Some (Inr (EraseDone Unchanged False), f))"
  using erase_at_step_outcome [OF assms] unfolding er_outcome_def .

theorem erase_step_outcome_witness:
  "erase_at_step 3 DATA_AREA_START (sk_user [97]) 0 EraseAlways True demo_frame =
     Some (Inr (EraseDone Unchanged False), demo_frame)"
proof -
  have "tombs demo_frame < 2 ^ 32 - 1" by (rule stores_room [OF demo_frame(2)])
  then show ?thesis
    using erase_step_outcome [OF demo_holds demo_frame(4), where pre = "[]" and key = "sk_user [97]"
        and allow = True and n = 3 and cond = EraseAlways]
    by (simp add: erase_hits_def)
qed


section \<open>The allocator\<close>

text \<open>C25. Allocation in a frame is disjoint and bounded.  On success the new body lies exactly in the bytes above the
  old high-water mark and inside the page, below the reservation the node type must leave; no byte of the data
  area changes, the slot resolves to the new body, and the frame stays well formed.  On failure the frame is
  unchanged, and either the slot table is full or the body does not fit.\<close>

theorem alloc_node_safe:
  assumes "frame_ok f" "t \<noteq> Invalid"
  shows "(\<exists>slot f'. alloc_node t f = (Inr slot, f') \<and> frame_ok f' \<and> offset_of_slot f' slot = Some (cursor f)
            \<and> cursor f' = cursor f + size_of_node t \<and> cursor f + size_of_node t + reserve t \<le> PAGE_SIZE
            \<and> (\<forall>i \<ge> DATA_AREA_START. f' i = f i))
    \<or> (\<exists>e. alloc_node t f = (Inl e, f)
          \<and> (unat (num_slots (header_of f)) = MAX_SLOTS \<or> PAGE_SIZE < cursor f + size_of_node t + reserve t))"
  using assms
proof (cases rule: alloc_node_cases)
  case (fail e)
  then show ?thesis by blast
next
  case (bump slot f')
  then show ?thesis by (auto simp: bumped_def)
qed

theorem alloc_node_safe_witness:
  "(\<exists>slot f'. alloc_node Node4 demo_frame = (Inr slot, f') \<and> offset_of_slot f' slot = Some (cursor demo_frame))
   \<or> (\<exists>e. alloc_node Node4 demo_frame = (Inl e, demo_frame))"
  using alloc_node_safe [OF demo_frame(4), of Node4] by auto

text \<open>C26. The spillover reservation works: after any successful allocation of a node that is not a blob node, be it a node of fixed
  size or a leaf of any size, the bytes of a blob node are still free.  Allocating one then succeeds, or fails
  because the slot table is full, with nothing changed; it never runs out of space.\<close>

theorem blob_node_always_fits:
  assumes "frame_ok f"
    and "t \<noteq> Invalid \<and> t \<noteq> Blob \<and> alloc_node t f = (Inr slot, f') \<or> 0 < n \<and> 8 dvd n \<and> alloc_leaf n f = (Inr slot, f')"
  shows "if unat (num_slots (header_of f')) < MAX_SLOTS then \<exists>slot' f''. alloc_node Blob f' = (Inr slot', f'')
    else alloc_node Blob f' = (Inl OutOfSlots, f')"
proof -
  have "frame_ok f' \<and> cursor f' + SPILLOVER_RESERVATION \<le> PAGE_SIZE"
    using assms(2)
  proof (elim disjE conjE)
    assume a: "t \<noteq> Invalid" "t \<noteq> Blob" "alloc_node t f = (Inr slot, f')"
    from assms(1) a(1) show ?thesis by (cases rule: alloc_node_cases) (use a in \<open>auto simp: bumped_def reserve_def\<close>)
  next
    assume a: "0 < n" "8 dvd n" "alloc_leaf n f = (Inr slot, f')"
    from assms(1) a(1,2) show ?thesis by (cases rule: alloc_leaf_cases) (use a in \<open>auto simp: bumped_def\<close>)
  qed
  then have ok: "frame_ok f'" "Blob \<noteq> Invalid" and room: "cursor f' + SPILLOVER_RESERVATION \<le> PAGE_SIZE" by simp_all
  show ?thesis
  proof (cases "unat (num_slots (header_of f')) < MAX_SLOTS")
    case True
    from ok show ?thesis
      by (cases rule: alloc_node_cases) (use room True in \<open>auto simp: reserve_def SPILLOVER_RESERVATION_def\<close>)
  next
    case False
    then have "word_of_nat MAX_SLOTS \<le> num_slots (header_of f')" by (simp add: geometry word_le_nat_alt)
    then have "alloc_node Blob f' = (Inl OutOfSlots, f')"
      by (simp add: alloc_node_def free_lists_empty [OF ok] bump_alloc_node_def Let_def)
    then show ?thesis using False by simp
  qed
qed

theorem blob_node_always_fits_witness:
  "\<exists>slot f' slot' f''. alloc_leaf 48 demo_frame = (Inr slot, f') \<and> alloc_node Blob f' = (Inr slot', f'')"
proof -
  have n: "0 < (48 :: nat)" "8 dvd (48 :: nat)" by simp_all
  obtain slot f' where a: "alloc_leaf 48 demo_frame = (Inr slot, f')" "bumped 48 demo_frame f'"
    using demo_frame(4) n by (cases rule: alloc_leaf_cases)
      (use demo_frame(3) in \<open>auto simp: crowded_def geometry SPILLOVER_RESERVATION_def\<close>)
  have "unat (num_slots (header_of f')) < MAX_SLOTS"
    using a(2) demo_slots by (simp add: bumped_def geometry unat_word_ariths)
  then have "\<exists>slot' f''. alloc_node Blob f' = (Inr slot', f'')"
    using blob_node_always_fits [OF demo_frame(4), of Invalid slot f' 48] a(1) by simp
  with a(1) show ?thesis by blast
qed

section \<open>Layout codecs\<close>

text \<open>C30. Child pointers: a node's byte offset survives packing into sixteen bits and unpacking, never encodes as the
  null pointer, and every non-null pointer is the encoding of the offset it decodes to.\<close>

theorem child_off_round_trip:
  "(node_off off \<longrightarrow> decode_child_off (encode_child_off off) = off \<and> encode_child_off off \<noteq> 0
      \<and> unat (encode_child_off off) \<le> MAX_CHILD_BIAS)
   \<and> (e \<noteq> 0 \<longrightarrow> encode_child_off (decode_child_off e) = e)"
  using encode_child_off_bound [of off] encode_child_off_pos [of off] encode_decode_child_off [of e] by simp

theorem child_off_round_trip_witness:
  "decode_child_off (encode_child_off (DATA_AREA_START + 8)) = DATA_AREA_START + 8 \<and> encode_child_off (decode_child_off 9) = 9"
  using child_off_round_trip [of "DATA_AREA_START + 8" 9] by (simp add: node_off_def geometry)

text \<open>C31. The blob header: writing a header in place and reading it back gives the same header, and no byte of the
  slot table or the data area changes.  The epoch and identity setters each change exactly their field.\<close>

theorem header_round_trip:
  assumes "header_wf h" "HEADER_SIZE \<le> i" "length g = 16"
  shows "header_of (write_header h m) = h \<and> write_header h m i = m i
    \<and> header_of (set_frame_created_epoch e m) = (header_of m)\<lparr> created_epoch := e \<rparr>
    \<and> header_of (set_frame_epoch_high_water e m) = (header_of m)\<lparr> epoch_high_water := e \<rparr>
    \<and> header_of (set_frame_blob_guid g m) = (header_of m)\<lparr> blob_guid := g \<rparr>"
  using assms by (simp add: write_header_outside header_of_set_created_epoch header_of_set_epoch_high_water
      header_of_set_blob_guid)

theorem header_round_trip_witness:
  "header_of (write_header (header_of demo_frame) (\<lambda>_. 0)) = header_of demo_frame
   \<and> write_header (header_of demo_frame) (\<lambda>_. 0) DATA_AREA_START = 0"
  using header_round_trip [OF header_of_wf [of demo_frame], of DATA_AREA_START "replicate 16 0" "\<lambda>_. 0"]
  by (simp add: geometry)

text \<open>C32. A routing region that the header reports lies inside the data area: it starts at or above the first data
  byte, ends before the leaf area begins, and the leaf area ends inside the page.\<close>

theorem routing_region_in_page:
  assumes "routing_region h = Some r"
  shows "DATA_AREA_START \<le> unat (region_off r)
    \<and> unat (region_off r) + unat (routing_len h) \<le> unat (region_leaf_start r)
    \<and> unat (region_leaf_start r) \<le> PAGE_SIZE \<and> routing_len h \<noteq> 0"
  using routing_region_Some [OF assms] by blast

theorem routing_region_in_page_witness:
  "\<exists>h r. routing_region h = Some r \<and> unat (region_leaf_start r) \<le> PAGE_SIZE"
proof -
  let ?h = "(header_of demo_frame)\<lparr> routing_off := word_of_nat DATA_AREA_START, routing_len := 64,
    leaf_region_start := word_of_nat DATA_AREA_START + 4096 \<rparr>"
  obtain r where r: "routing_region ?h = Some r" by (simp add: routing_region_def geometry u32_checked_add_def)
  show ?thesis using routing_region_in_page [OF r] r by blast
qed

section \<open>Search keys\<close>

text \<open>C34. A search key behaves as the byte string it stands for: the user's bytes with the virtual terminator
  appended.  Length, byte access, equality, range comparison and common prefix agree with the list operations.\<close>

theorem search_key_is_terminated:
  "sk_len k = length (full k)
   \<and> byte_at k i = (if i < length (full k) then Some (full k ! i) else None)
   \<and> (eq_slice k other \<longleftrightarrow> other = full k)
   \<and> (range_eq k depth other \<longleftrightarrow> depth \<le> length (full k) \<and> prefix other (drop depth (full k)))
   \<and> common_prefix_with_slice k depth other = length (Sublist.longest_common_prefix (drop depth (full k)) other)"
  by (simp add: sk_len_full byte_at_full eq_slice_full range_eq_full common_prefix_full)

section \<open>Vector kernels\<close>

text \<open>C35. The vectorised longest common prefix equals the mathematical one on every target.\<close>

theorem lcp_correct: "longest_common_prefix t a b = length (Sublist.longest_common_prefix a b)"
  by (rule longest_common_prefix_eq)

text \<open>C36. The three vector searches return the first matching index at or after the start, on every target: a byte
  search, the next non-zero byte, the next non-zero 16-bit word.\<close>

theorem vector_searches_first:
  "find_byte t bs x start = find (\<lambda>i. bs ! i = x) [start ..< length bs]
   \<and> find_next_nonzero_byte t bs start = find (\<lambda>i. bs ! i \<noteq> 0) [start ..< length bs]
   \<and> find_next_nonzero_u16 t ws start = find (\<lambda>i. ws ! i \<noteq> 0) [start ..< length ws]"
  by (simp add: find_byte_scan find_next_nonzero_byte_scan find_next_nonzero_u16_scan scan_loop_find)

section \<open>Inner nodes\<close>

text \<open>An example node with one child.\<close>

definition demo_node :: inner where
  "demo_node = I4 (node4_insert_sorted node4_empty 97 9)"

definition demo_node_frame :: frame where
  "demo_node_frame = poke demo_frame DATA_AREA_START (inner_enc demo_node)"

lemma demo_node: "inner_kids demo_node = [97 \<mapsto> 9]" "inner_wf demo_node" "inner_type demo_node = Node4"
  "at_inner demo_node_frame DATA_AREA_START demo_node" "frame_ok demo_node_frame"
proof -
  have "inner_ok (I4 node4_empty)" "inner_kids (I4 node4_empty) = Map.empty"
    by (simp_all add: node4_empty_def node4_wf_def assoc_def fun_eq_iff)
  then show k: "inner_kids demo_node = [97 \<mapsto> 9]" and w: "inner_wf demo_node"
    using node4_insert_spec [of node4_empty 97 9]
    by (simp_all add: demo_node_def inner_wf_def node4_empty_def del: inner_ok.simps inner_kids.simps) auto
  show t: "inner_type demo_node = Node4" by (simp add: demo_node_def)
  show "at_inner demo_node_frame DATA_AREA_START demo_node"
    unfolding demo_node_frame_def by (rule at_inner_write [OF w]) (simp add: t geometry)
  show "frame_ok demo_node_frame"
    using demo_frame(4) by (simp add: demo_node_frame_def)
qed

text \<open>C28. Child lookup in an inner node of any of the four sizes returns the child its map has for the byte.\<close>

theorem inner_find_correct:
  assumes "at_inner f off x"
  shows "inner_find_child f off (inner_type x) b = Inr (map_option child_offset (inner_kids x b))"
  using assms by (rule inner_find_child_spec)

theorem inner_find_correct_witness: "inner_find_child demo_node_frame DATA_AREA_START Node4 97 = Inr (Some (child_offset 9))"
  using inner_find_correct [OF demo_node(4), of 97] demo_node by simp

text \<open>C27. Adding a child for a new byte to an inner node of any size: the node is rewritten in place, or, when it
  is full, the next larger node is allocated above the high-water mark with the old children and the new one, and
  no byte of the old node changes; or the frame has no room and is unchanged.\<close>

theorem inner_add_correct:
  assumes "frame_ok f" "at_inner f off x" "node_off c" "inner_kids x b = None"
  shows "(\<exists>x'. inner_add_child off (inner_type x) b c f = (Inr off, poke f off (inner_enc x')) \<and> inner_wf x'
            \<and> inner_type x' = inner_type x \<and> inner_kids x' = (inner_kids x)(b \<mapsto> encode_child_off c))
    \<or> (\<exists>x' f'. inner_add_child off (inner_type x) b c f = (Inr (cursor f), f') \<and> at_inner f' (cursor f) x'
            \<and> inner_kids x' = (inner_kids x)(b \<mapsto> encode_child_off c) \<and> frame_step {} f f'
            \<and> cursor f' = cursor f + size_of_node (inner_type x'))
    \<or> (\<exists>e. inner_add_child off (inner_type x) b c f = (Inl (Fail (Alloc e)), f) \<and> crowded f)"
  using assms
proof (cases rule: inner_add_child_spec)
  case in_place
  then show ?thesis unfolding adds_in_place_def by blast
next
  case grown
  then show ?thesis unfolding adds_grown_def by blast
next
  case (fail e)
  then show ?thesis by blast
qed

theorem inner_add_correct_witness:
  "\<exists>r f'. inner_add_child DATA_AREA_START Node4 98 DATA_AREA_START demo_node_frame = (r, f')
     \<and> (r = Inr DATA_AREA_START \<or> r = Inr (cursor demo_node_frame) \<or> (\<exists>e. r = Inl (Fail (Alloc e))))"
proof -
  have "node_off DATA_AREA_START" "inner_kids demo_node 98 = None" by (simp_all add: node_off_def geometry demo_node)
  then show ?thesis using inner_add_correct [OF demo_node(5,4), of DATA_AREA_START 98] by (auto simp: demo_node(3))
qed

text \<open>C29. Growing and shrinking keep the children.  Each conversion between node sizes, 4 to 16, 16 to 48 and 48 to 256
  and back, gives a well-formed node with the same map from bytes to children.  Shrinking a 256-way node needs its
  count byte to be the number of its children; the count saturates at 255, so the hypothesis is not automatic.\<close>

theorem resize_keeps_children:
  "(inner_ok (I4 n4) \<longrightarrow> inner_ok (I16 (node16_from_node4 n4)) \<and> inner_kids (I16 (node16_from_node4 n4)) = inner_kids (I4 n4))
   \<and> (inner_ok (I16 n16) \<longrightarrow> inner_ok (I48 (node48_from_node16 n16)) \<and> inner_kids (I48 (node48_from_node16 n16)) = inner_kids (I16 n16))
   \<and> (inner_wf (I48 n48) \<longrightarrow> inner_ok (I256 (node256_from_node48 n48)) \<and> inner_kids (I256 (node256_from_node48 n48)) = inner_kids (I48 n48))
   \<and> (inner_ok (I16 n16) \<and> unat (n16_count n16) \<le> 4 \<longrightarrow>
        inner_ok (I4 (node4_from_node16 n16)) \<and> inner_kids (I4 (node4_from_node16 n16)) = inner_kids (I16 n16))
   \<and> (inner_ok (I48 n48) \<and> unat (n48_count n48) \<le> 16 \<longrightarrow>
        inner_ok (I16 (node16_from_node48 n48)) \<and> inner_kids (I16 (node16_from_node48 n48)) = inner_kids (I48 n48))
   \<and> (inner_ok (I256 n256) \<and> unat (n256_count n256) = card {b. b < 256 \<and> n256_children n256 ! b \<noteq> 0} \<and> unat (n256_count n256) \<le> 48 \<longrightarrow>
        inner_ok (I48 (node48_from_node256 n256)) \<and> inner_kids (I48 (node48_from_node256 n256)) = inner_kids (I256 n256))"
  using grow_4_16_spec [of n4] grow_16_48_spec [of n16] grow_48_256_spec [of n48] shrink_16_4_spec [of n16]
    shrink_48_16_spec [of n48] shrink_256_48_spec [of n256]
  by (simp del: inner_ok.simps inner_kids.simps)

theorem resize_keeps_children_witness:
  "inner_kids (I16 (node16_from_node4 (node4_insert_sorted node4_empty 97 9))) = [97 \<mapsto> 9]"
  using resize_keeps_children [of "node4_insert_sorted node4_empty 97 9"] demo_node(1,2)
  by (simp add: inner_wf_def demo_node_def del: inner_ok.simps inner_kids.simps)

section \<open>The journal\<close>

subsection \<open>Examples\<close>

definition demo_crc :: crc where "demo_crc bs = word_of_nat (sum_list (map unat bs))"

definition demo_op :: WalOp where "demo_op = WalInsert 7 [107, 101, 121] [118]"

definition demo_body :: bytes where "demo_body = u64_bytes 7 @ u32_bytes 3 @ [107, 101, 121] @ u32_bytes 1 @ [118]"

definition demo_entry :: log_entry where "demo_entry = (framed demo_crc 5 (variant_tag demo_op) demo_body, demo_op, 5)"

lemma demo_encoded: "encode_record demo_crc demo_op 5 out = Inr (out @ fst demo_entry)"
  by (simp add: encode_record_def write_record_def demo_op_def write_bytes_def demo_entry_def demo_body_def framed_def)

lemma demo_rec: "wal_rec demo_crc demo_entry"
proof -
  obtain bs where "[] @ fst demo_entry = [] @ bs" "wal_rec demo_crc (bs, demo_op, 5)"
    by (rule encode_record_wal_rec [OF _ demo_encoded [of "[]"]]) (simp_all add: demo_op_def)
  then show ?thesis by (simp add: demo_entry_def)
qed

lemma demo_len: "length (fst demo_entry) = 41"
  by (simp add: demo_entry_def demo_body_def)

definition demo_header :: FileHeader where "demo_header = file_header_now 1 7"

lemma demo_header: "header_ok demo_header" "fh_version demo_header = FORMAT_VERSION" "fh_checkpoint_anchor demo_header = None"
  by (simp_all add: demo_header_def file_header_now_def header_ok_def)

lemma demo_mode: "mode_ok demo_header [demo_entry]" "mode_ok demo_header [demo_entry, demo_entry]"
  using demo_header by (simp_all add: mode_ok_def demo_entry_def demo_op_def)

definition demo_disk :: wal_disk where "demo_disk = \<lparr> d_exists = False, d_os = [], d_synced = [], d_plan = [] \<rparr>"

definition demo_shared :: Shared where
  "demo_shared = (case journal_open_or_create demo_crc 1 7 demo_disk of (Inr s, _) \<Rightarrow> s)"

lemma demo_shared:
  "synced_start demo_crc demo_shared" "idle demo_shared" "100 \<le> r_capacity (sh_ring demo_shared)" "record_base demo_shared = 0"
  "w_header (sh_writer demo_shared) = demo_header" "gc_old (gc_start demo_shared) = []"
  "ts_tail (sh_tail demo_shared) = None"
proof -
  obtain s d where s: "journal_open_or_create demo_crc 1 7 demo_disk = (Inr s, d)" "d_plan (w_disk (sh_writer s)) = []"
    using journal_created [of demo_disk demo_crc 1 7] by (auto simp: demo_disk_def)
  then have e: "demo_shared = s" by (simp add: demo_shared_def)
  note c = created_journal [OF s(1)]
  show "synced_start demo_crc demo_shared" "idle demo_shared" "w_header (sh_writer demo_shared) = demo_header"
    "gc_old (gc_start demo_shared) = []" "record_base demo_shared = 0" "ts_tail (sh_tail demo_shared) = None"
    using c s(2) by (simp_all add: e demo_disk_def idle_def demo_header_def gc_start_def)
  show "100 \<le> r_capacity (sh_ring demo_shared)"
    using c new_ring_capacity [of RING_CAPACITY_BYTES] by (simp add: e demo_disk_def RING_CAPACITY_BYTES_def MAX_JOURNAL_RECORD_BYTES_def)
qed

text \<open>An append of the record above to the fresh journal, acknowledged.\<close>

lemma demo_append: "\<exists>g. (serial_step demo_crc)\<^sup>*\<^sup>* (gc_start demo_shared) g \<and> log_of demo_crc g [] [demo_entry] \<and> length (gc_apps g) = 1
  \<and> snd (gc_apps g ! 0) = Some 1 \<and> flush_to_poll 1 (gc_sh g) = Some (Inr ()) \<and> w_header (sh_writer (gc_sh g)) = demo_header
  \<and> \<not> gc_late g"
proof -
  have "fst demo_entry \<noteq> []" "length (fst demo_entry) \<le> r_capacity (sh_ring demo_shared)" using demo_len demo_shared(3) by auto
  from append_acked [OF demo_shared(1,2) this] obtain g t where g: "(serial_step demo_crc)\<^sup>*\<^sup>* (gc_start demo_shared) g"
      "gc_apps g = [((t, fst demo_entry, Published), Some 1)]" "gc_old g = []" "w_header (sh_writer (gc_sh g)) = demo_header"
      "flush_to_poll 1 (gc_sh g) = Some (Inr ())" "\<not> gc_late g"
    by (auto simp: demo_shared)
  moreover have "log_of demo_crc g [] [demo_entry]"
    using g(2-4) demo_rec demo_mode by (simp add: log_of_def gc_recs_def recs_def)
  ultimately show ?thesis by (intro exI [of _ g]) simp
qed


subsection \<open>Durability\<close>

text \<open>C3. An acknowledged append survives a power loss.  Start from any quiescent journal and let writers, flusher and
  checkpoint truncations interleave, where a writer reserves its record only after the previous one was counted (as
  attached writers do, who hold the tail lock from reservation to count).  If the acknowledgement of the append
  number \<open>i\<close> of the current epoch has returned success, then replaying exactly the bytes that reached the disk gives the
  operations of a prefix of the log that contains that append, with no error, wherever the last record is torn.  Any
  request may have failed, those of truncations included; the one thing excluded is that the flusher has gone back to work on
  a file that a failed truncation left without recording a sticky error (\<open>gc_late\<close>).\<close>

theorem acked_append_survives:
  assumes "synced_start crc s" "(serial_step crc)\<^sup>*\<^sup>* (gc_start s) g" "log_of crc g old new"
    and "i < length (gc_apps g)" "snd (gc_apps g ! i) = Some n" "flush_to_poll n (gc_sh g) = Some (Inr ())"
    and "\<not> gc_late g"
  shows "\<exists>k stats. replay_bytes crc (d_synced (w_disk (sh_writer (gc_sh g)))) collect [] =
      (Inr (w_header (sh_writer (gc_sh g)), stats), ops_of (take k (old @ new))) \<and> length old + i < k"
  using assms by (rule acked_survives)

theorem acked_append_survives_witness:
  "\<exists>g k stats. (serial_step demo_crc)\<^sup>*\<^sup>* (gc_start demo_shared) g \<and> flush_to_poll 1 (gc_sh g) = Some (Inr ())
    \<and> replay_bytes demo_crc (d_synced (w_disk (sh_writer (gc_sh g)))) collect [] = (Inr (demo_header, stats), ops_of (take k [demo_entry]))
    \<and> 0 < k"
proof -
  obtain g where g: "(serial_step demo_crc)\<^sup>*\<^sup>* (gc_start demo_shared) g" "log_of demo_crc g [] [demo_entry]" "length (gc_apps g) = 1"
      "snd (gc_apps g ! 0) = Some 1" "flush_to_poll 1 (gc_sh g) = Some (Inr ())" "w_header (sh_writer (gc_sh g)) = demo_header"
      "\<not> gc_late g"
    using demo_append by blast
  have "0 < length (gc_apps g)" using g(3) by simp
  from acked_append_survives [OF demo_shared(1) g(1,2) this g(4,5,7)] show ?thesis using g(1,5,6) by auto
qed

text \<open>C4. Whatever the interleaving of any number of writers, the flusher and checkpoint truncations, and whatever requests
  fail, the bytes on disk replay without error to the operations of a prefix of the log since the last truncation, in
  reservation order; and the flushed watermark never overstates that prefix: every record below it is in.  A truncation
  may fail at any of its requests and this still holds after it; it is claimed up to the moment the flusher works again on
  a file that such a failure left without recording a sticky error (\<open>gc_late\<close>).\<close>

theorem power_loss_prefix:
  assumes "synced_start crc s" "(gc_step crc)\<^sup>*\<^sup>* (gc_start s) g" "log_of crc g old new"
    and "j \<le> length new" "j = 0 \<or> record_base (gc_sh g) + gc_epoch g + j \<le> flushed (gc_sh g)" "\<not> gc_late g"
  shows "\<exists>k stats. replay_bytes crc (d_synced (w_disk (sh_writer (gc_sh g)))) collect [] =
      (Inr (w_header (sh_writer (gc_sh g)), stats), ops_of (take k (old @ new))) \<and> (j = 0 \<or> length old + j \<le> k)"
proof -
  have f: "gc_fresh crc s" using assms(1) by (simp add: synced_start_def)
  have "j = 0 \<or> on_disk_record g (j - 1)" using flushed_sound [OF f assms(2), of "j - 1"] assms(5,6) by (cases j) auto
  then show ?thesis by (rule power_loss_replay [OF assms(1-3) _ assms(4,6)])
qed

theorem power_loss_prefix_witness:
  "\<exists>g k stats. (gc_step demo_crc)\<^sup>*\<^sup>* (gc_start demo_shared) g \<and> length (gc_apps g) = 1
    \<and> replay_bytes demo_crc (d_synced (w_disk (sh_writer (gc_sh g)))) collect [] = (Inr (demo_header, stats), ops_of (take k [demo_entry]))"
proof -
  obtain g where g: "(serial_step demo_crc)\<^sup>*\<^sup>* (gc_start demo_shared) g" "log_of demo_crc g [] [demo_entry]" "length (gc_apps g) = 1"
      "w_header (sh_writer (gc_sh g)) = demo_header" "\<not> gc_late g"
    using demo_append by blast
  have "queued demo_shared = record_base demo_shared" using demo_shared(1) by (simp add: synced_start_def)
  then have "(gc_step demo_crc)\<^sup>*\<^sup>* (gc_start demo_shared) g" using serial_reachable [OF g(1)] by blast
  with power_loss_prefix [OF demo_shared(1) this g(2), of 0] g(3-5) show ?thesis by auto
qed

text \<open>C14. A synchronous append to an idle journal is acknowledged: when no request fails, a run of the writer's and the
  flusher's steps ends with the append counted and its acknowledgement returning success, for every non-empty record
  that fits the ring.\<close>

theorem append_is_acknowledged:
  assumes "synced_start crc s" "idle s" "bs \<noteq> []" "length bs \<le> r_capacity (sh_ring s)"
  shows "\<exists>g t. (serial_step crc)\<^sup>*\<^sup>* (gc_start s) g \<and> gc_apps g = [((t, bs, Published), Some (record_base s + 1))]
    \<and> flush_to_poll (record_base s + 1) (gc_sh g) = Some (Inr ())"
  using append_acked [OF assms] by blast

theorem append_is_acknowledged_witness:
  "\<exists>g t. (serial_step demo_crc)\<^sup>*\<^sup>* (gc_start demo_shared) g \<and> gc_apps g = [((t, [1, 2], Published), Some 1)]"
  using append_is_acknowledged [OF demo_shared(1,2), of "[1, 2]"] demo_shared(3,4) by auto

text \<open>C10. Crash, recovery and new appends.  A log cut anywhere after its header is recovered by the open path: the
  records that are complete are delivered once and in order, the torn tail is dropped from the file, and
  records appended afterwards are replayed behind them, so the torn bytes never hide a later record.\<close>

theorem crash_recovery_appends:
  assumes "header_image crc h H" "\<forall>r \<in> set (es @ later). wal_rec crc r" "mode_ok h (es @ later)" "record_offset h \<le> n"
  shows "\<exists>res file'. replay_wal crc True collect (take n (H @ log_bytes es)) [] =
      (Inr res, file', ops_of (take (complete (n - record_offset h) es) es))
    \<and> file' = H @ log_bytes (take (complete (n - record_offset h) es) es)
    \<and> (\<exists>stats. replay_bytes crc (file' @ log_bytes later) collect [] =
         (Inr (h, stats), ops_of (take (complete (n - record_offset h) es) es @ later)))"
  unfolding ops_of_def using assms by (rule recovery_keeps_appends)

theorem crash_recovery_appends_witness:
  "\<exists>res file'. replay_wal demo_crc True collect (take (FILE_HEADER_SIZE + 60) (encode_file_header demo_crc demo_header @ log_bytes [demo_entry, demo_entry])) [] =
      (Inr res, file', ops_of [demo_entry]) \<and> file' = encode_file_header demo_crc demo_header @ fst demo_entry"
proof -
  have o: "record_offset demo_header = FILE_HEADER_SIZE"
    using demo_header by (simp add: record_offset_def FORMAT_VERSION_def LEGACY_FORMAT_VERSION_def)
  have m: "mode_ok demo_header ([demo_entry, demo_entry] @ [])" using demo_mode by simp
  have c: "complete 60 [demo_entry, demo_entry] = 1" using demo_len by simp
  show ?thesis
    using crash_recovery_appends [OF encoded_header_image [OF demo_header(1)] _ m, of demo_crc "FILE_HEADER_SIZE + 60"] demo_rec c
    by (auto simp: o)
qed

text \<open>C13. The two checkpoint-anchor slots survive a crash.  The writer asked to persist one more generation of the anchor
  writes its slot and syncs.  However that ends, with the write cut after any number \<open>k\<close> of its bytes, with a failed
  sync, or with success, the file the operating system has decodes to the old header or to the one with the new anchor, the records behind
  the page are untouched, and what is on disk is unchanged or, on success, the new header.  The checksum is relied on only
  for a write cut inside the 68 bytes the decoder reads, and only where those bytes are neither the old nor the new slot's.\<close>

theorem anchor_slot_crash:
  assumes "writer_rel crc w A B body" "anchor_ok a" "persist_anchor_generation crc a w = (r, w')"
    and "g = fh_anchor_generation (w_header w) + 1"
    and "\<And>k p. d_plan (w_disk w) = IoFailed k # p \<Longrightarrow> k < 68 \<Longrightarrow>
      tear_detected crc k (encode_anchor_slot crc a g) (if odd (unat g) then A else B)"
  shows "decode_file_header crc (d_os (w_disk w')) \<in> {Inr (w_header w), Inr (with_anchor (w_header w) a)}
    \<and> drop FILE_HEADER_SIZE (d_os (w_disk w')) = body
    \<and> (case r of Inr _ \<Rightarrow> decode_file_header crc (d_synced (w_disk w')) = Inr (with_anchor (w_header w) a)
       | Inl _ \<Rightarrow> d_synced (w_disk w') = d_synced (w_disk w))"
  using anchor_write_crash [OF assms(1-3)] assms(4,5) by blast

definition demo_anchor :: "u64 \<Rightarrow> JournalAnchor" where
  "demo_anchor n = \<lparr> anchor_seq = n, anchor_digest = replicate 32 7 \<rparr>"

text \<open>A writer on a fresh page whose next write fails after 40 bytes, in the middle of the digest.\<close>

definition demo_torn_writer :: WalWriter where
  "demo_torn_writer =
    \<lparr> w_disk = \<lparr> d_exists = True, d_os = header_page (header_base demo_header) (replicate 128 0) (replicate 128 0),
                d_synced = [], d_plan = [IoFailed 40] \<rparr>,
      w_pending = [], w_bytes_written = 4096, w_header = demo_header \<rparr>"

lemma demo_crc_nonzero:
  assumes "b \<in> set bs" "b \<noteq> 0" "length bs \<le> 64"
  shows "demo_crc bs \<noteq> 0"
proof -
  have u: "sum_list (map unat xs) \<le> 255 * length xs" for xs :: bytes
  proof (induction xs)
    case (Cons x xs)
    have "unat x < 256" using unsigned_less [of x] by simp
    then have "unat x \<le> 255" by linarith
    then show ?case using Cons by simp
  qed simp
  have "sum_list (map unat bs) < 4294967296" using assms(3) u [of bs] by linarith
  moreover have "unat b \<le> sum_list (map unat bs)" using assms(1) by (intro member_le_sum_list) simp_all
  moreover have "0 < unat b" using assms(2) by (simp add: unat_gt_0)
  ultimately have "\<not> 4294967296 dvd sum_list (map unat bs)" by (intro nat_dvd_not_less) linarith+
  then show ?thesis by (simp add: demo_crc_def word_of_nat_eq_0_iff)
qed

lemma demo_tear: "tear_detected demo_crc 40 (encode_anchor_slot demo_crc (demo_anchor 3) 1) (replicate 128 0)"
proof -
  have a: "anchor_ok (demo_anchor 3)" by (simp add: anchor_ok_def demo_anchor_def)
  let ?T = "torn_slot 40 (encode_anchor_slot demo_crc (demo_anchor 3) 1) (replicate 128 0)"
  have T: "take 64 ?T = u32_bytes ANCHOR_SLOT_MAGIC @ u32_bytes ANCHOR_SLOT_VERSION @ u64_bytes 1
      @ u64_bytes ANCHOR_SLOT_FLAG_INITIALIZED @ u64_bytes 3 @ replicate 8 7 @ replicate 24 0"
      "sub ?T 64 68 = replicate 4 0"
    unfolding torn_slot_def encode_anchor_slot_eq [OF a] Let_def by (simp_all add: demo_anchor_def sub_def)
  have z: "u32_of_bytes (replicate 4 0) = 0" by (simp add: u32_of_bytes_def numeral_eq_Suc)
  have "demo_crc (take 64 ?T) \<noteq> 0" by (rule demo_crc_nonzero [of 7]) (simp_all add: T(1))
  then show ?thesis unfolding tear_detected_def Let_def T(2) z by simp
qed

theorem anchor_slot_crash_witness:
  "decode_file_header demo_crc (d_os (w_disk (snd (persist_anchor_generation demo_crc (demo_anchor 3) demo_torn_writer))))
    \<in> {Inr demo_header, Inr (with_anchor demo_header (demo_anchor 3))}"
proof -
  have a: "anchor_ok (demo_anchor 3)" by (simp add: anchor_ok_def demo_anchor_def)
  have w: "writer_rel demo_crc demo_torn_writer (replicate 128 0) (replicate 128 0) []"
    using demo_header by (simp add: writer_rel_def demo_torn_writer_def slots_ok_def demo_header_def file_header_now_def)
  have h: "w_header demo_torn_writer = demo_header" "fh_anchor_generation demo_header = 0"
    by (simp_all add: demo_torn_writer_def demo_header_def file_header_now_def)
  have t: "tear_detected demo_crc k (encode_anchor_slot demo_crc (demo_anchor 3) 1)
      (if odd (unat (1 :: u64)) then replicate 128 0 else replicate 128 0)" if "d_plan (w_disk demo_torn_writer) = IoFailed k # p" for k p
    using that demo_tear by (simp add: demo_torn_writer_def)
  show ?thesis using anchor_slot_crash [OF w a surjective_pairing, of 1] t h by auto
qed

subsection \<open>Records\<close>

text \<open>C19. A record survives encoding: whatever the encoder appends to a buffer for an operation decodes to
  that operation and sequence number and consumes exactly its own bytes, whatever follows it in the log.\<close>

theorem log_record_round_trip:
  assumes "wal_op_ok op" "encode_record crc op sq out = Inr bs"
  shows "\<exists>image. bs = out @ image \<and> decode_record crc (image @ rest) = Inr \<lparr> dec_op = op, dec_seq = sq, bytes_consumed = length image \<rparr>"
  using assms by (rule record_round_trip)

theorem log_record_round_trip_witness:
  "decode_record demo_crc (fst demo_entry @ [0]) = Inr \<lparr> dec_op = demo_op, dec_seq = 5, bytes_consumed = 41 \<rparr>"
  using log_record_round_trip [OF _ demo_encoded [of "[]"], of "[0]"] demo_len by (simp add: demo_op_def)

text \<open>C20. A record cut short is refused with one of the two errors that mark a torn tail, whatever was cut: the
  header error when fewer than seventeen bytes are left, the body error otherwise.\<close>

theorem cut_record_is_torn:
  assumes "wal_op_ok op" "encode_record crc op sq [] = Inr bs" "n < length bs"
  shows "decode_record crc (take n bs) =
    Inl (sanity (if n < 17 then ''record header truncated'' else ''record body truncated''))"
proof -
  obtain b where "length b < 2 ^ 32" "bs = framed crc sq (variant_tag op) b"
    using assms(2) by (auto simp: encode_record_def write_record_def rbind_eq_Inr framed_def Let_def split: if_splits)
  then show ?thesis using decode_cut_record assms(3) by blast
qed

theorem cut_record_is_torn_witness:
  "decode_record demo_crc (take 20 (fst demo_entry)) = Inl (sanity ''record body truncated'')"
  using cut_record_is_torn [of demo_op demo_crc 5 "fst demo_entry" 20] demo_encoded [of "[]"] demo_len by (simp add: demo_op_def)

text \<open>C21. The streaming batch encoder agrees with the record format: an attached batch built by any sequence of
  well-formed pushes (single inserts, fixed-size runs, prefix-compressed runs, erases, renames) decodes to
  one record that carries the envelope and exactly the pushed operations, in order.\<close>

theorem attached_batch_decodes:
  assumes "encode_attached_batch_record crc buf sq t e (run_pushes ps) = Inr rec" "envelope_ok e" "list_all push_wf ps"
    "length (concat (map push_ops ps)) < 2 ^ 32"
  shows "decode_record crc (ear_bytes rec @ rest) =
    Inr \<lparr> dec_op = DbBatchWithEnvelope e (concat (map push_ops ps)), dec_seq = sq, bytes_consumed = length (ear_bytes rec) \<rparr>"
  using attached_batch_round_trip [OF assms] by blast

definition demo_env :: JournalEnvelope where
  "demo_env = \<lparr> env_previous = demo_anchor 3, env_current = demo_anchor 4, env_payload = [1, 2, 3] \<rparr>"

lemma demo_env: "envelope_ok demo_env"
  by (simp add: envelope_ok_def contiguous_def demo_env_def demo_anchor_def)

lemma demo_attached_pushes: "\<exists>r. encode_attached_batch_record demo_crc [] 9 7 demo_env (run_pushes [PushInsert 7 [107] [118]]) = Inr r"
  by (simp add: encode_attached_batch_record_def begin_with_envelope_def begin_record_def be_finish_def push_insert_def be_push_def
      encode_journal_envelope_def write_bytes_def Let_def demo_env_def demo_anchor_def RECORD_HEADER_SIZE_def)

theorem attached_batch_decodes_witness:
  "\<exists>bs. decode_record demo_crc bs = Inr \<lparr> dec_op = DbBatchWithEnvelope demo_env [WalInsert 7 [107] [118]], dec_seq = 9, bytes_consumed = length bs \<rparr>"
proof -
  obtain r where "encode_attached_batch_record demo_crc [] 9 7 demo_env (run_pushes [PushInsert 7 [107] [118]]) = Inr r"
    using demo_attached_pushes by blast
  from attached_batch_decodes [OF this demo_env, of "[]"] show ?thesis by auto
qed

subsection \<open>The attached stream\<close>

text \<open>C22. The type of a stream.  Every state of the process-local journal that its operations can reach, in any order and with
  any of them refused, is well formed: not initialised, empty and open to ordinary writes; or
  fenced, with the retained envelopes a gap-free chain from the checkpoint anchor to the tail.\<close>

theorem stream_well_typed:
  assumes "vj_step\<^sup>*\<^sup>* vj_new s"
  shows "vj_inv s"
  using assms by (rule vj_reachable_inv)

theorem stream_well_typed_witness: "vj_inv (snd (vj_initialize (demo_anchor 3) vj_new))"
  using stream_well_typed [OF r_into_rtranclp [of vj_step, OF vj_step.initialize [OF surjective_pairing]]] .

text \<open>C23. Reading the stream page by page ends.  From the checkpoint, following \<open>next\<close> while \<open>has_more\<close>, at most one page per
  envelope and one more is fetched, and the pages together are the retained envelopes in order, for every row limit above
  zero and every byte limit, however small.\<close>

theorem paging_terminates:
  assumes "vj_inv s" "vj_checkpoint s = Some c" "0 < r"
  shows "read_pages (Suc (length (vj_envelopes s))) r l c s = Some (Inr (vj_envelopes s))"
  using assms by (rule read_pages_complete)

definition demo_stream :: VolatileJournal where
  "demo_stream = \<lparr> ordinary_fenced = True, vj_checkpoint = Some (demo_anchor 3), vj_tail = Some (demo_anchor 4), vj_envelopes = [demo_env] \<rparr>"

lemma demo_stream: "vj_inv demo_stream"
  by (simp add: vj_inv_def demo_stream_def demo_env_def contiguous_def demo_anchor_def)

theorem paging_terminates_witness: "read_pages 2 1 0 (demo_anchor 3) demo_stream = Some (Inr [demo_env])"
  using paging_terminates [OF demo_stream, of "demo_anchor 3" 1 0] by (simp add: demo_stream_def numeral_2_eq_2)

text \<open>C12. The file refines the process-local stream.  For every attached file (a header, records a crash left behind before
  the checkpoint, the retained chain, and a torn tail), reading a page after any cursor gives what the
  process-local stream of the same envelopes gives: the same page, or the same error for expired, mismatched and
  unknown cursors and for a zero row limit.\<close>

theorem file_refines_stream:
  assumes "af_ok crc F"
  shows "scan_attached_envelope_page crc (af_bytes crc F) cur r l = vj_envelopes_after cur r l (af_volatile F)"
  using assms by (rule scan_refines_volatile)

definition demo_attached_op :: WalOp where "demo_attached_op = DbBatchWithEnvelope demo_env []"

lemma demo_attached_encoded: "\<exists>bs. encode_record demo_crc demo_attached_op 9 [] = Inr bs \<and> length bs \<le> 1000"
  by (simp add: encode_record_def write_record_def demo_attached_op_def encode_journal_envelope_def write_bytes_def Let_def
      demo_env_def demo_anchor_def record_header_def)

definition demo_anchored :: FileHeader where
  "demo_anchored = demo_header\<lparr> fh_checkpoint_anchor := Some (demo_anchor 3), fh_anchor_generation := 1 \<rparr>"

lemma demo_file: "\<exists>F. af_ok demo_crc F \<and> af_envs F = [demo_env] \<and> af_checkpoint F = demo_anchor 3 \<and> af_tail F = demo_anchor 4"
proof -
  obtain bs where bs: "encode_record demo_crc demo_attached_op 9 [] = Inr bs" "length bs \<le> 1000" using demo_attached_encoded by blast
  obtain bs' where "bs = [] @ bs'" and w: "wal_rec demo_crc (bs', demo_attached_op, 9)"
    by (rule encode_record_wal_rec [OF _ bs(1)]) (use demo_env in \<open>simp add: demo_attached_op_def\<close>)
  then have l: "length bs' \<le> 1000" using bs(2) by simp
  have h: "header_ok demo_anchored" "fh_version demo_anchored = FORMAT_VERSION" "fh_checkpoint_anchor demo_anchored = Some (demo_anchor 3)"
    using demo_header by (simp_all add: demo_anchored_def header_ok_def anchor_ok_def demo_anchor_def)
  let ?F = "\<lparr> af_header = demo_anchored, af_head = encode_file_header demo_crc demo_anchored, af_old = [], af_old_envs = [],
    af_new = [(bs', demo_attached_op, 9)], af_envs = [demo_env], af_torn = [], af_base = demo_anchor 3,
    af_checkpoint = demo_anchor 3, af_tail = demo_anchor 4 \<rparr>"
  have "length (af_bytes demo_crc ?F) < 2 ^ 64"
    using l length_file_header [OF h(1), of demo_crc] h(2)
    by (simp add: af_bytes_def record_offset_def FORMAT_VERSION_def LEGACY_FORMAT_VERSION_def FILE_HEADER_SIZE_def)
  moreover have "chain (demo_anchor 3) [demo_env] (demo_anchor 4)" by (simp add: demo_env_def contiguous_def demo_anchor_def)
  moreover have "journal_sized [(bs', demo_attached_op, 9)]" using l by (simp add: journal_sized_def MAX_JOURNAL_RECORD_BYTES_def)
  ultimately have "af_ok demo_crc ?F"
    using h encoded_header_image [OF h(1)] w torn_Nil by (simp add: af_ok_def attached_log_def demo_attached_op_def)
  then show ?thesis by (intro exI [of _ ?F]) simp
qed

theorem file_refines_stream_witness:
  "\<exists>F. scan_attached_envelope_page demo_crc (af_bytes demo_crc F) (demo_anchor 3) 5 100 =
    Inr \<lparr> page_envelopes = [demo_env], page_next = demo_anchor 4, page_has_more = False \<rparr>"
proof -
  obtain F where F: "af_ok demo_crc F" "af_envs F = [demo_env]" "af_checkpoint F = demo_anchor 3" "af_tail F = demo_anchor 4"
    using demo_file by blast
  then have "af_volatile F = demo_stream" by (simp add: af_volatile_def demo_stream_def)
  moreover have "vj_envelopes_after (demo_anchor 3) 5 100 demo_stream =
      Inr \<lparr> page_envelopes = [demo_env], page_next = demo_anchor 4, page_has_more = False \<rparr>"
    by (simp add: vj_envelopes_after_def demo_stream_def bounded_envelope_page_def Let_def demo_env_def)
  ultimately show ?thesis using file_refines_stream [OF F(1), of "demo_anchor 3" 5 100] by auto
qed

text \<open>C24. Resuming is rescanning.  In any session of page requests to the journal, where each scan saves a position, the
  next one may start from it and records may be appended in between, every answer, page or error, is the answer of a scan of the
  whole file as it is at that request; this for every cursor and every limit, whether or not the request continues the page before.\<close>

theorem resume_equals_rescan:
  assumes "\<forall>q \<in> set qs. af_ok crc (fst q)" "growing qs"
    and "ts_checkpoint (sh_tail s) \<noteq> None" "ts_initializing (sh_tail s) = None" "ts_scan_resume (sh_tail s) = None"
  shows "read_session crc qs s = map (\<lambda>(F, cursor, r, l). scan_attached_envelope_page crc (af_bytes crc F) cursor r l) qs"
  using assms by (intro session_rescans) simp_all

definition demo_attached :: Shared where
  "demo_attached = demo_shared\<lparr> sh_tail := \<lparr> ts_checkpoint = Some (demo_anchor 3), ts_tail = Some (demo_anchor 4),
     ts_initializing = None, ts_scan_resume = None \<rparr> \<rparr>"

theorem resume_equals_rescan_witness:
  "\<exists>F. af_envs F = [demo_env] \<and> read_session demo_crc [(F, demo_anchor 3, 1, 100), (F, demo_anchor 4, 1, 100)] demo_attached =
     [Inr \<lparr> page_envelopes = [demo_env], page_next = demo_anchor 4, page_has_more = False \<rparr>,
      Inr \<lparr> page_envelopes = [], page_next = demo_anchor 4, page_has_more = False \<rparr>]"
proof -
  obtain F where F: "af_ok demo_crc F" "af_envs F = [demo_env]" "af_checkpoint F = demo_anchor 3" "af_tail F = demo_anchor 4"
    using demo_file by blast
  let ?qs = "[(F, demo_anchor 3, 1, 100), (F, demo_anchor 4, 1, 100)]"
  have "af_volatile F = demo_stream" using F by (simp add: af_volatile_def demo_stream_def)
  then have page: "scan_attached_envelope_page demo_crc (af_bytes demo_crc F) c r l = vj_envelopes_after c r l demo_stream" for c r l
    using scan_refines_volatile [OF F(1), of c r l] by simp
  have "growing ?qs" by (simp add: growing_def af_extends_def)
  from resume_equals_rescan [OF _ this, of demo_crc demo_attached] F(1)
  have "read_session demo_crc ?qs demo_attached =
      [vj_envelopes_after (demo_anchor 3) 1 100 demo_stream, vj_envelopes_after (demo_anchor 4) 1 100 demo_stream]"
    by (simp add: page demo_attached_def)
  also have "\<dots> = [Inr \<lparr> page_envelopes = [demo_env], page_next = demo_anchor 4, page_has_more = False \<rparr>,
      Inr \<lparr> page_envelopes = [], page_next = demo_anchor 4, page_has_more = False \<rparr>]"
    by (simp add: vj_envelopes_after_def demo_stream_def bounded_envelope_page_def Let_def demo_env_def demo_anchor_def envelope_position_def)
  finally show ?thesis using F(2) by blast
qed

subsection \<open>The append ring\<close>

text \<open>C11. Gap safety of the shared ring.  However reservations, copies, publications, drains and resets of any number of
  writers interleave, and however often the ring wraps, what the flusher has copied out is the concatenation of the
  first records in reservation order, all of them published: no torn, missing, duplicated or reordered bytes.\<close>

theorem ring_is_gap_free:
  assumes "ring_step\<^sup>*\<^sup>* (rr_start n) s"
  shows "\<exists>k \<le> length (rr_appends s). rr_out s = concat (take k (recs (rr_appends s))) \<and> (\<forall>i < k. ph (rr_appends s) i = Published)"
  using assms by (rule ring_output_prefix)

theorem ring_is_gap_free_witness:
  "\<exists>s. ring_step\<^sup>*\<^sup>* (rr_start 64) s \<and> recs (rr_appends s) = [[1, 2]] \<and> (rr_out s = [] \<or> rr_out s = [1, 2])"
proof -
  obtain t r where t: "ring_reserve (length [1, 2 :: u8]) (rr_ring (rr_start 64)) = (t, r)" by fastforce
  let ?s = "(rr_start 64)\<lparr> rr_ring := r, rr_appends := rr_appends (rr_start 64) @ [(t, [1, 2], Reserved)] \<rparr>"
  have "length [1, 2 :: u8] \<le> r_capacity (rr_ring (rr_start 64))" using new_ring(1) [of 64] by (simp add: rr_start_def)
  then have r: "ring_step\<^sup>*\<^sup>* (rr_start 64) ?s" using ring_step.reserve [OF _ _ t] by (intro r_into_rtranclp) simp
  have e: "recs (rr_appends ?s) = [[1, 2]]" by (simp add: recs_def rr_start_def)
  obtain k where "k \<le> length (rr_appends ?s)" "rr_out ?s = concat (take k [[1, 2]])" using ring_is_gap_free [OF r] unfolding e by blast
  then show ?thesis using r e by (cases k) auto
qed


section \<open>Concurrency\<close>

text \<open>C17. The admission gate excludes: under every interleaving of loads and compare-exchanges, a thread inside the
  exclusive section is alone, and a thread that has set the exclusive bit is not starved by later shared
  entrants: no step of any thread raises the number of shared holders, and once it is zero the thread may enter.\<close>

theorem gate_excludes:
  assumes "gate_start s" "gate_step\<^sup>*\<^sup>* s s'"
  shows "(\<forall>i j. i < length (gr_pcs s') \<and> j < length (gr_pcs s') \<and> i \<noteq> j \<and> gr_pcs s' ! i = InExclusive \<longrightarrow>
      gr_pcs s' ! j \<noteq> InExclusive \<and> gr_pcs s' ! j \<noteq> InShared)
    \<and> (\<forall>i. i < length (gr_pcs s') \<and> gr_pcs s' ! i = Draining \<longrightarrow>
        (\<forall>s''. gate_step s' s'' \<longrightarrow> shared_count s'' \<le> shared_count s')
        \<and> (shared_count s' = 0 \<longrightarrow> gate_step s' (s'\<lparr> gr_pcs := (gr_pcs s')[i := InExclusive] \<rparr>)))"
proof -
  have v: "gate_inv s'" by (rule gate.reachable_inv [OF assms(2,1)])
  show ?thesis using gate.exclusive [OF assms(2,1)] draining_blocks [OF v] draining_enters [OF v] by blast
qed

definition demo_gate :: "u64 \<Rightarrow> gate_pc list \<Rightarrow> gate_run" where
  "demo_gate w ps = \<lparr> gr_gate = \<lparr> gate_state = w \<rparr>, gr_pcs = ps \<rparr>"

lemma demo_gate_run:
  "gate_step (demo_gate 0 [Outside, Outside]) (demo_gate 0 [ExclusiveLoaded 0, Outside])"
  "gate_step (demo_gate 0 [ExclusiveLoaded 0, Outside]) (demo_gate WRITE_BIT [Draining, Outside])"
  "gate_step (demo_gate WRITE_BIT [Draining, Outside]) (demo_gate WRITE_BIT [InExclusive, Outside])"
proof -
  show "gate_step (demo_gate 0 [Outside, Outside]) (demo_gate 0 [ExclusiveLoaded 0, Outside])"
    using gate_step.exclusive_load [of 0 "demo_gate 0 [Outside, Outside]"] by (simp add: demo_gate_def)
  show "gate_step (demo_gate 0 [ExclusiveLoaded 0, Outside]) (demo_gate WRITE_BIT [Draining, Outside])"
    using gate_step.exclusive_pend [of 0 "demo_gate 0 [ExclusiveLoaded 0, Outside]" 0 "\<lparr> gate_state = WRITE_BIT \<rparr>"]
    by (simp add: demo_gate_def enter_exclusive_def compare_exchange_def)
  show "gate_step (demo_gate WRITE_BIT [Draining, Outside]) (demo_gate WRITE_BIT [InExclusive, Outside])"
    using gate_step.exclusive_enter [of 0 "demo_gate WRITE_BIT [Draining, Outside]"]
    by (simp add: demo_gate_def drained_def WRITE_BIT_def COUNT_MASK_def)
qed

theorem gate_excludes_witness:
  "gate_step\<^sup>*\<^sup>* (demo_gate 0 [Outside, Outside]) (demo_gate WRITE_BIT [InExclusive, Outside])
   \<and> [InExclusive, Outside] ! 1 \<noteq> InShared"
proof -
  have r: "gate_step\<^sup>*\<^sup>* (demo_gate 0 [Outside, Outside]) (demo_gate WRITE_BIT [InExclusive, Outside])"
    using demo_gate_run by (meson rtranclp.rtrancl_into_rtrancl rtranclp.rtrancl_refl)
  have "gate_start (demo_gate 0 [Outside, Outside])" by (simp add: gate_start_def demo_gate_def gate_new_def)
  from gate_excludes [OF this r] have "gr_pcs (demo_gate WRITE_BIT [InExclusive, Outside]) ! 1 \<noteq> InShared"
    by (simp add: demo_gate_def)
  then show ?thesis using r by (simp add: demo_gate_def)
qed

text \<open>C16. The latch: under every interleaving of its atomic steps an exclusive holder is alone, and an optimistic read
  that validates has seen one and the same content in all its reads (as long as fewer than \<open>2^64\<close> exclusive
  releases happened since it took its version, the wrap of the version counter).\<close>

theorem latch_correct:
  assumes "latch_start s" "latch_step\<^sup>*\<^sup>* s s'"
  shows "(\<forall>i j. i < length (lr_pcs s') \<and> j < length (lr_pcs s') \<and> i \<noteq> j \<and> (lr_pcs s' ! i = ExclusiveHeld \<or> lr_pcs s' ! i = ExclusiveBumped) \<longrightarrow>
      lr_pcs s' ! j \<noteq> ExclusiveHeld \<and> lr_pcs s' ! j \<noteq> ExclusiveBumped \<and> lr_pcs s' ! j \<noteq> SharedHeld)
    \<and> (\<forall>i n c rs. at_pc i (OptDone True n c rs) s' \<and> lr_releases s' < n + 2 ^ 64 \<longrightarrow> (\<forall>r \<in> set rs. r = c))"
  using latch.exclusive [OF assms(2,1)] optimistic_consistent [OF assms] by blast

definition demo_latch :: "nat latch_pc \<Rightarrow> nat latch_run" where
  "demo_latch p = \<lparr> lr_latch = latch_new, lr_content = 7, lr_releases = 0, lr_pcs = [p] \<rparr>"

lemma demo_latch_run:
  "latch_step (demo_latch Away) (demo_latch (OptVersion 0 0))"
  "latch_step (demo_latch (OptVersion 0 0)) (demo_latch (OptReading 0 0 7 []))"
  "latch_step (demo_latch (OptReading 0 0 7 [])) (demo_latch (OptReading 0 0 7 [7]))"
  "latch_step (demo_latch (OptReading 0 0 7 [7])) (demo_latch (OptChecked 0 0 7 [7]))"
  "latch_step (demo_latch (OptChecked 0 0 7 [7])) (demo_latch (OptDone True 0 7 [7]))"
  using latch_step.opt_version [of 0 "demo_latch Away"] latch_step.opt_snapshot [of 0 0 0 "demo_latch (OptVersion 0 0)"]
    latch_step.opt_read [of 0 0 0 7 "[]" "demo_latch (OptReading 0 0 7 [])"]
    latch_step.opt_check [of 0 0 0 7 "[7]" "demo_latch (OptReading 0 0 7 [7])"]
    latch_step.opt_validate [of 0 0 0 7 "[7]" "demo_latch (OptChecked 0 0 7 [7])"]
  by (simp_all add: demo_latch_def at_pc_def set_pc_def latch_new_def optimistic_ok_def validate_version_def WRITER_num)

theorem latch_correct_witness:
  "latch_step\<^sup>*\<^sup>* (demo_latch Away) (demo_latch (OptDone True 0 7 [7])) \<and> set [7::nat] \<subseteq> {7}"
proof -
  have r: "latch_step\<^sup>*\<^sup>* (demo_latch Away) (demo_latch (OptDone True 0 7 [7]))"
    using demo_latch_run by (meson rtranclp.rtrancl_into_rtrancl rtranclp.rtrancl_refl)
  have "latch_start (demo_latch Away)" by (simp add: latch_start_def demo_latch_def)
  from latch_correct [OF this r] have "\<forall>r \<in> set [7::nat]. r = 7"
    by (elim conjE allE [of _ 0] allE [of _ 7] allE [of _ "[7]"]) (simp add: demo_latch_def at_pc_def)
  then show ?thesis using r by auto
qed

text \<open>C18. The endpoint locks: whatever operations on one and on two keys were started in whatever order, no two of them
  hold the same shard, every further step brings the work left down, as long as an operation is unfinished some
  operation can step, and so all of them finish: there is no deadlock.\<close>

theorem endpoint_locks_finish:
  assumes "lock_start s" "lock_step\<^sup>*\<^sup>* s s'"
  shows "(\<forall>t t'. t < length (ln_ops s') \<and> t' < length (ln_ops s') \<and> t \<noteq> t' \<longrightarrow> shards_held (ln_ops s' ! t) \<inter> shards_held (ln_ops s' ! t') = {})
    \<and> (\<forall>s''. endpoint_step s' s'' \<longrightarrow> total_lock_work s'' < total_lock_work s')
    \<and> (\<forall>t p. op_at t (Some p) s' \<longrightarrow> (\<exists>s''. endpoint_step s' s''))
    \<and> (\<exists>s''. endpoint_step\<^sup>*\<^sup>* s' s'' \<and> (\<forall>p \<in> set (ln_ops s''). p = None))"
proof -
  have v: "lock_inv s'" by (rule lock_reachable_inv [OF assms(2,1)])
  then have "\<forall>t t'. t < length (ln_ops s') \<and> t' < length (ln_ops s') \<and> t \<noteq> t' \<longrightarrow> shards_held (ln_ops s' ! t) \<inter> shards_held (ln_ops s' ! t') = {}"
    by (simp add: lock_inv_def)
  then show ?thesis using endpoint_step_decreases lock_progress [OF v] locks_drain [OF v] by blast
qed

definition demo_locks :: lock_run where
  "demo_locks = \<lparr> ln_locks = endpoint_locks_new, ln_ops = [None, None] \<rparr>"

theorem endpoint_locks_finish_witness:
  "\<exists>s. lock_step\<^sup>*\<^sup>* demo_locks s \<and> op_at 0 (Some \<lparr> lo_want = lock_pair [1] [2], lo_held = 0, lo_dropped = 0 \<rparr>) s
     \<and> (\<exists>s''. endpoint_step\<^sup>*\<^sup>* s s'' \<and> set (ln_ops s'') \<subseteq> {None})"
proof -
  let ?p = "Some \<lparr> lo_want = request_shards (TwoKeys [1] [2]), lo_held = 0, lo_dropped = 0 \<rparr>"
  have st: "lock_step demo_locks (put_op 0 ?p (ln_locks demo_locks) demo_locks)"
    by (rule lock_step.start_op) (simp add: op_at_def demo_locks_def)
  then have r: "lock_step\<^sup>*\<^sup>* demo_locks (put_op 0 ?p (ln_locks demo_locks) demo_locks)" by (rule r_into_rtranclp)
  have "lock_start demo_locks" by (simp add: lock_start_def demo_locks_def)
  from endpoint_locks_finish [OF this r]
  have "\<exists>s''. endpoint_step\<^sup>*\<^sup>* (put_op 0 ?p (ln_locks demo_locks) demo_locks) s'' \<and> set (ln_ops s'') \<subseteq> {None}" by blast
  then show ?thesis using r
    by (intro exI [of _ "put_op 0 ?p (ln_locks demo_locks) demo_locks"]) (simp add: op_at_def put_op_def demo_locks_def)
qed

section \<open>The staged-write overlay and path keys\<close>

text \<open>C15. A flush of the staged writes changes nothing a reader sees, at its end and in its middle.  Whatever is staged, a flush
  of everything, of one tree or of a list of trees leaves the trees under the remaining overlay equal to the trees under
  the overlay before, whether the engine succeeds or fails in the middle; the overlay is quiet again afterwards, and
  after a success nothing is left staged for the flushed trees.  And from the moment the operations were taken out to be
  applied, readers see the same, however far the engine has got with their keys.  The engine is anything that keeps
  the laws of \<open>delta_engine\<close>; the put and erase of a single blob do.\<close>

theorem flush_keeps_view:
  assumes "delta_engine E content J V" "inj root_of" "wd_idle (rooted root_of V) w" "J b"
  shows "flush_ok J (rooted root_of V) (\<lambda>_. True) (base_of root_of content) w b (flush_write_deltas (apply_write_delta_ops_inner E) w b)
    \<and> flush_ok J (rooted root_of V) (\<lambda>t'. t' = t) (base_of root_of content) w b
        (flush_write_deltas_for_tree (apply_write_delta_ops_inner E) t w b)
    \<and> flush_ok J (rooted root_of V) (\<lambda>t'. t' \<in> set ts) (base_of root_of content) w b
        (flush_write_deltas_for_trees (apply_write_delta_ops_inner E) ts w b)
    \<and> mid_flush_ok (base_of root_of content b) w (begin_flush_all w)
    \<and> mid_flush_ok (base_of root_of content b) w (begin_flush_tree t w)"
  using delta_engine.flush_all_kinds [OF assms] by blast

definition demo_root :: "u64 \<Rightarrow> bytes" where
  "demo_root t = replicate (unat t) 0"

lemma demo_root: "inj demo_root"
proof (rule injI)
  fix t t' assume "demo_root t = demo_root t'"
  then have "length (demo_root t) = length (demo_root t')" by simp
  then show "t = t'" by (simp add: demo_root_def word_unat_eq_iff)
qed

definition demo_delta :: WriteDelta where
  "demo_delta = stage_delete 2 (demo_root 2) [98, 0] 6 (stage_put 1 (demo_root 1) [97, 0] [9] 5 True write_delta_default)"

lemma demo_delta_idle: "wd_idle (rooted demo_root blob_entry) demo_delta"
  unfolding demo_delta_def by (intro stage_idle default_idle) (simp_all add: rooted_def blob_entry_def valid_key_def)

lemma demo_blobs: "single_blobs (\<lambda>_. demo_frame)"
  using demo_frame(2) by (auto simp: single_blobs_def one_blob_def)

theorem flush_keeps_view_witness:
  "case flush_write_deltas (apply_write_delta_ops_inner frame_engine) demo_delta (\<lambda>_. demo_frame) of
     (r, w', b') \<Rightarrow> effective (base_of demo_root frame_contents b') w' = [(1, [97, 0]) \<mapsto> ([9], 5)]"
proof -
  have d: "effective (base_of demo_root frame_contents (\<lambda>_. demo_frame)) demo_delta = [(1, [97, 0]) \<mapsto> ([9], 5)]"
    unfolding demo_delta_def
    by (subst stage_effective(2) [of "rooted demo_root blob_entry"], intro stage_idle default_idle, simp add: rooted_def blob_entry_def valid_key_def,
        subst stage_effective(1) [of "rooted demo_root blob_entry"], rule default_idle)
       (auto simp: default_idle base_of_def fun_eq_iff frame_contents_def fresh_get [OF demo_frame(2)])
  from flush_keeps_view [OF blob_engine.delta_engine_axioms demo_root demo_delta_idle, of "\<lambda>_. demo_frame"] demo_blobs d show ?thesis
    by (simp add: flush_ok_def case_prod_beta)
qed

text \<open>C33. A scan prefix built from segments selects exactly the keys strictly below its path, so \<^verbatim>\<open>foo/\<close> never matches
  \<^verbatim>\<open>foobar\<close>; the segments of a built key can be read back, and a built key has no zero byte, so with its terminator
  it is a valid key of the tree.\<close>

theorem key_prefix_selects:
  assumes "push_all ss key_path_new = Inr a" "push_all ts key_path_new = Inr b" "ss \<noteq> []" "ts \<noteq> []"
  shows "(prefix (kpre_bytes (into_prefix a)) (kp_bytes b) \<longleftrightarrow> strict_prefix ss ts)
    \<and> split_path [] (kp_bytes b) = ts \<and> valid_key (kp_bytes b @ [0])"
proof -
  have a: "kp_bytes a = joined ss" "\<forall>s \<in> set ss. segment_ok s"
    using push_all_joined [of "[]" ss a] assms(1) by (simp_all add: key_path_new_def)
  have b: "kp_bytes b = joined ts" "\<forall>s \<in> set ts. segment_ok s"
    using push_all_joined [of "[]" ts b] assms(2) by (simp_all add: key_path_new_def)
  have "kpre_bytes (into_prefix a) = terminated ss"
    using a assms(3) joined_last [of ss] by (simp add: into_prefix_def delimited_def terminated_joined)
  then show ?thesis
    using prefix_selects [OF a(2) b(2)] assms(3) b split_joined [OF b(2)] joined_no_nul [OF b(2)]
    by (simp add: valid_key_def NUL_def)
qed

theorem key_prefix_selects_witness:
  "\<not> prefix (kpre_bytes (into_prefix \<lparr> kp_bytes = [102, 111, 111] \<rparr>)) (kp_bytes \<lparr> kp_bytes = [102, 111, 111, 98] \<rparr>)"
proof -
  have "push_all [[102, 111, 111]] key_path_new = Inr \<lparr> kp_bytes = [102, 111, 111] \<rparr>"
    "push_all [[102, 111, 111, 98]] key_path_new = Inr \<lparr> kp_bytes = [102, 111, 111, 98] \<rparr>"
    by (simp_all add: key_path_new_def key_push_def validate_segment_def DELIMITER_def NUL_def delimited_def)
  from key_prefix_selects [OF this] show ?thesis by (simp add: strict_prefix_def)
qed

section \<open>Divergences\<close>

text \<open>C37. An acknowledgement can be given too early.  On an idle journal whose disk never fails, three ordinary
  appends can interleave so that the third, published first, is acknowledged after one record was flushed, while
  its own record is not on disk: the target counts publications and the watermark counts reservations.\<close>

theorem early_acknowledgement:
  assumes "gc_fresh crc s" "sticky_err s = None" "d_plan (w_disk (sh_writer s)) = []"
    and "queued s = record_base s" "flushed s \<le> record_base s" "sync_target s = 0"
  shows "\<exists>g n. (gc_step crc)\<^sup>*\<^sup>* (gc_start s) g \<and> snd (gc_apps g ! 2) = Some n \<and> flush_to_poll n (gc_sh g) = Some (Inr ())
    \<and> length (gc_apps g) = 3 \<and> \<not> on_disk_record g 1 \<and> \<not> on_disk_record g 2"
  using assms by (rule overtaking_ack_not_durable)

theorem early_acknowledgement_witness:
  "\<exists>g n. (gc_step demo_crc)\<^sup>*\<^sup>* (gc_start demo_shared) g \<and> flush_to_poll n (gc_sh g) = Some (Inr ()) \<and> \<not> on_disk_record g 2"
proof -
  have "gc_fresh demo_crc demo_shared" "sticky_err demo_shared = None" "d_plan (w_disk (sh_writer demo_shared)) = []"
    "queued demo_shared = record_base demo_shared" "flushed demo_shared \<le> record_base demo_shared" "sync_target demo_shared = 0"
    using demo_shared by (auto simp: synced_start_def idle_def)
  from early_acknowledgement [OF this] show ?thesis by blast
qed




text \<open>C39. A record in the middle of the log whose length field claims more bytes than the file has left ends the
  replay as a torn tail: the records before it are delivered, the ones behind it are dropped, and no error is
  reported.\<close>

theorem long_record_ends_replay:
  assumes "header_image crc h H" "\<forall>r \<in> set es. wal_rec crc r" "mode_ok h es"
    and "length bad + length rest < unat n + 21" "length bad \<ge> 17" "take 17 bad = record_header n sq ty"
  shows "\<exists>stats. replay_bytes crc (H @ log_bytes es @ bad @ rest) collect [] =
      (Inr (h, stats), concat (map (\<lambda>(bs, op, sq). record_ops op sq) es))
    \<and> torn_tail_at stats = Some (record_offset h + length (log_bytes es))"
  using assms by (rule long_record_is_torn)

theorem long_record_ends_replay_witness:
  "\<exists>stats. replay_bytes demo_crc
       (encode_file_header demo_crc demo_header @ log_bytes [demo_entry] @ record_header 1000 6 1 @ fst demo_entry) collect [] =
     (Inr (demo_header, stats), record_ops demo_op 5)"
  using long_record_ends_replay [OF encoded_header_image [OF demo_header(1)], of "[demo_entry]" demo_crc "record_header 1000 6 1" "fst demo_entry" 1000 6 1]
    demo_rec demo_mode(1) demo_len by (auto simp: demo_entry_def record_header_def)

text \<open>C40. A key with a zero byte inside can be refused.  Into a fresh blob the key \<open>u\<close> goes in; the key that continues \<open>u\<close> with
  a zero byte, a different and well-formed byte string, is then refused as not implemented: with its
  terminator the first is a prefix of the second, and the leaf has no byte to branch on.  The frame is unchanged.\<close>

theorem embedded_nul_refused:
  assumes "length guid = 16" "length u + length w + 2 < 2 ^ 16" "length v < 2 ^ 16" "length v' < 2 ^ 16"
  shows "\<exists>f. insert_single (Suc n) (root_slot (header_of (snd (frame_init guid)))) (u @ [0]) v sq (snd (frame_init guid)) =
      Some (Inr \<lparr> root_dirty = True, outcome_mutated = True \<rparr>, f)
    \<and> insert_single (Suc m) (root_slot (header_of f)) (u @ 0 # w @ [0]) v' sq' f =
      Some (Inl (Fail (NotYetImplemented ''walker::insert_into_leaf: one key is a strict prefix of the other'')), f)"
proof -
  obtain f0 where f0: "frame_init guid = (Inr (Inr ()), f0)" "stores f0 (AEmpty DATA_AREA_START)" "\<not> crowded f0"
    by (rule stores_init [OF assms(1)])
  obtain f l where f: "insert_single (Suc n) (root_slot (header_of f0)) (u @ [0]) v sq f0 =
        Some (Inr \<lparr> root_dirty = True, outcome_mutated = True \<rparr>, f)" "frame_ok f"
      "holds f (ALeaf (cursor f0) l (u @ [0]) v)" "root_slot (header_of f) = encode_child_off (cursor f0)"
    using first_leaf [OF f0(2,3), of "u @ [0]" v n sq] assms(2,3) by auto
  have "insert_single (Suc m) (root_slot (header_of f)) ((u @ [0]) @ (w @ [0])) v' sq' f =
      Some (Inl (Fail (NotYetImplemented ''walker::insert_into_leaf: one key is a strict prefix of the other'')), f)"
    by (rule extended_key_refused [OF f(2-4)]) (use assms(2,4) in simp_all)
  then show ?thesis using f0(1) f(1) by auto
qed

theorem embedded_nul_refused_witness:
  "\<exists>f. insert_single 1 (root_slot (header_of (snd (frame_init (replicate 16 0))))) [97, 0] [7] 5 (snd (frame_init (replicate 16 0))) =
      Some (Inr \<lparr> root_dirty = True, outcome_mutated = True \<rparr>, f)
    \<and> insert_single 1 (root_slot (header_of f)) [97, 0, 0] [8] 6 f =
      Some (Inl (Fail (NotYetImplemented ''walker::insert_into_leaf: one key is a strict prefix of the other'')), f)"
  using embedded_nul_refused [of "replicate 16 0" "[97]" "[]" "[7]" "[8]" 0 5 0 6] by simp

end
